(* ===== verification/Hdac_Prelude.thy ===== *)
theory Hdac_Prelude
  imports Main "HOL-Library.Word" "HOL-Library.Signed_Division"
begin

text \<open>
  Shared vocabulary of the development: the C++ integer types as words, the results of
  operations that may fail, little-endian byte strings and the generic facts on words and
  lists that the component theories use.

  Conventions. An unsigned C++ integer is a word of its width (arithmetic wraps). A signed
  integer is an \<^typ>\<open>int\<close>; where the code narrows it or converts it to an unsigned type the
  conversion is written out. A \<open>std::vector\<close> is a list, a \<open>char\<close> buffer is a list of bytes.
\<close>

unbundle bit_operations_syntax

type_synonym byte = "8 word"
type_synonym u16 = "16 word"
type_synonym u32 = "32 word"
type_synonym u64 = "64 word"
type_synonym bytes = "byte list"

text \<open>
  What stops a C++ computation: a null pointer that is dereferenced, an index outside a
  container or freed memory (undefined in C++, made faults here), an integer division by zero, a
  failed \<open>assert\<close>, an exception. An operation that can stop returns \<open>cpp_fault + 'a\<close>, with \<open>Inl\<close> for the fault.
\<close>

datatype cpp_fault =
  NullPointer | OutOfRange | DivideByZero | AssertionFailed | UintException | RuntimeException | UseAfterFree

type_synonym 'a cpp = "cpp_fault + 'a"

definition bind_cpp :: "'a cpp \<Rightarrow> ('a \<Rightarrow> 'b cpp) \<Rightarrow> 'b cpp" where
  "bind_cpp r f = (case r of Inl e \<Rightarrow> Inl e | Inr x \<Rightarrow> f x)"

definition assert_cpp :: "bool \<Rightarrow> unit cpp" where
  "assert_cpp b = (if b then Inr () else Inl AssertionFailed)"

lemma bind_cpp_simps [simp]: "bind_cpp (Inl e) f = Inl e" "bind_cpp (Inr x) f = f x"
  by (simp_all add: bind_cpp_def)

lemma bind_cpp_eq_Inr: "bind_cpp r f = Inr y \<longleftrightarrow> (\<exists>x. r = Inr x \<and> f x = Inr y)"
  by (cases r) simp_all

lemma assert_cpp_simps [simp]: "assert_cpp True = Inr ()" "assert_cpp False = Inl AssertionFailed"
  by (simp_all add: assert_cpp_def)

lemma assert_cpp_eq_Inr: "assert_cpp b = Inr u \<longleftrightarrow> b"
  by (simp add: assert_cpp_def)

text \<open>The conversions to \<open>int\<close> and \<open>int64_t\<close>, and the C++ division, which truncates.\<close>

definition to_int32 :: "int \<Rightarrow> int" where
  "to_int32 x = signed_take_bit 31 x"

definition to_int64 :: "int \<Rightarrow> int" where
  "to_int64 x = signed_take_bit 63 x"

definition div_cpp :: "int \<Rightarrow> int \<Rightarrow> int cpp" where
  "div_cpp a b = (if b = 0 then Inl DivideByZero else Inr (a sdiv b))"

lemma to_int32_id [simp]: "- 2147483648 \<le> x \<Longrightarrow> x < 2147483648 \<Longrightarrow> to_int32 x = x"
  unfolding to_int32_def by (rule signed_take_bit_int_eq_self) simp_all

lemma to_int64_id [simp]: "- 9223372036854775808 \<le> x \<Longrightarrow> x < 9223372036854775808 \<Longrightarrow> to_int64 x = x"
  unfolding to_int64_def by (rule signed_take_bit_int_eq_self) simp_all

lemma sdiv_nonneg [simp]: "0 \<le> a \<Longrightarrow> 0 \<le> b \<Longrightarrow> a sdiv b = a div b" for a b :: int
  by (cases "a = 0"; cases "b = 0") (simp_all add: signed_divide_int_def)

lemma div_cpp_pos [simp]: "0 \<le> a \<Longrightarrow> 0 < b \<Longrightarrow> div_cpp a b = Inr (a div b)"
  by (simp add: div_cpp_def)

named_theorems bnval \<open>values of the big-integer operations\<close>
named_theorems lebytes \<open>little-endian byte strings\<close>

subsection \<open>Machine words read as natural numbers\<close>

lemma unat_lt_32: "unat (w :: u32) < 4294967296"
  using unsigned_less [of w] by simp

lemma unat_lt_64: "unat (w :: u64) < 18446744073709551616"
  using unsigned_less [of w] by simp

lemma unat_lt_8: "unat (w :: byte) < 256"
  using unsigned_less [of w] by simp

lemma unat_ucast_32_64 [simp]: "unat (ucast (w :: u32) :: u64) = unat w"
  by (simp add: unsigned_ucast_eq take_bit_nat_eq_self_iff
      less_le_trans [OF unat_lt_32])

lemma unat_ucast_8_32 [simp]: "unat (ucast (w :: byte) :: u32) = unat w"
  by (simp add: unsigned_ucast_eq take_bit_nat_eq_self_iff
      less_le_trans [OF unat_lt_8])

lemma unat_ucast_64_32: "unat (ucast (w :: u64) :: u32) = unat w mod 4294967296"
  by (simp add: unsigned_ucast_eq take_bit_eq_mod)

lemma unat_add_64:
  "unat a + unat b < 18446744073709551616 \<Longrightarrow> unat (a + b :: u64) = unat a + unat b"
  by (simp add: unat_word_ariths)

lemma unat_mul_64:
  "unat a * unat b < 18446744073709551616 \<Longrightarrow> unat (a * b :: u64) = unat a * unat b"
  by (simp add: unat_word_ariths)

lemma unat_drop_bit: "unat (drop_bit n (w :: 'a :: len word)) = unat w div 2 ^ n"
proof -
  have "unat (drop_bit n w) = drop_bit n (take_bit LENGTH('a) (unat w))"
    by (rule unsigned_drop_bit_eq)
  also have "take_bit LENGTH('a) (unat w) = unat w"
    by (simp add: take_bit_nat_eq_self_iff)
  finally show ?thesis by (simp add: drop_bit_eq_div)
qed

lemma unat_and_mask32: "unat ((w :: u64) AND 0xFFFFFFFF) = unat w mod 4294967296"
proof -
  have "(0xFFFFFFFF :: u64) = mask 32" by (simp add: mask_eq_exp_minus_1)
  then have "unat (w AND 0xFFFFFFFF) = unat (take_bit 32 w)" by (simp only: take_bit_eq_mask)
  also have "\<dots> = take_bit 32 (unat w)" by (rule unsigned_take_bit_eq)
  finally show ?thesis by (simp add: take_bit_eq_mod)
qed

text \<open>A word split at bit 32 into its low half and its high half.\<close>

lemma unat_split32: "unat (w :: u64) = unat w mod 4294967296 + 4294967296 * (unat w div 4294967296)"
  by simp

lemma bit_nat_split:
  "bit (a + 2 ^ n * b) i \<longleftrightarrow> (if i < n then bit a i else bit b (i - n))"
  if "a < 2 ^ n" for a b :: nat
proof -
  have lo: "take_bit n (a + 2 ^ n * b) = a" using that by (simp add: take_bit_eq_mod)
  have hi: "drop_bit n (a + 2 ^ n * b) = b" using that by (simp add: drop_bit_eq_div)
  show ?thesis
  proof (cases "i < n")
    case True
    then have "bit (a + 2 ^ n * b) i \<longleftrightarrow> bit (take_bit n (a + 2 ^ n * b)) i"
      by (simp add: bit_take_bit_iff)
    with True lo show ?thesis by simp
  next
    case False
    then have "bit (a + 2 ^ n * b) i \<longleftrightarrow> bit (drop_bit n (a + 2 ^ n * b)) (i - n)"
      by (simp add: bit_drop_bit_eq)
    with False hi show ?thesis by simp
  qed
qed

lemma bit_nat_above: "a < 2 ^ n \<Longrightarrow> n \<le> i \<Longrightarrow> \<not> bit (a :: nat) i"
  by (metis bit_take_bit_iff leD take_bit_nat_eq_self_iff)

lemma bit_unat_iff: "bit (unat p) n \<longleftrightarrow> bit p n" for p :: "'a :: len word"
  by (auto simp: bit_unsigned_iff)

lemma unat_or_disjoint:
  "a AND b = 0 \<Longrightarrow> unat (a OR b :: 'a :: len word) = unat a + unat b"
proof -
  assume "a AND b = 0"
  then have "unat a AND unat b = 0" by (metis unsigned_0 unsigned_and_eq)
  then show ?thesis by (simp add: unsigned_or_eq disjunctive_add_eq_or)
qed

subsection \<open>Little-endian byte strings\<close>

fun le_val :: "bytes \<Rightarrow> nat" where
  "le_val [] = 0"
| "le_val (b # bs) = unat b + 256 * le_val bs"

fun le_bytes :: "nat \<Rightarrow> nat \<Rightarrow> bytes" where
  "le_bytes 0 v = []"
| "le_bytes (Suc n) v = of_nat (v mod 256) # le_bytes n (v div 256)"

lemma unat_of_nat_byte [lebytes]: "unat (of_nat n :: byte) = n mod 256"
  by (simp add: unat_of_nat)

lemma length_le_bytes [simp]: "length (le_bytes n v) = n"
  by (induction n arbitrary: v) auto

lemma le_val_less [lebytes]: "le_val bs < 256 ^ length bs"
proof (induction bs)
  case (Cons b bs)
  have "256 * (le_val bs + 1) \<le> 256 * 256 ^ length bs" using Cons by (intro mult_le_mono2) simp
  then show ?case using unat_lt_8 [of b] by simp
qed simp

lemma le_val_le_bytes [lebytes]: "le_val (le_bytes n v) = v mod 256 ^ n"
  by (induction n arbitrary: v) (simp_all add: unat_of_nat_byte mod_mult2_eq add.commute)

lemma le_bytes_le_val [lebytes]: "le_bytes (length bs) (le_val bs) = bs"
  by (induction bs) (use unat_lt_8 in \<open>simp_all add: mod_less div_mult_self4\<close>)

lemma le_val_append: "le_val (xs @ ys) = le_val xs + 256 ^ length xs * le_val ys"
  by (induction xs) (auto simp: algebra_simps)

lemma le_val_inj: "length a = length b \<Longrightarrow> le_val a = le_val b \<Longrightarrow> a = b"
  by (metis le_bytes_le_val)

end
