(* ===== verification/Uint256.thy ===== *)
theory Uint256
  imports Hdac_Prelude
begin

text \<open>
  The fixed-width big integers of \<^verbatim>\<open>structs/uint256.h\<close> and \<^verbatim>\<open>structs/uint256.cpp\<close>: the class
  template \<open>base_uint<BITS>\<close> and its instances \<open>uint160\<close> and \<open>uint256\<close>. A value is the array
  \<open>pn\<close> of 32-bit limbs, least significant first; its length is \<open>WIDTH = BITS / 32\<close>, so that
  every operation below covers both instances. \<open>bn_val\<close> reads the array as a number. The
  operations are the loops of the source over limbs with 64-bit carries; the lemmas of the
  second half (collection \<open>bnval\<close>) show that each computes the arithmetic operation modulo
  \<open>2 ^ BITS\<close>, and the division loop the quotient.
\<close>

type_synonym base_uint = "u32 list"

fun bn_val :: "base_uint \<Rightarrow> nat" where
  "bn_val [] = 0"
| "bn_val (p # ps) = unat p + 4294967296 * bn_val ps"

subsection \<open>Construction and bitwise operators\<close>

definition bn_zero :: "nat \<Rightarrow> base_uint" where
  "bn_zero W = replicate W 0"

definition bn_of_u64 :: "nat \<Rightarrow> u64 \<Rightarrow> base_uint" where
  "bn_of_u64 W b = ucast b # ucast (drop_bit 32 b) # replicate (W - 2) 0"

fun bn_is_zero :: "base_uint \<Rightarrow> bool" where
  "bn_is_zero [] = True"
| "bn_is_zero (p # ps) = (if p \<noteq> 0 then False else bn_is_zero ps)"

definition bn_not :: "base_uint \<Rightarrow> base_uint" where
  "bn_not a = map (\<lambda>p. NOT p) a"

definition bn_xor :: "base_uint \<Rightarrow> base_uint \<Rightarrow> base_uint" where
  "bn_xor a b = map2 (XOR) a b"

definition bn_and :: "base_uint \<Rightarrow> base_uint \<Rightarrow> base_uint" where
  "bn_and a b = map2 (AND) a b"

definition bn_or :: "base_uint \<Rightarrow> base_uint \<Rightarrow> base_uint" where
  "bn_or a b = map2 (OR) a b"

subsection \<open>Increment, negation, addition, subtraction\<close>

fun bn_inc :: "base_uint \<Rightarrow> base_uint" where
  "bn_inc [] = []"
| "bn_inc (p # ps) = (if p + 1 = 0 then (p + 1) # bn_inc ps else (p + 1) # ps)"

fun bn_dec :: "base_uint \<Rightarrow> base_uint" where
  "bn_dec [] = []"
| "bn_dec (p # ps) = (if p - 1 = - 1 then (p - 1) # bn_dec ps else (p - 1) # ps)"

definition bn_neg :: "base_uint \<Rightarrow> base_uint" where
  "bn_neg a = bn_inc (bn_not a)"

fun bn_add_carry :: "u64 \<Rightarrow> base_uint \<Rightarrow> base_uint \<Rightarrow> base_uint" where
  "bn_add_carry carry (p # ps) (q # qs) =
     (let n = carry + ucast p + ucast q
      in ucast (n AND 0xFFFFFFFF) # bn_add_carry (drop_bit 32 n) ps qs)"
| "bn_add_carry carry _ _ = []"

definition bn_add :: "base_uint \<Rightarrow> base_uint \<Rightarrow> base_uint" where
  "bn_add a b = bn_add_carry 0 a b"

definition bn_sub :: "base_uint \<Rightarrow> base_uint \<Rightarrow> base_uint" where
  "bn_sub a b = bn_add a (bn_neg b)"

subsection \<open>Multiplication\<close>

fun bn_mul32_carry :: "u64 \<Rightarrow> u32 \<Rightarrow> base_uint \<Rightarrow> base_uint" where
  "bn_mul32_carry carry b32 [] = []"
| "bn_mul32_carry carry b32 (p # ps) =
     (let n = carry + ucast b32 * ucast p
      in ucast (n AND 0xFFFFFFFF) # bn_mul32_carry (drop_bit 32 n) b32 ps)"

definition bn_mul32 :: "base_uint \<Rightarrow> u32 \<Rightarrow> base_uint" where
  "bn_mul32 a b32 = bn_mul32_carry 0 b32 a"

text \<open>
  The product of two arrays. The inner loop over \<open>i\<close> with \<open>i + j < WIDTH\<close> adds
  \<open>a.pn[j] * b.pn[i]\<close> into \<open>pn[i + j]\<close>; the model runs it on the suffix of \<open>pn\<close> from \<open>j\<close>.
\<close>

fun bn_muladd_row :: "u64 \<Rightarrow> u32 \<Rightarrow> base_uint \<Rightarrow> base_uint \<Rightarrow> base_uint" where
  "bn_muladd_row carry aj (p # ps) (q # qs) =
     (let n = carry + ucast p + ucast aj * ucast q
      in ucast (n AND 0xFFFFFFFF) # bn_muladd_row (drop_bit 32 n) aj ps qs)"
| "bn_muladd_row carry aj ps _ = ps"

definition bn_mul_step :: "base_uint \<Rightarrow> base_uint \<Rightarrow> nat \<Rightarrow> base_uint \<Rightarrow> base_uint" where
  "bn_mul_step a b j pn = take j pn @ bn_muladd_row 0 (a ! j) (drop j pn) b"

definition bn_mul :: "base_uint \<Rightarrow> base_uint \<Rightarrow> base_uint" where
  "bn_mul a b = fold (bn_mul_step a b) [0..<length a] (bn_zero (length a))"

subsection \<open>Shifts\<close>

definition bn_shl_step :: "nat \<Rightarrow> nat \<Rightarrow> base_uint \<Rightarrow> nat \<Rightarrow> base_uint \<Rightarrow> base_uint" where
  "bn_shl_step k s a i pn =
     (let pn = (if i + k + 1 < length a \<and> s \<noteq> 0
                then pn[i + k + 1 := pn ! (i + k + 1) OR drop_bit (32 - s) (a ! i)] else pn)
      in if i + k < length a then pn[i + k := pn ! (i + k) OR push_bit s (a ! i)] else pn)"

definition bn_shl :: "base_uint \<Rightarrow> nat \<Rightarrow> base_uint" where
  "bn_shl a shift =
     fold (bn_shl_step (shift div 32) (shift mod 32) a) [0..<length a] (bn_zero (length a))"

definition bn_shr_step :: "nat \<Rightarrow> nat \<Rightarrow> base_uint \<Rightarrow> nat \<Rightarrow> base_uint \<Rightarrow> base_uint" where
  "bn_shr_step k s a i pn =
     (let pn = (if k + 1 \<le> i \<and> s \<noteq> 0
                then pn[i - k - 1 := pn ! (i - k - 1) OR push_bit (32 - s) (a ! i)] else pn)
      in if k \<le> i then pn[i - k := pn ! (i - k) OR drop_bit s (a ! i)] else pn)"

definition bn_shr :: "base_uint \<Rightarrow> nat \<Rightarrow> base_uint" where
  "bn_shr a shift =
     fold (bn_shr_step (shift div 32) (shift mod 32) a) [0..<length a] (bn_zero (length a))"

subsection \<open>Comparison, bit length, low word\<close>

fun bn_compare_rev :: "base_uint \<Rightarrow> base_uint \<Rightarrow> int" where
  "bn_compare_rev (p # ps) (q # qs) =
     (if p < q then - 1 else if p > q then 1 else bn_compare_rev ps qs)"
| "bn_compare_rev _ _ = 0"

definition CompareTo :: "base_uint \<Rightarrow> base_uint \<Rightarrow> int" where
  "CompareTo a b = bn_compare_rev (rev a) (rev b)"

definition EqualTo :: "base_uint \<Rightarrow> u64 \<Rightarrow> bool" where
  "EqualTo a b =
     (if \<not> list_all (\<lambda>p. p = 0) (drop 2 a) then False
      else if ucast (a ! 1) \<noteq> drop_bit 32 b then False
      else if ucast (a ! 0) \<noteq> b AND 0xFFFFFFFF then False
      else True)"

fun limb_bits :: "u32 \<Rightarrow> nat \<Rightarrow> nat" where
  "limb_bits p 0 = 1"
| "limb_bits p (Suc b) = (if p AND push_bit (Suc b) 1 \<noteq> 0 then Suc b + 1 else limb_bits p b)"

fun bn_bits_rev :: "base_uint \<Rightarrow> nat" where
  "bn_bits_rev [] = 0"
| "bn_bits_rev (p # ps) = (if p \<noteq> 0 then 32 * length ps + limb_bits p 31 else bn_bits_rev ps)"

definition bn_bits :: "base_uint \<Rightarrow> nat" where
  "bn_bits a = bn_bits_rev (rev a)"

definition GetLow64 :: "base_uint \<Rightarrow> u64" where
  "GetLow64 a = ucast (a ! 0) OR push_bit 32 (ucast (a ! 1))"

subsection \<open>Division\<close>

datatype uint_error = DivisionByZero | WrongVectorSize

text \<open>
  The loop body runs for \<open>shift\<close>, \<open>shift - 1\<close>, \<dots>, \<open>0\<close>: the counter of the model is the
  number of iterations left, so that \<open>shift\<close> is the counter less one.
\<close>

fun bn_div_loop :: "nat \<Rightarrow> base_uint \<Rightarrow> base_uint \<Rightarrow> base_uint \<Rightarrow> base_uint" where
  "bn_div_loop 0 num dv pn = pn"
| "bn_div_loop (Suc shift) num dv pn =
     (if CompareTo num dv \<ge> 0
      then bn_div_loop shift (bn_sub num dv) (bn_shr dv 1)
             (pn[shift div 32 := pn ! (shift div 32) OR push_bit (shift mod 32) 1])
      else bn_div_loop shift num (bn_shr dv 1) pn)"

definition bn_div :: "base_uint \<Rightarrow> base_uint \<Rightarrow> uint_error + base_uint" where
  "bn_div a b =
     (let num_bits = bn_bits a; div_bits = bn_bits b in
      if div_bits = 0 then Inl DivisionByZero
      else if div_bits > num_bits then Inr (bn_zero (length a))
      else let shift = num_bits - div_bits
           in Inr (bn_div_loop (Suc shift) a (bn_shl b shift) (bn_zero (length a))))"

section \<open>What the operations compute\<close>


lemma bn_val_replicate [simp]: "bn_val (replicate n 0) = 0"
  by (induction n) auto

lemma bn_val_zero [bnval, simp]: "bn_val (bn_zero W) = 0"
  by (simp add: bn_zero_def)

lemma length_bn_zero [simp]: "length (bn_zero W) = W"
  by (simp add: bn_zero_def)

lemma bn_val_append: "bn_val (xs @ ys) = bn_val xs + 4294967296 ^ length xs * bn_val ys"
  by (induction xs) (auto simp: algebra_simps)

lemma bn_val_less: "bn_val a < 4294967296 ^ length a"
proof (induction a)
  case (Cons p ps)
  have "bn_val ps + 1 \<le> 4294967296 ^ length ps" using Cons by simp
  then have "4294967296 * (bn_val ps + 1) \<le> 4294967296 * 4294967296 ^ length ps" by simp
  then show ?case using unat_lt_32 [of p] by simp
qed simp

lemma pow_limbs: "(4294967296 :: nat) ^ n = 2 ^ (32 * n)"
  by (simp add: power_mult)

lemma bn_val_inj: "length a = length b \<Longrightarrow> bn_val a = bn_val b \<Longrightarrow> a = b"
proof (induction a b rule: list_induct2)
  case (Cons x xs y ys)
  have "unat x + 4294967296 * bn_val xs = unat y + 4294967296 * bn_val ys" using Cons by simp
  then have "(unat x + 4294967296 * bn_val xs) mod 4294967296 = (unat y + 4294967296 * bn_val ys) mod 4294967296"
      and "(unat x + 4294967296 * bn_val xs) div 4294967296 = (unat y + 4294967296 * bn_val ys) div 4294967296"
    by simp_all
  then have "unat x = unat y" "bn_val xs = bn_val ys"
    using unat_lt_32 [of x] unat_lt_32 [of y] by simp_all
  then show ?case using Cons by (simp add: word_unat_eq_iff)
qed simp

lemma bit_bn_val:
  "bit (bn_val a) i \<longleftrightarrow> i div 32 < length a \<and> bit (a ! (i div 32)) (i mod 32)"
proof (induction a arbitrary: i)
  case (Cons p ps)
  have "bit (bn_val (p # ps)) i \<longleftrightarrow> (if i < 32 then bit (unat p) i else bit (bn_val ps) (i - 32))"
    using bit_nat_split [of "unat p" 32 "bn_val ps" i] unat_lt_32 [of p] by simp
  also have "\<dots> \<longleftrightarrow> i div 32 < length (p # ps) \<and> bit ((p # ps) ! (i div 32)) (i mod 32)"
  proof (cases "i < 32")
    case True
    then show ?thesis by (simp add: bit_unsigned_iff)
  next
    case False
    then obtain m where "i = m + 32" using nat_le_iff_add [of 32 i] by auto
    moreover have "(m + 32) div 32 = Suc (m div 32)" by simp
    ultimately show ?thesis using Cons [of m] by simp
  qed
  finally show ?case .
qed simp

lemma low_plus_high_mod:
  "lo < B \<Longrightarrow> lo + (B * x) mod (B * M) = (lo + B * x) mod (B * M)" for lo B x M :: nat
  by (simp add: mult_mod_right [symmetric] mod_mult2_eq)

lemma split32: obtains q r :: nat where "x = 32 * q + r" "r < 32" "x div 32 = q" "x mod 32 = r"
  using that [of "x div 32" "x mod 32"] by simp

lemma div_mod_32I: "x = r + 32 * q \<Longrightarrow> r < 32 \<Longrightarrow> x div 32 = q \<and> x mod 32 = r" for x :: nat
  by simp

lemma mod_div_sub:
  fixes i n :: nat
  assumes "n \<le> i" "n mod 32 \<le> i mod 32"
  shows "(i - n) div 32 = i div 32 - n div 32" "(i - n) mod 32 = i mod 32 - n mod 32"
proof -
  obtain q r where i: "i = 32 * q + r" "i div 32 = q" "i mod 32 = r" "r < 32" by (rule split32)
  obtain q' r' where n: "n = 32 * q' + r'" "n div 32 = q'" "n mod 32 = r'" "r' < 32" by (rule split32)
  have "i - n = (r - r') + 32 * (q - q')" "r - r' < 32" using assms i n by auto
  then have "(i - n) div 32 = q - q' \<and> (i - n) mod 32 = r - r'" by (rule div_mod_32I)
  then show "(i - n) div 32 = i div 32 - n div 32" "(i - n) mod 32 = i mod 32 - n mod 32"
    using i n by simp_all
qed

lemma mod_div_borrow:
  fixes i n :: nat
  assumes "n \<le> i" "\<not> n mod 32 \<le> i mod 32"
  shows "(i - n) div 32 = i div 32 - n div 32 - 1" "(i - n) mod 32 = i mod 32 + 32 - n mod 32"
    "Suc (n div 32) \<le> i div 32"
proof -
  obtain q r where i: "i = 32 * q + r" "i div 32 = q" "i mod 32 = r" "r < 32" by (rule split32)
  obtain q' r' where n: "n = 32 * q' + r'" "n div 32 = q'" "n mod 32 = r'" "r' < 32" by (rule split32)
  have le: "Suc q' \<le> q" "r < r'" using assms i n by auto
  then have "i - n = (r + 32 - r') + 32 * (q - q' - 1)" "r + 32 - r' < 32" using assms i n by auto
  then have "(i - n) div 32 = q - q' - 1 \<and> (i - n) mod 32 = r + 32 - r'" by (rule div_mod_32I)
  then show "(i - n) div 32 = i div 32 - n div 32 - 1" "(i - n) mod 32 = i mod 32 + 32 - n mod 32"
    "Suc (n div 32) \<le> i div 32"
    using i n le by simp_all
qed

lemma div_mod_less:
  fixes i n :: nat
  assumes "\<not> n \<le> i"
  shows "i div 32 < n div 32 \<or> i div 32 = n div 32 \<and> i mod 32 < n mod 32"
proof -
  obtain q r where i: "i = 32 * q + r" "i div 32 = q" "i mod 32 = r" "r < 32" by (rule split32)
  obtain q' r' where n: "n = 32 * q' + r'" "n div 32 = q'" "n mod 32 = r'" "r' < 32" by (rule split32)
  show ?thesis using assms i n by auto
qed

subsection \<open>Lengths\<close>

lemma length_bn_inc [simp]: "length (bn_inc a) = length a"
  by (induction a) auto

lemma length_bn_dec [simp]: "length (bn_dec a) = length a"
  by (induction a) auto

lemma length_bn_not [simp]: "length (bn_not a) = length a"
  by (simp add: bn_not_def)

lemma length_bn_neg [simp]: "length (bn_neg a) = length a"
  by (simp add: bn_neg_def)

lemma length_bn_add_carry [simp]: "length (bn_add_carry c a b) = min (length a) (length b)"
  by (induction c a b rule: bn_add_carry.induct) (auto simp: Let_def)

lemma length_bn_add [simp]: "length (bn_add a b) = min (length a) (length b)"
  by (simp add: bn_add_def)

lemma length_bn_sub [simp]: "length (bn_sub a b) = min (length a) (length b)"
  by (simp add: bn_sub_def)

lemma length_bn_mul32 [simp]: "length (bn_mul32 a b) = length a"
proof -
  have "length (bn_mul32_carry c b a) = length a" for c
    by (induction a arbitrary: c) (auto simp: Let_def)
  then show ?thesis by (simp add: bn_mul32_def)
qed

lemma length_bn_muladd_row [simp]: "length (bn_muladd_row c x ps qs) = length ps"
  by (induction c x ps qs rule: bn_muladd_row.induct) (auto simp: Let_def)

lemma length_bn_mul_step [simp]: "length (bn_mul_step a b j pn) = length pn"
  by (simp add: bn_mul_step_def)

lemma length_fold_step:
  "(\<And>i pn. length (f i pn) = length pn) \<Longrightarrow> length (fold f is pn) = length pn"
  by (induction "is" arbitrary: pn) auto

lemma length_bn_mul [simp]: "length (bn_mul a b) = length a"
  by (simp add: bn_mul_def length_fold_step)

lemma length_bn_shl [simp]: "length (bn_shl a n) = length a"
  by (simp add: bn_shl_def bn_shl_step_def Let_def length_fold_step)

lemma length_bn_shr [simp]: "length (bn_shr a n) = length a"
  by (simp add: bn_shr_def bn_shr_step_def Let_def length_fold_step)

subsection \<open>Increment, complement, negation\<close>

lemma unat_inc: "unat (p + 1 :: u32) = (if p + 1 = 0 then 0 else unat p + 1)"
  by (simp add: unatSuc add.commute)

lemma unat_inc_wrap: "(p + 1 :: u32) = 0 \<Longrightarrow> unat p = 4294967295"
  by (simp add: eq_neg_iff_add_eq_0 [symmetric] unsigned_minus_1_eq_mask mask_eq_exp_minus_1)

lemma bn_val_inc [bnval]: "bn_val (bn_inc a) = (bn_val a + 1) mod 4294967296 ^ length a"
proof (induction a)
  case (Cons p ps)
  let ?M = "4294967296 ^ length ps :: nat"
  show ?case
  proof (cases "p + 1 = 0")
    case True
    then have p: "unat p = 4294967295" by (rule unat_inc_wrap)
    have "bn_val (bn_inc (p # ps)) = 4294967296 * ((bn_val ps + 1) mod ?M)" using True Cons by simp
    also have "\<dots> = (4294967296 * (bn_val ps + 1)) mod (4294967296 * ?M)"
      by (simp add: mult_mod_right)
    also have "4294967296 * (bn_val ps + 1) = bn_val (p # ps) + 1" using p by simp
    finally show ?thesis by simp
  next
    case False
    then have *: "bn_val (bn_inc (p # ps)) = bn_val (p # ps) + 1" by (simp add: unat_inc)
    moreover have "bn_val (bn_inc (p # ps)) < 4294967296 ^ length (p # ps)"
      using bn_val_less [of "bn_inc (p # ps)"] by (simp only: length_bn_inc)
    ultimately show ?thesis by (metis mod_less)
  qed
qed simp

lemma unat_not32: "unat (NOT p :: u32) = 4294967295 - unat p"
proof -
  have "NOT p = - 1 - p" by (simp add: not_eq_complement)
  then have "unat (NOT p) = unat (- 1 :: u32) - unat p" by (simp add: unat_sub)
  then show ?thesis by (simp add: unsigned_minus_1_eq_mask mask_eq_exp_minus_1)
qed

lemma bn_val_not [bnval]: "bn_val (bn_not a) = 4294967296 ^ length a - 1 - bn_val a"
proof -
  have "bn_val (bn_not a) + bn_val a + 1 = 4294967296 ^ length a"
  proof (induction a)
    case (Cons p ps)
    have "bn_val (bn_not (p # ps)) + bn_val (p # ps) + 1
        = (unat (NOT p) + unat p + 1) + 4294967296 * (bn_val (bn_not ps) + bn_val ps)"
      by (simp add: bn_not_def)
    also have "unat (NOT p) + unat p + 1 = 4294967296"
      using unat_lt_32 [of p] by (simp add: unat_not32)
    finally show ?case using Cons by (simp add: algebra_simps)
  qed (simp add: bn_not_def)
  then show ?thesis by simp
qed

lemma bn_val_neg [bnval]:
  "bn_val (bn_neg a) = (4294967296 ^ length a - bn_val a) mod 4294967296 ^ length a"
  using bn_val_less [of a] by (simp add: bn_neg_def bn_val_inc bn_val_not Suc_diff_Suc)

subsection \<open>Addition and subtraction\<close>

lemma bn_add_carry_val:
  assumes "length a = length b" and "unat c \<le> 1"
  shows "bn_val (bn_add_carry c a b) = (bn_val a + bn_val b + unat c) mod 4294967296 ^ length a"
  using assms
proof (induction a b arbitrary: c rule: list_induct2)
  case (Cons p ps q qs)
  define n where "n = c + ucast p + ucast q"
  have s: "unat n = unat c + unat p + unat q"
    using unat_lt_32 [of p] unat_lt_32 [of q] Cons.prems unfolding n_def
    by (simp add: unat_add_64)
  let ?M = "4294967296 ^ length ps :: nat" and ?lo = "unat n mod 4294967296"
    and ?hi = "unat n div 4294967296"
  have hi: "unat (drop_bit 32 n) = ?hi" by (simp add: unat_drop_bit)
  have "?hi \<le> 1" using s unat_lt_32 [of p] unat_lt_32 [of q] Cons.prems by linarith
  then have IH: "bn_val (bn_add_carry (drop_bit 32 n) ps qs) = (bn_val ps + bn_val qs + ?hi) mod ?M"
    using Cons.IH [of "drop_bit 32 n"] hi by simp
  have "bn_val (bn_add_carry c (p # ps) (q # qs))
      = ?lo + 4294967296 * ((bn_val ps + bn_val qs + ?hi) mod ?M)"
    using IH by (simp add: n_def [symmetric] Let_def unat_ucast_64_32 unat_and_mask32)
  also have "\<dots> = ?lo + (4294967296 * (bn_val ps + bn_val qs + ?hi)) mod (4294967296 * ?M)"
    by (simp only: mult_mod_right)
  also have "\<dots> = (?lo + 4294967296 * (bn_val ps + bn_val qs + ?hi)) mod (4294967296 * ?M)"
    by (rule low_plus_high_mod) simp
  also have "?lo + 4294967296 * (bn_val ps + bn_val qs + ?hi)
      = unat n + 4294967296 * (bn_val ps + bn_val qs)"
    by (simp add: algebra_simps)
  finally show ?case using s by (simp add: algebra_simps)
qed simp

lemma bn_val_add [bnval]:
  "length a = length b \<Longrightarrow> bn_val (bn_add a b) = (bn_val a + bn_val b) mod 4294967296 ^ length a"
  by (simp add: bn_add_def bn_add_carry_val)

lemma bn_val_sub [bnval]:
  assumes "length a = length b"
  shows "bn_val (bn_sub a b) = (bn_val a + (4294967296 ^ length a - bn_val b)) mod 4294967296 ^ length a"
  using assms by (simp add: bn_sub_def bn_val_add bn_val_neg mod_simps)

lemma bn_val_sub_le:
  assumes "length a = length b" and "bn_val b \<le> bn_val a"
  shows "bn_val (bn_sub a b) = bn_val a - bn_val b"
proof -
  let ?M = "4294967296 ^ length a :: nat"
  have "bn_val a + (?M - bn_val b) = (bn_val a - bn_val b) + ?M"
    using assms bn_val_less [of b] by simp
  then have "bn_val (bn_sub a b) = (bn_val a - bn_val b + ?M) mod ?M"
    using assms(1) by (simp only: bn_val_sub)
  also have "\<dots> = bn_val a - bn_val b" using bn_val_less [of a] by simp
  finally show ?thesis .
qed

subsection \<open>Multiplication\<close>

lemma bn_mul32_carry_val:
  assumes "unat c < 4294967296"
  shows "bn_val (bn_mul32_carry c b a) = (bn_val a * unat b + unat c) mod 4294967296 ^ length a"
  using assms
proof (induction a arbitrary: c)
  case (Cons p ps)
  define n where "n = c + ucast b * ucast p"
  have m: "unat b * unat p \<le> 4294967295 * 4294967295"
    using unat_lt_32 [of p] unat_lt_32 [of b] by (intro mult_le_mono) simp_all
  then have s: "unat n = unat c + unat b * unat p"
    using Cons.prems unfolding n_def by (simp add: unat_add_64 unat_mul_64)
  let ?M = "4294967296 ^ length ps :: nat" and ?lo = "unat n mod 4294967296"
    and ?hi = "unat n div 4294967296"
  have hi: "unat (drop_bit 32 n) = ?hi" by (simp add: unat_drop_bit)
  have "?hi < 4294967296" using s m Cons.prems by linarith
  then have IH: "bn_val (bn_mul32_carry (drop_bit 32 n) b ps) = (bn_val ps * unat b + ?hi) mod ?M"
    using Cons.IH [of "drop_bit 32 n"] hi by simp
  have "bn_val (bn_mul32_carry c b (p # ps)) = ?lo + 4294967296 * ((bn_val ps * unat b + ?hi) mod ?M)"
    using IH by (simp add: n_def [symmetric] Let_def unat_ucast_64_32 unat_and_mask32)
  also have "\<dots> = (?lo + 4294967296 * (bn_val ps * unat b + ?hi)) mod (4294967296 * ?M)"
    by (simp only: mult_mod_right low_plus_high_mod mod_less_divisor zero_less_numeral)
  also have "?lo + 4294967296 * (bn_val ps * unat b + ?hi) = unat n + 4294967296 * (bn_val ps * unat b)"
    by (simp add: algebra_simps)
  finally show ?case using s by (simp add: algebra_simps)
qed simp

lemma bn_val_mul32 [bnval]: "bn_val (bn_mul32 a b) = (bn_val a * unat b) mod 4294967296 ^ length a"
  by (simp add: bn_mul32_def bn_mul32_carry_val)

lemma bn_muladd_row_val:
  assumes "length ps \<le> length qs" and "unat c < 4294967296"
  shows "bn_val (bn_muladd_row c x ps qs)
       = (bn_val ps + unat x * bn_val qs + unat c) mod 4294967296 ^ length ps"
  using assms
proof (induction c x ps qs rule: bn_muladd_row.induct)
  case (1 c x p ps q qs)
  define n where "n = c + ucast p + ucast x * ucast q"
  have m: "unat x * unat q \<le> 4294967295 * 4294967295"
    using unat_lt_32 [of x] unat_lt_32 [of q] by (intro mult_le_mono) simp_all
  then have s: "unat n = unat c + unat p + unat x * unat q"
    using "1.prems" unat_lt_32 [of p] unfolding n_def by (simp add: unat_add_64 unat_mul_64)
  let ?M = "4294967296 ^ length ps :: nat" and ?lo = "unat n mod 4294967296"
    and ?hi = "unat n div 4294967296"
  have hi: "unat (drop_bit 32 n) = ?hi" by (simp add: unat_drop_bit)
  have "?hi < 4294967296" using s m "1.prems" unat_lt_32 [of p] by linarith
  then have IH: "bn_val (bn_muladd_row (drop_bit 32 n) x ps qs)
      = (bn_val ps + unat x * bn_val qs + ?hi) mod ?M"
    using "1.IH" [OF n_def] "1.prems" hi by simp
  have "bn_val (bn_muladd_row c x (p # ps) (q # qs))
      = ?lo + 4294967296 * ((bn_val ps + unat x * bn_val qs + ?hi) mod ?M)"
    using IH by (simp add: n_def [symmetric] Let_def unat_ucast_64_32 unat_and_mask32)
  also have "\<dots> = (?lo + 4294967296 * (bn_val ps + unat x * bn_val qs + ?hi)) mod (4294967296 * ?M)"
    by (simp only: mult_mod_right low_plus_high_mod mod_less_divisor zero_less_numeral)
  also have "?lo + 4294967296 * (bn_val ps + unat x * bn_val qs + ?hi)
      = unat n + 4294967296 * (bn_val ps + unat x * bn_val qs)"
    by (simp add: algebra_simps)
  finally show ?case using s by (simp add: algebra_simps)
qed simp_all

lemma bn_mul_step_val:
  assumes "j < length a" "length pn = length a" "length b = length a"
  shows "bn_val (bn_mul_step a b j pn)
       = (bn_val pn + 4294967296 ^ j * unat (a ! j) * bn_val b) mod 4294967296 ^ length a"
proof -
  let ?B = "4294967296 :: nat"
  have pn: "bn_val pn = bn_val (take j pn) + ?B ^ j * bn_val (drop j pn)"
    using bn_val_append [of "take j pn" "drop j pn"] assms by simp
  have lo: "bn_val (take j pn) < ?B ^ j" using bn_val_less [of "take j pn"] assms by simp
  have "bn_val (bn_mul_step a b j pn)
      = bn_val (take j pn) + ?B ^ j * ((bn_val (drop j pn) + unat (a ! j) * bn_val b) mod ?B ^ (length a - j))"
    using assms by (simp add: bn_mul_step_def bn_val_append bn_muladd_row_val)
  also have "\<dots> = (bn_val (take j pn) + ?B ^ j * (bn_val (drop j pn) + unat (a ! j) * bn_val b))
      mod (?B ^ j * ?B ^ (length a - j))"
    using lo by (simp only: mult_mod_right low_plus_high_mod)
  also have "?B ^ j * ?B ^ (length a - j) = ?B ^ length a"
    using assms by (simp add: power_add [symmetric])
  finally show ?thesis by (simp add: pn algebra_simps)
qed

lemma bn_mul_fold_val:
  assumes "length b = length a" "n \<le> length a"
  shows "bn_val (fold (bn_mul_step a b) [0..<n] (bn_zero (length a)))
       = (bn_val (take n a) * bn_val b) mod 4294967296 ^ length a"
  using assms(2)
proof (induction n)
  case (Suc n)
  let ?r = "fold (bn_mul_step a b) [0..<n] (bn_zero (length a))"
  have len: "length ?r = length a" by (simp add: length_fold_step)
  have tk: "bn_val (take (Suc n) a) = bn_val (take n a) + 4294967296 ^ n * unat (a ! n)"
    using Suc.prems by (simp add: take_Suc_conv_app_nth bn_val_append)
  have "bn_val (bn_mul_step a b n ?r)
      = (bn_val ?r + 4294967296 ^ n * unat (a ! n) * bn_val b) mod 4294967296 ^ length a"
    using Suc.prems assms(1) len by (intro bn_mul_step_val) simp_all
  then show ?case using Suc tk by (simp add: mod_simps algebra_simps)
qed simp

lemma bn_val_mul [bnval]:
  "length a = length b \<Longrightarrow> bn_val (bn_mul a b) = (bn_val a * bn_val b) mod 4294967296 ^ length a"
  using bn_mul_fold_val [of b a "length a"] by (simp add: bn_mul_def)

subsection \<open>Shifts\<close>

lemma nth_update_or: "j < length pn \<Longrightarrow> pn[k := v] ! j = (if j = k then v else pn ! j)"
  by (simp add: nth_list_update)

lemma bn_shl_fold_nth:
  assumes "m \<le> length a" "j < length a" 
  shows "fold (bn_shl_step k s a) [0..<m] (bn_zero (length a)) ! j
       = (if k \<le> j \<and> j - k < m then push_bit s (a ! (j - k)) else 0) OR
         (if s \<noteq> 0 \<and> k + 1 \<le> j \<and> j - k - 1 < m then drop_bit (32 - s) (a ! (j - k - 1)) else 0)"
  using assms(1)
proof (induction m)
  case 0
  then show ?case using assms(2) by (simp add: bn_zero_def)
next
  case (Suc m)
  let ?r = "fold (bn_shl_step k s a) [0..<m] (bn_zero (length a))"
  have len: "length ?r = length a"
    by (simp add: length_fold_step bn_shl_step_def Let_def)
  have step: "bn_shl_step k s a m ?r ! j =
     (if j = m + k then ?r ! j OR push_bit s (a ! m)
      else if j = m + k + 1 \<and> s \<noteq> 0 then ?r ! j OR drop_bit (32 - s) (a ! m) else ?r ! j)"
    using assms(2) len by (auto simp: bn_shl_step_def Let_def nth_list_update)
  show ?case
    using Suc assms(2) by (auto simp: step or.assoc or.commute or.left_commute)
qed

lemma bn_shr_fold_nth:
  assumes "m \<le> length a" "j < length a"
  shows "fold (bn_shr_step k s a) [0..<m] (bn_zero (length a)) ! j
       = (if j + k < m then drop_bit s (a ! (j + k)) else 0) OR
         (if s \<noteq> 0 \<and> j + k + 1 < m then push_bit (32 - s) (a ! (j + k + 1)) else 0)"
  using assms(1)
proof (induction m)
  case 0
  then show ?case using assms(2) by (simp add: bn_zero_def)
next
  case (Suc m)
  define r where "r = fold (bn_shr_step k s a) [0..<m] (bn_zero (length a))"
  have len: "length r = length a"
    by (simp add: r_def length_fold_step bn_shr_step_def Let_def)
  have f: "fold (bn_shr_step k s a) [0..<Suc m] (bn_zero (length a)) = bn_shr_step k s a m r"
    by (simp add: r_def)
  have step: "bn_shr_step k s a m r ! j =
     (if m = j + k then r ! j OR drop_bit s (a ! m)
      else if m = j + k + 1 \<and> s \<noteq> 0 then r ! j OR push_bit (32 - s) (a ! m) else r ! j)"
    using assms(2) len Suc.prems by (auto simp: bn_shr_step_def Let_def nth_list_update not_le less_Suc_eq)
  have IH: "r ! j = (if j + k < m then drop_bit s (a ! (j + k)) else 0) OR
         (if s \<noteq> 0 \<and> j + k + 1 < m then push_bit (32 - s) (a ! (j + k + 1)) else 0)"
    using Suc by (simp add: r_def)
  consider "m = j + k" | "m = j + k + 1" | "m \<noteq> j + k" "m \<noteq> j + k + 1" by blast
  then show ?case unfolding f step IH
  proof cases
    case 3
    then have "j + k < Suc m \<longleftrightarrow> j + k < m" "j + k + 1 < Suc m \<longleftrightarrow> j + k + 1 < m" by auto
    then show "(if m = j + k then ((if j + k < m then drop_bit s (a ! (j + k)) else 0) OR
           (if s \<noteq> 0 \<and> j + k + 1 < m then push_bit (32 - s) (a ! (j + k + 1)) else 0)) OR drop_bit s (a ! m)
         else if m = j + k + 1 \<and> s \<noteq> 0 then ((if j + k < m then drop_bit s (a ! (j + k)) else 0) OR
           (if s \<noteq> 0 \<and> j + k + 1 < m then push_bit (32 - s) (a ! (j + k + 1)) else 0)) OR push_bit (32 - s) (a ! m)
         else (if j + k < m then drop_bit s (a ! (j + k)) else 0) OR
           (if s \<noteq> 0 \<and> j + k + 1 < m then push_bit (32 - s) (a ! (j + k + 1)) else 0))
       = (if j + k < Suc m then drop_bit s (a ! (j + k)) else 0) OR
         (if s \<noteq> 0 \<and> j + k + 1 < Suc m then push_bit (32 - s) (a ! (j + k + 1)) else 0)"
      using 3 by simp
  qed (simp_all add: or.commute)
qed

lemma bit_shl_limb:
  assumes "j < length a" "t < 32" "s < 32"
  shows "bit (fold (bn_shl_step k s a) [0..<length a] (bn_zero (length a)) ! j) t \<longleftrightarrow>
     (if s \<le> t then k \<le> j \<and> bit (a ! (j - k)) (t - s)
      else k < j \<and> bit (a ! (j - k - 1)) (t + 32 - s))"
proof -
  have "\<not> s \<le> t \<Longrightarrow> t + 32 - s = 32 - s + t" using assms by simp
  then show ?thesis using assms
    by (auto simp: bn_shl_fold_nth bit_or_iff bit_push_bit_iff bit_drop_bit_eq
        dest: bit_imp_le_length)
qed

lemma bit_shr_limb:
  assumes "j < length a" "t < 32" "s < 32"
  shows "bit (fold (bn_shr_step k s a) [0..<length a] (bn_zero (length a)) ! j) t \<longleftrightarrow>
     (if s + t < 32 then j + k < length a \<and> bit (a ! (j + k)) (s + t)
      else j + k + 1 < length a \<and> bit (a ! (j + k + 1)) (s + t - 32))"
  using assms
  by (auto simp: bn_shr_fold_nth bit_or_iff bit_push_bit_iff bit_drop_bit_eq add.commute
      dest: bit_imp_le_length)

lemma bit_bn_shl:
  assumes "i div 32 = j" "i mod 32 = t" "n div 32 = k" "n mod 32 = s"
  shows "bit (bn_val (bn_shl a n)) i \<longleftrightarrow> j < length a \<and>
     (if s \<le> t then k \<le> j \<and> bit (a ! (j - k)) (t - s)
      else k < j \<and> bit (a ! (j - k - 1)) (t + 32 - s))"
proof -
  have "t < 32" "s < 32" using assms by auto
  have "bit (bn_val (bn_shl a n)) i \<longleftrightarrow> j < length a \<and> bit (bn_shl a n ! j) t"
    using assms by (simp add: bit_bn_val)
  then show ?thesis
    using bit_shl_limb [of j a t s k] \<open>t < 32\<close> \<open>s < 32\<close> assms by (auto simp: bn_shl_def)
qed

lemma bit_bn_shr:
  assumes "i div 32 = j" "i mod 32 = t" "n div 32 = k" "n mod 32 = s"
  shows "bit (bn_val (bn_shr a n)) i \<longleftrightarrow>
     (if s + t < 32 then j + k < length a \<and> bit (a ! (j + k)) (s + t)
      else j + k + 1 < length a \<and> bit (a ! (j + k + 1)) (s + t - 32))"
proof -
  have "t < 32" "s < 32" using assms by auto
  have "bit (bn_val (bn_shr a n)) i \<longleftrightarrow> j < length a \<and> bit (bn_shr a n ! j) t"
    using assms by (simp add: bit_bn_val)
  then show ?thesis
    using bit_shr_limb [of j a t s k] \<open>t < 32\<close> \<open>s < 32\<close> assms
    by (cases "j < length a") (simp_all add: bn_shr_def)
qed

lemma high_digit_less:
  fixes B :: nat
  assumes "lo < B" "lo' < B"
  shows "lo + B * x < lo' + B * y \<longleftrightarrow> x < y \<or> x = y \<and> lo < lo'"
proof -
  have "lo + B * x < lo' + B * y" if "x < y"
  proof -
    have "B * Suc x \<le> B * y" using that by (intro mult_le_mono) simp_all
    then show ?thesis using assms by simp
  qed
  moreover have "\<not> lo + B * x < lo' + B * y" if "y < x"
  proof -
    have "B * Suc y \<le> B * x" using that by (intro mult_le_mono) simp_all
    then show ?thesis using assms by simp
  qed
  ultimately show ?thesis by (cases x y rule: linorder_cases) auto
qed

lemma bit_nat_ge: "bit (x :: nat) n \<Longrightarrow> 2 ^ n \<le> x"
  using bit_nat_above [of x n n] by (meson not_le order_refl)

lemma bit_nat_top_clear: "(x :: nat) < 2 ^ Suc n \<Longrightarrow> \<not> bit x n \<Longrightarrow> x < 2 ^ n"
proof -
  assume *: "x < 2 ^ Suc n" "\<not> bit x n"
  have "x div 2 ^ n < 2" using *(1) by (simp add: div_less_iff_less_mult mult.commute)
  moreover have "even (x div 2 ^ n)" using *(2) by (simp add: bit_iff_odd)
  ultimately have "x div 2 ^ n = 0" by (metis One_nat_def less_2_cases odd_one)
  then show "x < 2 ^ n" by (simp add: div_eq_0_iff)
qed

lemma and_push_bit_1_nonzero: "n < 32 \<Longrightarrow> (p AND push_bit n 1 \<noteq> 0) = bit p n" for p :: u32
  by (simp add: push_bit_eq_mult and_exp_eq_0_iff_not_bit)

lemma dvd_not_bit: "2 ^ Suc k dvd (x :: nat) \<Longrightarrow> i \<le> k \<Longrightarrow> \<not> bit x i"
proof -
  assume *: "2 ^ Suc k dvd x" "i \<le> k"
  have "(2 :: nat) ^ Suc i dvd 2 ^ Suc k" using *(2) by (intro le_imp_power_dvd) simp
  then obtain m where "x = 2 ^ Suc i * m" using *(1) by (meson dvd_trans dvdE)
  then have "x div 2 ^ i = 2 * m" by simp
  then show "\<not> bit x i" by (simp add: bit_iff_odd)
qed

lemma length_bn_div_loop [simp]:
  "length num = length dv \<Longrightarrow> length (bn_div_loop k num dv pn) = length pn"
  by (induction k num dv pn rule: bn_div_loop.induct) auto

lemma idx32: "i < 32 * n \<longleftrightarrow> i div 32 < n" for i n :: nat
  by (simp add: div_less_iff_less_mult mult.commute)

lemma bn_val_shl_bit:
  "bn_val (bn_shl a n) = take_bit (32 * length a) (push_bit n (bn_val a))"
proof (rule bit_eqI)
  fix i :: nat
  obtain j t where i: "i = 32 * j + t" "t < 32" "i div 32 = j" "i mod 32 = t" by (rule split32)
  obtain k s where n: "n = 32 * k + s" "s < 32" "n div 32 = k" "n mod 32 = s" by (rule split32)
  have "bit (bn_val (bn_shl a n)) i \<longleftrightarrow> j < length a \<and>
     (if s \<le> t then k \<le> j \<and> bit (a ! (j - k)) (t - s)
      else k < j \<and> bit (a ! (j - k - 1)) (t + 32 - s))"
    using i(3,4) n(3,4) by (rule bit_bn_shl)
  also have "\<dots> \<longleftrightarrow> j < length a \<and> n \<le> i \<and> bit (bn_val a) (i - n)"
  proof (cases "s \<le> t")
    case True
    then have "n \<le> i \<longleftrightarrow> k \<le> j" using i n by auto
    moreover have "n \<le> i \<Longrightarrow> (i - n) div 32 = j - k \<and> (i - n) mod 32 = t - s"
      using mod_div_sub [of n i] True i n by simp
    ultimately show ?thesis using True by (auto simp: bit_bn_val)
  next
    case False
    then have "n \<le> i \<longleftrightarrow> k < j" using i n by auto
    moreover have "n \<le> i \<Longrightarrow> (i - n) div 32 = j - k - 1 \<and> (i - n) mod 32 = t + 32 - s"
      using mod_div_borrow [of n i] False i n by simp
    ultimately show ?thesis using False by (auto simp: bit_bn_val)
  qed
  also have "\<dots> \<longleftrightarrow> bit (take_bit (32 * length a) (push_bit n (bn_val a))) i"
    using i by (simp add: bit_take_bit_iff bit_push_bit_iff idx32)
  finally show "bit (bn_val (bn_shl a n)) i \<longleftrightarrow>
    bit (take_bit (32 * length a) (push_bit n (bn_val a))) i" .
qed

lemma bn_val_shl [bnval]: "bn_val (bn_shl a n) = (bn_val a * 2 ^ n) mod 4294967296 ^ length a"
  by (simp add: bn_val_shl_bit take_bit_eq_mod push_bit_eq_mult pow_limbs)

lemma bn_val_shr_bit: "bn_val (bn_shr a n) = drop_bit n (bn_val a)"
proof (rule bit_eqI)
  fix i :: nat
  obtain j t where i: "i = 32 * j + t" "t < 32" "i div 32 = j" "i mod 32 = t" by (rule split32)
  obtain k s where n: "n = 32 * k + s" "s < 32" "n div 32 = k" "n mod 32 = s" by (rule split32)
  have "bit (bn_val (bn_shr a n)) i \<longleftrightarrow>
     (if s + t < 32 then j + k < length a \<and> bit (a ! (j + k)) (s + t)
      else j + k + 1 < length a \<and> bit (a ! (j + k + 1)) (s + t - 32))"
    using i(3,4) n(3,4) by (rule bit_bn_shr)
  also have "\<dots> \<longleftrightarrow> bit (bn_val a) (n + i)"
  proof (cases "s + t < 32")
    case True
    then have "n + i = (s + t) + 32 * (j + k)" using i n by simp
    then have "(n + i) div 32 = j + k \<and> (n + i) mod 32 = s + t" using True by (rule div_mod_32I)
    then show ?thesis using True by (simp add: bit_bn_val)
  next
    case False
    then have "n + i = (s + t - 32) + 32 * (j + k + 1)" "s + t - 32 < 32" using i n by auto
    then have "(n + i) div 32 = j + k + 1 \<and> (n + i) mod 32 = s + t - 32" by (rule div_mod_32I)
    then show ?thesis using False by (simp add: bit_bn_val)
  qed
  finally show "bit (bn_val (bn_shr a n)) i \<longleftrightarrow> bit (drop_bit n (bn_val a)) i"
    by (simp add: bit_drop_bit_eq)
qed

lemma bn_val_shr [bnval]: "bn_val (bn_shr a n) = bn_val a div 2 ^ n"
  by (simp add: bn_val_shr_bit drop_bit_eq_div)

subsection \<open>Comparison and bit length\<close>

lemma bn_compare_rev_val:
  "length a = length b \<Longrightarrow>
   bn_compare_rev (rev a) (rev b) = (if bn_val a < bn_val b then - 1 else if bn_val b < bn_val a then 1 else 0)"
proof (induction a b rule: rev_induct2)
  case (4 x xs y ys)
  have "bn_val (xs @ [x]) = bn_val xs + 4294967296 ^ length xs * unat x"
       "bn_val (ys @ [y]) = bn_val ys + 4294967296 ^ length xs * unat y"
    using 4 by (simp_all add: bn_val_append)
  then show ?case using 4 bn_val_less [of xs] bn_val_less [of ys]
    by (auto simp: high_digit_less word_less_nat_alt)
qed simp_all

lemma CompareTo_val:
  "length a = length b \<Longrightarrow>
   CompareTo a b = (if bn_val a < bn_val b then - 1 else if bn_val b < bn_val a then 1 else 0)"
  by (simp add: CompareTo_def bn_compare_rev_val)

lemma limb_bits_val:
  assumes "n < 32" "p \<noteq> 0" "unat p < 2 ^ Suc n"
  shows "2 ^ (limb_bits p n - 1) \<le> unat p \<and> unat p < 2 ^ limb_bits p n \<and> 0 < limb_bits p n \<and> limb_bits p n \<le> Suc n"
  using assms
proof (induction n)
  case 0
  then show ?case by (simp add: unat_gt_0 Suc_le_eq)
next
  case (Suc n)
  have b: "p AND push_bit (Suc n) 1 \<noteq> 0 \<longleftrightarrow> bit (unat p) (Suc n)"
    using and_push_bit_1_nonzero [OF Suc.prems(1), of p] by (simp only: bit_unat_iff)
  show ?case
  proof (cases "bit (unat p) (Suc n)")
    case True
    then have "2 ^ Suc n \<le> unat p" by (rule bit_nat_ge)
    moreover have "limb_bits p (Suc n) = Suc n + 1" using True b by simp
    ultimately show ?thesis using Suc.prems(3) by simp
  next
    case False
    have "unat p < 2 ^ Suc n" using bit_nat_top_clear [OF Suc.prems(3) False] .
    then have "2 ^ (limb_bits p n - 1) \<le> unat p \<and> unat p < 2 ^ limb_bits p n
        \<and> 0 < limb_bits p n \<and> limb_bits p n \<le> Suc n"
      using Suc by simp
    moreover have "limb_bits p (Suc n) = limb_bits p n" using False b by simp
    ultimately show ?thesis by simp
  qed
qed

lemma bn_bits_rev_val:
  "bn_val a < 2 ^ bn_bits_rev (rev a) \<and> (bn_val a \<noteq> 0 \<longrightarrow> 2 ^ (bn_bits_rev (rev a) - 1) \<le> bn_val a)
   \<and> (bn_bits_rev (rev a) = 0 \<longleftrightarrow> bn_val a = 0) \<and> bn_bits_rev (rev a) \<le> 32 * length a"
proof (induction a rule: rev_induct)
  case (snoc p ps)
  have v: "bn_val (ps @ [p]) = bn_val ps + 2 ^ (32 * length ps) * unat p"
    by (simp add: bn_val_append pow_limbs)
  have l: "bn_val ps < 2 ^ (32 * length ps)" using bn_val_less [of ps] by (simp add: pow_limbs)
  show ?case
  proof (cases "p = 0")
    case True
    then show ?thesis using snoc v by auto
  next
    case False
    define t where "t = limb_bits p 31"
    have t: "2 ^ (t - 1) \<le> unat p" "unat p < 2 ^ t" "0 < t" "t \<le> 32"
      using limb_bits_val [of 31 p] False unat_lt_32 [of p] by (auto simp: t_def)
    have hi: "bn_val (ps @ [p]) < 2 ^ (32 * length ps) * 2 ^ t"
    proof -
      have "2 ^ (32 * length ps) * Suc (unat p) \<le> (2 :: nat) ^ (32 * length ps) * 2 ^ t"
        using t by (intro mult_le_mono) simp_all
      then show ?thesis using v l by simp
    qed
    have lo: "2 ^ (32 * length ps) * 2 ^ (t - 1) \<le> bn_val (ps @ [p])"
      using v t(1) by (simp add: trans_le_add2)
    have e: "32 * length ps + t - 1 = 32 * length ps + (t - 1)" using t by simp
    have lo': "2 ^ (32 * length ps + t - 1) \<le> bn_val (ps @ [p])" using lo by (simp only: e power_add)
    show ?thesis
      using False hi lo' t v by (simp add: t_def [symmetric] power_add unat_gt_0)
  qed
qed simp

lemma bn_bits_val:
  "bn_val a < 2 ^ bn_bits a" "bn_val a \<noteq> 0 \<Longrightarrow> 2 ^ (bn_bits a - 1) \<le> bn_val a"
  "bn_bits a = 0 \<longleftrightarrow> bn_val a = 0" "bn_bits a \<le> 32 * length a"
  using bn_bits_rev_val [of a] by (simp_all add: bn_bits_def)

subsection \<open>Division\<close>

text \<open>
  The invariant of the division loop: with \<open>k\<close> iterations left the divisor has been shifted
  to \<open>D * 2 ^ (k - 1)\<close>, the remainder is below \<open>D * 2 ^ k\<close>, and the bits below \<open>k\<close> of the
  quotient are still clear.
\<close>

lemma bn_val_set_bit:
  assumes "s div 32 < length pn" and "\<And>i. i \<le> s \<Longrightarrow> \<not> bit (bn_val pn) i"
  shows "bn_val (pn[s div 32 := pn ! (s div 32) OR push_bit (s mod 32) 1]) = bn_val pn + 2 ^ s"
proof -
  let ?pn = "pn[s div 32 := pn ! (s div 32) OR push_bit (s mod 32) 1]"
  have "bn_val ?pn = bn_val pn OR 2 ^ s"
  proof (rule bit_eqI)
    fix i :: nat
    have "i = s \<longleftrightarrow> i div 32 = s div 32 \<and> i mod 32 = s mod 32"
      by (metis div_mult_mod_eq)
    then show "bit (bn_val ?pn) i \<longleftrightarrow> bit (bn_val pn OR 2 ^ s) i"
      using assms(1)
      by (auto simp: bit_bn_val bit_or_iff bit_exp_iff nth_list_update bit_push_bit_iff)
  qed
  also have "\<dots> = bn_val pn + 2 ^ s"
    using assms(2) [of s] by (intro disjunctive_add [symmetric]) (auto simp: bit_exp_iff)
  finally show ?thesis .
qed

lemma bn_div_loop_val:
  assumes "length num = W" "length dv = W" "length pn = W" "k \<le> 32 * W" "0 < D"
    and "k \<noteq> 0 \<Longrightarrow> bn_val dv = D * 2 ^ (k - 1)"
    and "bn_val num < D * 2 ^ k"
    and "2 ^ k dvd bn_val pn"
  shows "bn_val (bn_div_loop k num dv pn) = bn_val pn + bn_val num div D"
  using assms
proof (induction k arbitrary: num dv pn)
  case 0
  then show ?case by simp
next
  case (Suc k)
  have dv: "bn_val dv = D * 2 ^ k" using Suc.prems by simp
  have dv': "k \<noteq> 0 \<Longrightarrow> bn_val (bn_shr dv 1) = D * 2 ^ (k - 1)"
    by (cases k) (simp_all add: bn_val_shr dv)
  have clear: "\<not> bit (bn_val pn) i" if "i \<le> k" for i
    using that Suc.prems(8) by (intro dvd_not_bit) simp_all
  have dvd: "2 ^ k dvd bn_val pn" using Suc.prems(8) by (rule dvd_trans [rotated]) simp
  show ?case
  proof (cases "bn_val dv \<le> bn_val num")
    case True
    let ?pn = "pn[k div 32 := pn ! (k div 32) OR push_bit (k mod 32) 1]"
    have sub: "bn_val (bn_sub num dv) = bn_val num - D * 2 ^ k"
      using True Suc.prems dv by (simp add: bn_val_sub_le)
    have pn: "bn_val ?pn = bn_val pn + 2 ^ k"
    proof (rule bn_val_set_bit)
      show "k div 32 < length pn" using Suc.prems by (simp add: idx32 [symmetric])
    qed (rule clear)
    have "bn_val (bn_div_loop k (bn_sub num dv) (bn_shr dv 1) ?pn)
        = bn_val ?pn + bn_val (bn_sub num dv) div D"
      using Suc.prems dv' dvd pn sub by (intro Suc.IH) (simp_all add: algebra_simps)
    also have "\<dots> = bn_val pn + (2 ^ k + (bn_val num - D * 2 ^ k) div D)" by (simp only: pn sub add.assoc)
    also have "2 ^ k + (bn_val num - D * 2 ^ k) div D = bn_val num div D"
    proof -
      obtain m where "bn_val num = m + 2 ^ k * D"
        using True dv by (metis le_Suc_ex add.commute mult.commute)
      then show ?thesis using Suc.prems(5) by (simp add: mult.commute)
    qed
    finally show ?thesis using True Suc.prems by (simp add: CompareTo_val)
  next
    case False
    have "bn_val (bn_div_loop k num (bn_shr dv 1) pn) = bn_val pn + bn_val num div D"
      using Suc.prems dv dv' dvd False by (intro Suc.IH) simp_all
    then show ?thesis using False Suc.prems by (simp add: CompareTo_val)
  qed
qed

lemma bn_div_val:
  assumes "length a = length b"
  shows "bn_val b = 0 \<Longrightarrow> bn_div a b = Inl DivisionByZero"
    and "bn_val b \<noteq> 0 \<Longrightarrow> \<exists>q. bn_div a b = Inr q \<and> length q = length a \<and> bn_val q = bn_val a div bn_val b"
proof -
  assume "bn_val b = 0"
  then show "bn_div a b = Inl DivisionByZero" by (simp add: bn_div_def Let_def bn_bits_val)
next
  assume nz: "bn_val b \<noteq> 0"
  then have nb: "bn_bits b \<noteq> 0" by (simp add: bn_bits_val)
  show "\<exists>q. bn_div a b = Inr q \<and> length q = length a \<and> bn_val q = bn_val a div bn_val b"
  proof (cases "bn_bits b > bn_bits a")
    case True
    have "bn_val a < 2 ^ bn_bits a" by (rule bn_bits_val)
    also have "\<dots> \<le> 2 ^ (bn_bits b - 1)" using True by (intro power_increasing) simp_all
    also have "\<dots> \<le> bn_val b" using nz by (rule bn_bits_val)
    finally have "bn_val a div bn_val b = 0" by simp
    then show ?thesis using True nb by (simp add: bn_div_def Let_def)
  next
    case False
    define s where "s = bn_bits a - bn_bits b"
    have sum: "s + bn_bits b = bn_bits a" using False by (simp add: s_def)
    have "bn_val b * 2 ^ s < 2 ^ bn_bits b * 2 ^ s" using bn_bits_val(1) [of b] by simp
    also have "\<dots> = 2 ^ bn_bits a" using sum by (simp add: power_add [symmetric] add.commute)
    also have "\<dots> \<le> 2 ^ (32 * length a)" using bn_bits_val(4) [of a] by (intro power_increasing) simp_all
    finally have shl: "bn_val (bn_shl b s) = bn_val b * 2 ^ s"
      using assms by (simp add: bn_val_shl pow_limbs)
    have "bn_val a < 2 ^ bn_bits a" by (rule bn_bits_val)
    also have "\<dots> = 2 ^ (bn_bits b - 1) * 2 ^ Suc s"
      using nb sum by (simp add: power_add [symmetric] del: power_Suc) 
    also have "\<dots> \<le> bn_val b * 2 ^ Suc s" using bn_bits_val(2) [OF nz] by (rule mult_le_mono1)
    finally have num: "bn_val a < bn_val b * 2 ^ Suc s" .
    have "bn_val (bn_div_loop (Suc s) a (bn_shl b s) (bn_zero (length a)))
        = bn_val (bn_zero (length a)) + bn_val a div bn_val b"
      using assms nz num shl nb sum bn_bits_val(4) [of a]
      by (intro bn_div_loop_val) auto
    moreover have "bn_div a b = Inr (bn_div_loop (Suc s) a (bn_shl b s) (bn_zero (length a)))"
      using False nb by (simp add: bn_div_def Let_def s_def del: bn_div_loop.simps)
    moreover have "length (bn_div_loop (Suc s) a (bn_shl b s) (bn_zero (length a))) = length a"
      using assms by (simp del: bn_div_loop.simps)
    ultimately show ?thesis by (simp del: bn_div_loop.simps)
  qed
qed

section \<open>The interface other components use\<close>

text \<open>
  What the difficulty, chain-work and amount code relies on: a representation that fits its
  modulus, is canonical, and computes modulo \<open>M\<close>. The laws below it are proved once and hold
  for every width.
\<close>

locale modular_uint =
  fixes M :: nat
    and valid :: "'a \<Rightarrow> bool" and val :: "'a \<Rightarrow> nat"
    and add :: "'a \<Rightarrow> 'a \<Rightarrow> 'a" and neg :: "'a \<Rightarrow> 'a" and mul :: "'a \<Rightarrow> 'a \<Rightarrow> 'a"
    and cmp :: "'a \<Rightarrow> 'a \<Rightarrow> int"
  assumes val_bound: "valid a \<Longrightarrow> val a < M"
    and val_inject: "valid a \<Longrightarrow> valid b \<Longrightarrow> val a = val b \<Longrightarrow> a = b"
    and valid_add: "valid a \<Longrightarrow> valid b \<Longrightarrow> valid (add a b)"
    and valid_neg: "valid a \<Longrightarrow> valid (neg a)"
    and valid_mul: "valid a \<Longrightarrow> valid b \<Longrightarrow> valid (mul a b)"
    and val_add: "valid a \<Longrightarrow> valid b \<Longrightarrow> val (add a b) = (val a + val b) mod M"
    and val_neg: "valid a \<Longrightarrow> val (neg a) = (M - val a) mod M"
    and val_mul: "valid a \<Longrightarrow> valid b \<Longrightarrow> val (mul a b) = (val a * val b) mod M"
    and cmp_val: "valid a \<Longrightarrow> valid b \<Longrightarrow>
      cmp a b = (if val a < val b then - 1 else if val b < val a then 1 else 0)"
begin

lemmas valids = valid_add valid_neg valid_mul

lemma add_comm: "valid a \<Longrightarrow> valid b \<Longrightarrow> add a b = add b a"
  by (rule val_inject) (simp_all add: valids val_add add.commute)

lemma add_assoc: "valid a \<Longrightarrow> valid b \<Longrightarrow> valid c \<Longrightarrow> add (add a b) c = add a (add b c)"
  by (rule val_inject) (simp_all add: valids val_add mod_simps add.assoc)

lemma add_neg_cancel: "valid a \<Longrightarrow> valid b \<Longrightarrow> add (add a b) (neg b) = a"
proof (rule val_inject)
  assume v: "valid a" "valid b"
  have "val (add (add a b) (neg b)) = (val a + (val b + (M - val b))) mod M"
    using v by (simp add: valids val_add val_neg mod_simps add.assoc)
  also have "val b + (M - val b) = M" using val_bound [OF v(2)] by simp
  finally show "val (add (add a b) (neg b)) = val a" using val_bound [OF v(1)] by simp
qed (simp_all add: valids)

lemma mul_comm: "valid a \<Longrightarrow> valid b \<Longrightarrow> mul a b = mul b a"
  by (rule val_inject) (simp_all add: valids val_mul mult.commute)

lemma mul_assoc: "valid a \<Longrightarrow> valid b \<Longrightarrow> valid c \<Longrightarrow> mul (mul a b) c = mul a (mul b c)"
  by (rule val_inject) (simp_all add: valids val_mul mod_simps mult.assoc)

lemma mul_distrib:
  "valid a \<Longrightarrow> valid b \<Longrightarrow> valid c \<Longrightarrow> mul a (add b c) = add (mul a b) (mul a c)"
  by (rule val_inject) (simp_all add: valids val_mul val_add mod_simps distrib_left)

lemma cmp_zero: "valid a \<Longrightarrow> valid b \<Longrightarrow> cmp a b = 0 \<longleftrightarrow> a = b"
  using val_inject by (auto simp: cmp_val)

lemma cmp_swap: "valid a \<Longrightarrow> valid b \<Longrightarrow> cmp b a = - cmp a b"
  by (simp add: cmp_val)

lemma cmp_trans: "valid a \<Longrightarrow> valid b \<Longrightarrow> valid c \<Longrightarrow> cmp a b < 0 \<Longrightarrow> cmp b c < 0 \<Longrightarrow> cmp a c < 0"
  by (auto simp: cmp_val split: if_splits)

lemma add_grows: "valid a \<Longrightarrow> valid b \<Longrightarrow> val a + val b < M \<Longrightarrow> 0 < val b \<Longrightarrow> cmp a (add a b) < 0"
  by (simp add: cmp_val val_add valids)

end

lemma modular_uint_limbs:
  "modular_uint (4294967296 ^ W) (\<lambda>a. length a = W) bn_val bn_add bn_neg bn_mul CompareTo"
  by unfold_locales (use bn_val_less bn_val_inj in \<open>auto simp: bnval CompareTo_val\<close>)

interpretation u256: modular_uint "4294967296 ^ 8" "\<lambda>a. length a = 8" bn_val bn_add bn_neg bn_mul CompareTo
  by (rule modular_uint_limbs)

interpretation u160: modular_uint "4294967296 ^ 5" "\<lambda>a. length a = 5" bn_val bn_add bn_neg bn_mul CompareTo
  by (rule modular_uint_limbs)

text \<open>
  C29. The limb loops of \<open>base_uint\<close> compute arithmetic modulo \<open>2 ^ BITS\<close> for every width:
  addition, subtraction, the two multiplications and the two shifts.
\<close>

theorem base_uint_arith:
  assumes "length a = W" "length b = W"
  shows "bn_val (bn_add a b) = (bn_val a + bn_val b) mod 2 ^ (32 * W)
    \<and> int (bn_val (bn_sub a b)) = (int (bn_val a) - int (bn_val b)) mod 2 ^ (32 * W)
    \<and> bn_val (bn_mul a b) = (bn_val a * bn_val b) mod 2 ^ (32 * W)
    \<and> bn_val (bn_mul32 a c) = (bn_val a * unat c) mod 2 ^ (32 * W)
    \<and> bn_val (bn_shl a n) = (bn_val a * 2 ^ n) mod 2 ^ (32 * W)
    \<and> bn_val (bn_shr a n) = bn_val a div 2 ^ n"
proof -
  let ?M = "4294967296 ^ length a :: nat"
  have "bn_val b < ?M" using bn_val_less [of b] assms by simp
  then have "int (bn_val (bn_sub a b)) = (int (bn_val a) + (int ?M - int (bn_val b))) mod int ?M"
    using assms by (simp only: bn_val_sub zmod_int of_nat_add of_nat_diff less_imp_le)
  also have "\<dots> = ((int (bn_val a) - int (bn_val b)) + int ?M) mod int ?M"
    by (simp only: algebra_simps)
  finally have "int (bn_val (bn_sub a b)) = (int (bn_val a) - int (bn_val b)) mod int ?M"
    by (simp only: mod_add_self2)
  moreover have "int (4294967296 ^ length a) = 2 ^ (32 * W)"
    using assms by (simp only: pow_limbs of_nat_power of_nat_numeral)
  ultimately show ?thesis using assms
    by (simp add: bn_val_add bn_val_mul bn_val_mul32 bn_val_shl bn_val_shr pow_limbs)
qed

theorem base_uint_arith_witness:
  "bn_val (bn_add [4294967295, 1] [2, 0]) = 8589934593
   \<and> int (bn_val (bn_sub [4294967295, 1] [2, 0])) = 8589934589"
  using base_uint_arith [of "[4294967295, 1]" 2 "[2, 0]" 0 0]
  by simp

text \<open>
  C32. Long division: \<open>operator/=\<close> throws exactly when the divisor is zero and otherwise returns
  the quotient.
\<close>

theorem base_uint_division:
  assumes "length a = length b"
  shows "case bn_div a b of
      Inl e \<Rightarrow> e = DivisionByZero \<and> bn_val b = 0
    | Inr q \<Rightarrow> bn_val b \<noteq> 0 \<and> length q = length a \<and> bn_val q = bn_val a div bn_val b"
  using bn_div_val [OF assms] by (cases "bn_val b = 0") auto

theorem base_uint_division_witness:
  "case bn_div [7, 1] [2, 0] of Inl e \<Rightarrow> False | Inr q \<Rightarrow> bn_val q = 2147483651"
  using base_uint_division [of "[7, 1]" "[2, 0]"] by (auto split: sum.splits)

text \<open>
  C15. \<open>CompareTo\<close> decides the order of the values on 256-bit integers, and adding a non-zero
  amount that does not overflow gives a greater integer: chain work grows along a chain.
\<close>

theorem uint256_order:
  assumes "length a = 8" "length b = 8" "bn_val a + bn_val b < 2 ^ 256" "\<not> bn_is_zero b"
  shows "(CompareTo a b < 0 \<longleftrightarrow> bn_val a < bn_val b) \<and> (CompareTo a b = 0 \<longleftrightarrow> a = b)
    \<and> CompareTo a (bn_add a b) < 0"
proof -
  have "\<not> bn_is_zero c \<Longrightarrow> 0 < bn_val c" for c
    by (induction c) (auto split: if_splits simp: unat_gt_0)
  then have "CompareTo a (bn_add a b) < 0" using assms by (intro u256.add_grows) simp_all
  then show ?thesis using assms by (simp add: u256.cmp_zero) (simp add: CompareTo_val)
qed

theorem uint256_order_witness:
  "CompareTo [1,0,0,0,0,0,0,0] (bn_add [1,0,0,0,0,0,0,0] [5,0,0,0,0,0,0,0]) < 0"
  using uint256_order [of "[1,0,0,0,0,0,0,0]" "[5,0,0,0,0,0,0,0]"] by simp

end
