(* ===== verification/Compact.thy ===== *)
theory Compact
  imports Uint256
begin

text \<open>
  The compact (floating-point like) encoding of targets in \<^verbatim>\<open>structs/uint256.cpp\<close>:
  \<open>uint256::SetCompact\<close> and \<open>uint256::GetCompact\<close>, on the eight-limb instance of
  \<open>base_uint\<close>. \<open>SetCompact\<close> returns the value and the two flags the source stores through its
  pointer arguments; \<open>GetCompact\<close> returns \<open>None\<close> where one of its assertions would fail.
\<close>

definition SetCompact :: "u32 \<Rightarrow> base_uint \<times> bool \<times> bool" where
  "SetCompact nCompact =
     (let nSize = unat (drop_bit 24 nCompact);
          nWord = nCompact AND 0x007FFFFF;
          nWord' = (if nSize \<le> 3 then drop_bit (8 * (3 - nSize)) nWord else nWord);
          bn = (if nSize \<le> 3 then bn_of_u64 8 (ucast nWord')
                else bn_shl (bn_of_u64 8 (ucast nWord')) (8 * (nSize - 3)));
          fNegative = (nWord' \<noteq> 0 \<and> nCompact AND 0x00800000 \<noteq> 0);
          fOverflow = (nWord' \<noteq> 0 \<and> (nSize > 34 \<or> (nWord' > 0xFF \<and> nSize > 33) \<or>
                                    (nWord' > 0xFFFF \<and> nSize > 32)))
      in (bn, fNegative, fOverflow))"

definition GetCompact :: "base_uint \<Rightarrow> bool \<Rightarrow> u32 option" where
  "GetCompact a fNegative =
     (let nSize = (bn_bits a + 7) div 8;
          nCompact = (if nSize \<le> 3 then ucast (push_bit (8 * (3 - nSize)) (GetLow64 a))
                      else ucast (GetLow64 (bn_shr a (8 * (nSize - 3))))) :: u32;
          high = (nCompact AND 0x00800000 \<noteq> 0);
          nCompact = (if high then drop_bit 8 nCompact else nCompact);
          nSize = (if high then nSize + 1 else nSize)
      in if nCompact AND NOT 0x007FFFFF \<noteq> 0 then None
         else if \<not> nSize < 256 then None
         else let nCompact = nCompact OR push_bit 24 (of_nat nSize)
              in Some (nCompact OR (if fNegative \<and> nCompact AND 0x007FFFFF \<noteq> 0 then 0x00800000 else 0)))"

subsection \<open>Fields of a compact number\<close>

definition compact_mant :: "u32 \<Rightarrow> nat" where
  "compact_mant c = unat c mod 8388608"

definition compact_exp :: "u32 \<Rightarrow> nat" where
  "compact_exp c = unat c div 16777216"

lemma unat_and_mask23: "unat (c AND 0x007FFFFF :: u32) = unat c mod 8388608"
proof -
  have "(0x007FFFFF :: u32) = mask 23" by (simp add: mask_eq_exp_minus_1)
  then have "unat (c AND 0x007FFFFF) = unat (take_bit 23 c)" by (simp only: take_bit_eq_mask)
  also have "\<dots> = take_bit 23 (unat c)" by (rule unsigned_take_bit_eq)
  finally show ?thesis by (simp add: take_bit_eq_mod)
qed

lemma and_bit23: "(c AND 0x00800000 :: u32) \<noteq> 0 \<longleftrightarrow> odd (unat c div 8388608)"
proof -
  have "(0x00800000 :: u32) = 2 ^ 23" by simp
  then have "(c AND 0x00800000) \<noteq> 0 \<longleftrightarrow> bit c 23" by (simp only: and_exp_eq_0_iff_not_bit not_not)
  also have "\<dots> \<longleftrightarrow> bit (unat c) 23" by (simp add: bit_unat_iff)
  finally show ?thesis by (simp add: bit_iff_odd)
qed

lemma length_bn_of_u64 [simp]: "2 \<le> W \<Longrightarrow> length (bn_of_u64 W b) = W"
  by (simp add: bn_of_u64_def)

lemma bn_val_of_u64 [bnval]: "bn_val (bn_of_u64 W b) = unat b"
proof -
  have "unat (drop_bit 32 b) < 4294967296" using unat_lt_64 [of b]
    by (simp add: unat_drop_bit div_less_iff_less_mult)
  then show ?thesis by (simp add: bn_of_u64_def unat_ucast_64_32 unat_drop_bit)
qed

lemma length_SetCompact [simp]: "length (fst (SetCompact c)) = 8"
  by (simp add: SetCompact_def Let_def)

lemma compact_word_val:
  "unat (if unat (drop_bit 24 c) \<le> 3 then drop_bit (8 * (3 - unat (drop_bit 24 c))) (c AND 0x007FFFFF)
         else c AND 0x007FFFFF :: u32)
   = (if compact_exp c \<le> 3 then compact_mant c div 256 ^ (3 - compact_exp c) else compact_mant c)"
  by (simp add: unat_drop_bit unat_and_mask23 compact_mant_def compact_exp_def power_mult
      del: drop_bit_and)

lemma SetCompact_val:
  "bn_val (fst (SetCompact c)) =
     (if compact_exp c \<le> 3 then compact_mant c div 256 ^ (3 - compact_exp c)
      else (compact_mant c * 256 ^ (compact_exp c - 3)) mod 2 ^ 256)"
proof -
  have e: "unat (drop_bit 24 c) = compact_exp c" by (simp add: unat_drop_bit compact_exp_def)
  show ?thesis
  proof (cases "compact_exp c \<le> 3")
    case True
    then show ?thesis using compact_word_val [of c]
      by (simp add: SetCompact_def Let_def bn_val_of_u64 e del: drop_bit_and)
  next
    case False
    then show ?thesis using compact_word_val [of c]
      by (simp add: SetCompact_def Let_def bn_val_of_u64 bn_val_shl e power_mult pow_limbs [of 8, simplified])
  qed
qed

lemma SetCompact_flags:
  "fst (snd (SetCompact c)) \<longleftrightarrow>
     (if compact_exp c \<le> 3 then compact_mant c div 256 ^ (3 - compact_exp c) else compact_mant c) \<noteq> 0
     \<and> odd (unat c div 8388608)"
  "snd (snd (SetCompact c)) \<longleftrightarrow> compact_mant c \<noteq> 0 \<and>
     (compact_exp c > 34 \<or> (compact_mant c > 255 \<and> compact_exp c > 33) \<or>
      (compact_mant c > 65535 \<and> compact_exp c > 32))"
proof -
  have e: "unat (drop_bit 24 c) = compact_exp c" by (simp add: unat_drop_bit compact_exp_def)
  have m: "unat (c AND 0x007FFFFF) = compact_mant c" by (simp add: unat_and_mask23 compact_mant_def)
  show "fst (snd (SetCompact c)) \<longleftrightarrow>
     (if compact_exp c \<le> 3 then compact_mant c div 256 ^ (3 - compact_exp c) else compact_mant c) \<noteq> 0
     \<and> odd (unat c div 8388608)"
    unfolding compact_word_val [of c, symmetric]
    by (simp add: SetCompact_def Let_def and_bit23 unat_gt_0 del: drop_bit_and)
  show "snd (snd (SetCompact c)) \<longleftrightarrow> compact_mant c \<noteq> 0 \<and>
     (compact_exp c > 34 \<or> (compact_mant c > 255 \<and> compact_exp c > 33) \<or>
      (compact_mant c > 65535 \<and> compact_exp c > 32))"
    by (auto simp: SetCompact_def Let_def e m word_less_nat_alt unat_eq_0 [symmetric])
qed

text \<open>Without overflow the shift loses no bit of the mantissa.\<close>

lemma compact_no_overflow_fits:
  assumes "\<not> snd (snd (SetCompact c))" "3 < compact_exp c"
  shows "compact_mant c * 256 ^ (compact_exp c - 3) < 2 ^ 256"
proof (cases "compact_mant c = 0")
  case False
  let ?m = "compact_mant c" and ?e = "compact_exp c"
  have m: "?m < 256 ^ 3" by (simp add: compact_mant_def less_trans [OF mod_less_divisor])
  have pw: "256 ^ i * 256 ^ (?e - 3) \<le> (256 :: nat) ^ 32" if "i + ?e \<le> 35" for i :: nat
  proof -
    have "(256 :: nat) ^ (i + (?e - 3)) \<le> 256 ^ 32" using that assms(2) by (intro power_increasing) simp_all
    then show ?thesis by (simp only: power_add)
  qed
  have "\<exists>i. ?m < 256 ^ i \<and> i + ?e \<le> 35"
  proof (cases "?e \<le> 32")
    case True
    then show ?thesis using m by (intro exI [of _ 3]) simp
  next
    case False
    then have "?m \<le> 65535" using assms(1) \<open>?m \<noteq> 0\<close> by (auto simp: SetCompact_flags)
    show ?thesis
    proof (cases "?e \<le> 33")
      case True
      then show ?thesis using \<open>?m \<le> 65535\<close> by (intro exI [of _ 2]) simp
    next
      case False
      then show ?thesis using assms(1) \<open>?m \<noteq> 0\<close> by (intro exI [of _ 1]) (auto simp: SetCompact_flags)
    qed
  qed
  then obtain i where i: "?m < 256 ^ i" "i + ?e \<le> 35" by blast
  then have "?m * 256 ^ (?e - 3) < 256 ^ i * 256 ^ (?e - 3)" by simp
  also have "\<dots> \<le> 256 ^ 32" using i(2) by (rule pw)
  finally show ?thesis by simp
qed simp

subsection \<open>The encoder\<close>

lemma unat_ucast_32_64': "unat (ucast (w :: u32) :: u64) = unat w" by simp

lemma GetLow64_val: "2 \<le> length a \<Longrightarrow> unat (GetLow64 a) = bn_val a mod 18446744073709551616"
proof -
  assume "2 \<le> length a"
  then obtain p q r where a: "a = p # q # r" by (metis Suc_le_length_iff numeral_2_eq_2)
  have s: "unat (push_bit 32 (ucast q :: u64)) = 4294967296 * unat q"
  proof -
    have "unat (ucast q :: u64) * 4294967296 < 18446744073709551616" using unat_lt_32 [of q] by simp
    then have "unat ((ucast q :: u64) * 4294967296) = unat q * 4294967296" by (simp add: unat_mul_64)
    then show ?thesis by (simp add: push_bit_eq_mult)
  qed
  have "(ucast p :: u64) AND push_bit 32 (ucast q) = 0"
    by (auto simp: bit_eq_iff bit_and_iff bit_push_bit_iff bit_ucast_iff dest: bit_imp_le_length)
  then have "unat (GetLow64 a) = unat p + 4294967296 * unat q"
    using s by (simp add: GetLow64_def a unat_or_disjoint)
  moreover have "bn_val a = (unat p + 4294967296 * unat q) + 18446744073709551616 * bn_val r"
    by (simp add: a)
  moreover have "unat p + 4294967296 * unat q < 18446744073709551616"
    using unat_lt_32 [of p] unat_lt_32 [of q] by linarith
  ultimately show ?thesis by simp
qed

definition compact_size :: "nat \<Rightarrow> nat" where
  "compact_size b = (b + 7) div 8"

lemma compact_size_bounds:
  assumes "length a = 8"
  defines "n \<equiv> compact_size (bn_bits a)"
  shows "n \<le> 32" "bn_val a < 256 ^ n" "bn_val a \<noteq> 0 \<Longrightarrow> 256 ^ (n - 1) \<le> bn_val a" "n = 0 \<longleftrightarrow> bn_val a = 0"
proof -
  have b: "bn_bits a \<le> 256" using bn_bits_val(4) [of a] assms(1) by simp
  then show "n \<le> 32" by (simp add: n_def compact_size_def)
  have p: "(256 :: nat) ^ k = 2 ^ (8 * k)" for k by (simp add: power_mult)
  have "bn_bits a \<le> 8 * n" by (simp add: n_def compact_size_def)
  then have "(2 :: nat) ^ bn_bits a \<le> 2 ^ (8 * n)" by (rule power_increasing) simp
  then show "bn_val a < 256 ^ n" using bn_bits_val(1) [of a] unfolding p by (rule less_le_trans [rotated])
  show "n = 0 \<longleftrightarrow> bn_val a = 0"
    using bn_bits_val(3) [of a] by (auto simp: n_def compact_size_def)
  assume nz: "bn_val a \<noteq> 0"
  then have "8 * (n - 1) \<le> bn_bits a - 1" using bn_bits_val(3) [of a] by (auto simp: n_def compact_size_def)
  then have "(2 :: nat) ^ (8 * (n - 1)) \<le> 2 ^ (bn_bits a - 1)" by (rule power_increasing) simp
  then show "256 ^ (n - 1) \<le> bn_val a" using bn_bits_val(2) [OF nz] unfolding p by (rule le_trans)
qed

definition compact_top :: "nat \<Rightarrow> nat \<Rightarrow> nat" where
  "compact_top v n = (if n \<le> 3 then v * 256 ^ (3 - n) else v div 256 ^ (n - 3))"

lemma compact_top_less: "v < 256 ^ n \<Longrightarrow> compact_top v n < 16777216"
proof (cases "n \<le> 3")
  case True
  assume "v < 256 ^ n"
  then have "v * 256 ^ (3 - n) < 256 ^ n * 256 ^ (3 - n)" by simp
  also have "\<dots> = 256 ^ 3" using True by (simp only: power_add [symmetric]) simp
  finally show ?thesis using True by (simp add: compact_top_def)
next
  case False
  assume v: "v < 256 ^ n"
  have "(256 :: nat) ^ n = 256 ^ 3 * 256 ^ (n - 3)" using False by (simp only: power_add [symmetric]) simp
  then have "v div 256 ^ (n - 3) < 256 ^ 3" using v by (simp add: div_less_iff_less_mult)
  then show ?thesis using False by (simp add: compact_top_def)
qed

lemma unat_pow2_64: "n < 64 \<Longrightarrow> unat (2 ^ n :: u64) = 2 ^ n"
proof -
  assume "n < 64"
  then have "(2 :: nat) ^ n < 2 ^ 64" by (rule power_strict_increasing) simp
  then have "unat (word_of_nat (2 ^ n) :: u64) = 2 ^ n" by (subst unat_of_nat) simp
  then show ?thesis by simp
qed

lemma GetCompact_top:
  assumes "length a = 8"
  defines "n \<equiv> compact_size (bn_bits a)"
  shows "unat (if n \<le> 3 then ucast (push_bit (8 * (3 - n)) (GetLow64 a))
               else ucast (GetLow64 (bn_shr a (8 * (n - 3)))) :: u32) = compact_top (bn_val a) n"
proof -
  have lt: "compact_top (bn_val a) n < 16777216"
    unfolding n_def by (intro compact_top_less compact_size_bounds assms)
  show ?thesis
  proof (cases "n \<le> 3")
    case True
    have "bn_val a < 256 ^ n" unfolding n_def by (rule compact_size_bounds [OF assms(1)])
    also have "\<dots> \<le> 256 ^ 3" using True by (intro power_increasing) simp_all
    finally have v: "unat (GetLow64 a) = bn_val a" using assms by (simp add: GetLow64_val)
    have "unat (push_bit (8 * (3 - n)) (GetLow64 a)) = bn_val a * 256 ^ (3 - n)"
    proof -
      have pw: "unat (2 ^ (8 * (3 - n)) :: u64) = 256 ^ (3 - n)"
        by (subst unat_pow2_64) (simp_all add: power_mult)
      have "unat (GetLow64 a * 2 ^ (8 * (3 - n))) = unat (GetLow64 a) * unat (2 ^ (8 * (3 - n)) :: u64)"
        using lt True v pw by (intro unat_mul_64) (simp add: compact_top_def)
      then show ?thesis using v pw by (simp only: push_bit_eq_mult)
    qed
    then show ?thesis using True lt by (simp add: compact_top_def unat_ucast_64_32)
  next
    case False
    then show ?thesis using lt assms
      by (simp add: compact_top_def unat_ucast_64_32 GetLow64_val bn_val_shr power_mult)
  qed
qed

text \<open>Mantissa and exponent after the sign-bit correction.\<close>

definition compact_norm :: "nat \<Rightarrow> nat \<Rightarrow> nat \<times> nat" where
  "compact_norm v n = (let m = compact_top v n in if m \<ge> 8388608 then (m div 256, n + 1) else (m, n))"

lemma compact_or_val:
  assumes "m < 8388608" "n < 256" "unat w = m"
  shows "w AND NOT 0x007FFFFF = (0 :: u32)" "unat (w OR push_bit 24 (of_nat n)) = m + n * 16777216"
proof -
  have "w AND 0x007FFFFF = w" using assms by (intro word_unat_eq_iff [THEN iffD2]) (simp add: unat_and_mask23)
  then have "w AND NOT 0x007FFFFF = (w AND 0x007FFFFF) AND NOT 0x007FFFFF" by simp
  also have "\<dots> = 0" by (simp add: and.assoc)
  finally show "w AND NOT 0x007FFFFF = (0 :: u32)" .
  have un: "unat (push_bit 24 (of_nat n) :: u32) = n * 16777216"
    using assms(2) by (simp add: push_bit_eq_mult unat_word_ariths unat_of_nat)
  have "w AND push_bit 24 (of_nat n) = (w AND 0x007FFFFF) AND push_bit 24 (of_nat n)"
    using \<open>w AND 0x007FFFFF = w\<close> by simp
  also have "\<dots> = 0"
  proof -
    have "(0x007FFFFF :: u32) = mask 23" by (simp add: mask_eq_exp_minus_1)
    then have "(0x007FFFFF :: u32) AND push_bit 24 (of_nat n) = 0"
      by (auto simp: bit_eq_iff bit_and_iff bit_push_bit_iff bit_mask_iff)
    then show ?thesis by (simp add: and.assoc)
  qed
  finally show "unat (w OR push_bit 24 (of_nat n)) = m + n * 16777216"
    using un assms(3) by (simp add: unat_or_disjoint)
qed

lemma GetCompact_val:
  assumes "length a = 8" and "compact_norm (bn_val a) (compact_size (bn_bits a)) = (m, e)"
  shows "\<exists>c. GetCompact a False = Some c \<and> unat c = m + e * 16777216" "m < 8388608" "e \<le> 33"
proof -
  define n where "n = compact_size (bn_bits a)"
  define w :: u32 where "w = (if n \<le> 3 then ucast (push_bit (8 * (3 - n)) (GetLow64 a))
               else ucast (GetLow64 (bn_shr a (8 * (n - 3)))))"
  have w: "unat w = compact_top (bn_val a) n"
    unfolding w_def n_def by (rule GetCompact_top [OF assms(1)])
  have lt: "compact_top (bn_val a) n < 16777216" and n: "n \<le> 32"
    unfolding n_def by (intro compact_top_less compact_size_bounds assms)+
  have odd: "odd (unat w div 8388608) \<longleftrightarrow> unat w \<ge> 8388608"
  proof -
    have "unat w div 8388608 < 2" using lt w by (simp add: div_less_iff_less_mult)
    then have "odd (unat w div 8388608) \<longleftrightarrow> unat w div 8388608 \<noteq> 0" by (auto simp: less_2_cases_iff)
    then show ?thesis by (simp add: div_eq_0_iff not_less)
  qed
  define w' where "w' = (if unat w \<ge> 8388608 then drop_bit 8 w else w)"
  have me: "m = unat w'" "e = (if unat w \<ge> 8388608 then n + 1 else n)"
    using assms(2) w by (auto simp: compact_norm_def n_def [symmetric] Let_def w'_def unat_drop_bit split: if_splits)
  show m: "m < 8388608" using me lt w by (simp add: w'_def unat_drop_bit div_less_iff_less_mult)
  show "e \<le> 33" using me n by simp
  then have "e < 256" by simp
  note c = compact_or_val [OF m this me(1) [symmetric]]
  have "GetCompact a False = Some (w' OR push_bit 24 (of_nat e))"
    using c(1) \<open>e < 256\<close> me(2) unfolding w'_def
    by (cases "unat w \<ge> 8388608")
       (simp_all add: GetCompact_def Let_def compact_size_def [symmetric] n_def [symmetric]
        w_def [symmetric] and_bit23 odd)
  then show "\<exists>c. GetCompact a False = Some c \<and> unat c = m + e * 16777216" using c(2) by blast
qed

subsection \<open>Round trip\<close>

lemma compact_fields:
  assumes "unat c = m + e * 16777216" "m < 8388608"
  shows "compact_mant c = m" "compact_exp c = e" "even (unat c div 8388608)"
proof -
  have *: "unat c = m + 8388608 * (2 * e)" using assms by simp
  have "unat c div 8388608 = 2 * e" unfolding * using assms(2) by simp
  moreover have "unat c mod 8388608 = m" unfolding * by (simp only: mod_mult_self2 mod_less [OF assms(2)])
  ultimately show "compact_mant c = m" "even (unat c div 8388608)" by (simp_all add: compact_mant_def)
  show "compact_exp c = e" using assms by (simp add: compact_exp_def)
qed

text \<open>The value that a normalised mantissa and exponent stand for.\<close>

definition compact_decode :: "nat \<Rightarrow> nat \<Rightarrow> nat" where
  "compact_decode m e = (if e \<le> 3 then m div 256 ^ (3 - e) else m * 256 ^ (e - 3))"

lemma compact_top_decode:
  assumes "v < 256 ^ n" "v \<noteq> 0 \<Longrightarrow> 256 ^ (n - 1) \<le> v" "n = 0 \<longleftrightarrow> v = 0"
  shows "compact_decode (compact_top v n) n \<le> v"
    "v \<noteq> 0 \<Longrightarrow> (v - compact_decode (compact_top v n) n) * 65536 \<le> v"
proof -
  show "compact_decode (compact_top v n) n \<le> v" by (simp add: compact_decode_def compact_top_def)
  assume nz: "v \<noteq> 0"
  show "(v - compact_decode (compact_top v n) n) * 65536 \<le> v"
  proof (cases "n \<le> 3")
    case False
    let ?b = "256 ^ (n - 3) :: nat"
    have "v - v div ?b * ?b = v mod ?b" by (simp add: minus_div_mult_eq_mod)
    then have "(v - v div ?b * ?b) * 65536 \<le> ?b * 256 ^ 2" by (simp add: less_imp_le)
    also have "\<dots> = 256 ^ (n - 1)"
    proof -
      have "n - 1 = (n - 3) + 2" using False by simp
      then show ?thesis by (simp only: power_add)
    qed
    also have "\<dots> \<le> v" using nz by (rule assms)
    finally show ?thesis using False by (simp add: compact_decode_def compact_top_def)
  qed (simp add: compact_decode_def compact_top_def)
qed

lemma compact_norm_decode:
  assumes "v < 256 ^ n" "v \<noteq> 0 \<Longrightarrow> 256 ^ (n - 1) \<le> v" "n = 0 \<longleftrightarrow> v = 0"
    and "compact_norm v n = (m, e)"
  shows "compact_decode m e \<le> v" "v \<noteq> 0 \<Longrightarrow> (v - compact_decode m e) * 32768 \<le> v"
proof -
  let ?t = "compact_top v n"
  note top = compact_top_decode [OF assms(1-3)]
  have "compact_decode m e \<le> v \<and> (v \<noteq> 0 \<longrightarrow> (v - compact_decode m e) * 32768 \<le> v)"
  proof (cases "?t \<ge> 8388608")
    case False
    then have "compact_decode m e = compact_decode ?t n"
      using assms(4) by (auto simp: compact_norm_def Let_def)
    then show ?thesis using top by auto
  next
    case True
    then have me: "m = ?t div 256" "e = n + 1" using assms(4) by (auto simp: compact_norm_def Let_def)
    have n0: "n \<noteq> 0" using True assms(3) by (auto simp: compact_top_def)
    show ?thesis
    proof (cases "n \<le> 2")
      case True
      then have "?t = v * 256 ^ (2 - n) * 256" by (simp add: compact_top_def Suc_diff_le numeral_3_eq_3 numeral_2_eq_2)
      then have "compact_decode m e = v" using True me by (simp add: compact_decode_def)
      then show ?thesis by simp
    next
      case False
      let ?b = "256 ^ (n - 2) :: nat"
      have t: "?t = v div 256 ^ (n - 3)" using False by (auto simp: compact_top_def)
      have b: "?b = 256 ^ (n - 3) * 256" using False by (simp add: Suc_diff_le [symmetric] flip: power_Suc2) 
      have "?t div 256 = v div ?b" by (simp add: t b div_mult2_eq)
      then have d: "compact_decode m e = v div ?b * ?b" using False me by (simp add: compact_decode_def)
      have v: "8388608 * 256 ^ (n - 3) \<le> v"
        using True t by (simp add: less_eq_div_iff_mult_less_eq)
      have "v - v div ?b * ?b = v mod ?b" by (simp add: minus_div_mult_eq_mod)
      then have "(v - v div ?b * ?b) * 32768 \<le> ?b * 32768" by (simp add: less_imp_le)
      also have "\<dots> = 8388608 * 256 ^ (n - 3)" by (simp add: b)
      finally show ?thesis using v d by simp
    qed
  qed
  then show "compact_decode m e \<le> v" "v \<noteq> 0 \<Longrightarrow> (v - compact_decode m e) * 32768 \<le> v" by blast+
qed

lemma GetCompact_decodes:
  assumes "length a = 8"
  shows "\<exists>c. GetCompact a False = Some c \<and> \<not> fst (snd (SetCompact c)) \<and> \<not> snd (snd (SetCompact c))
     \<and> bn_val (fst (SetCompact c)) \<le> bn_val a
     \<and> (bn_val a - bn_val (fst (SetCompact c))) * 2 ^ 15 \<le> bn_val a"
proof -
  define n where "n = compact_size (bn_bits a)"
  obtain m e where me: "compact_norm (bn_val a) n = (m, e)" by fastforce
  note b = compact_size_bounds [OF assms(1), folded n_def]
  obtain c where c: "GetCompact a False = Some c" "unat c = m + e * 16777216"
    and m: "m < 8388608" and e: "e \<le> 33"
    using GetCompact_val [OF assms, folded n_def, OF me] by blast
  note f = compact_fields [OF c(2) m]
  note d = compact_norm_decode [OF b(2-4) me]
  have neg: "\<not> fst (snd (SetCompact c))" using f(3) by (simp add: SetCompact_flags)
  have ovf: "\<not> snd (snd (SetCompact c))"
  proof -
    have "m \<le> 65535" if "e > 32"
    proof -
      have "compact_top (bn_val a) n \<ge> 8388608" using that me b(1) by (auto simp: compact_norm_def Let_def split: if_splits)
      then have "m = compact_top (bn_val a) n div 256" using me by (simp add: compact_norm_def Let_def)
      moreover have "compact_top (bn_val a) n div 256 < 65536"
        using compact_top_less [OF b(2)] by (simp add: div_less_iff_less_mult)
      ultimately show ?thesis by simp
    qed
    then show ?thesis using e f by (auto simp: SetCompact_flags)
  qed
  have "bn_val (fst (SetCompact c)) = compact_decode m e"
  proof (cases "e \<le> 3")
    case True
    then show ?thesis using f by (simp add: SetCompact_val compact_decode_def)
  next
    case False
    then have "m * 256 ^ (e - 3) < 2 ^ 256" using compact_no_overflow_fits [OF ovf] f by simp
    then show ?thesis using False f by (simp add: SetCompact_val compact_decode_def)
  qed
  then show ?thesis using c neg ovf d by (cases "bn_val a = 0") auto
qed

text \<open>
  C27. The compact encoding of targets: every 256-bit value encodes without an assertion failure,
  its code decodes with neither the negative nor the overflow flag, to a value that is at most
  the original and differs from it by less than one part in \<open>2 ^ 15\<close>.
\<close>

theorem SetCompact_GetCompact:
  assumes "length a = 8"
  shows "\<exists>c. GetCompact a False = Some c \<and> \<not> fst (snd (SetCompact c)) \<and> \<not> snd (snd (SetCompact c))
     \<and> bn_val (fst (SetCompact c)) \<le> bn_val a
     \<and> (bn_val a - bn_val (fst (SetCompact c))) * 2 ^ 15 \<le> bn_val a"
  using assms by (rule GetCompact_decodes)

theorem SetCompact_GetCompact_witness:
  "\<exists>c. GetCompact [0, 0, 0, 0, 0, 0, 0x12345678, 0] False = Some c \<and> \<not> fst (snd (SetCompact c))"
  using SetCompact_GetCompact [of "[0, 0, 0, 0, 0, 0, 0x12345678, 0]"] by auto

end
