(* ===== verification/BlockIndex.thy ===== *)
theory BlockIndex
  imports Compact
begin

text \<open>
  The block index of \<^verbatim>\<open>chain/chain.h\<close>: \<open>CBlockIndex\<close> entries that point at their predecessor
  (\<open>pprev\<close>) and at some further ancestor (\<open>pskip\<close>), with the operations of \<^verbatim>\<open>chain.h\<close> and of
  \<^verbatim>\<open>core/main.cpp\<close> that walk them. Entries live in a store from pointers to records and are
  never freed; a pointer that may be \<open>NULL\<close> is an option. \<open>index_wf\<close> is the invariant of the
  store: heights count the predecessors and every skip pointer is the ancestor at
  \<open>GetSkipHeight\<close>. The main result is that \<open>GetAncestor\<close>, which follows skip pointers, returns
  what walking the predecessors one by one returns.
\<close>

type_synonym ptr = nat

record CBlockIndex =
  phashBlock :: "base_uint option"
  pprev :: "ptr option"
  pskip :: "ptr option"
  nHeight :: int
  nFile :: int
  nDataPos :: u32
  nUndoPos :: u32
  nChainWork :: base_uint
  nTx :: u32
  nChainTx :: u32
  nStatus :: u32
  nVersion :: int
  hashMerkleRoot :: base_uint
  nTime :: u32
  nBits :: u32
  nNonce :: u32
  nSequenceId :: u32
  nHeightMinedByMe :: int
  nCanMine :: u32
  kMiner :: bytes
  fPassedMinerPrecheck :: bool
  nFirstSuccessor :: int
  pNextOnThisHeight :: "ptr option"

text \<open>
  The one field left out is \<open>dTimeReceived\<close>, a \<open>double\<close> that only the network code writes and
  that no operation modelled here reads.
\<close>

type_synonym index_store = "ptr \<Rightarrow> CBlockIndex"

definition SetNull :: CBlockIndex where
  "SetNull = \<lparr>phashBlock = None, pprev = None, pskip = None, nHeight = 0, nFile = 0,
     nDataPos = 0, nUndoPos = 0, nChainWork = bn_zero 8, nTx = 0, nChainTx = 0, nStatus = 0,
     nVersion = 0, hashMerkleRoot = bn_zero 8, nTime = 0, nBits = 0, nNonce = 0, nSequenceId = 0,
     nHeightMinedByMe = 0, nCanMine = 0, kMiner = [],
     fPassedMinerPrecheck = False, nFirstSuccessor = 0, pNextOnThisHeight = None\<rparr>"

definition GetBlockHash :: "CBlockIndex \<Rightarrow> base_uint cpp" where
  "GetBlockHash b = (case phashBlock b of None \<Rightarrow> Inl NullPointer | Some h \<Rightarrow> Inr h)"

definition GetBlockTime :: "CBlockIndex \<Rightarrow> int" where
  "GetBlockTime b = uint (nTime b)"

subsection \<open>Validity levels\<close>

abbreviation "BLOCK_VALID_TREE \<equiv> (2 :: u32)"
abbreviation "BLOCK_VALID_TRANSACTIONS \<equiv> (3 :: u32)"
abbreviation "BLOCK_VALID_MASK \<equiv> (7 :: u32)"
abbreviation "BLOCK_FAILED_MASK \<equiv> (96 :: u32)"

definition IsValid :: "CBlockIndex \<Rightarrow> u32 \<Rightarrow> bool cpp" where
  "IsValid b nUpTo =
     bind_cpp (assert_cpp (nUpTo AND NOT BLOCK_VALID_MASK = 0)) (\<lambda>_.
       Inr (if nStatus b AND BLOCK_FAILED_MASK \<noteq> 0 then False
            else nStatus b AND BLOCK_VALID_MASK \<ge> nUpTo))"

definition RaiseValidity :: "CBlockIndex \<Rightarrow> u32 \<Rightarrow> (CBlockIndex \<times> bool) cpp" where
  "RaiseValidity b nUpTo =
     bind_cpp (assert_cpp (nUpTo AND NOT BLOCK_VALID_MASK = 0)) (\<lambda>_.
       Inr (if nStatus b AND BLOCK_FAILED_MASK \<noteq> 0 then (b, False)
            else if nStatus b AND BLOCK_VALID_MASK < nUpTo
            then (b\<lparr>nStatus := (nStatus b AND NOT BLOCK_VALID_MASK) OR nUpTo\<rparr>, True)
            else (b, False)))"

subsection \<open>Median time and version majorities\<close>

abbreviation nMedianTimeSpan :: nat where
  "nMedianTimeSpan \<equiv> 11"

fun median_fill :: "index_store \<Rightarrow> nat \<Rightarrow> ptr option \<Rightarrow> int list \<Rightarrow> int list" where
  "median_fill mem 0 p acc = acc"
| "median_fill mem (Suc n) None acc = acc"
| "median_fill mem (Suc n) (Some p) acc =
     median_fill mem n (pprev (mem p)) (GetBlockTime (mem p) # acc)"

definition GetMedianTimePast :: "index_store \<Rightarrow> ptr \<Rightarrow> int" where
  "GetMedianTimePast mem p =
     (let xs = sort (median_fill mem nMedianTimeSpan (Some p) []) in xs ! (length xs div 2))"

fun super_majority_loop :: "index_store \<Rightarrow> int \<Rightarrow> nat \<Rightarrow> nat \<Rightarrow> ptr option \<Rightarrow> nat \<Rightarrow> nat" where
  "super_majority_loop mem minVersion nRequired 0 pstart nFound = nFound"
| "super_majority_loop mem minVersion nRequired (Suc n) pstart nFound =
     (if nFound < nRequired
      then (case pstart of
              None \<Rightarrow> nFound
            | Some p \<Rightarrow> super_majority_loop mem minVersion nRequired n (pprev (mem p))
                (if nVersion (mem p) \<ge> minVersion then nFound + 1 else nFound))
      else nFound)"

definition IsSuperMajority :: "index_store \<Rightarrow> nat \<Rightarrow> int \<Rightarrow> ptr option \<Rightarrow> nat \<Rightarrow> bool" where
  "IsSuperMajority mem nToCheck minVersion pstart nRequired =
     (super_majority_loop mem minVersion nRequired nToCheck pstart 0 \<ge> nRequired)"

subsection \<open>Ancestors\<close>

definition InvertLowestOne :: "int \<Rightarrow> int" where
  "InvertLowestOne n = n AND (n - 1)"

definition GetSkipHeight :: "int \<Rightarrow> int" where
  "GetSkipHeight height =
     (if height < 2 then 0
      else if height AND 1 \<noteq> 0 then InvertLowestOne (InvertLowestOne (height - 1)) + 1
      else InvertLowestOne height)"

lemma InvertLowestOne_bounds: "0 < n \<Longrightarrow> 0 \<le> InvertLowestOne n \<and> InvertLowestOne n < n"
proof -
  assume "0 < n"
  then have "n AND (n - 1) \<le> n - 1" "0 \<le> n AND (n - 1)" by (simp_all add: AND_upper2)
  then show ?thesis by (simp add: InvertLowestOne_def)
qed

lemma GetSkipHeight_bounds: "0 < h \<Longrightarrow> 0 \<le> GetSkipHeight h \<and> GetSkipHeight h < h"
proof (cases "h < 2")
  case False
  define x where "x = InvertLowestOne (h - 1)"
  have x: "0 \<le> x \<and> x < h - 1"
    using False unfolding x_def by (intro InvertLowestOne_bounds) simp
  have "0 \<le> InvertLowestOne x \<and> InvertLowestOne x + 1 < h"
  proof (cases "x = 0")
    case True
    then show ?thesis using False by (simp add: InvertLowestOne_def)
  next
    case False
    then show ?thesis using x InvertLowestOne_bounds [of x] by simp
  qed
  then have "0 \<le> InvertLowestOne (InvertLowestOne (h - 1)) \<and>
      InvertLowestOne (InvertLowestOne (h - 1)) + 1 < h" by (simp add: x_def)
  then show ?thesis using False InvertLowestOne_bounds [of h] by (simp add: GetSkipHeight_def)
qed (simp add: GetSkipHeight_def)

text \<open>
  The loop of \<open>GetAncestor\<close>. \<open>GetAncestor\<close> enters it only with \<open>0 \<le> height\<close>; the loop repeats
  that test because the recursion needs it.
\<close>

function ancestor_loop :: "index_store \<Rightarrow> int \<Rightarrow> ptr option \<Rightarrow> int \<Rightarrow> ptr option cpp" where
  "ancestor_loop mem height pindexWalk heightWalk =
     (if heightWalk > height \<and> 0 \<le> height then
        (let heightSkip = GetSkipHeight heightWalk;
             heightSkipPrev = GetSkipHeight (heightWalk - 1)
         in case pindexWalk of
              None \<Rightarrow> Inl NullPointer
            | Some p \<Rightarrow>
                if heightSkip = height \<or>
                   (heightSkip > height \<and> \<not> (heightSkipPrev < heightSkip - 2 \<and> heightSkipPrev \<ge> height))
                then ancestor_loop mem height (pskip (mem p)) heightSkip
                else ancestor_loop mem height (pprev (mem p)) (heightWalk - 1))
      else Inr pindexWalk)"
  by pat_completeness auto
termination
  by (relation "measure (\<lambda>(mem, height, p, heightWalk). nat heightWalk)")
     (use GetSkipHeight_bounds in auto)

declare ancestor_loop.simps [simp del]

definition GetAncestor :: "index_store \<Rightarrow> ptr \<Rightarrow> int \<Rightarrow> ptr option cpp" where
  "GetAncestor mem p height =
     (if height > nHeight (mem p) \<or> height < 0 then Inr None
      else ancestor_loop mem height (Some p) (nHeight (mem p)))"

definition BuildSkip :: "index_store \<Rightarrow> ptr \<Rightarrow> index_store cpp" where
  "BuildSkip mem p =
     (case pprev (mem p) of
        None \<Rightarrow> Inr mem
      | Some q \<Rightarrow>
          bind_cpp (GetAncestor mem q (GetSkipHeight (nHeight (mem p)))) (\<lambda>r.
            Inr (mem(p := (mem p)\<lparr>pskip := r\<rparr>))))"

section \<open>Walking the predecessors\<close>

fun walk :: "index_store \<Rightarrow> nat \<Rightarrow> ptr \<Rightarrow> ptr option" where
  "walk mem 0 p = Some p"
| "walk mem (Suc n) p = (case pprev (mem p) of None \<Rightarrow> None | Some q \<Rightarrow> walk mem n q)"

text \<open>The invariant of the store on the allocated pointers \<open>D\<close>.\<close>

definition entry_wf :: "index_store \<Rightarrow> ptr set \<Rightarrow> ptr \<Rightarrow> bool" where
  "entry_wf mem D p \<longleftrightarrow> 0 \<le> nHeight (mem p) \<and>
     (case pprev (mem p) of
        None \<Rightarrow> nHeight (mem p) = 0
      | Some q \<Rightarrow> q \<in> D \<and> nHeight (mem p) = nHeight (mem q) + 1 \<and>
          pskip (mem p) = walk mem (nat (nHeight (mem p) - GetSkipHeight (nHeight (mem p)))) p)"

definition index_wf :: "index_store \<Rightarrow> ptr set \<Rightarrow> bool" where
  "index_wf mem D \<longleftrightarrow> (\<forall>p \<in> D. entry_wf mem D p)"

lemma index_wfD:
  assumes "index_wf mem D" "p \<in> D"
  shows "0 \<le> nHeight (mem p)" "pprev (mem p) = None \<longleftrightarrow> nHeight (mem p) = 0"
    and "pprev (mem p) = Some q \<Longrightarrow> q \<in> D \<and> nHeight (mem p) = nHeight (mem q) + 1"
    and "pprev (mem p) \<noteq> None \<Longrightarrow>
      pskip (mem p) = walk mem (nat (nHeight (mem p) - GetSkipHeight (nHeight (mem p)))) p"
proof -
  have e: "entry_wf mem D p" "\<And>q. q \<in> D \<Longrightarrow> entry_wf mem D q"
    using assms by (auto simp: index_wf_def)
  show "0 \<le> nHeight (mem p)" using e(1) by (simp add: entry_wf_def)
  show "pprev (mem p) = None \<longleftrightarrow> nHeight (mem p) = 0"
    using e by (fastforce simp: entry_wf_def split: option.splits)
  show "pprev (mem p) = Some q \<Longrightarrow> q \<in> D \<and> nHeight (mem p) = nHeight (mem q) + 1"
    using e(1) by (simp add: entry_wf_def)
  show "pprev (mem p) \<noteq> None \<Longrightarrow>
      pskip (mem p) = walk mem (nat (nHeight (mem p) - GetSkipHeight (nHeight (mem p)))) p"
    using e(1) by (auto simp: entry_wf_def)
qed

lemma walk_height:
  assumes "index_wf mem D" "p \<in> D" "int n \<le> nHeight (mem p)"
  shows "\<exists>q. walk mem n p = Some q \<and> q \<in> D \<and> nHeight (mem q) = nHeight (mem p) - int n"
  using assms(2,3)
proof (induction n arbitrary: p)
  case (Suc n)
  have "pprev (mem p) \<noteq> None" using index_wfD(2) [OF assms(1) Suc.prems(1)] Suc.prems(2) by auto
  then obtain r where r: "pprev (mem p) = Some r" by auto
  then have "r \<in> D" "nHeight (mem p) = nHeight (mem r) + 1"
    using index_wfD(3) [OF assms(1) Suc.prems(1)] by blast+
  then show ?case using Suc.IH [of r] Suc.prems(2) r by auto
qed simp

lemma walk_add: "walk mem (m + n) p = (case walk mem m p of None \<Rightarrow> None | Some q \<Rightarrow> walk mem n q)"
  by (induction m arbitrary: p) (auto split: option.splits)

lemma walk_above_root:
  assumes "index_wf mem D" "p \<in> D" "nHeight (mem p) < int n"
  shows "walk mem n p = None"
  using assms(2,3)
proof (induction n arbitrary: p)
  case 0
  then show ?case using index_wfD(1) [OF assms(1)] by fastforce
next
  case (Suc n)
  show ?case
  proof (cases "pprev (mem p)")
    case (Some q)
    then have "q \<in> D" "nHeight (mem p) = nHeight (mem q) + 1"
      using index_wfD(3) [OF assms(1) Suc.prems(1)] by blast+
    then show ?thesis using Some Suc.IH [of q] Suc.prems by simp
  qed simp
qed

lemma ancestor_loop_walk:
  assumes "index_wf mem D" "p \<in> D" "0 \<le> height" "height \<le> nHeight (mem p)"
  shows "ancestor_loop mem height (Some p) (nHeight (mem p))
       = Inr (walk mem (nat (nHeight (mem p) - height)) p)"
  using assms(2-)
proof (induction "nat (nHeight (mem p))" arbitrary: p rule: less_induct)
  case less
  let ?h = "nHeight (mem p)" and ?s = "GetSkipHeight (nHeight (mem p))"
  note unfold = ancestor_loop.simps [of mem height "Some p" ?h]
  show ?case
  proof (cases "?h > height")
    case False
    then have "height = ?h" using less.prems by simp
    then show ?thesis by (simp add: ancestor_loop.simps)
  next
    case True
    then have h0: "0 < ?h" using less.prems by simp
    note sk = GetSkipHeight_bounds [OF h0]
    have prev: "pprev (mem p) \<noteq> None" using h0 index_wfD(2) [OF assms(1) less.prems(1)] by auto
    show ?thesis
    proof (cases "?s = height \<or> (?s > height \<and> \<not> (GetSkipHeight (?h - 1) < ?s - 2 \<and> GetSkipHeight (?h - 1) \<ge> height))")
      case follow: True
      obtain q where q: "walk mem (nat (?h - ?s)) p = Some q" "q \<in> D" "nHeight (mem q) = ?s"
        using walk_height [OF assms(1) less.prems(1), of "nat (?h - ?s)"] sk by auto
      have "pskip (mem p) = Some q" using index_wfD(4) [OF assms(1) less.prems(1) prev] q by simp
      then have "ancestor_loop mem height (Some p) ?h = ancestor_loop mem height (Some q) (nHeight (mem q))"
        using True less.prems(2) follow q(3) by (simp add: unfold Let_def)
      also have "\<dots> = Inr (walk mem (nat (?s - height)) q)"
        using less.hyps [of q] q sk h0 less.prems follow by auto
      also have "walk mem (nat (?s - height)) q = walk mem (nat (?h - ?s) + nat (?s - height)) p"
        using q(1) by (simp add: walk_add)
      also have "nat (?h - ?s) + nat (?s - height) = nat (?h - height)" using sk follow by auto
      finally show ?thesis .
    next
      case False
      obtain q where q: "pprev (mem p) = Some q" using prev by auto
      then have qD: "q \<in> D" "?h = nHeight (mem q) + 1"
        using index_wfD(3) [OF assms(1) less.prems(1)] by blast+
      have "ancestor_loop mem height (Some p) ?h = ancestor_loop mem height (Some q) (?h - 1)"
        using True less.prems(2) False q by (auto simp: unfold Let_def)
      also have "?h - 1 = nHeight (mem q)" using qD by simp
      also have "ancestor_loop mem height (Some q) (nHeight (mem q)) = Inr (walk mem (nat (nHeight (mem q) - height)) q)"
        using less.hyps [of q] qD True less.prems by auto
      also have "walk mem (nat (nHeight (mem q) - height)) q = walk mem (Suc (nat (nHeight (mem q) - height))) p"
        using q by simp
      also have "Suc (nat (nHeight (mem q) - height)) = nat (?h - height)" using True qD by simp
      finally show ?thesis .
    qed
  qed
qed

lemma GetAncestor_walk:
  assumes "index_wf mem D" "p \<in> D"
  shows "GetAncestor mem p height =
     Inr (if 0 \<le> height \<and> height \<le> nHeight (mem p) then walk mem (nat (nHeight (mem p) - height)) p
          else None)"
  using ancestor_loop_walk [OF assms, of height] by (auto simp: GetAncestor_def)

lemma GetAncestor_Some:
  assumes "index_wf mem D" "p \<in> D" "0 \<le> height" "height \<le> nHeight (mem p)"
  shows "\<exists>q. GetAncestor mem p height = Inr (Some q) \<and> q \<in> D \<and> nHeight (mem q) = height
           \<and> walk mem (nat (nHeight (mem p) - height)) p = Some q"
  using walk_height [OF assms(1,2), of "nat (nHeight (mem p) - height)"] assms
  by (auto simp: GetAncestor_walk)

subsection \<open>Adding an entry\<close>

text \<open>Entries of \<open>D\<close> do not see a change of the store outside \<open>D\<close>.\<close>

lemma walk_frame:
  assumes "index_wf mem D" "p \<in> D" "\<And>q. q \<in> D \<Longrightarrow> pprev (mem' q) = pprev (mem q)"
  shows "walk mem' n p = walk mem n p"
  using assms(2)
proof (induction n arbitrary: p)
  case (Suc n)
  show ?case using Suc.IH index_wfD(3) [OF assms(1) Suc.prems] assms(3) [OF Suc.prems]
    by (auto split: option.splits)
qed simp

lemma index_wf_frame:
  assumes "index_wf mem D"
    and "\<And>q. q \<in> D \<Longrightarrow> pprev (mem' q) = pprev (mem q) \<and> pskip (mem' q) = pskip (mem q) \<and> nHeight (mem' q) = nHeight (mem q)"
  shows "index_wf mem' D"
  unfolding index_wf_def entry_wf_def
proof (intro ballI)
  fix p assume p: "p \<in> D"
  have w: "walk mem' n p = walk mem n p" for n
    using assms p by (intro walk_frame [OF assms(1) p]) simp
  show "0 \<le> nHeight (mem' p) \<and>
     (case pprev (mem' p) of
        None \<Rightarrow> nHeight (mem' p) = 0
      | Some q \<Rightarrow> q \<in> D \<and> nHeight (mem' p) = nHeight (mem' q) + 1 \<and>
          pskip (mem' p) = walk mem' (nat (nHeight (mem' p) - GetSkipHeight (nHeight (mem' p)))) p)"
    using assms p w index_wfD [OF assms(1) p] by (auto split: option.splits)
qed

text \<open>A new entry whose skip pointer \<open>BuildSkip\<close> sets extends the store.\<close>

lemma index_wf_extend:
  assumes wf: "index_wf mem D" and fresh: "p \<notin> D" and q: "q \<in> D"
    and new: "pprev (mem p) = Some q" "nHeight (mem p) = nHeight (mem q) + 1"
  shows "\<exists>mem'. BuildSkip mem p = Inr mem' \<and> index_wf mem' (insert p D)
    \<and> (\<exists>r. mem' = mem(p := (mem p)\<lparr>pskip := r\<rparr>))"
proof -
  let ?h = "nHeight (mem p)"
  have h0: "0 < ?h" using index_wfD(1) [OF wf q] new(2) by simp
  note sk = GetSkipHeight_bounds [OF h0]
  define n where "n = nat (nHeight (mem q) - GetSkipHeight ?h)"
  have anc: "GetAncestor mem q (GetSkipHeight ?h) = Inr (walk mem n q)"
    using sk new(2) by (simp add: GetAncestor_walk [OF wf q] n_def)
  define mem' where "mem' = mem(p := (mem p)\<lparr>pskip := walk mem n q\<rparr>)"
  have b: "BuildSkip mem p = Inr mem'" by (simp add: BuildSkip_def new(1) anc mem'_def)
  have old: "mem' r = mem r" if "r \<in> D" for r using that fresh by (auto simp: mem'_def)
  have "index_wf mem' D" using wf by (rule index_wf_frame) (simp add: old)
  moreover have "entry_wf mem' (insert p D) p"
  proof -
    have "nat (?h - GetSkipHeight ?h) = Suc n" using sk new(2) unfolding n_def by linarith
    moreover have "walk mem' n q = walk mem n q" by (rule walk_frame [OF wf q]) (simp add: old)
    ultimately show ?thesis using h0 q old [OF q] new by (simp add: entry_wf_def mem'_def)
  qed
  ultimately have "index_wf mem' (insert p D)"
    by (auto simp: index_wf_def entry_wf_def split: option.splits)
  then show ?thesis using b by (auto simp: mem'_def)
qed

text \<open>
  C33. On a well-formed index \<open>GetAncestor\<close> never dereferences a null pointer, and following skip
  pointers gives the block that walking the predecessors gives: the ancestor at the requested
  height, or \<open>NULL\<close> for a height outside the chain of the block.
\<close>

theorem GetAncestor_correct:
  assumes "index_wf mem D" "p \<in> D"
  shows "\<exists>r. GetAncestor mem p height = Inr r \<and>
     (if 0 \<le> height \<and> height \<le> nHeight (mem p)
      then \<exists>q. r = Some q \<and> q \<in> D \<and> nHeight (mem q) = height
             \<and> walk mem (nat (nHeight (mem p) - height)) p = Some q
      else r = None)"
proof (cases "0 \<le> height \<and> height \<le> nHeight (mem p)")
  case True
  then show ?thesis using GetAncestor_Some [OF assms, of height] by auto
next
  case False
  then show ?thesis using GetAncestor_walk [OF assms, of height] by auto
qed

definition example_chain :: index_store where
  "example_chain = (\<lambda>_. SetNull)
     (1 := SetNull\<lparr>nHeight := 1, pprev := Some 0, pskip := Some 0\<rparr>,
      2 := SetNull\<lparr>nHeight := 2, pprev := Some 1, pskip := Some 0\<rparr>,
      3 := SetNull\<lparr>nHeight := 2, pprev := Some 1, pskip := Some 0\<rparr>)"

lemma example_chain_wf: "index_wf example_chain {0, 1, 2, 3}"
  by (simp add: index_wf_def entry_wf_def example_chain_def SetNull_def GetSkipHeight_def
      InvertLowestOne_def eval_nat_numeral)

theorem GetAncestor_correct_witness: "GetAncestor example_chain 2 0 = Inr (Some 0)"
  using GetAncestor_correct [OF example_chain_wf, of 2 0]
  by (auto simp: example_chain_def SetNull_def eval_nat_numeral)

end
