(* ===== verification/Chain.thy ===== *)
theory Chain
  imports BlockIndex
begin

text \<open>
  The active chain (\<open>CChain\<close>, \<^verbatim>\<open>chain/chain.h\<close> and \<^verbatim>\<open>chain/chain.cpp\<close>) and the fork searches
  of \<^verbatim>\<open>core/main.cpp\<close>. A chain is the vector \<open>vChain\<close> of entry pointers by height. The loops
  that walk \<open>pprev\<close> end only because the index is a forest, so they are partial functions:
  \<open>None\<close> is a walk that never returns, and the theorems prove that it does not happen on a
  well-formed index.
\<close>

type_synonym vchain = "ptr option list"

definition Genesis :: "vchain \<Rightarrow> ptr option" where
  "Genesis v = (if length v > 0 then v ! 0 else None)"

definition Tip :: "vchain \<Rightarrow> ptr option" where
  "Tip v = (if length v > 0 then v ! (length v - 1) else None)"

definition chain_at :: "vchain \<Rightarrow> int \<Rightarrow> ptr option" where
  "chain_at v h = (if h < 0 \<or> h \<ge> int (length v) then None else v ! nat h)"

definition Contains :: "index_store \<Rightarrow> vchain \<Rightarrow> ptr \<Rightarrow> bool" where
  "Contains mem v p = (chain_at v (nHeight (mem p)) = Some p)"

definition Next :: "index_store \<Rightarrow> vchain \<Rightarrow> ptr \<Rightarrow> ptr option" where
  "Next mem v p = (if Contains mem v p then chain_at v (nHeight (mem p) + 1) else None)"

definition Height :: "vchain \<Rightarrow> int" where
  "Height v = int (length v) - 1"

definition vec_resize :: "nat \<Rightarrow> 'a \<Rightarrow> 'a list \<Rightarrow> 'a list" where
  "vec_resize n x xs = take n xs @ replicate (n - length xs) x"

partial_function (option) set_tip_loop ::
    "index_store \<Rightarrow> vchain \<Rightarrow> ptr option \<Rightarrow> vchain cpp option" where
  "set_tip_loop mem v pindex =
     (case pindex of
        None \<Rightarrow> Some (Inr v)
      | Some p \<Rightarrow>
          if nHeight (mem p) < 0 \<or> nHeight (mem p) \<ge> int (length v) then Some (Inl OutOfRange)
          else if v ! nat (nHeight (mem p)) = Some p then Some (Inr v)
          else set_tip_loop mem (v[nat (nHeight (mem p)) := Some p]) (pprev (mem p)))"

definition SetTip :: "index_store \<Rightarrow> vchain \<Rightarrow> ptr option \<Rightarrow> vchain cpp option" where
  "SetTip mem v pindex =
     (case pindex of
        None \<Rightarrow> Some (Inr [])
      | Some p \<Rightarrow> set_tip_loop mem (vec_resize (nat (nHeight (mem p) + 1)) None v) (Some p))"

partial_function (option) locator_loop ::
    "index_store \<Rightarrow> vchain \<Rightarrow> ptr option \<Rightarrow> int \<Rightarrow> base_uint list \<Rightarrow> base_uint list cpp option" where
  "locator_loop mem v pindex nStep vHave =
     (case pindex of
        None \<Rightarrow> Some (Inr vHave)
      | Some p \<Rightarrow>
          (case GetBlockHash (mem p) of
             Inl e \<Rightarrow> Some (Inl e)
           | Inr hash \<Rightarrow>
               (let vHave = vHave @ [hash] in
                if nHeight (mem p) = 0 then Some (Inr vHave)
                else
                  let h = max (nHeight (mem p) - nStep) 0;
                      nxt = (if Contains mem v p then Inr (chain_at v h) else GetAncestor mem p h)
                  in case nxt of
                       Inl e \<Rightarrow> Some (Inl e)
                     | Inr q \<Rightarrow> locator_loop mem v q
                         (if length vHave > 10 then nStep * 2 else nStep) vHave)))"

definition GetLocator :: "index_store \<Rightarrow> vchain \<Rightarrow> ptr option \<Rightarrow> base_uint list cpp option" where
  "GetLocator mem v pindex =
     locator_loop mem v (case pindex of None \<Rightarrow> Tip v | Some p \<Rightarrow> Some p) 1 []"

partial_function (option) find_fork_loop ::
    "index_store \<Rightarrow> vchain \<Rightarrow> ptr option \<Rightarrow> ptr option option" where
  "find_fork_loop mem v pindex =
     (case pindex of
        None \<Rightarrow> Some None
      | Some p \<Rightarrow> if Contains mem v p then Some (Some p)
                  else find_fork_loop mem v (pprev (mem p)))"

definition FindFork :: "index_store \<Rightarrow> vchain \<Rightarrow> ptr \<Rightarrow> ptr option cpp option" where
  "FindFork mem v p =
     (case (if nHeight (mem p) > Height v then GetAncestor mem p (Height v) else Inr (Some p)) of
        Inl e \<Rightarrow> Some (Inl e)
      | Inr q \<Rightarrow> map_option Inr (find_fork_loop mem v q))"

partial_function (option) lca_loop ::
    "index_store \<Rightarrow> ptr option \<Rightarrow> ptr option \<Rightarrow> (ptr option \<times> ptr option) option" where
  "lca_loop mem pa pb =
     (if pa = pb then Some (pa, pb)
      else case (pa, pb) of
             (Some a, Some b) \<Rightarrow> lca_loop mem (pprev (mem a)) (pprev (mem b))
           | _ \<Rightarrow> Some (pa, pb))"

definition LastCommonAncestor :: "index_store \<Rightarrow> ptr \<Rightarrow> ptr \<Rightarrow> ptr option cpp option" where
  "LastCommonAncestor mem pa pb =
     (let ra = (if nHeight (mem pa) > nHeight (mem pb)
                then GetAncestor mem pa (nHeight (mem pb)) else Inr (Some pa));
          rb = (if \<not> nHeight (mem pa) > nHeight (mem pb) \<and> nHeight (mem pb) > nHeight (mem pa)
                then GetAncestor mem pb (nHeight (mem pa)) else Inr (Some pb))
      in case (ra, rb) of
           (Inr a, Inr b) \<Rightarrow>
             map_option (\<lambda>(a, b). bind_cpp (assert_cpp (a = b)) (\<lambda>_. Inr a)) (lca_loop mem a b)
         | (Inl e, _) \<Rightarrow> Some (Inl e)
         | (_, Inl e) \<Rightarrow> Some (Inl e))"

definition FindForkInGlobalIndex ::
    "index_store \<Rightarrow> (base_uint \<rightharpoonup> ptr) \<Rightarrow> vchain \<Rightarrow> base_uint list \<Rightarrow> ptr option" where
  "FindForkInGlobalIndex mem mapBlockIndex v vHave =
     (case find (\<lambda>hash. case mapBlockIndex hash of None \<Rightarrow> False | Some p \<Rightarrow> Contains mem v p) vHave of
        Some hash \<Rightarrow> mapBlockIndex hash
      | None \<Rightarrow> Genesis v)"

section \<open>Lineages\<close>

text \<open>
  What chains and forks need of the index: predecessors lower the height by one down to the
  roots at height \<open>0\<close>, and the ancestor operation agrees with walking up.
\<close>

locale ancestor_index =
  fixes inv :: "'s \<Rightarrow> 'p set \<Rightarrow> bool" and prev :: "'s \<Rightarrow> 'p \<Rightarrow> 'p option"
    and height :: "'s \<Rightarrow> 'p \<Rightarrow> int" and up :: "'s \<Rightarrow> nat \<Rightarrow> 'p \<Rightarrow> 'p option"
    and anc :: "'s \<Rightarrow> 'p \<Rightarrow> int \<Rightarrow> 'p option cpp"
  assumes up_0: "up s 0 p = Some p"
    and up_Suc: "up s (Suc n) p = (case prev s p of None \<Rightarrow> None | Some q \<Rightarrow> up s n q)"
    and height_nonneg: "inv s D \<Longrightarrow> p \<in> D \<Longrightarrow> 0 \<le> height s p"
    and prev_None: "inv s D \<Longrightarrow> p \<in> D \<Longrightarrow> prev s p = None \<longleftrightarrow> height s p = 0"
    and prev_Some: "inv s D \<Longrightarrow> p \<in> D \<Longrightarrow> prev s p = Some q \<Longrightarrow> q \<in> D \<and> height s p = height s q + 1"
    and anc_up: "inv s D \<Longrightarrow> p \<in> D \<Longrightarrow> 0 \<le> h \<Longrightarrow> h \<le> height s p \<Longrightarrow>
      anc s p h = Inr (up s (nat (height s p - h)) p)"
begin

lemma up_height:
  "inv s D \<Longrightarrow> p \<in> D \<Longrightarrow> up s n p = Some q \<Longrightarrow> q \<in> D \<and> height s p = height s q + int n"
proof (induction n arbitrary: p)
  case (Suc n)
  then obtain r where "prev s p = Some r" "up s n r = Some q"
    by (auto simp: up_Suc split: option.splits)
  then show ?case using Suc prev_Some [of s D p r] by force
qed (simp add: up_0)

lemma up_ex:
  assumes "inv s D" "p \<in> D" "int n \<le> height s p"
  shows "\<exists>q. up s n p = Some q"
  using assms(2,3)
proof (induction n arbitrary: p)
  case (Suc n)
  have "prev s p \<noteq> None" using prev_None [OF assms(1) Suc.prems(1)] Suc.prems(2) by auto
  then obtain r where "prev s p = Some r" by auto
  then show ?case using Suc prev_Some [OF assms(1) Suc.prems(1)] by (auto simp: up_Suc)
qed (simp add: up_0)

lemma up_add: "up s (m + n) p = (case up s m p of None \<Rightarrow> None | Some q \<Rightarrow> up s n q)"
  by (induction m arbitrary: p) (auto simp: up_0 up_Suc split: option.splits)

lemma up_below:
  "up s m p = Some q \<Longrightarrow> up s n p = Some r \<Longrightarrow> m \<le> n \<Longrightarrow> up s (n - m) q = Some r"
  using up_add [of s m "n - m" p] by simp

text \<open>Two lineages of equal height meet at equal depth, and once they meet they stay together.\<close>

lemma meet_depth:
  "inv s D \<Longrightarrow> a \<in> D \<Longrightarrow> b \<in> D \<Longrightarrow> height s a = height s b \<Longrightarrow>
   up s m a = Some q \<Longrightarrow> up s n b = Some q \<Longrightarrow> m = n"
  using up_height [of s D a m q] up_height [of s D b n q] by simp

lemma anc_ex:
  assumes "inv s D" "p \<in> D" "0 \<le> h" "h \<le> height s p"
  shows "\<exists>q. anc s p h = Inr (Some q) \<and> up s (nat (height s p - h)) p = Some q \<and> q \<in> D \<and> height s q = h"
proof -
  obtain q where q: "up s (nat (height s p - h)) p = Some q"
    using up_ex [OF assms(1,2), of "nat (height s p - h)"] assms by auto
  then show ?thesis using anc_up [OF assms] up_height [OF assms(1,2) q] assms by simp
qed

end

interpretation bi: ancestor_index index_wf "\<lambda>mem p. pprev (mem p)" "\<lambda>mem p. nHeight (mem p)" walk GetAncestor
proof (unfold_locales, goal_cases)
  case (4 s D p) then show ?case by (rule index_wfD(2))
next
  case (5 s D p q) then show ?case by (rule index_wfD(3))
qed (simp_all add: index_wfD(1) GetAncestor_walk)

definition is_ancestor :: "index_store \<Rightarrow> ptr \<Rightarrow> ptr \<Rightarrow> bool" where
  "is_ancestor mem q p \<longleftrightarrow> (\<exists>n. walk mem n p = Some q)"

section \<open>Setting the tip\<close>

text \<open>The chain that ends in \<open>p\<close>, and the chains that \<open>SetTip\<close> produces.\<close>

definition chain_of :: "index_store \<Rightarrow> ptr \<Rightarrow> vchain" where
  "chain_of mem p = map (\<lambda>i. walk mem (nat (nHeight (mem p)) - i) p) [0..<nat (nHeight (mem p) + 1)]"

definition chain_wf :: "index_store \<Rightarrow> ptr set \<Rightarrow> vchain \<Rightarrow> bool" where
  "chain_wf mem D v \<longleftrightarrow> v = [] \<or> (\<exists>t \<in> D. v = chain_of mem t)"

text \<open>Below index \<open>n\<close> every non-null slot is the tip of a correct chain.\<close>

definition slots_ok :: "index_store \<Rightarrow> ptr set \<Rightarrow> vchain \<Rightarrow> nat \<Rightarrow> bool" where
  "slots_ok mem D v n \<longleftrightarrow> (\<forall>i < n. \<forall>q. v ! i = Some q \<longrightarrow> (\<forall>j \<le> i. v ! j = walk mem (i - j) q))"

lemma set_tip_loop_chain:
  assumes wf: "index_wf mem D" and "p \<in> D" "nHeight (mem p) = int h" "h < length v"
    and "slots_ok mem D v (Suc h)"
  shows "\<exists>v'. set_tip_loop mem v (Some p) = Some (Inr v') \<and> length v' = length v
    \<and> (\<forall>i < length v. v' ! i = (if i \<le> h then walk mem (h - i) p else v ! i))"
  using assms(2-)
proof (induction h arbitrary: p v)
  case 0
  have "pprev (mem p) = None" using index_wfD(2) [OF wf 0(1)] 0(2) by simp
  then show ?case using 0
    by (subst set_tip_loop.simps) (auto simp: set_tip_loop.simps [of mem _ None])
next
  case (Suc h)
  obtain r where r: "pprev (mem p) = Some r" "r \<in> D" "nHeight (mem r) = int h"
    using index_wfD(2) [OF wf Suc.prems(1)] index_wfD(3) [OF wf Suc.prems(1)] Suc.prems(2)
    by fastforce
  show ?case
  proof (cases "v ! Suc h = Some p")
    case True
    then have "\<forall>j \<le> Suc h. v ! j = walk mem (Suc h - j) p"
      using Suc.prems(4) by (simp add: slots_ok_def)
    then show ?thesis using True Suc.prems
      by (subst set_tip_loop.simps) (auto simp: nat_add_distrib)
  next
    case False
    let ?v = "v[Suc h := Some p]"
    have "slots_ok mem D ?v (Suc h)" using Suc.prems(4) by (auto simp: slots_ok_def)
    from Suc.IH [OF r(2,3) _ this] Suc.prems obtain v' where
      v': "set_tip_loop mem ?v (Some r) = Some (Inr v')" "length v' = length v"
        "\<forall>i < length v. v' ! i = (if i \<le> h then walk mem (h - i) r else ?v ! i)"
      by auto
    have "walk mem (Suc h - i) p = walk mem (h - i) r" if "i \<le> h" for i
      using that r(1) by (simp add: Suc_diff_le)
    then have "\<forall>i < length v. v' ! i = (if i \<le> Suc h then walk mem (Suc h - i) p else v ! i)"
      using v'(3) by (auto simp: le_Suc_eq)
    moreover have "set_tip_loop mem v (Some p) = Some (Inr v')"
      using False Suc.prems v'(1) r by (subst set_tip_loop.simps) (auto simp: nat_add_distrib)
    ultimately show ?thesis using v'(2) by blast
  qed
qed

lemma length_chain_of: "length (chain_of mem p) = nat (nHeight (mem p) + 1)"
  by (simp add: chain_of_def)

lemma nth_chain_of:
  "i < nat (nHeight (mem p) + 1) \<Longrightarrow> chain_of mem p ! i = walk mem (nat (nHeight (mem p)) - i) p"
  by (simp add: chain_of_def)

lemma chain_of_slots:
  assumes wf: "index_wf mem D" and t: "t \<in> D" and i: "i < nat (nHeight (mem t) + 1)"
  shows "\<exists>q. chain_of mem t ! i = Some q \<and> q \<in> D \<and> nHeight (mem q) = int i
    \<and> (\<forall>j \<le> i. chain_of mem t ! j = walk mem (i - j) q)"
proof -
  let ?h = "nat (nHeight (mem t))"
  have "0 \<le> nHeight (mem t)" using wf t by (rule index_wfD(1))
  then have ih: "i \<le> ?h" "int ?h = nHeight (mem t)" using i by auto
  obtain q where q: "walk mem (?h - i) t = Some q" using bi.up_ex [OF wf t, of "?h - i"] ih by auto
  have "chain_of mem t ! j = walk mem (i - j) q" if "j \<le> i" for j
  proof -
    have "chain_of mem t ! j = walk mem ((?h - i) + (i - j)) t"
      using that ih i by (simp add: nth_chain_of)
    then show ?thesis using q by (simp add: bi.up_add)
  qed
  then show ?thesis using bi.up_height [OF wf t q] q ih i by (auto simp: nth_chain_of)
qed

lemma slots_ok_resize:
  assumes "index_wf mem D" "chain_wf mem D v"
  shows "slots_ok mem D (vec_resize n None v) n"
proof (cases "v = []")
  case True
  then show ?thesis by (simp add: slots_ok_def vec_resize_def)
next
  case False
  then obtain t where t: "t \<in> D" "v = chain_of mem t" using assms(2) by (auto simp: chain_wf_def)
  show ?thesis unfolding slots_ok_def
  proof (intro allI impI)
    fix i q j assume a: "i < n" "vec_resize n None v ! i = Some q" "j \<le> i"
    then have i: "i < length v" by (auto simp: vec_resize_def nth_append split: if_splits)
    then have "v ! i = Some q" using a by (simp add: vec_resize_def nth_append)
    then have "v ! j = walk mem (i - j) q"
      using chain_of_slots [OF assms(1) t(1), of i] i a(3) t(2) by (auto simp: length_chain_of)
    then show "vec_resize n None v ! j = walk mem (i - j) q"
      using a i by (simp add: vec_resize_def nth_append)
  qed
qed

lemma SetTip_chain_of:
  assumes wf: "index_wf mem D" and v: "chain_wf mem D v" and p: "p \<in> D"
  shows "SetTip mem v (Some p) = Some (Inr (chain_of mem p))"
proof -
  define h where "h = nat (nHeight (mem p))"
  have h: "nHeight (mem p) = int h" using index_wfD(1) [OF wf p] by (simp add: h_def)
  let ?v = "vec_resize (Suc h) None v"
  have l: "length ?v = Suc h" by (simp add: vec_resize_def)
  obtain v' where v': "set_tip_loop mem ?v (Some p) = Some (Inr v')" "length v' = Suc h"
    "\<forall>i < Suc h. v' ! i = walk mem (h - i) p"
    using set_tip_loop_chain [OF wf p h, of ?v] slots_ok_resize [OF wf v] l by auto
  have n: "nat (nHeight (mem p) + 1) = Suc h" using h by (simp add: nat_add_distrib)
  have "v' = chain_of mem p"
    by (rule nth_equalityI) (simp_all add: v' length_chain_of n nth_chain_of, simp add: h)
  then show ?thesis using v' n by (simp add: SetTip_def)
qed

section \<open>Forks\<close>

lemma ancestor_refl: "is_ancestor mem p p"
  unfolding is_ancestor_def by (rule exI [of _ 0]) simp

lemma ancestor_prev: "pprev (mem p) = Some r \<Longrightarrow> is_ancestor mem q p \<longleftrightarrow> q = p \<or> is_ancestor mem q r"
proof
  assume r: "pprev (mem p) = Some r" and "is_ancestor mem q p"
  then obtain n where "walk mem n p = Some q" by (auto simp: is_ancestor_def)
  then show "q = p \<or> is_ancestor mem q r" using r by (cases n) (auto simp: is_ancestor_def)
next
  assume r: "pprev (mem p) = Some r" and "q = p \<or> is_ancestor mem q r"
  from this(2) show "is_ancestor mem q p"
  proof
    assume "is_ancestor mem q r"
    then obtain n where "walk mem n r = Some q" by (auto simp: is_ancestor_def)
    then have "walk mem (Suc n) p = Some q" using r by simp
    then show ?thesis unfolding is_ancestor_def by (rule exI)
  qed (simp add: ancestor_refl)
qed

lemma ancestor_root: "pprev (mem p) = None \<Longrightarrow> is_ancestor mem q p \<longleftrightarrow> q = p"
proof
  assume r: "pprev (mem p) = None" and "is_ancestor mem q p"
  then obtain n where "walk mem n p = Some q" by (auto simp: is_ancestor_def)
  then show "q = p" using r by (cases n) auto
qed (auto simp: ancestor_refl)

lemma ancestor_trans: "is_ancestor mem a b \<Longrightarrow> is_ancestor mem b c \<Longrightarrow> is_ancestor mem a c"
proof -
  assume "is_ancestor mem a b" "is_ancestor mem b c"
  then obtain m n where "walk mem m b = Some a" "walk mem n c = Some b" by (auto simp: is_ancestor_def)
  then have "walk mem (n + m) c = Some a" by (simp add: walk_add)
  then show ?thesis by (auto simp: is_ancestor_def)
qed

lemma ancestor_height:
  "index_wf mem D \<Longrightarrow> p \<in> D \<Longrightarrow> is_ancestor mem q p \<Longrightarrow> q \<in> D \<and> nHeight (mem q) \<le> nHeight (mem p)"
  using bi.up_height by (fastforce simp: is_ancestor_def)

text \<open>The ancestors of one block form a line: the lower is an ancestor of the higher.\<close>

lemma ancestor_line:
  assumes wf: "index_wf mem D" "p \<in> D" and "is_ancestor mem q p" "is_ancestor mem r p"
    and "nHeight (mem r) \<le> nHeight (mem q)"
  shows "is_ancestor mem r q"
proof -
  obtain m n where mn: "walk mem m p = Some q" "walk mem n p = Some r"
    using assms(3,4) by (auto simp: is_ancestor_def)
  then have "m \<le> n" using bi.up_height [OF wf mn(1)] bi.up_height [OF wf mn(2)] assms(5) by simp
  then show ?thesis using bi.up_below [OF mn] by (auto simp: is_ancestor_def)
qed

lemma Contains_chain_of:
  assumes wf: "index_wf mem D" and t: "t \<in> D" and p: "p \<in> D"
  shows "Contains mem (chain_of mem t) p \<longleftrightarrow> is_ancestor mem p t"
proof -
  have h: "0 \<le> nHeight (mem t)" "0 \<le> nHeight (mem p)" using wf t p by (simp_all add: index_wfD)
  have c: "Contains mem (chain_of mem t) p \<longleftrightarrow> nHeight (mem p) \<le> nHeight (mem t) \<and>
      walk mem (nat (nHeight (mem t)) - nat (nHeight (mem p))) t = Some p"
    using h by (auto simp: Contains_def chain_at_def length_chain_of nth_chain_of)
  show ?thesis
  proof
    assume "is_ancestor mem p t"
    then obtain n where n: "walk mem n t = Some p" by (auto simp: is_ancestor_def)
    have "nHeight (mem t) = nHeight (mem p) + int n" using bi.up_height [OF wf t n] by simp
    then have "nat (nHeight (mem t)) - nat (nHeight (mem p)) = n" "nHeight (mem p) \<le> nHeight (mem t)"
      using h by auto
    then show "Contains mem (chain_of mem t) p" using c n by simp
  qed (use c in \<open>auto simp: is_ancestor_def\<close>)
qed

lemma chain_at_Nil [simp]: "chain_at [] h = None"
  by (cases "h < 0") (simp_all add: chain_at_def)

lemma Contains_Nil [simp]: "\<not> Contains mem [] p"
  by (simp add: Contains_def)

lemma Contains_down:
  assumes "index_wf mem D" "chain_wf mem D v" "p \<in> D" "Contains mem v p" "is_ancestor mem q p"
  shows "Contains mem v q"
proof -
  have "v \<noteq> []" using assms(4) by auto
  then obtain t where t: "t \<in> D" "v = chain_of mem t" using assms(2) by (auto simp: chain_wf_def)
  have "is_ancestor mem p t" using assms(4) Contains_chain_of [OF assms(1) t(1) assms(3)] t(2) by simp
  then have "is_ancestor mem q t" using assms(5) ancestor_trans by blast
  then show ?thesis
    using t Contains_chain_of [OF assms(1) t(1)] ancestor_height [OF assms(1,3,5)] by simp
qed

definition fork_point :: "index_store \<Rightarrow> vchain \<Rightarrow> ptr \<Rightarrow> ptr option \<Rightarrow> bool" where
  "fork_point mem v p r \<longleftrightarrow>
     (case r of
        None \<Rightarrow> \<forall>q. is_ancestor mem q p \<longrightarrow> \<not> Contains mem v q
      | Some q \<Rightarrow> is_ancestor mem q p \<and> Contains mem v q \<and>
          (\<forall>q'. is_ancestor mem q' p \<and> Contains mem v q' \<longrightarrow> is_ancestor mem q' q))"

lemma find_fork_loop_point:
  assumes wf: "index_wf mem D" and "p \<in> D" "nHeight (mem p) = int h"
  shows "\<exists>r. find_fork_loop mem v (Some p) = Some r \<and> fork_point mem v p r"
  using assms(2,3)
proof (induction h arbitrary: p)
  case 0
  then have "pprev (mem p) = None" using index_wfD(2) [OF wf] by simp
  then show ?case
    by (auto simp: find_fork_loop.simps [of mem v "Some p"] find_fork_loop.simps [of mem v None]
        fork_point_def ancestor_root ancestor_refl)
next
  case (Suc h)
  obtain q where q: "pprev (mem p) = Some q" "q \<in> D" "nHeight (mem q) = int h"
    using index_wfD(2) [OF wf Suc.prems(1)] index_wfD(3) [OF wf Suc.prems(1)] Suc.prems(2) by fastforce
  show ?case
  proof (cases "Contains mem v p")
    case True
    then show ?thesis by (simp add: find_fork_loop.simps [of mem v "Some p"] fork_point_def ancestor_refl)
  next
    case False
    obtain r where r: "find_fork_loop mem v (Some q) = Some r" "fork_point mem v q r"
      using Suc.IH [OF q(2,3)] by blast
    have "fork_point mem v p r" using r(2) False q(1)
      by (auto simp: fork_point_def ancestor_prev split: option.splits)
    then show ?thesis using r(1) False q(1) by (simp add: find_fork_loop.simps [of mem v "Some p"])
  qed
qed

lemma FindFork_point:
  assumes wf: "index_wf mem D" and v: "chain_wf mem D v" and p: "p \<in> D"
  shows "\<exists>r. FindFork mem v p = Some (Inr r) \<and> fork_point mem v p r"
proof (cases "nHeight (mem p) > Height v")
  case False
  obtain h where "nHeight (mem p) = int h" using index_wfD(1) [OF wf p] by (metis zero_le_imp_eq_int)
  then show ?thesis using find_fork_loop_point [OF wf p, of h v] False by (auto simp: FindFork_def)
next
  case True
  have in_range: "Contains mem v q \<Longrightarrow> nHeight (mem q) \<le> Height v" for q
    by (auto simp: Contains_def chain_at_def Height_def split: if_splits)
  show ?thesis
  proof (cases "v = []")
    case True
    then show ?thesis using index_wfD(1) [OF wf p]
      by (simp add: FindFork_def Height_def GetAncestor_def find_fork_loop.simps [of mem _ None] fork_point_def)
  next
    case False
    then have h0: "0 \<le> Height v" by (simp add: Height_def)
    obtain q where q: "GetAncestor mem p (Height v) = Inr (Some q)"
        "walk mem (nat (nHeight (mem p) - Height v)) p = Some q" "q \<in> D" "nHeight (mem q) = Height v"
      using bi.anc_ex [OF wf p h0] True by auto
    have "nHeight (mem q) = int (nat (Height v))" using q(4) h0 by simp
    then obtain r where r: "find_fork_loop mem v (Some q) = Some r" "fork_point mem v q r"
      using find_fork_loop_point [OF wf q(3)] by blast
    have qp: "is_ancestor mem q p" using q(2) by (auto simp: is_ancestor_def)
    have "is_ancestor mem a p \<and> Contains mem v a \<longleftrightarrow> is_ancestor mem a q \<and> Contains mem v a" for a
      using ancestor_line [OF wf p qp] in_range [of a] q(4) ancestor_trans [OF _ qp] by auto
    then have "fork_point mem v p r" using r(2) ancestor_trans [OF _ qp]
      by (auto simp: fork_point_def split: option.splits)
    then show ?thesis using r q True by (simp add: FindFork_def)
  qed
qed

text \<open>The meeting point of two blocks: a common ancestor above every other, if there is any.\<close>

definition meeting_point :: "index_store \<Rightarrow> ptr \<Rightarrow> ptr \<Rightarrow> ptr option \<Rightarrow> bool" where
  "meeting_point mem a b r \<longleftrightarrow>
     (case r of
        None \<Rightarrow> \<forall>q. \<not> (is_ancestor mem q a \<and> is_ancestor mem q b)
      | Some q \<Rightarrow> is_ancestor mem q a \<and> is_ancestor mem q b \<and>
          (\<forall>q'. is_ancestor mem q' a \<and> is_ancestor mem q' b \<longrightarrow> is_ancestor mem q' q))"

lemma meeting_point_self: "meeting_point mem a a (Some a)"
  by (simp add: meeting_point_def ancestor_refl)

lemma lca_loop_meeting:
  assumes wf: "index_wf mem D" and "a \<in> D" "b \<in> D" "nHeight (mem a) = int h" "nHeight (mem b) = int h"
  shows "\<exists>r. lca_loop mem (Some a) (Some b) = Some (r, r) \<and> meeting_point mem a b r"
  using assms(2-)
proof (induction h arbitrary: a b)
  case 0
  then have "pprev (mem a) = None" "pprev (mem b) = None" using index_wfD(2) [OF wf] by auto
  then show ?case
    by (cases "a = b") (auto simp: lca_loop.simps [of mem "Some _"] lca_loop.simps [of mem None]
        meeting_point_def ancestor_root ancestor_refl)
next
  case (Suc h)
  have prev: "\<exists>q. pprev (mem p) = Some q \<and> q \<in> D \<and> nHeight (mem q) = int h"
    if "p \<in> D" "nHeight (mem p) = int (Suc h)" for p
    using index_wfD(2) [OF wf that(1)] index_wfD(3) [OF wf that(1)] that(2) by fastforce
  obtain a' where a': "pprev (mem a) = Some a'" "a' \<in> D" "nHeight (mem a') = int h"
    using prev [of a] Suc.prems by blast
  obtain b' where b': "pprev (mem b) = Some b'" "b' \<in> D" "nHeight (mem b') = int h"
    using prev [of b] Suc.prems by blast
  show ?case
  proof (cases "a = b")
    case True
    then show ?thesis by (simp add: lca_loop.simps [of mem "Some b"] meeting_point_self)
  next
    case False
    obtain r where r: "lca_loop mem (Some a') (Some b') = Some (r, r)" "meeting_point mem a' b' r"
      using Suc.IH [OF a'(2) b'(2) a'(3) b'(3)] by blast
    have "\<not> is_ancestor mem a b'" "\<not> is_ancestor mem b a'"
      using ancestor_height [OF wf b'(2)] ancestor_height [OF wf a'(2)] Suc.prems a'(3) b'(3) by fastforce+
    then have "meeting_point mem a b r" using r(2) False a'(1) b'(1)
      by (auto simp: meeting_point_def ancestor_prev split: option.splits)
    then show ?thesis using r(1) False a'(1) b'(1)
      by (simp add: lca_loop.simps [of mem "Some a"])
  qed
qed

lemma meeting_point_lower:
  assumes wf: "index_wf mem D" and a: "a \<in> D" and q: "is_ancestor mem q a"
    and b: "b \<in> D" "nHeight (mem b) = nHeight (mem q)" and r: "meeting_point mem q b r"
  shows "meeting_point mem a b r" "meeting_point mem b a r"
proof -
  have "is_ancestor mem x a \<and> is_ancestor mem x b \<longleftrightarrow> is_ancestor mem x q \<and> is_ancestor mem x b" for x
    using ancestor_line [OF wf a q] ancestor_height [OF wf b(1), of x] b(2) ancestor_trans [OF _ q] by auto
  then show "meeting_point mem a b r" "meeting_point mem b a r"
    using r ancestor_trans [OF _ q] by (auto simp: meeting_point_def split: option.splits)
qed

lemma LastCommonAncestor_meeting:
  assumes wf: "index_wf mem D" and a: "a \<in> D" and b: "b \<in> D"
  shows "\<exists>r. LastCommonAncestor mem a b = Some (Inr r) \<and> meeting_point mem a b r"
proof -
  obtain ha hb where h: "nHeight (mem a) = int ha" "nHeight (mem b) = int hb"
    using index_wfD(1) [OF wf a] index_wfD(1) [OF wf b] by (metis zero_le_imp_eq_int)
  consider "ha = hb" | "ha > hb" | "hb > ha" by linarith
  then show ?thesis
  proof cases
    case 1
    then show ?thesis using lca_loop_meeting [OF wf a b h(1)] h
      by (auto simp: LastCommonAncestor_def)
  next
    case 2
    obtain q where q: "GetAncestor mem a (int hb) = Inr (Some q)" "q \<in> D" "nHeight (mem q) = int hb"
        "is_ancestor mem q a"
      using bi.anc_ex [OF wf a, of "int hb"] 2 h by (auto simp: is_ancestor_def)
    obtain r where r: "lca_loop mem (Some q) (Some b) = Some (r, r)" "meeting_point mem q b r"
      using lca_loop_meeting [OF wf q(2) b q(3) h(2)] by blast
    have "meeting_point mem a b r" using meeting_point_lower [OF wf a q(4) b _ r(2)] q h by simp
    then show ?thesis using r q h 2 by (simp add: LastCommonAncestor_def)
  next
    case 3
    obtain q where q: "GetAncestor mem b (int ha) = Inr (Some q)" "q \<in> D" "nHeight (mem q) = int ha"
        "is_ancestor mem q b"
      using bi.anc_ex [OF wf b, of "int ha"] 3 h by (auto simp: is_ancestor_def)
    obtain r where r: "lca_loop mem (Some a) (Some q) = Some (r, r)" "meeting_point mem a q r"
      using lca_loop_meeting [OF wf a q(2) h(1) q(3)] by blast
    have "meeting_point mem q a r" using r(2) by (auto simp: meeting_point_def split: option.splits)
    then have "meeting_point mem a b r" using meeting_point_lower [OF wf b q(4) a] q h by simp
    then show ?thesis using r q h 3 by (simp add: LastCommonAncestor_def)
  qed
qed

section \<open>Locators\<close>

lemma chain_at_ancestor:
  assumes wf: "index_wf mem D" and v: "chain_wf mem D v" and p: "p \<in> D" "Contains mem v p"
    and h: "0 \<le> h" "h \<le> nHeight (mem p)"
  shows "chain_at v h = walk mem (nat (nHeight (mem p) - h)) p"
proof -
  have "v \<noteq> []" using p(2) by auto
  then obtain t where t: "t \<in> D" "v = chain_of mem t" using v by (auto simp: chain_wf_def)
  let ?i = "nat (nHeight (mem p))"
  have i: "?i < nat (nHeight (mem t) + 1)" "chain_of mem t ! ?i = Some p"
    using p t h by (auto simp: Contains_def chain_at_def length_chain_of split: if_splits)
  have "chain_of mem t ! nat h = walk mem (?i - nat h) p"
    using chain_of_slots [OF wf t(1) i(1)] i(2) h by auto
  moreover have "\<not> (h < 0 \<or> h \<ge> int (length v))" using i(1) h t(2) by (auto simp: length_chain_of)
  moreover have "?i - nat h = nat (nHeight (mem p) - h)" using h by simp
  ultimately show ?thesis using t(2) by (simp add: chain_at_def)
qed

text \<open>
  The blocks a locator names: they start at the given block, go strictly down its lineage and
  end at a root.
\<close>

definition locator_path :: "index_store \<Rightarrow> ptr \<Rightarrow> ptr list \<Rightarrow> bool" where
  "locator_path mem p ps \<longleftrightarrow> ps \<noteq> [] \<and> hd ps = p \<and> nHeight (mem (last ps)) = 0
     \<and> (\<forall>q \<in> set ps. is_ancestor mem q p)
     \<and> sorted_wrt (\<lambda>a b. nHeight (mem a) > nHeight (mem b)) ps"

text \<open>The distances between them, from the \<open>n\<close>th on: ten steps of one block, then each twice as far.\<close>

definition locator_steps :: "index_store \<Rightarrow> nat \<Rightarrow> ptr list \<Rightarrow> bool" where
  "locator_steps mem n ps \<longleftrightarrow>
     (\<forall>i. Suc i < length ps \<longrightarrow> nHeight (mem (ps ! Suc i)) = max (nHeight (mem (ps ! i)) - 2 ^ (n + i - 10)) 0)"

lemma locator_steps_Cons:
  assumes "locator_steps mem (Suc n) ps" "hd ps = q" "ps \<noteq> []" "nHeight (mem q) = max (nHeight (mem p) - 2 ^ (n - 10)) 0"
  shows "locator_steps mem n (p # ps)"
  unfolding locator_steps_def
proof (intro allI impI)
  fix i assume "Suc i < length (p # ps)"
  then show "nHeight (mem ((p # ps) ! Suc i)) = max (nHeight (mem ((p # ps) ! i)) - 2 ^ (n + i - 10)) 0"
    using assms by (cases i) (auto simp: locator_steps_def hd_conv_nth)
qed

lemma locator_path_single: "nHeight (mem p) = 0 \<Longrightarrow> locator_path mem p [p]"
  by (simp add: locator_path_def ancestor_refl)

lemma locator_path_Cons:
  assumes wf: "index_wf mem D" "q \<in> D" and "locator_path mem q ps" "is_ancestor mem q p"
    "nHeight (mem q) < nHeight (mem p)"
  shows "locator_path mem p (p # ps)"
proof -
  have "\<forall>x \<in> set ps. is_ancestor mem x p \<and> nHeight (mem x) < nHeight (mem p)"
    using assms ancestor_trans ancestor_height [OF wf] by (fastforce simp: locator_path_def)
  then show ?thesis using assms by (auto simp: locator_path_def ancestor_refl)
qed

lemma locator_next:
  assumes wf: "index_wf mem D" and v: "chain_wf mem D v" and p: "p \<in> D"
    and h: "0 \<le> h" "h \<le> nHeight (mem p)"
  shows "\<exists>q. (if Contains mem v p then Inr (chain_at v h) else GetAncestor mem p h) = Inr (Some q)
    \<and> q \<in> D \<and> nHeight (mem q) = h \<and> is_ancestor mem q p"
  using bi.anc_ex [OF wf p h] chain_at_ancestor [OF wf v p _ h] by (auto simp: is_ancestor_def)

lemma locator_loop_path:
  assumes wf: "index_wf mem D" and v: "chain_wf mem D v" and hashed: "\<forall>p \<in> D. phashBlock (mem p) \<noteq> None"
    and "p \<in> D" "nStep = 2 ^ (length vHave - 10)"
  shows "\<exists>ps. locator_loop mem v (Some p) nStep vHave
      = Some (Inr (vHave @ map (\<lambda>q. the (phashBlock (mem q))) ps)) \<and> locator_path mem p ps \<and> locator_steps mem (length vHave) ps"
  using assms(4-)
proof (induction "nat (nHeight (mem p))" arbitrary: p nStep vHave rule: less_induct)
  case less
  obtain hash where hash: "phashBlock (mem p) = Some hash" using hashed less.prems by auto
  note unfold = locator_loop.simps [of mem v "Some p" nStep vHave]
  show ?case
  proof (cases "nHeight (mem p) = 0")
    case True
    then show ?thesis using hash
      by (intro exI [of _ "[p]"]) (simp add: unfold GetBlockHash_def locator_path_single locator_steps_def)
  next
    case False
    have h0: "0 < nHeight (mem p)" using False index_wfD(1) [OF wf less.prems(1)] by simp
    define h where "h = max (nHeight (mem p) - nStep) 0"
    have h: "0 \<le> h" "h < nHeight (mem p)" using h0 less.prems by (auto simp: h_def)
    obtain q where q: "(if Contains mem v p then Inr (chain_at v h) else GetAncestor mem p h) = Inr (Some q)"
        "q \<in> D" "nHeight (mem q) = h" "is_ancestor mem q p"
      using locator_next [OF wf v less.prems(1), of h] h by auto
    define nStep' where "nStep' = (if length (vHave @ [hash]) > 10 then nStep * 2 else nStep)"
    have "nStep' = 2 ^ (length (vHave @ [hash]) - 10)"
    proof (cases "length vHave \<ge> 10")
      case True
      then have "length (vHave @ [hash]) - 10 = Suc (length vHave - 10)" "length (vHave @ [hash]) > 10" by simp_all
      then show ?thesis unfolding nStep'_def less.prems(2) by simp
    qed (use less.prems(2) in \<open>simp add: nStep'_def\<close>)
    then obtain ps where ps: "locator_loop mem v (Some q) nStep' (vHave @ [hash])
        = Some (Inr ((vHave @ [hash]) @ map (\<lambda>q. the (phashBlock (mem q))) ps))" "locator_path mem q ps"
        "locator_steps mem (Suc (length vHave)) ps"
      using less.hyps [of q nStep' "vHave @ [hash]"] q h by auto
    have "locator_steps mem (length vHave) (p # ps)"
      by (rule locator_steps_Cons [OF ps(3), of q]) (use ps(2) q(3) less.prems(2) in \<open>auto simp: locator_path_def h_def\<close>)
    have "locator_loop mem v (Some p) nStep vHave = locator_loop mem v (Some q) nStep' (vHave @ [hash])"
      unfolding unfold Let_def
      by (simp only: option.case GetBlockHash_def hash sum.case False if_False q(1) [unfolded h_def] nStep'_def)
    then show ?thesis using ps q h hash \<open>locator_steps mem (length vHave) (p # ps)\<close>
      by (intro exI [of _ "p # ps"]) (auto intro: locator_path_Cons [OF wf])
  qed
qed

text \<open>A locator read against a chain gives a block of both the chain and the lineage.\<close>

lemma FindForkInGlobalIndex_path:
  assumes wf: "index_wf mem D" and v: "chain_wf mem D v" and p: "p \<in> D"
    and idx: "\<And>q. q \<in> D \<Longrightarrow> mapBlockIndex (the (phashBlock (mem q))) = Some q"
    and ps: "locator_path mem p ps" and fork: "fork_point mem v p (Some f)"
  shows "\<exists>q. FindForkInGlobalIndex mem mapBlockIndex v (map (\<lambda>q. the (phashBlock (mem q))) ps) = Some q
    \<and> q \<in> set ps \<and> is_ancestor mem q f \<and> Contains mem v q"
proof -
  let ?hash = "\<lambda>q. the (phashBlock (mem q))"
  let ?P = "\<lambda>hash. case mapBlockIndex hash of None \<Rightarrow> False | Some p \<Rightarrow> Contains mem v p"
  have psD: "q \<in> D \<and> is_ancestor mem q p" if "q \<in> set ps" for q
    using that ps ancestor_height [OF wf p] by (auto simp: locator_path_def)
  have f: "is_ancestor mem f p" "Contains mem v f" "f \<in> D"
    using fork ancestor_height [OF wf p] by (auto simp: fork_point_def)
  have last: "last ps \<in> set ps" "nHeight (mem (last ps)) = 0" using ps by (auto simp: locator_path_def)
  have "is_ancestor mem (last ps) f"
    using ancestor_line [OF wf p f(1)] psD [OF last(1)] last(2) index_wfD(1) [OF wf f(3)] by simp
  then have "Contains mem v (last ps)" using Contains_down [OF wf v f(3,2)] by blast
  then have "?P (?hash (last ps))" using idx psD [OF last(1)] by simp
  then have "find ?P (map ?hash ps) \<noteq> None"
    unfolding find_None_iff using last(1) by auto
  then obtain hash where hash: "find ?P (map ?hash ps) = Some hash" by blast
  then have "hash \<in> set (map ?hash ps)" "?P hash"
    using nth_mem unfolding find_Some_iff by blast+
  then obtain q where q: "q \<in> set ps" "hash = ?hash q" "?P hash" by auto
  have "Contains mem v q" using q idx psD by simp
  then have "is_ancestor mem q f" using fork psD [OF q(1)] by (auto simp: fork_point_def)
  then show ?thesis using hash q idx psD [OF q(1)] \<open>Contains mem v q\<close>
    by (auto simp: FindForkInGlobalIndex_def)
qed

section \<open>Properties\<close>

text \<open>
  C34. Setting the tip of a chain to any indexed block ends, and leaves exactly the lineage of
  that block by height, although the loop stops at the first slot that already holds its block.
\<close>

theorem SetTip_correct:
  assumes "index_wf mem D" "chain_wf mem D v" "p \<in> D"
  shows "\<exists>v'. SetTip mem v (Some p) = Some (Inr v') \<and> chain_wf mem D v' \<and> Tip v' = Some p
    \<and> Height v' = nHeight (mem p)
    \<and> (\<forall>h. 0 \<le> h \<and> h \<le> nHeight (mem p) \<longrightarrow> Inr (chain_at v' h) = GetAncestor mem p h)"
proof -
  have h: "0 \<le> nHeight (mem p)" using assms by (simp add: index_wfD)
  have wf': "chain_wf mem D (chain_of mem p)" using assms(3) by (auto simp: chain_wf_def)
  have "Contains mem (chain_of mem p) p"
    using Contains_chain_of [OF assms(1,3,3)] ancestor_refl by simp
  then have "Inr (chain_at (chain_of mem p) h) = GetAncestor mem p h" if "0 \<le> h" "h \<le> nHeight (mem p)" for h
    using chain_at_ancestor [OF assms(1) wf' assms(3)] bi.anc_up [OF assms(1,3)] that by simp
  moreover have "Tip (chain_of mem p) = Some p"
    using h by (simp add: Tip_def length_chain_of nth_chain_of nat_add_distrib)
  moreover have "Height (chain_of mem p) = nHeight (mem p)" using h by (simp add: Height_def length_chain_of)
  ultimately show ?thesis using SetTip_chain_of [OF assms] wf' by blast
qed

lemma example_chain_of: "chain_of example_chain 2 = [Some 0, Some 1, Some 2]"
  by (simp add: chain_of_def example_chain_def SetNull_def upt_rec numeral_2_eq_2)

lemma example_chain_vwf: "chain_wf example_chain {0, 1, 2, 3} [Some 0, Some 1, Some 2]"
  unfolding chain_wf_def example_chain_of [symmetric] by blast

theorem SetTip_correct_witness:
  "\<exists>v'. SetTip example_chain [Some 0, Some 1, Some 2] (Some 3) = Some (Inr v') \<and> Tip v' = Some 3"
  using SetTip_correct [OF example_chain_wf example_chain_vwf, of 3] by auto

text \<open>
  C30. \<open>FindFork\<close> ends without a null dereference and returns the fork point: the block of the
  chain in the lineage of the given block that has every other such block below it, or \<open>NULL\<close>
  when the lineage and the chain are disjoint.
\<close>

theorem FindFork_correct:
  assumes "index_wf mem D" "chain_wf mem D v" "p \<in> D"
  shows "\<exists>r. FindFork mem v p = Some (Inr r) \<and>
     (case r of
        None \<Rightarrow> \<forall>q. is_ancestor mem q p \<longrightarrow> \<not> Contains mem v q
      | Some q \<Rightarrow> is_ancestor mem q p \<and> Contains mem v q \<and>
          (\<forall>q'. is_ancestor mem q' p \<and> Contains mem v q' \<longrightarrow> is_ancestor mem q' q))"
  using FindFork_point [OF assms] unfolding fork_point_def .

theorem FindFork_correct_witness:
  "\<exists>r. FindFork example_chain [Some 0, Some 1, Some 2] 3 = Some (Inr r)"
  using FindFork_correct [OF example_chain_wf example_chain_vwf, of 3] by auto

text \<open>
  C27. \<open>LastCommonAncestor\<close> ends, its assertion holds for any two indexed blocks, and it returns
  their greatest common ancestor, or \<open>NULL\<close> when they have none.
\<close>

theorem LastCommonAncestor_correct:
  assumes "index_wf mem D" "pa \<in> D" "pb \<in> D"
  shows "\<exists>r. LastCommonAncestor mem pa pb = Some (Inr r) \<and>
     (case r of
        None \<Rightarrow> \<forall>q. \<not> (is_ancestor mem q pa \<and> is_ancestor mem q pb)
      | Some q \<Rightarrow> is_ancestor mem q pa \<and> is_ancestor mem q pb \<and>
          (\<forall>q'. is_ancestor mem q' pa \<and> is_ancestor mem q' pb \<longrightarrow> is_ancestor mem q' q))"
  using LastCommonAncestor_meeting [OF assms] unfolding meeting_point_def .

theorem LastCommonAncestor_correct_witness:
  "\<exists>r. LastCommonAncestor example_chain 2 3 = Some (Inr r)"
  using LastCommonAncestor_correct [OF example_chain_wf, of 2 3] by auto

text \<open>
  C35. A locator of an indexed block holds the hashes of blocks that start at the block, go strictly
  down its lineage (ten steps of one block, then steps that double) and end at height 0; read against any
  chain that shares a block with the lineage, it yields one of these blocks, on that chain and at or below the fork point.
\<close>

theorem GetLocator_finds_fork:
  assumes "index_wf mem D" "chain_wf mem D u" "chain_wf mem D v" "p \<in> D" "q \<in> D"
    and "\<forall>p \<in> D. \<exists>hash. phashBlock (mem p) = Some hash \<and> mapBlockIndex hash = Some p"
    and "is_ancestor mem q p" "Contains mem v q"
  shows "\<exists>ps b f. GetLocator mem u (Some p) = Some (Inr (map (\<lambda>q. the (phashBlock (mem q))) ps))
    \<and> locator_path mem p ps \<and> locator_steps mem 0 ps
    \<and> FindForkInGlobalIndex mem mapBlockIndex v (map (\<lambda>q. the (phashBlock (mem q))) ps) = Some b \<and> b \<in> set ps
    \<and> FindFork mem v p = Some (Inr (Some f)) \<and> Contains mem v b \<and> is_ancestor mem b f"
proof -
  obtain r where r: "FindFork mem v p = Some (Inr r)" "fork_point mem v p r"
    using FindFork_point [OF assms(1,3,4)] by blast
  then obtain f where f: "r = Some f" using assms(7,8) by (cases r) (auto simp: fork_point_def)
  have idx: "\<And>q. q \<in> D \<Longrightarrow> mapBlockIndex (the (phashBlock (mem q))) = Some q" using assms(6) by fastforce
  have hashed: "\<forall>p \<in> D. phashBlock (mem p) \<noteq> None" using assms(6) by fastforce
  obtain ps where ps: "locator_loop mem u (Some p) 1 [] = Some (Inr (map (\<lambda>q. the (phashBlock (mem q))) ps))"
      "locator_path mem p ps" "locator_steps mem 0 ps"
    using locator_loop_path [OF assms(1,2) hashed assms(4), of 1 "[]"] by auto
  obtain b where "FindForkInGlobalIndex mem mapBlockIndex v (map (\<lambda>q. the (phashBlock (mem q))) ps) = Some b"
      "b \<in> set ps" "is_ancestor mem b f" "Contains mem v b"
    using FindForkInGlobalIndex_path [OF assms(1,3,4) idx ps(2) r(2) [unfolded f]] by blast
  moreover have "GetLocator mem u (Some p) = Some (Inr (map (\<lambda>q. the (phashBlock (mem q))) ps))"
    using ps(1) by (simp add: GetLocator_def)
  ultimately show ?thesis using ps(2,3) r(1) unfolding f by blast
qed

definition example_hashed :: index_store where
  "example_hashed = (\<lambda>p. (example_chain p)\<lparr>phashBlock := Some (bn_of_u64 8 (of_nat p))\<rparr>)"

lemma example_hashed_wf: "index_wf example_hashed {0, 1, 2, 3}"
  by (rule index_wf_frame [OF example_chain_wf]) (simp add: example_hashed_def)

definition example_map :: "base_uint \<rightharpoonup> ptr" where
  "example_map h = Some (unat (GetLow64 h))"

theorem GetLocator_finds_fork_witness:
  "\<exists>vHave b. GetLocator example_hashed [] (Some 3) = Some (Inr vHave)
    \<and> FindForkInGlobalIndex example_hashed example_map (chain_of example_hashed 2) vHave = Some b"
proof -
  have "\<forall>p \<in> {0, 1, 2, 3}. \<exists>hash. phashBlock (example_hashed p) = Some hash \<and> example_map hash = Some p"
    by (simp add: example_hashed_def example_map_def GetLow64_val bn_val_of_u64)
  moreover have "is_ancestor example_hashed 1 3" "is_ancestor example_hashed 1 2"
    unfolding is_ancestor_def
    by (rule exI [of _ 1], simp add: example_hashed_def example_chain_def)+
  moreover have "Contains example_hashed (chain_of example_hashed 2) 1"
    using calculation(3) by (simp add: Contains_chain_of [OF example_hashed_wf])
  moreover have "chain_wf example_hashed {0, 1, 2, 3} (chain_of example_hashed 2)"
    by (auto simp: chain_wf_def)
  ultimately show ?thesis
    using GetLocator_finds_fork [OF example_hashed_wf, of "[]" "chain_of example_hashed 2" 3 1 example_map]
    by (auto simp: chain_wf_def)
qed

end
