(* ===== verification/Pow.thy ===== *)
theory Pow
  imports Chain
begin

text \<open>
  Proof of work (\<^verbatim>\<open>chain/pow.cpp\<close>): the retargeting rule inherited from Bitcoin, the long-range
  rule (LDA) with its short-range correction (SDA) that replaces it from \<open>GetStartHeightDiffAlg\<close>
  on, the check of a block hash and the work a block adds to its chain. The accessors of
  \<open>CChainParams\<close> that this code calls are the fields of \<open>chain_params\<close>; log output is left out.
  Multiplying a \<open>uint256\<close> by an \<open>int64_t\<close> selects \<open>operator*=(uint32_t)\<close>, dividing by one
  converts it to \<open>uint64_t\<close> and then to \<open>uint256\<close>: both conversions are written out.
\<close>

record chain_params =
  ProofOfWorkLimit :: base_uint
  AllowMinDifficultyBlocks :: bool
  SkipProofOfWorkCheck :: bool
  TargetTimespan :: int
  TargetSpacing :: int
  StartHeightDiffAlg :: int
  StartHeightEpowV2 :: int
  StartHeightChBlockSigner :: int
  StartHeightBlockRewardAdj :: int
  StartHeightNewHashAlog :: int
  StartHeightBlockRewardAdj2nd :: int

text \<open>The heights that \<open>SetHdacParams\<close> sets, given the configured flag.\<close>

definition SetHdacParams :: "bool \<Rightarrow> chain_params \<Rightarrow> chain_params" where
  "SetHdacParams allowmindifficultyblocks ps =
     ps\<lparr>AllowMinDifficultyBlocks := allowmindifficultyblocks,
        StartHeightDiffAlg := 112400, StartHeightEpowV2 := 112400,
        StartHeightChBlockSigner := 138700, StartHeightBlockRewardAdj := 150000,
        StartHeightNewHashAlog := 151880, StartHeightBlockRewardAdj2nd := 183400\<rparr>"

text \<open>\<open>TargetSpacing\<close> is at least 2 in every configuration.\<close>

definition Interval :: "chain_params \<Rightarrow> int" where
  "Interval ps = TargetTimespan ps sdiv TargetSpacing ps"

definition LDA_TARGET_INTERVAL :: "chain_params \<Rightarrow> int \<Rightarrow> int" where
  "LDA_TARGET_INTERVAL ps x = Interval ps sdiv x"

abbreviation (input) "SDA_BLOCK_SIZE \<equiv> (6 :: int)"
abbreviation (input) "SDA_MAX_TIME_SPAN \<equiv> (600 :: int)"
abbreviation (input) "TIME_XFACTOR \<equiv> (8 :: int)"
abbreviation (input) "TIME_FACTOR \<equiv> (4 :: int)"

definition IsEnabledDiffAlg :: "chain_params \<Rightarrow> int \<Rightarrow> bool" where
  "IsEnabledDiffAlg ps nheight \<longleftrightarrow> nheight \<ge> StartHeightDiffAlg ps"

text \<open>Helpers: operators of \<open>uint256\<close> with an \<open>int64_t\<close>, and failures as faults.\<close>

definition bn_gt :: "base_uint \<Rightarrow> base_uint \<Rightarrow> bool" where
  "bn_gt a b \<longleftrightarrow> CompareTo a b > 0"

definition bn_mul_int :: "base_uint \<Rightarrow> int \<Rightarrow> base_uint" where
  "bn_mul_int a x = bn_mul32 a (of_int x)"

definition bn_div_cpp :: "base_uint \<Rightarrow> base_uint \<Rightarrow> base_uint cpp" where
  "bn_div_cpp a b = (case bn_div a b of Inl _ \<Rightarrow> Inl UintException | Inr q \<Rightarrow> Inr q)"

definition bn_div_int :: "base_uint \<Rightarrow> int \<Rightarrow> base_uint cpp" where
  "bn_div_int a x = bn_div_cpp a (bn_of_u64 8 (of_int x))"

definition GetCompact_cpp :: "base_uint \<Rightarrow> u32 cpp" where
  "GetCompact_cpp a = (case GetCompact a False of None \<Rightarrow> Inl AssertionFailed | Some c \<Rightarrow> Inr c)"

definition limit_target :: "chain_params \<Rightarrow> base_uint \<Rightarrow> base_uint" where
  "limit_target ps t = (if bn_gt t (ProofOfWorkLimit ps) then ProofOfWorkLimit ps else t)"

subsection \<open>Difficulty adjustment\<close>

definition GetSDAadjustedTime ::
    "index_store \<Rightarrow> chain_params \<Rightarrow> ptr \<Rightarrow> int \<Rightarrow> int \<Rightarrow> int cpp" where
  "GetSDAadjustedTime mem ps pindexPrev ldaActTime xfactor =
     (let range = to_int32 (LDA_TARGET_INTERVAL ps xfactor) in
      if nHeight (mem pindexPrev) < SDA_BLOCK_SIZE * 4 then Inr 0
      else bind_cpp (GetAncestor mem pindexPrev (nHeight (mem pindexPrev) - SDA_BLOCK_SIZE)) (\<lambda>r.
        case r of
          None \<Rightarrow> Inl NullPointer
        | Some pindexFirst \<Rightarrow>
            (let nActualTimespan = GetBlockTime (mem pindexPrev) - GetBlockTime (mem pindexFirst);
                 nAvgTime = nActualTimespan sdiv SDA_BLOCK_SIZE
             in if nAvgTime < SDA_MAX_TIME_SPAN then Inr 0
                else bind_cpp (div_cpp ldaActTime range) (\<lambda>ldaAvg.
                  if ldaAvg \<ge> nAvgTime then Inr 0
                  else if nAvgTime > SDA_MAX_TIME_SPAN * 6 then Inr (drop_bit 1 ldaActTime)
                  else if nAvgTime > SDA_MAX_TIME_SPAN * 3 then Inr (drop_bit 2 ldaActTime)
                  else Inr (drop_bit 3 ldaActTime)))))"

text \<open>The bounds that \<open>GetTargetPow\<close> puts on the measured time span.\<close>

definition clamp_timespan :: "chain_params \<Rightarrow> int \<Rightarrow> int \<Rightarrow> int \<Rightarrow> int \<Rightarrow> int" where
  "clamp_timespan ps interval factor sda_factor nActualTimespan =
     (if nActualTimespan > interval * factor * sda_factor * TargetSpacing ps then
        (let lfactor = to_int32 (interval * factor * TargetSpacing ps) in
         if sda_factor = 1 then
           (if nActualTimespan > lfactor + drop_bit 1 lfactor then lfactor + drop_bit 1 lfactor
            else if nActualTimespan > lfactor + drop_bit 2 lfactor then lfactor + drop_bit 2 lfactor
            else lfactor)
         else interval * factor * sda_factor * TargetSpacing ps)
      else if nActualTimespan < (interval sdiv factor) * TargetSpacing ps
      then (interval sdiv factor) * TargetSpacing ps
      else nActualTimespan)"

definition GetTargetPow ::
    "index_store \<Rightarrow> chain_params \<Rightarrow> ptr \<Rightarrow> ptr \<Rightarrow> int \<Rightarrow> int \<Rightarrow> base_uint cpp" where
  "GetTargetPow mem ps pindexFirst pindexPrev xfactor factor =
     bind_cpp (assert_cpp (nHeight (mem pindexPrev) > nHeight (mem pindexFirst))) (\<lambda>_.
       let work = bn_mul_int (bn_sub (nChainWork (mem pindexPrev)) (nChainWork (mem pindexFirst)))
                    (TargetSpacing ps);
           interval = LDA_TARGET_INTERVAL ps xfactor;
           nActualTimespan = uint (nTime (mem pindexPrev)) - uint (nTime (mem pindexFirst))
       in bind_cpp (GetSDAadjustedTime mem ps pindexPrev nActualTimespan xfactor) (\<lambda>adjusttime.
            let sda_factor = (if adjusttime > 0 then 2 else 1)
            in bind_cpp (bn_div_int work
                  (clamp_timespan ps interval factor sda_factor (nActualTimespan + adjusttime)))
                 (\<lambda>work. bn_div_cpp (bn_neg work) work)))"

definition ReduceWorkTarget :: "index_store \<Rightarrow> chain_params \<Rightarrow> ptr \<Rightarrow> int \<Rightarrow> u32 cpp" where
  "ReduceWorkTarget mem ps pindexPrev scale =
     (let target = bn_mul_int (fst (SetCompact (nBits (mem pindexPrev)))) scale
      in GetCompact_cpp (limit_target ps target))"

definition GetLDAWorkRequired :: "index_store \<Rightarrow> chain_params \<Rightarrow> ptr option \<Rightarrow> u32 cpp" where
  "GetLDAWorkRequired mem ps pindexPrev =
     (case pindexPrev of
        None \<Rightarrow> Inl AssertionFailed
      | Some p \<Rightarrow>
          let height = (of_int (nHeight (mem p)) :: u32); lda = LDA_TARGET_INTERVAL ps TIME_XFACTOR in
          bind_cpp (assert_cpp (uint height \<ge> lda)) (\<lambda>_.
          let nHeightFirst = (of_int (uint height - lda) :: u32) in
          bind_cpp (GetAncestor mem p (sint nHeightFirst)) (\<lambda>r.
          case r of
            None \<Rightarrow> Inl AssertionFailed
          | Some pindexFirst \<Rightarrow>
              bind_cpp (GetTargetPow mem ps pindexFirst p TIME_XFACTOR TIME_FACTOR) (\<lambda>target.
              let nextTarget = limit_target ps target; h = nHeight (mem p) in
              if h < StartHeightNewHashAlog ps - 1 then GetCompact_cpp nextTarget
              else if h = StartHeightNewHashAlog ps - 1 then ReduceWorkTarget mem ps p 100
              else if h < StartHeightNewHashAlog ps + lda then Inr (nBits (mem p))
              else if h < StartHeightBlockRewardAdj2nd ps - 1 then GetCompact_cpp nextTarget
              else if h = StartHeightBlockRewardAdj2nd ps - 1 then ReduceWorkTarget mem ps p 10
              else if h < StartHeightBlockRewardAdj2nd ps + lda then Inr (nBits (mem p))
              else GetCompact_cpp nextTarget))))"

text \<open>\<open>GetSDAWorkRequired\<close> is kept in the source but not called since LDA includes the correction.\<close>

definition GetSDAWorkRequired :: "index_store \<Rightarrow> chain_params \<Rightarrow> ptr option \<Rightarrow> u32 cpp" where
  "GetSDAWorkRequired mem ps pindexPrev =
     (case pindexPrev of
        None \<Rightarrow> Inl AssertionFailed
      | Some p \<Rightarrow>
          bind_cpp (GetAncestor mem p (nHeight (mem p) - SDA_BLOCK_SIZE)) (\<lambda>r.
          case r of
            None \<Rightarrow> Inl AssertionFailed
          | Some pindexFirst \<Rightarrow>
              (let nEstTargetSpacing = SDA_BLOCK_SIZE * TargetSpacing ps;
                   nActualTimespan = GetBlockTime (mem p) - GetBlockTime (mem pindexFirst);
                   nAvgTime = nActualTimespan sdiv SDA_BLOCK_SIZE
               in if nAvgTime < SDA_MAX_TIME_SPAN then Inr (nBits (mem p))
                  else let nTargetActTS = nActualTimespan - drop_bit 2 nActualTimespan;
                           nPow = bn_mul_int (fst (SetCompact (nBits (mem p)))) nTargetActTS
                       in bind_cpp (bn_div_int nPow nEstTargetSpacing) (\<lambda>nPow.
                            GetCompact_cpp (limit_target ps nPow)))))"

definition GetTargetWorkRequired :: "index_store \<Rightarrow> chain_params \<Rightarrow> ptr option \<Rightarrow> int \<Rightarrow> u32 cpp" where
  "GetTargetWorkRequired mem ps pindexPrev block_time =
     bind_cpp (GetCompact_cpp (ProofOfWorkLimit ps)) (\<lambda>nProofOfWorkLimit.
     case pindexPrev of
       None \<Rightarrow> Inr nProofOfWorkLimit
     | Some p \<Rightarrow>
         if Interval ps \<le> 0 then Inr nProofOfWorkLimit
         else if AllowMinDifficultyBlocks ps \<and> block_time > GetBlockTime (mem p) + 2 * TargetSpacing ps
         then GetCompact_cpp (ProofOfWorkLimit ps)
         else GetLDAWorkRequired mem ps pindexPrev)"

subsection \<open>The inherited rule\<close>

text \<open>The search for the last block that was not mined under the minimum-difficulty rule.\<close>

partial_function (option) min_difficulty_loop ::
    "index_store \<Rightarrow> chain_params \<Rightarrow> u32 \<Rightarrow> ptr \<Rightarrow> ptr option" where
  "min_difficulty_loop mem ps nProofOfWorkLimit pindex =
     (case pprev (mem pindex) of
        None \<Rightarrow> Some pindex
      | Some q \<Rightarrow>
          if nHeight (mem pindex) smod Interval ps \<noteq> 0 \<and> nBits (mem pindex) = nProofOfWorkLimit
          then min_difficulty_loop mem ps nProofOfWorkLimit q else Some pindex)"

fun back_loop :: "index_store \<Rightarrow> nat \<Rightarrow> ptr option \<Rightarrow> ptr option" where
  "back_loop mem 0 pindexFirst = pindexFirst"
| "back_loop mem (Suc n) None = None"
| "back_loop mem (Suc n) (Some p) = back_loop mem n (pprev (mem p))"

definition retarget_timespan :: "chain_params \<Rightarrow> int \<Rightarrow> int" where
  "retarget_timespan ps nActualTimespan =
     (let t = (if nActualTimespan < TargetTimespan ps sdiv 4 then TargetTimespan ps sdiv 4 else nActualTimespan)
      in if t > TargetTimespan ps * 4 then TargetTimespan ps * 4 else t)"

definition GetBTCWorkRequired ::
    "index_store \<Rightarrow> chain_params \<Rightarrow> ptr option \<Rightarrow> int \<Rightarrow> u32 cpp option" where
  "GetBTCWorkRequired mem ps pindexLast block_time =
     (case GetCompact_cpp (ProofOfWorkLimit ps) of
        Inl e \<Rightarrow> Some (Inl e)
      | Inr nProofOfWorkLimit \<Rightarrow>
          (case pindexLast of
             None \<Rightarrow> Some (Inr nProofOfWorkLimit)
           | Some p \<Rightarrow>
               if Interval ps \<le> 0 then Some (Inr nProofOfWorkLimit)
               else if (nHeight (mem p) + 1) smod Interval ps \<noteq> 0 then
                 (if AllowMinDifficultyBlocks ps then
                    (if block_time > GetBlockTime (mem p) + TargetSpacing ps * 2
                     then Some (Inr nProofOfWorkLimit)
                     else map_option (\<lambda>q. Inr (nBits (mem q))) (min_difficulty_loop mem ps nProofOfWorkLimit p))
                  else Some (Inr (nBits (mem p))))
               else
                 (case back_loop mem (nat (Interval ps - 1)) (Some p) of
                    None \<Rightarrow> Some (Inl AssertionFailed)
                  | Some pindexFirst \<Rightarrow>
                      (let t = retarget_timespan ps (GetBlockTime (mem p) - GetBlockTime (mem pindexFirst));
                           bnNew = bn_mul_int (fst (SetCompact (nBits (mem p)))) t
                       in Some (bind_cpp (bn_div_int bnNew (TargetTimespan ps)) (\<lambda>bnNew.
                            GetCompact_cpp (limit_target ps bnNew)))))))"

definition GetNextWorkRequired ::
    "index_store \<Rightarrow> chain_params \<Rightarrow> ptr option \<Rightarrow> int \<Rightarrow> u32 cpp option" where
  "GetNextWorkRequired mem ps pindexLast block_time =
     (case pindexLast of
        None \<Rightarrow> Some (Inl NullPointer)
      | Some p \<Rightarrow>
          (let height = (of_int (nHeight (mem p) + 1) :: u32);
               isEnabledNewAlg = (if uint height < Interval ps then False
                                  else IsEnabledDiffAlg ps (sint height))
           in if isEnabledNewAlg then Some (GetTargetWorkRequired mem ps pindexLast block_time)
              else GetBTCWorkRequired mem ps pindexLast block_time))"

subsection \<open>Checking and counting work\<close>

definition CheckProofOfWork :: "chain_params \<Rightarrow> base_uint \<Rightarrow> u32 \<Rightarrow> bool" where
  "CheckProofOfWork ps hash nbits =
     (if SkipProofOfWorkCheck ps then True
      else case SetCompact nbits of (bnTarget, fNegative, fOverflow) \<Rightarrow>
        if fNegative \<or> EqualTo bnTarget 0 \<or> fOverflow \<or> bn_gt bnTarget (ProofOfWorkLimit ps) then False
        else if bn_gt hash bnTarget then False
        else True)"

definition CheckProofOfWork_height :: "chain_params \<Rightarrow> base_uint \<Rightarrow> u32 \<Rightarrow> u32 \<Rightarrow> u32 \<Rightarrow> bool" where
  "CheckProofOfWork_height ps hash nbits version height =
     (if SkipProofOfWorkCheck ps then True
      else if height \<ge> of_int (StartHeightNewHashAlog ps) \<and> version < 4 then False
      else CheckProofOfWork ps hash nbits)"

definition GetBlockProof :: "CBlockIndex \<Rightarrow> base_uint cpp" where
  "GetBlockProof block =
     (case SetCompact (nBits block) of (bnTarget, fNegative, fOverflow) \<Rightarrow>
        if fNegative \<or> fOverflow \<or> EqualTo bnTarget 0 then Inr (bn_of_u64 8 0)
        else bind_cpp (bn_div_cpp (bn_not bnTarget) (bn_add bnTarget (bn_of_u64 8 1)))
               (\<lambda>q. Inr (bn_add q (bn_of_u64 8 1))))"


section \<open>Values\<close>

lemma sint_of_int_u32: "- 2147483648 \<le> x \<Longrightarrow> x < 2147483648 \<Longrightarrow> sint (of_int x :: u32) = x"
  by (simp add: signed_of_int signed_take_bit_int_eq_self)

lemma ucast_0_iff: "(ucast (x :: u32) :: u64) = 0 \<longleftrightarrow> x = 0"
  by (metis unat_ucast_32_64 unat_eq_0)

lemma EqualTo_zero: "length a = 8 \<Longrightarrow> EqualTo a 0 \<longleftrightarrow> bn_val a = 0"
proof -
  assume "length a = 8"
  then obtain x y zs where a: "a = x # y # zs" by (cases a; cases "tl a") auto
  have "bn_val as = 0 \<longleftrightarrow> list_all (\<lambda>p. p = 0) as" for as
    by (induction as) (auto simp: unat_eq_0)
  then show ?thesis by (auto simp: EqualTo_def a ucast_0_iff unat_eq_0)
qed

lemma bn_gt_val: "length a = length b \<Longrightarrow> bn_gt a b \<longleftrightarrow> bn_val a > bn_val b"
  by (auto simp: bn_gt_def CompareTo_val)

lemma bn_div_cpp_ok:
  "length a = length b \<Longrightarrow> bn_val b \<noteq> 0 \<Longrightarrow>
   \<exists>q. bn_div_cpp a b = Inr q \<and> length q = length a \<and> bn_val q = bn_val a div bn_val b"
  using bn_div_val(2) [of a b] by (auto simp: bn_div_cpp_def)

lemma bn_div_cpp_Inr:
  assumes "bn_div_cpp a b = Inr q" "length a = length b"
  shows "length q = length a \<and> bn_val b \<noteq> 0 \<and> bn_val q = bn_val a div bn_val b"
  using bn_div_val [OF assms(2)] assms(1) by (cases "bn_val b = 0") (auto simp: bn_div_cpp_def)

lemma length_bn_of_u64_8 [simp]: "length (bn_of_u64 8 x) = 8" by simp

lemma SetCompact_below_max: "bn_val (fst (SetCompact c)) + 1 < 2 ^ 256"
proof (cases "compact_exp c \<le> 3")
  case True
  have "compact_mant c < 8388608" by (simp add: compact_mant_def)
  then have "compact_mant c div 256 ^ (3 - compact_exp c) < 8388608"
    using div_le_dividend le_less_trans by blast
  then show ?thesis using True by (simp add: SetCompact_val)
next
  case False
  define k where "k = compact_exp c - 4"
  have e: "compact_exp c - 3 = Suc k" using False by (simp add: k_def)
  let ?v = "(compact_mant c * 256 ^ Suc k) mod 2 ^ 256"
  have "256 dvd (2 :: nat) ^ 256" using le_imp_power_dvd [of 8 256 "2::nat"] by simp
  then have "256 dvd ?v" by (intro dvd_mod) simp_all
  moreover have "?v < 2 ^ 256" by simp
  moreover have "\<not> 256 dvd (2 ^ 256 - 1 :: nat)" by simp
  ultimately have "?v \<noteq> 2 ^ 256 - 1" "?v < 2 ^ 256" by metis+
  then have "?v + 1 < 2 ^ 256" by linarith
  then show ?thesis using False by (simp add: SetCompact_val e)
qed

definition target_of :: "u32 \<Rightarrow> nat" where
  "target_of c = bn_val (fst (SetCompact c))"

definition bits_valid :: "u32 \<Rightarrow> bool" where
  "bits_valid c \<longleftrightarrow> \<not> fst (snd (SetCompact c)) \<and> \<not> snd (snd (SetCompact c))"

lemma proof_div: "0 < t \<Longrightarrow> t + 1 \<le> M \<Longrightarrow> (M - 1 - t) div (t + 1) + 1 = M div (t + 1)" for t M :: nat
proof -
  assume t: "0 < t" "t + 1 \<le> M"
  then have "M = (M - 1 - t) + (t + 1)" by simp
  then show ?thesis by (metis div_add_self2 Suc_eq_plus1 nat.distinct(1))
qed

lemma GetBlockProof_val:
  "\<exists>w. GetBlockProof b = Inr w \<and> length w = 8 \<and>
     bn_val w = (if bits_valid (nBits b) \<and> target_of (nBits b) \<noteq> 0
                 then 2 ^ 256 div (target_of (nBits b) + 1) else 0)"
proof -
  obtain t neg ovf where s: "SetCompact (nBits b) = (t, neg, ovf)" by (cases "SetCompact (nBits b)") auto
  have len: "length t = 8" using length_SetCompact [of "nBits b"] s by simp
  have tv: "target_of (nBits b) = bn_val t" "bits_valid (nBits b) \<longleftrightarrow> \<not> neg \<and> \<not> ovf"
    by (simp_all add: target_of_def bits_valid_def s)
  have small: "bn_val t + 1 < 2 ^ 256" using SetCompact_below_max [of "nBits b"] s by simp
  have M: "(4294967296 :: nat) ^ 8 = 2 ^ 256" by simp
  show ?thesis
  proof (cases "neg \<or> ovf \<or> bn_val t = 0")
    case True
    then show ?thesis using len by (auto simp: GetBlockProof_def s EqualTo_zero tv bn_val_of_u64)
  next
    case False
    have one: "bn_val (bn_of_u64 8 1) = 1" by (simp add: bn_val_of_u64)
    have add: "bn_val (bn_add t (bn_of_u64 8 1)) = bn_val t + 1"
      using len small one by (simp add: bn_val_add M)
    obtain q where q: "bn_div_cpp (bn_not t) (bn_add t (bn_of_u64 8 1)) = Inr q" "length q = 8"
        "bn_val q = (2 ^ 256 - 1 - bn_val t) div (bn_val t + 1)"
      using bn_div_cpp_ok [of "bn_not t" "bn_add t (bn_of_u64 8 1)"] len add
      by (auto simp: bn_val_not M)
    have "bn_val q + 1 = 2 ^ 256 div (bn_val t + 1)"
      using proof_div [of "bn_val t" "2 ^ 256"] False small q(3) by simp
    moreover have "2 ^ 256 div (bn_val t + 1) < 2 ^ 256" using False by (intro div_less_dividend) simp_all
    ultimately have "bn_val (bn_add q (bn_of_u64 8 1)) = 2 ^ 256 div (bn_val t + 1)"
      using q(2) one by (simp add: bn_val_add M)
    then show ?thesis using False q len by (simp add: GetBlockProof_def s EqualTo_zero tv)
  qed
qed


section \<open>Targets\<close>

definition bits_ok :: "chain_params \<Rightarrow> u32 \<Rightarrow> bool" where
  "bits_ok ps c \<longleftrightarrow> bits_valid c \<and> target_of c \<le> bn_val (ProofOfWorkLimit ps)"

definition params_ok :: "chain_params \<Rightarrow> bool" where
  "params_ok ps \<longleftrightarrow> length (ProofOfWorkLimit ps) = 8"

lemma limit_target_val:
  assumes "params_ok ps" "length a = 8"
  shows "length (limit_target ps a) = 8 \<and> bn_val (limit_target ps a) = min (bn_val a) (bn_val (ProofOfWorkLimit ps))"
  using assms by (simp add: limit_target_def params_ok_def bn_gt_val)

lemma GetCompact_cpp_ok:
  "length a = 8 \<Longrightarrow> \<exists>c. GetCompact_cpp a = Inr c \<and> bits_valid c \<and> target_of c \<le> bn_val a
     \<and> (bn_val a - target_of c) * 2 ^ 15 \<le> bn_val a"
  using GetCompact_decodes [of a] by (auto simp: GetCompact_cpp_def bits_valid_def target_of_def)

lemma GetCompact_limit_ok:
  assumes "params_ok ps" "length a = 8"
  shows "\<exists>c. GetCompact_cpp (limit_target ps a) = Inr c \<and> bits_ok ps c"
  using GetCompact_cpp_ok [of "limit_target ps a"] limit_target_val [OF assms] by (auto simp: bits_ok_def)

lemma length_bn_mul_int [simp]: "length (bn_mul_int a x) = length a"
  by (simp add: bn_mul_int_def)

lemma GetTargetPow_length:
  assumes "GetTargetPow mem ps f p x k = Inr t" "length (nChainWork (mem p)) = 8" "length (nChainWork (mem f)) = 8"
  shows "length t = 8"
proof -
  obtain w y where "bn_div_int (bn_mul_int (bn_sub (nChainWork (mem p)) (nChainWork (mem f))) (TargetSpacing ps)) y = Inr w"
      "bn_div_cpp (bn_neg w) w = Inr t"
    using assms(1) by (auto simp: GetTargetPow_def bind_cpp_eq_Inr assert_cpp_eq_Inr Let_def)
  then show ?thesis using bn_div_cpp_Inr [of _ "bn_of_u64 8 (of_int y)" w] bn_div_cpp_Inr [of "bn_neg w" w t] assms
    by (simp add: bn_div_int_def)
qed

text \<open>The invariant of the index that the difficulty rules keep.\<close>

definition work_wf :: "chain_params \<Rightarrow> index_store \<Rightarrow> ptr set \<Rightarrow> bool" where
  "work_wf ps mem D \<longleftrightarrow> index_wf mem D \<and> params_ok ps \<and>
     (\<forall>q \<in> D. length (nChainWork (mem q)) = 8 \<and> bits_ok ps (nBits (mem q)))"

lemma ReduceWorkTarget_ok: "params_ok ps \<Longrightarrow> ReduceWorkTarget mem ps p s = Inr c \<Longrightarrow> bits_ok ps c"
  using GetCompact_limit_ok [of ps "bn_mul_int (fst (SetCompact (nBits (mem p)))) s"]
  by (auto simp: ReduceWorkTarget_def)

lemma GetLDAWorkRequired_ok:
  assumes wf: "work_wf ps mem D" "p \<in> D" and r: "GetLDAWorkRequired mem ps (Some p) = Inr c"
  shows "bits_ok ps c"
proof -
  obtain h f t where f: "GetAncestor mem p h = Inr (Some f)" and t: "GetTargetPow mem ps f p TIME_XFACTOR TIME_FACTOR = Inr t"
    and c: "c \<in> {c. GetCompact_cpp (limit_target ps t) = Inr c} \<union> {c. \<exists>s. ReduceWorkTarget mem ps p s = Inr c} \<union> {nBits (mem p)}"
    using r by (auto simp: GetLDAWorkRequired_def bind_cpp_eq_Inr Let_def split: option.splits if_splits)
  have "f \<in> D" using GetAncestor_walk [of mem D p h] walk_height [of mem D p "nat (nHeight (mem p) - h)"] wf f
    by (auto simp: work_wf_def split: if_splits)
  then have "length t = 8" using GetTargetPow_length [OF t] wf by (simp add: work_wf_def)
  then show ?thesis using c wf GetCompact_limit_ok [of ps t] ReduceWorkTarget_ok [of ps mem p _ c]
    by (auto simp: work_wf_def)
qed


lemma min_difficulty_loop_ends:
  assumes wf: "index_wf mem D" and p: "p \<in> D"
  shows "\<exists>q \<in> D. min_difficulty_loop mem ps lim p = Some q"
  using p
proof (induction "nat (nHeight (mem p))" arbitrary: p rule: less_induct)
  case less
  show ?case
  proof (cases "pprev (mem p)")
    case None
    then show ?thesis using less.prems by (subst min_difficulty_loop.simps) auto
  next
    case (Some q)
    then have q: "q \<in> D" "nHeight (mem p) = nHeight (mem q) + 1" using index_wfD(3) [OF wf less.prems] by blast+
    then have "\<exists>r \<in> D. min_difficulty_loop mem ps lim q = Some r"
      using less.hyps [of q] index_wfD(1) [OF wf q(1)] by auto
    then show ?thesis using less.prems Some by (subst min_difficulty_loop.simps) auto
  qed
qed

lemma back_loop_walk: "back_loop mem n (Some p) = walk mem n p"
proof (induction n arbitrary: p)
  case (Suc n)
  have "back_loop mem m None = None" for m by (cases m) simp_all
  then show ?case using Suc by (simp split: option.split)
qed simp

lemma smod_nonneg [simp]: "0 \<le> a \<Longrightarrow> 0 \<le> b \<Longrightarrow> a smod b = a mod b" for a b :: int
  by (cases "a = 0"; cases "b = 0") (simp_all add: signed_modulo_int_def)

lemma of_int_u64_nonzero: "0 < x \<Longrightarrow> x < 2 ^ 64 \<Longrightarrow> bn_val (bn_of_u64 8 (of_int x)) = nat x"
  by (simp add: bn_val_of_u64 unsigned_of_int take_bit_int_eq_self)

lemma bn_div_int_ok:
  assumes "length a = 8" "0 < x" "x < 2 ^ 64"
  shows "\<exists>q. bn_div_int a x = Inr q \<and> length q = 8 \<and> bn_val q = bn_val a div nat x"
  using bn_div_cpp_ok [of a "bn_of_u64 8 (of_int x)"] of_int_u64_nonzero [OF assms(2,3)] assms
  by (simp add: bn_div_int_def)

lemma GetBTCWorkRequired_ok:
  assumes wf: "work_wf ps mem D" "p \<in> D" and ts: "0 < TargetTimespan ps" "TargetTimespan ps < 2 ^ 63"
  shows "\<exists>c. GetBTCWorkRequired mem ps (Some p) t = Some (Inr c) \<and> bits_ok ps c"
proof -
  have iw: "index_wf mem D" and pk: "params_ok ps" and bits: "\<And>q. q \<in> D \<Longrightarrow> bits_ok ps (nBits (mem q))"
    using wf by (auto simp: work_wf_def)
  obtain lim where lim: "GetCompact_cpp (ProofOfWorkLimit ps) = Inr lim" "bits_ok ps lim"
    using GetCompact_cpp_ok [of "ProofOfWorkLimit ps"] pk by (auto simp: params_ok_def bits_ok_def)
  show ?thesis
  proof (cases "Interval ps \<le> 0 \<or> (nHeight (mem p) + 1) smod Interval ps \<noteq> 0")
    case True
    then show ?thesis
      using lim bits [OF wf(2)] min_difficulty_loop_ends [OF iw wf(2), of ps lim] bits
      by (auto simp: GetBTCWorkRequired_def)
  next
    case False
    have h: "0 \<le> nHeight (mem p)" using index_wfD(1) [OF iw wf(2)] .
    then have "Interval ps dvd nHeight (mem p) + 1" using False by (auto simp: dvd_eq_mod_eq_0)
    then have "Interval ps \<le> nHeight (mem p) + 1" using h by (intro zdvd_imp_le) simp_all
    then obtain q where q: "back_loop mem (nat (Interval ps - 1)) (Some p) = Some q"
      using walk_height [OF iw wf(2), of "nat (Interval ps - 1)"] False by (auto simp: back_loop_walk)
    define s where "s = retarget_timespan ps (GetBlockTime (mem p) - GetBlockTime (mem q))"
    obtain d where d: "bn_div_int (bn_mul_int (fst (SetCompact (nBits (mem p)))) s) (TargetTimespan ps) = Inr d"
        "length d = 8"
      using bn_div_int_ok [of "bn_mul_int (fst (SetCompact (nBits (mem p)))) s" "TargetTimespan ps"] ts by auto
    then show ?thesis using GetCompact_limit_ok [OF pk d(2)] lim(1) q False
      by (auto simp: GetBTCWorkRequired_def Let_def s_def)
  qed
qed

lemma GetTargetWorkRequired_ok:
  assumes "work_wf ps mem D" "p \<in> D" "GetTargetWorkRequired mem ps (Some p) t = Inr c"
  shows "bits_ok ps c"
proof -
  have "GetCompact_cpp (ProofOfWorkLimit ps) = Inr c \<or> GetLDAWorkRequired mem ps (Some p) = Inr c"
    using assms(3) by (auto simp: GetTargetWorkRequired_def bind_cpp_eq_Inr split: if_splits)
  then show ?thesis using GetLDAWorkRequired_ok [OF assms(1,2)] GetCompact_cpp_ok [of "ProofOfWorkLimit ps"] assms(1)
    by (auto simp: work_wf_def params_ok_def bits_ok_def)
qed

text \<open>
  C25. The difficulty rules end and keep the targets in range: on an index whose blocks have
  valid targets below the proof-of-work limit, \<open>GetNextWorkRequired\<close> returns or stops with a
  fault, what it returns is again a valid target below the limit, and below the activation
  height of the new rule it returns without a fault.
\<close>

theorem GetNextWorkRequired_bits:
  assumes wf: "work_wf ps mem D" and p: "p \<in> D"
    and ts: "0 < TargetTimespan ps" "TargetTimespan ps < 2 ^ 63" and h: "nHeight (mem p) + 1 < 2 ^ 31"
  shows "\<exists>r. GetNextWorkRequired mem ps (Some p) t = Some r
    \<and> (\<forall>c. r = Inr c \<longrightarrow> bits_ok ps c)
    \<and> (nHeight (mem p) + 1 < StartHeightDiffAlg ps \<longrightarrow> (\<exists>c. r = Inr c))"
proof -
  have h0: "0 \<le> nHeight (mem p)" using wf p index_wfD(1) by (auto simp: work_wf_def)
  have s: "sint (of_int (nHeight (mem p) + 1) :: u32) = nHeight (mem p) + 1"
    using h h0 by (intro sint_of_int_u32) simp_all
  show ?thesis
    using GetBTCWorkRequired_ok [OF wf p ts, of t] GetTargetWorkRequired_ok [OF wf p, of t]
    unfolding GetNextWorkRequired_def Let_def option.case s IsEnabledDiffAlg_def
    by (auto split: if_splits)
qed


lemma retarget_timespan_clamp:
  assumes "0 < TargetTimespan ps"
  shows "retarget_timespan ps x = max (TargetTimespan ps div 4) (min x (4 * TargetTimespan ps))"
    and "0 \<le> retarget_timespan ps x" "retarget_timespan ps x \<le> 4 * TargetTimespan ps"
proof -
  have q: "TargetTimespan ps div 4 \<le> TargetTimespan ps" "0 \<le> TargetTimespan ps div 4"
    using assms by auto
  then show e: "retarget_timespan ps x = max (TargetTimespan ps div 4) (min x (4 * TargetTimespan ps))"
    using assms by (simp add: retarget_timespan_def max_def min_def)
  show "0 \<le> retarget_timespan ps x" "retarget_timespan ps x \<le> 4 * TargetTimespan ps"
    unfolding e using q assms by simp_all
qed

lemma bn_val_mul_int:
  assumes "length a = 8" "0 \<le> x"
  shows "bn_val (bn_mul_int a x) = bn_val a * (nat x mod 2 ^ 32) mod 2 ^ 256"
  using assms by (simp add: bn_mul_int_def bn_val_mul32 unsigned_of_int take_bit_eq_mod nat_mod_distrib)

text \<open>
  The time an interval took, limited to between a quarter and four times the intended one, and a
  target scaled by it. In the code the factor is a 32-bit number and the product a 256-bit one:
  \<open>retarget_value\<close> has both cut off, \<open>scaled_target\<close> is the value that is meant.
\<close>

definition clamped_time :: "chain_params \<Rightarrow> int \<Rightarrow> nat" where
  "clamped_time ps s = nat (max (TargetTimespan ps div 4) (min s (4 * TargetTimespan ps)))"

definition retarget_value :: "chain_params \<Rightarrow> nat \<Rightarrow> int \<Rightarrow> nat" where
  "retarget_value ps T s =
     min (T * (clamped_time ps s mod 2 ^ 32) mod 2 ^ 256 div nat (TargetTimespan ps)) (bn_val (ProofOfWorkLimit ps))"

definition scaled_target :: "chain_params \<Rightarrow> nat \<Rightarrow> int \<Rightarrow> nat" where
  "scaled_target ps T s = min (T * clamped_time ps s div nat (TargetTimespan ps)) (bn_val (ProofOfWorkLimit ps))"

lemma retarget_value_le:
  assumes "0 < TargetTimespan ps"
  shows "retarget_value ps T s \<le> 4 * T"
proof -
  have "clamped_time ps s \<le> 4 * nat (TargetTimespan ps)" using assms by (simp add: clamped_time_def)
  then have "T * (clamped_time ps s mod 2 ^ 32) \<le> T * (4 * nat (TargetTimespan ps))"
    by (intro mult_le_mono2 order_trans [OF mod_less_eq_dividend])
  then have "T * (clamped_time ps s mod 2 ^ 32) mod 2 ^ 256 \<le> T * (4 * nat (TargetTimespan ps))"
    by (rule order_trans [OF mod_less_eq_dividend])
  then have "T * (clamped_time ps s mod 2 ^ 32) mod 2 ^ 256 div nat (TargetTimespan ps) \<le> T * (4 * nat (TargetTimespan ps)) div nat (TargetTimespan ps)"
    by (rule div_le_mono)
  also have "\<dots> = 4 * T" using assms by (simp add: ac_simps)
  finally show ?thesis by (simp add: retarget_value_def)
qed

lemma retarget_value_exact:
  assumes "0 < TargetTimespan ps" "TargetTimespan ps < 2 ^ 30" "T * (4 * nat (TargetTimespan ps)) < 2 ^ 256"
  shows "retarget_value ps T s = scaled_target ps T s"
proof -
  have c: "clamped_time ps s \<le> 4 * nat (TargetTimespan ps)" using assms(1) by (simp add: clamped_time_def)
  then have "clamped_time ps s < 2 ^ 32" using assms(2) by simp
  moreover have "T * clamped_time ps s < 2 ^ 256" using mult_le_mono2 [OF c] assms(3) by (rule le_less_trans)
  ultimately show ?thesis by (simp add: retarget_value_def scaled_target_def del: numeral_power_eq_of_nat_cancel_iff)
qed

text \<open>
  C26. The inherited rule at the end of an interval: the new target is the old one times the time the
  interval took, limited to between a quarter and four times the intended one and cut off at 32 bits,
  the product cut off at 256 bits, divided by the intended time, cut off at the limit and rounded
  down by the compact encoding. It is at most four times the old target. If four times the old target
  times the intended time stays below \<open>2 ^ 256\<close>, and the intended time below \<open>2 ^ 30\<close> seconds,
  nothing is lost and it is the old target scaled by the time; otherwise the product can wrap.
\<close>

theorem GetBTCWorkRequired_retarget:
  assumes wf: "work_wf ps mem D" "p \<in> D" and ts: "0 < TargetTimespan ps" "TargetTimespan ps < 2 ^ 61"
    and i: "0 < Interval ps" "(nHeight (mem p) + 1) mod Interval ps = 0"
  shows "\<exists>c q. GetBTCWorkRequired mem ps (Some p) t = Some (Inr c)
    \<and> walk mem (nat (Interval ps - 1)) p = Some q
    \<and> (let T = target_of (nBits (mem p)); s = GetBlockTime (mem p) - GetBlockTime (mem q); v = retarget_value ps T s
       in target_of c \<le> v \<and> (v - target_of c) * 2 ^ 15 \<le> v \<and> v \<le> 4 * T
          \<and> (TargetTimespan ps < 2 ^ 30 \<and> T * (4 * nat (TargetTimespan ps)) < 2 ^ 256 \<longrightarrow> v = scaled_target ps T s))"
proof -
  let ?T = "target_of (nBits (mem p))" and ?I = "nat (Interval ps - 1)"
  have iw: "index_wf mem D" and pk: "params_ok ps" using wf by (auto simp: work_wf_def)
  have h0: "0 \<le> nHeight (mem p)" using index_wfD(1) [OF iw wf(2)] .
  have "Interval ps \<le> nHeight (mem p) + 1" using h0 i by (intro zdvd_imp_le) (auto simp: dvd_eq_mod_eq_0)
  then obtain q where q: "walk mem ?I p = Some q" using walk_height [OF iw wf(2), of ?I] i by auto
  let ?s = "GetBlockTime (mem p) - GetBlockTime (mem q)"
  define s where "s = retarget_timespan ps ?s"
  define a where "a = bn_mul_int (fst (SetCompact (nBits (mem p)))) s"
  note clamp = retarget_timespan_clamp [OF ts(1), of ?s, folded s_def]
  have ns: "nat s = clamped_time ps ?s" by (simp add: clamp(1) clamped_time_def)
  have av: "bn_val a = ?T * (clamped_time ps ?s mod 2 ^ 32) mod 2 ^ 256"
    unfolding a_def target_of_def ns [symmetric] using clamp(2) by (intro bn_val_mul_int) simp_all
  obtain d where d: "bn_div_int a (TargetTimespan ps) = Inr d" "length d = 8"
      "bn_val d = ?T * (clamped_time ps ?s mod 2 ^ 32) mod 2 ^ 256 div nat (TargetTimespan ps)"
    using bn_div_int_ok [of a "TargetTimespan ps"] ts av by (auto simp: a_def)
  let ?v = "retarget_value ps ?T ?s"
  have v: "length (limit_target ps d) = 8" "bn_val (limit_target ps d) = ?v"
    by (simp_all only: limit_target_val [OF pk d(2)] retarget_value_def d(3))
  obtain c where c: "GetCompact_cpp (limit_target ps d) = Inr c" "target_of c \<le> ?v" "(?v - target_of c) * 2 ^ 15 \<le> ?v"
    using GetCompact_cpp_ok [OF v(1)] unfolding v(2) by blast
  obtain lim where "GetCompact_cpp (ProofOfWorkLimit ps) = Inr lim"
    using GetCompact_cpp_ok [of "ProofOfWorkLimit ps"] pk by (auto simp: params_ok_def)
  then have "GetBTCWorkRequired mem ps (Some p) t = Some (Inr c)"
    using q d c i h0 by (simp add: GetBTCWorkRequired_def back_loop_walk Let_def s_def [symmetric] a_def [symmetric])
  then show ?thesis
    unfolding Let_def using q c(2,3) retarget_value_le [OF ts(1)] retarget_value_exact [OF ts(1)] by blast
qed

text \<open>
  The product wraps for a target near a limit of \<open>2 ^ 248 - 1\<close>, the default of the chain parameters:
  after an interval of exactly the intended 360 seconds the target is not kept but divided by more than 3.
\<close>

lemma retarget_wraps:
  assumes "TargetTimespan ps = 360" "bn_val (ProofOfWorkLimit ps) = 2 ^ 248 - 1"
  shows "scaled_target ps (0xffff * 256 ^ 29) 360 = 0xffff * 256 ^ 29"
    and "3 * retarget_value ps (0xffff * 256 ^ 29) 360 < 0xffff * 256 ^ 29"
  using assms by (simp_all add: scaled_target_def retarget_value_def clamped_time_def)

lemma CheckProofOfWork_val:
  assumes "params_ok ps" "length hash = 8"
  shows "CheckProofOfWork ps hash c \<longleftrightarrow> SkipProofOfWorkCheck ps \<or>
    bits_ok ps c \<and> target_of c \<noteq> 0 \<and> bn_val hash \<le> target_of c"
proof -
  obtain t neg ovf where s: "SetCompact c = (t, neg, ovf)" by (cases "SetCompact c") auto
  have "length t = 8" using length_SetCompact [of c] s by simp
  then show ?thesis using assms
    by (auto simp: CheckProofOfWork_def s EqualTo_zero bn_gt_val params_ok_def bits_ok_def bits_valid_def target_of_def)
qed

text \<open>
  C27. Work counts attempts: the work that \<open>GetBlockProof\<close> credits to a block is
  \<open>2 ^ 256 div (target + 1)\<close> (0 for an invalid target), and for a block that passes
  \<open>CheckProofOfWork\<close> it is at least the work of the easiest allowed target and at most what its
  hash can justify.
\<close>

theorem CheckProofOfWork_work:
  assumes "params_ok ps" "length hash = 8" "\<not> SkipProofOfWorkCheck ps" "CheckProofOfWork ps hash (nBits b)"
  shows "\<exists>w. GetBlockProof b = Inr w \<and> bn_val w = 2 ^ 256 div (target_of (nBits b) + 1)
    \<and> 2 ^ 256 div (bn_val (ProofOfWorkLimit ps) + 1) \<le> bn_val w
    \<and> (bn_val hash + 1) * bn_val w \<le> 2 ^ 256"
proof -
  let ?t = "target_of (nBits b)"
  have ok: "bits_ok ps (nBits b)" "?t \<noteq> 0" "bn_val hash \<le> ?t"
    using assms by (auto simp: CheckProofOfWork_val)
  then have lim: "?t \<le> bn_val (ProofOfWorkLimit ps)" by (simp add: bits_ok_def)
  obtain w where w: "GetBlockProof b = Inr w" "bn_val w = 2 ^ 256 div (?t + 1)"
    using GetBlockProof_val [of b] ok by (auto simp: bits_ok_def)
  have "(2 :: nat) ^ 256 div (bn_val (ProofOfWorkLimit ps) + 1) \<le> 2 ^ 256 div (?t + 1)"
    using lim by (intro div_le_mono2) simp_all
  then have "2 ^ 256 div (bn_val (ProofOfWorkLimit ps) + 1) \<le> bn_val w" by (simp only: w(2))
  moreover have "(bn_val hash + 1) * bn_val w \<le> (?t + 1) * bn_val w" using ok(3) by (intro mult_le_mono1) simp
  moreover have "(?t + 1) * bn_val w \<le> 2 ^ 256" unfolding w(2) by (rule times_div_less_eq_dividend)
  ultimately show ?thesis using w by (metis le_trans)
qed

definition example_pow :: chain_params where
  "example_pow = \<lparr>ProofOfWorkLimit = [0xFFFFFFFF, 0xFFFFFFFF, 0xFFFFFFFF, 0xFFFFFFFF, 0xFFFFFFFF, 0xFFFFFFFF, 0xFFFFFFFF, 0], AllowMinDifficultyBlocks = False,
     SkipProofOfWorkCheck = False, TargetTimespan = 360, TargetSpacing = 180, StartHeightDiffAlg = 112400,
     StartHeightEpowV2 = 112400, StartHeightChBlockSigner = 138700, StartHeightBlockRewardAdj = 150000,
     StartHeightNewHashAlog = 151880, StartHeightBlockRewardAdj2nd = 183400\<rparr>"

definition example_work :: index_store where
  "example_work = (\<lambda>p. (example_chain p)\<lparr>nBits := 0x1c00ffff, nTime := (if p = 0 then 1000 else 2000)\<rparr>)"

lemma example_work_wf: "work_wf example_pow example_work {0, 1, 2, 3}"
proof -
  have "index_wf example_work {0, 1, 2, 3}"
    using example_chain_wf by (rule index_wf_frame) (simp add: example_work_def)
  moreover have "bits_ok example_pow 0x1c00ffff"
    by (simp add: bits_ok_def bits_valid_def target_of_def SetCompact_flags SetCompact_val compact_exp_def
        compact_mant_def example_pow_def)
  ultimately show ?thesis
    by (auto simp: work_wf_def params_ok_def example_pow_def example_work_def example_chain_def SetNull_def)
qed

lemma example_work_simps:
  "nHeight (example_work 1) = 1" "nBits (example_work p) = 0x1c00ffff" "GetBlockTime (example_work 1) = 2000"
  "TargetTimespan example_pow = 360" "TargetSpacing example_pow = 180" "StartHeightDiffAlg example_pow = 112400"
  "Interval example_pow = 2" "SkipProofOfWorkCheck example_pow = False" "params_ok example_pow"
  by (simp_all add: example_work_def example_chain_def SetNull_def GetBlockTime_def example_pow_def Interval_def
      params_ok_def)

lemma example_target: "target_of 0x1c00ffff = 65535 * 256 ^ 25"
  by (simp add: target_of_def SetCompact_val compact_exp_def compact_mant_def)

theorem GetNextWorkRequired_bits_witness:
  "\<exists>c. GetNextWorkRequired example_work example_pow (Some 1) 0 = Some (Inr c) \<and> bits_ok example_pow c"
proof -
  have "1 \<in> {0, 1, 2, 3 :: ptr}" "0 < TargetTimespan example_pow" "TargetTimespan example_pow < 2 ^ 63"
      "nHeight (example_work 1) + 1 < 2 ^ 31" and low: "nHeight (example_work 1) + 1 < StartHeightDiffAlg example_pow"
    unfolding example_work_simps by simp_all
  from GetNextWorkRequired_bits [OF example_work_wf this(1-4), of 0] low show ?thesis by blast
qed

theorem GetBTCWorkRequired_retarget_witness:
  "\<exists>c v. GetBTCWorkRequired example_work example_pow (Some 1) 0 = Some (Inr c)
    \<and> target_of c \<le> v \<and> v \<le> 4 * target_of 0x1c00ffff"
proof -
  have "(nHeight (example_work 1) + 1) mod Interval example_pow = 0" "0 < Interval example_pow"
      "0 < TargetTimespan example_pow" "TargetTimespan example_pow < 2 ^ 61" "1 \<in> {0, 1, 2, 3 :: ptr}"
    unfolding example_work_simps by simp_all
  from GetBTCWorkRequired_retarget [OF example_work_wf this(5,3,4,2,1), of 0]
  show ?thesis unfolding Let_def example_work_simps by blast
qed

theorem CheckProofOfWork_work_witness:
  "\<exists>w. GetBlockProof (example_work 1) = Inr w \<and> (bn_val (bn_zero 8) + 1) * bn_val w \<le> 2 ^ 256"
proof -
  have "bits_ok example_pow (nBits (example_work 1))" using example_work_wf by (simp add: work_wf_def)
  then have "CheckProofOfWork example_pow (bn_zero 8) (nBits (example_work 1))"
    by (simp add: CheckProofOfWork_val example_work_simps example_target)
  from CheckProofOfWork_work [OF example_work_simps(9) length_bn_zero _ this]
  show ?thesis unfolding example_work_simps by blast
qed

end
