(* ===== verification/BlockTree.thy ===== *)
theory BlockTree
  imports Pow "HOL-Library.Product_Lexorder"
begin

text \<open>
  The tree of known blocks in \<^verbatim>\<open>core/main.cpp\<close>: \<open>AddToBlockIndex\<close> adds the entry of a header,
  \<open>ReceivedBlockTransactions\<close> marks that the data of a block has arrived and makes it and the
  blocks that waited for it candidates for the active chain, \<open>FindMostWorkChain\<close> chooses among the
  candidates in the order of \<open>CBlockIndexWorkComparator\<close>, and \<open>PruneBlockIndexCandidates\<close>,
  \<open>InvalidateBlock\<close> and \<open>ReconsiderBlock\<close> change the set of candidates. The globals of the file
  are a record. \<open>new\<close> returns the next pointer. A \<open>std::set\<close> ordered by the comparator is the list
  of its elements in that order. The hash of a header, the permission and wallet lookups of the
  mining status and \<open>VerifyBlockMiner\<close> are arguments.
\<close>

record CBlockHeader =
  h_nVersion :: int
  hashPrevBlock :: base_uint
  h_hashMerkleRoot :: base_uint
  h_nTime :: u32
  h_nBits :: u32
  h_nNonce :: u32

record block_tree =
  t_mem :: index_store
  t_alloc :: nat
  mapBlockIndex :: "(base_uint \<times> ptr) list"
  pindexBestHeader :: "ptr option"
  pindexBestInvalid :: "ptr option"
  setBlockIndexCandidates :: "ptr list"
  mapBlocksUnlinked :: "(ptr \<times> ptr) list"
  nBlockSequenceId :: u32
  setDirtyBlockIndex :: "ptr set"
  vFirstOnThisHeight :: "ptr option list"

abbreviation "BLOCK_HAVE_DATA \<equiv> (8 :: u32)"
abbreviation "BLOCK_FAILED_VALID \<equiv> (32 :: u32)"
abbreviation "BLOCK_FAILED_CHILD \<equiv> (64 :: u32)"

section \<open>The comparator and sets ordered by it\<close>

definition WorkComparator :: "index_store \<Rightarrow> ptr \<Rightarrow> ptr \<Rightarrow> bool" where
  "WorkComparator mem pa pb =
     (let a = mem pa; b = mem pb in
      if CompareTo (nChainWork a) (nChainWork b) > 0 then False
      else if CompareTo (nChainWork a) (nChainWork b) < 0 then True
      else if nCanMine a > 0 \<and> nCanMine b = 0 then False
      else if nCanMine a = 0 \<and> nCanMine b > 0 then True
      else if nCanMine a = 0 \<and> nCanMine b = 0 \<and> nHeightMinedByMe a < nHeightMinedByMe b then False
      else if nCanMine a = 0 \<and> nCanMine b = 0 \<and> nHeightMinedByMe a > nHeightMinedByMe b then True
      else if nSequenceId a < nSequenceId b then False
      else if nSequenceId a > nSequenceId b then True
      else if pa < pb then False
      else if pa > pb then True
      else False)"

fun set_insert :: "('a \<Rightarrow> 'a \<Rightarrow> bool) \<Rightarrow> 'a \<Rightarrow> 'a list \<Rightarrow> 'a list" where
  "set_insert lt x [] = [x]"
| "set_insert lt x (y # ys) =
     (if lt x y then x # y # ys else if lt y x then y # set_insert lt x ys else y # ys)"

definition set_erase :: "'a \<Rightarrow> 'a list \<Rightarrow> 'a list" where
  "set_erase x xs = filter (\<lambda>y. y \<noteq> x) xs"

section \<open>Adding a header\<close>

definition CBlockIndex_of :: "CBlockHeader \<Rightarrow> CBlockIndex" where
  "CBlockIndex_of b = SetNull\<lparr>nVersion := h_nVersion b, hashMerkleRoot := h_hashMerkleRoot b, nTime := h_nTime b,
     nBits := h_nBits b, nNonce := h_nNonce b\<rparr>"

partial_function (option) last_on_height :: "index_store \<Rightarrow> ptr \<Rightarrow> ptr option" where
  "last_on_height mem p = (case pNextOnThisHeight (mem p) of None \<Rightarrow> Some p | Some q \<Rightarrow> last_on_height mem q)"

text \<open>\<open>resize\<close> fills with null pointers.\<close>

definition UpdateBlockByHeightList ::
    "index_store \<Rightarrow> ptr option list \<Rightarrow> ptr \<Rightarrow> (index_store \<times> ptr option list) option" where
  "UpdateBlockByHeightList mem firsts p =
     (if nHeight (mem p) < 0 then Some (mem, firsts)
      else
        (let h = nat (nHeight (mem p));
             firsts = (if h + 1 > length firsts then vec_resize (h + 1) None firsts else firsts)
         in case firsts ! h of
              Some f \<Rightarrow>
                map_option (\<lambda>l. (mem(l := (mem l)\<lparr>pNextOnThisHeight := Some p\<rparr>), firsts)) (last_on_height mem f)
            | None \<Rightarrow> Some (mem, firsts[h := Some p])))"

definition AddToBlockIndex :: "base_uint \<Rightarrow> CBlockHeader \<Rightarrow> block_tree \<Rightarrow> (ptr \<times> block_tree) cpp option" where
  "AddToBlockIndex hash block t =
     (case map_of (mapBlockIndex t) hash of
        Some p \<Rightarrow> Some (Inr (p, t))
      | None \<Rightarrow>
          (let p = t_alloc t;
               e = (CBlockIndex_of block)\<lparr>nSequenceId := 0, phashBlock := Some hash\<rparr>;
               m = (hash, p) # mapBlockIndex t;
               r = (case map_of m (hashPrevBlock block) of
                      None \<Rightarrow> Inr ((t_mem t)(p := e))
                    | Some q \<Rightarrow>
                        (let mem = (t_mem t)(p := e\<lparr>pprev := Some q\<rparr>);
                             mem = mem(p := (mem p)\<lparr>nHeight := nHeight (mem q) + 1\<rparr>)
                         in BuildSkip mem p))
           in case bind_cpp r (\<lambda>mem.
                     bind_cpp (GetBlockProof (mem p)) (\<lambda>proof.
                       let prev_work = (case pprev (mem p) of None \<Rightarrow> bn_of_u64 8 0 | Some q \<Rightarrow> nChainWork (mem q));
                           e = (mem p)\<lparr>nChainWork := bn_add prev_work proof\<rparr>
                       in bind_cpp (RaiseValidity e BLOCK_VALID_TREE) (\<lambda>(e, _). Inr (mem(p := e))))) of
                Inl f \<Rightarrow> Some (Inl f)
              | Inr mem \<Rightarrow>
                  (let best = (case pindexBestHeader t of
                                 None \<Rightarrow> Some p
                               | Some b \<Rightarrow> if CompareTo (nChainWork (mem b)) (nChainWork (mem p)) < 0 then Some p else Some b)
                   in map_option (\<lambda>(mem, firsts). Inr (p, t\<lparr>t_mem := mem, t_alloc := t_alloc t + 1, mapBlockIndex := m,
                          pindexBestHeader := best, setDirtyBlockIndex := insert p (setDirtyBlockIndex t),
                          vFirstOnThisHeight := firsts\<rparr>))
                        (UpdateBlockByHeightList mem (vFirstOnThisHeight t) p))))"

section \<open>Receiving the data of a block\<close>

text \<open>What \<open>UpdateChainMiningStatus\<close> asks of the permissions and, if there is one, of the wallet.\<close>

record mining_info =
  CanMine :: u32
  wallet_has_key :: "bool option"
  GetActiveMinerCount :: int
  m_MinerCount :: int

abbreviation "MC_PTP_MINE \<equiv> (0x100 :: u32)"

definition UpdateChainMiningStatus :: "mining_info \<Rightarrow> index_store \<Rightarrow> ptr \<Rightarrow> CBlockIndex" where
  "UpdateChainMiningStatus mi mem p =
     (let b = (mem p)\<lparr>nCanMine := CanMine mi\<rparr> in
      case wallet_has_key mi of
        None \<Rightarrow> b
      | Some True \<Rightarrow>
          (let b = b\<lparr>nHeightMinedByMe := nHeight b,
                     nCanMine := (case pprev b of Some q \<Rightarrow> nCanMine (mem q) | None \<Rightarrow> MC_PTP_MINE)\<rparr>
           in if GetActiveMinerCount mi < m_MinerCount mi then b\<lparr>nCanMine := 0\<rparr> else b)
      | Some False \<Rightarrow>
          (case pprev b of
             Some q \<Rightarrow>
               (let b = b\<lparr>nHeightMinedByMe := nHeightMinedByMe (mem q), nCanMine := nCanMine (mem q)\<rparr>
                in if nHeightMinedByMe b + m_MinerCount mi - GetActiveMinerCount mi > nHeight b then b\<lparr>nCanMine := 0\<rparr> else b)
           | None \<Rightarrow> b\<lparr>nCanMine := 0\<rparr>))"

record link_state =
  l_mem :: index_store
  l_cands :: "ptr list"
  l_unlinked :: "(ptr \<times> ptr) list"
  l_seq :: u32

definition link_block :: "ptr \<Rightarrow> link_state \<Rightarrow> link_state" where
  "link_block p s =
     (let mem = l_mem s;
          b = (mem p)\<lparr>nChainTx := (case pprev (mem p) of Some q \<Rightarrow> nChainTx (mem q) | None \<Rightarrow> 0) + nTx (mem p),
                       nSequenceId := l_seq s\<rparr>;
          mem = mem(p := b)
      in \<lparr>l_mem = mem, l_cands = set_insert (WorkComparator mem) p (l_cands s),
          l_unlinked = filter (\<lambda>x. fst x \<noteq> p) (l_unlinked s), l_seq = l_seq s + 1\<rparr>)"

definition waiting :: "ptr \<Rightarrow> link_state \<Rightarrow> ptr list" where
  "waiting p s = map snd (filter (\<lambda>x. fst x = p) (l_unlinked s))"

function link_loop :: "ptr list \<Rightarrow> link_state \<Rightarrow> link_state" where
  "link_loop [] s = s"
| "link_loop (p # queue) s = link_loop (queue @ waiting p s) (link_block p s)"
  by pat_completeness auto
termination
proof (relation "measure (\<lambda>(q, s). length q + length (l_unlinked s))", goal_cases)
  case (2 p queue s)
  then show ?case
    using sum_length_filter_compl [of "\<lambda>x. fst x = p" "l_unlinked s"] by (simp add: waiting_def link_block_def Let_def)
qed simp

definition ReceivedBlockTransactions ::
    "mining_info \<Rightarrow> nat \<Rightarrow> int \<Rightarrow> u32 \<Rightarrow> ptr \<Rightarrow> block_tree \<Rightarrow> block_tree cpp" where
  "ReceivedBlockTransactions mi vtx_size pos_nFile pos_nPos p t =
     (let mem = t_mem t;
          b = (mem p)\<lparr>nTx := of_nat vtx_size, nChainTx := 0, nFile := pos_nFile, nDataPos := pos_nPos, nUndoPos := 0,
                       nStatus := nStatus (mem p) OR BLOCK_HAVE_DATA\<rparr>
      in bind_cpp (RaiseValidity b BLOCK_VALID_TRANSACTIONS) (\<lambda>(b, _).
           let mem = mem(p := b);
               mem = mem(p := UpdateChainMiningStatus mi mem p);
               t = t\<lparr>t_mem := mem, setDirtyBlockIndex := insert p (setDirtyBlockIndex t)\<rparr>
           in case pprev (mem p) of
                Some q \<Rightarrow>
                  if nChainTx (mem q) = 0 then
                    bind_cpp (IsValid (mem q) BLOCK_VALID_TREE) (\<lambda>v.
                      Inr (if v then t\<lparr>mapBlocksUnlinked := mapBlocksUnlinked t @ [(q, p)]\<rparr> else t))
                  else
                    (let s = link_loop [p] \<lparr>l_mem = mem, l_cands = setBlockIndexCandidates t,
                                            l_unlinked = mapBlocksUnlinked t, l_seq = nBlockSequenceId t\<rparr>
                     in Inr (t\<lparr>t_mem := l_mem s, setBlockIndexCandidates := l_cands s, mapBlocksUnlinked := l_unlinked s,
                               nBlockSequenceId := l_seq s\<rparr>))
              | None \<Rightarrow>
                  (let s = link_loop [p] \<lparr>l_mem = mem, l_cands = setBlockIndexCandidates t,
                                          l_unlinked = mapBlocksUnlinked t, l_seq = nBlockSequenceId t\<rparr>
                   in Inr (t\<lparr>t_mem := l_mem s, setBlockIndexCandidates := l_cands s, mapBlocksUnlinked := l_unlinked s,
                             nBlockSequenceId := l_seq s\<rparr>))))"


section \<open>The order of the candidates\<close>

text \<open>A container that is ordered by a comparator needs a strict total order on its elements.\<close>

locale strict_order =
  fixes lt :: "'a \<Rightarrow> 'a \<Rightarrow> bool" and D :: "'a set"
  assumes irrefl: "x \<in> D \<Longrightarrow> \<not> lt x x"
    and trans: "x \<in> D \<Longrightarrow> y \<in> D \<Longrightarrow> z \<in> D \<Longrightarrow> lt x y \<Longrightarrow> lt y z \<Longrightarrow> lt x z"
    and total: "x \<in> D \<Longrightarrow> y \<in> D \<Longrightarrow> x \<noteq> y \<Longrightarrow> lt x y \<or> lt y x"
begin

lemma set_insert_ok:
  assumes "x \<in> D" "set xs \<subseteq> D" "sorted_wrt lt xs"
  shows "set (set_insert lt x xs) = insert x (set xs) \<and> sorted_wrt lt (set_insert lt x xs)"
  using assms(2,3)
proof (induction xs)
  case (Cons y ys)
  have IH: "set (set_insert lt x ys) = insert x (set ys)" "sorted_wrt lt (set_insert lt x ys)" using Cons by auto
  have y: "y \<in> D" "\<forall>z \<in> set ys. z \<in> D \<and> lt y z" using Cons.prems by auto
  show ?case
  proof (cases "lt x y")
    case True
    then have "\<forall>z \<in> set ys. lt x z" using trans [OF assms(1) y(1)] y(2) by blast
    then show ?thesis using True Cons.prems by auto
  next
    case False
    then show ?thesis using IH y total [OF assms(1) y(1)] Cons.prems(2) by auto
  qed
qed simp

lemma dropWhile_filter:
  assumes "set xs \<subseteq> D" "sorted_wrt lt xs" "x \<in> D"
  shows "dropWhile (\<lambda>c. lt c x) xs = filter (\<lambda>c. \<not> lt c x) xs"
  using assms(1,2)
proof (induction xs)
  case (Cons y ys)
  then have "\<forall>z \<in> set ys. \<not> lt z x" if "\<not> lt y x" using that trans [of y _ x] assms(3) by auto
  then show ?case using Cons by (auto simp: filter_id_conv)
qed simp

lemma last_greatest: "set xs \<subseteq> D \<Longrightarrow> sorted_wrt lt xs \<Longrightarrow> x \<in> set xs \<Longrightarrow> x = last xs \<or> lt x (last xs)"
  by (induction xs rule: rev_induct) (auto simp: sorted_wrt_append)

end

lemma sorted_wrt_erase: "sorted_wrt P xs \<Longrightarrow> sorted_wrt P (set_erase x xs)"
  by (simp add: set_erase_def sorted_wrt_filter)

definition work_key :: "index_store \<Rightarrow> ptr \<Rightarrow> nat \<times> nat \<times> int \<times> int \<times> int" where
  "work_key mem p =
     (bn_val (nChainWork (mem p)), if nCanMine (mem p) = 0 then 0 else 1,
      if nCanMine (mem p) = 0 then - nHeightMinedByMe (mem p) else 0, - uint (nSequenceId (mem p)), - int p)"

lemma WorkComparator_key:
  assumes "length (nChainWork (mem a)) = length (nChainWork (mem b))"
  shows "WorkComparator mem a b \<longleftrightarrow> work_key mem a < work_key mem b"
proof -
  let ?wa = "bn_val (nChainWork (mem a))" and ?wb = "bn_val (nChainWork (mem b))"
  let ?sa = "uint (nSequenceId (mem a))" and ?sb = "uint (nSequenceId (mem b))"
  have c: "CompareTo (nChainWork (mem a)) (nChainWork (mem b)) = (if ?wa < ?wb then - 1 else if ?wb < ?wa then 1 else 0)"
    by (rule CompareTo_val [OF assms])
  have z: "(0 < x) = (x \<noteq> 0)" for x :: u32 by (simp add: word_neq_0_conv)
  have tail: "(if ?sa < ?sb then False else if ?sb < ?sa then True else if a < b then False else if b < a then True else False)
      \<longleftrightarrow> (- ?sa, - int a) < (- ?sb, - int b)"
    by (cases ?sa ?sb rule: linorder_cases) auto
  show ?thesis
  proof (cases ?wa ?wb rule: linorder_cases)
    case equal
    show ?thesis unfolding WorkComparator_def Let_def c z word_less_def [of "nSequenceId _"] tail work_key_def less_prod_simp [of _ _ _ "(_, _, _)"]
      using equal by (cases "nCanMine (mem a) = 0"; cases "nCanMine (mem b) = 0"; cases "nHeightMinedByMe (mem a)" "nHeightMinedByMe (mem b)" rule: linorder_cases) simp_all
  qed (simp_all add: WorkComparator_def Let_def c work_key_def)
qed

definition works_ok :: "index_store \<Rightarrow> ptr set \<Rightarrow> bool" where
  "works_ok mem D \<longleftrightarrow> (\<forall>p \<in> D. length (nChainWork (mem p)) = 8)"

lemma work_order: "works_ok mem D \<Longrightarrow> strict_order (WorkComparator mem) D"
proof
  assume w: "works_ok mem D"
  have k: "WorkComparator mem x y \<longleftrightarrow> work_key mem x < work_key mem y" if "x \<in> D" "y \<in> D" for x y
    using that w by (intro WorkComparator_key) (simp add: works_ok_def)
  have inj: "work_key mem x = work_key mem y \<Longrightarrow> x = y" for x y by (simp add: work_key_def)
  show "\<not> WorkComparator mem x x" if "x \<in> D" for x using k that by simp
  show "WorkComparator mem x z" if "x \<in> D" "y \<in> D" "z \<in> D" "WorkComparator mem x y" "WorkComparator mem y z" for x y z
    using that(4,5) unfolding k [OF that(1,2)] k [OF that(2,3)] k [OF that(1,3)] by (rule less_trans)
  show "WorkComparator mem x y \<or> WorkComparator mem y x" if "x \<in> D" "y \<in> D" "x \<noteq> y" for x y
    unfolding k [OF that(1,2)] k [OF that(2,1)] using inj [of x y] that(3) by (cases "work_key mem x" "work_key mem y" rule: linorder_cases) auto
qed

interpretation work: strict_order "WorkComparator mem" "{p. length (nChainWork (mem p)) = 8}" for mem
  by (rule work_order) (simp add: works_ok_def)

section \<open>Linking blocks\<close>

definition parent_linked :: "index_store \<Rightarrow> ptr \<Rightarrow> bool" where
  "parent_linked mem p \<longleftrightarrow> (case pprev (mem p) of None \<Rightarrow> True | Some q \<Rightarrow> nChainTx (mem q) \<noteq> 0)"

definition parent_tx :: "index_store \<Rightarrow> ptr \<Rightarrow> nat" where
  "parent_tx mem p = (case pprev (mem p) of None \<Rightarrow> 0 | Some q \<Rightarrow> unat (nChainTx (mem q)))"

text \<open>
  The invariant of the loop: the blocks with data that are not linked are in the queue, because
  their parent is linked, or wait for their parent; the linked ones are the candidates, in order.
\<close>

definition linked_ok :: "index_store \<Rightarrow> ptr set \<Rightarrow> bool" where
  "linked_ok mem D \<longleftrightarrow> (\<forall>p \<in> D. nChainTx (mem p) \<noteq> 0 \<longrightarrow>
     nTx (mem p) \<noteq> 0 \<and> parent_linked mem p \<and> unat (nChainTx (mem p)) = parent_tx mem p + unat (nTx (mem p)))"

definition pending_ok :: "index_store \<Rightarrow> ptr set \<Rightarrow> ptr list \<Rightarrow> (ptr \<times> ptr) list \<Rightarrow> bool" where
  "pending_ok mem D queue unl \<longleftrightarrow> distinct (queue @ map snd unl)
     \<and> set (queue @ map snd unl) = {p \<in> D. nTx (mem p) \<noteq> 0 \<and> nChainTx (mem p) = 0}
     \<and> (\<forall>(q, p) \<in> set unl. pprev (mem p) = Some q \<and> nChainTx (mem q) = 0) \<and> (\<forall>p \<in> set queue. parent_linked mem p)"

definition cands_ok :: "index_store \<Rightarrow> ptr set \<Rightarrow> ptr list \<Rightarrow> bool" where
  "cands_ok mem D cands \<longleftrightarrow> set cands = {p \<in> D. nChainTx (mem p) \<noteq> 0} \<and> sorted_wrt (WorkComparator mem) cands"

definition link_inv :: "ptr set \<Rightarrow> ptr list \<Rightarrow> link_state \<Rightarrow> bool" where
  "link_inv D queue s \<longleftrightarrow> finite D \<and> index_wf (l_mem s) D \<and> works_ok (l_mem s) D \<and> linked_ok (l_mem s) D
     \<and> pending_ok (l_mem s) D queue (l_unlinked s) \<and> cands_ok (l_mem s) D (l_cands s)
     \<and> (\<Sum>p \<in> D. unat (nTx (l_mem s p))) < 2 ^ 32"

lemma chain_tx_bound:
  assumes wf: "index_wf mem D" "finite D" and l: "linked_ok mem D" and p: "p \<in> D" "nChainTx (mem p) \<noteq> 0"
  shows "unat (nChainTx (mem p)) \<le> (\<Sum>q \<in> {q \<in> D. nHeight (mem q) \<le> nHeight (mem p)}. unat (nTx (mem q)))"
  using p
proof (induction "nat (nHeight (mem p))" arbitrary: p rule: less_induct)
  case less
  let ?S = "\<lambda>h. {q \<in> D. nHeight (mem q) \<le> h}" and ?f = "\<lambda>q. unat (nTx (mem q))"
  have fin: "finite (?S h)" for h using wf(2) by simp
  have e: "unat (nChainTx (mem p)) = parent_tx mem p + ?f p" "parent_linked mem p" using l less.prems by (auto simp: linked_ok_def)
  show ?case
  proof (cases "pprev (mem p)")
    case None
    then show ?thesis using e member_le_sum [of p "?S (nHeight (mem p))" ?f] fin less.prems(1) by (simp add: parent_tx_def)
  next
    case (Some q)
    have q: "q \<in> D" "nHeight (mem p) = nHeight (mem q) + 1" "0 \<le> nHeight (mem q)"
      using index_wfD(3) [OF wf(1) less.prems(1) Some] index_wfD(1) [OF wf(1)] by auto
    have "unat (nChainTx (mem q)) \<le> sum ?f (?S (nHeight (mem q)))"
      using less.hyps [of q] q e(2) Some by (simp add: parent_linked_def)
    moreover have "sum ?f (insert p (?S (nHeight (mem q)))) \<le> sum ?f (?S (nHeight (mem p)))"
      using fin q(2) less.prems(1) by (intro sum_mono2) auto
    ultimately show ?thesis using e(1) Some fin q(2) by (simp add: parent_tx_def)
  qed
qed

lemma WorkComparator_frame:
  assumes "nChainWork (mem' a) = nChainWork (mem a)" "nCanMine (mem' a) = nCanMine (mem a)"
    "nHeightMinedByMe (mem' a) = nHeightMinedByMe (mem a)" "nSequenceId (mem' a) = nSequenceId (mem a)"
    and "nChainWork (mem' b) = nChainWork (mem b)" "nCanMine (mem' b) = nCanMine (mem b)"
    "nHeightMinedByMe (mem' b) = nHeightMinedByMe (mem b)" "nSequenceId (mem' b) = nSequenceId (mem b)"
  shows "WorkComparator mem' a b = WorkComparator mem a b"
  unfolding WorkComparator_def Let_def assms ..

lemma sorted_frame:
  assumes "sorted_wrt (WorkComparator mem) cands" "\<forall>c \<in> set cands. mem' c = mem c"
  shows "sorted_wrt (WorkComparator mem') cands"
  using assms by (induction cands) (auto simp: WorkComparator_def)

lemma link_block_inv:
  assumes i: "link_inv D (p # queue) s"
  shows "link_inv D (queue @ waiting p s) (link_block p s)"
proof -
  let ?mem = "l_mem s"
  define mem' where "mem' = ?mem(p := (?mem p)\<lparr>nChainTx := (case pprev (?mem p) of Some q \<Rightarrow> nChainTx (?mem q) | None \<Rightarrow> 0) + nTx (?mem p),
      nSequenceId := l_seq s\<rparr>)"
  have s': "link_block p s = \<lparr>l_mem = mem', l_cands = set_insert (WorkComparator mem') p (l_cands s),
      l_unlinked = filter (\<lambda>x. fst x \<noteq> p) (l_unlinked s), l_seq = l_seq s + 1\<rparr>"
    by (simp add: link_block_def Let_def mem'_def)
  have wf: "finite D" "index_wf ?mem D" "works_ok ?mem D" "linked_ok ?mem D" "cands_ok ?mem D (l_cands s)"
    and pd: "pending_ok ?mem D (p # queue) (l_unlinked s)" and tot: "(\<Sum>p \<in> D. unat (nTx (?mem p))) < 2 ^ 32"
    using i by (simp_all add: link_inv_def)
  have p: "p \<in> D" "nTx (?mem p) \<noteq> 0" "nChainTx (?mem p) = 0" "parent_linked ?mem p"
    using pd by (auto simp: pending_ok_def)
  have same: "q \<noteq> p \<Longrightarrow> mem' q = ?mem q" "pprev (mem' q) = pprev (?mem q)" "nTx (mem' q) = nTx (?mem q)"
    "nHeight (mem' q) = nHeight (?mem q)" "nChainWork (mem' q) = nChainWork (?mem q)" "pskip (mem' q) = pskip (?mem q)" for q
    by (simp_all add: mem'_def)
  have pq: "pprev (?mem p) = Some q \<Longrightarrow> q \<in> D \<and> q \<noteq> p" for q using index_wfD(3) [OF wf(2) p(1)] by force
  have par: "parent_tx mem' p = parent_tx ?mem p" using pq by (auto simp: parent_tx_def same split: option.split)
  have bound: "parent_tx ?mem p + unat (nTx (?mem p)) < 2 ^ 32"
  proof (cases "pprev (?mem p)")
    case None
    have "unat (nTx (?mem p)) \<le> (\<Sum>p \<in> D. unat (nTx (?mem p)))" using member_le_sum [of p D "\<lambda>p. unat (nTx (?mem p))"] p(1) wf(1) by simp
    then show ?thesis using tot None by (simp add: parent_tx_def)
  next
    case (Some q)
    let ?S = "{r \<in> D. nHeight (?mem r) \<le> nHeight (?mem q)}"
    have "unat (nChainTx (?mem q)) \<le> (\<Sum>r \<in> ?S. unat (nTx (?mem r)))"
      using chain_tx_bound [OF wf(2,1,4)] pq [OF Some] p(4) Some by (simp add: parent_linked_def)
    moreover have "p \<notin> ?S" using index_wfD(3) [OF wf(2) p(1) Some] by simp
    moreover have "(\<Sum>r \<in> insert p ?S. unat (nTx (?mem r))) \<le> (\<Sum>r \<in> D. unat (nTx (?mem r)))"
      using p(1) wf(1) by (intro sum_mono2) auto
    ultimately show ?thesis using tot Some wf(1) by (simp add: parent_tx_def)
  qed
  have "unat (nChainTx (mem' p)) = parent_tx ?mem p + unat (nTx (?mem p))"
    using bound by (auto simp: mem'_def parent_tx_def unat_plus_if' split: option.splits)
  moreover have "unat (nTx (?mem p)) \<noteq> 0" using p(2) by (simp add: unat_eq_0)
  ultimately have new: "nChainTx (mem' p) \<noteq> 0" "unat (nChainTx (mem' p)) = parent_tx mem' p + unat (nTx (mem' p))"
    using par by (auto simp: same unat_eq_0 simp flip: unat_0)
  have ct: "nChainTx (mem' x) = 0 \<longleftrightarrow> nChainTx (?mem x) = 0 \<and> x \<noteq> p" for x
    using new(1) same(1) by (cases "x = p") auto
  have pl: "parent_linked mem' q" if "parent_linked ?mem q" for q
    using that new(1) same(1) by (auto simp: parent_linked_def same(2) split: option.splits) metis
  have "linked_ok mem' D"
    unfolding linked_ok_def
  proof (intro ballI impI)
    fix q assume q: "q \<in> D" "nChainTx (mem' q) \<noteq> 0"
    show "nTx (mem' q) \<noteq> 0 \<and> parent_linked mem' q \<and> unat (nChainTx (mem' q)) = parent_tx mem' q + unat (nTx (mem' q))"
    proof (cases "q = p")
      case True
      then show ?thesis using new p pl [OF p(4)] by (simp add: same)
    next
      case False
      then have o: "nTx (?mem q) \<noteq> 0" "parent_linked ?mem q" "unat (nChainTx (?mem q)) = parent_tx ?mem q + unat (nTx (?mem q))"
        using wf(4) q by (auto simp: linked_ok_def same(1))
      have "pprev (?mem q) \<noteq> Some p" using o(2) p(3) by (auto simp: parent_linked_def)
      then have "parent_tx mem' q = parent_tx ?mem q" using same(1) by (auto simp: parent_tx_def same(2) split: option.split)
      then show ?thesis using False o pl [OF o(2)] by (simp add: same(1))
    qed
  qed
  moreover have "pending_ok mem' D (queue @ waiting p s) (filter (\<lambda>x. fst x \<noteq> p) (l_unlinked s))"
  proof -
    let ?U = "l_unlinked s"
    have d: "distinct (p # queue @ map snd ?U)" and st: "set (p # queue @ map snd ?U) = {q \<in> D. nTx (?mem q) \<noteq> 0 \<and> nChainTx (?mem q) = 0}"
      and un: "\<forall>(q, x) \<in> set ?U. pprev (?mem x) = Some q \<and> nChainTx (?mem q) = 0" and qu: "\<forall>x \<in> set queue. parent_linked ?mem x"
      using pd by (simp_all add: pending_ok_def)
    have inj: "inj_on snd (set ?U)" "distinct (map snd (filter P ?U))" for P using d by (auto simp: distinct_map intro: distinct_map_filter inj_on_subset)
    have split: "snd ` set (filter (\<lambda>x. fst x = p) ?U) \<union> snd ` set (filter (\<lambda>x. fst x \<noteq> p) ?U) = snd ` set ?U" by auto
    have "distinct ((queue @ waiting p s) @ map snd (filter (\<lambda>x. fst x \<noteq> p) ?U))"
      using d inj by (auto simp: waiting_def inj_on_def)
    moreover have "set ((queue @ waiting p s) @ map snd (filter (\<lambda>x. fst x \<noteq> p) ?U)) = set (queue @ map snd ?U)"
      using split by (simp add: waiting_def Un_assoc)
    moreover have "set (queue @ map snd ?U) = {q \<in> D. nTx (mem' q) \<noteq> 0 \<and> nChainTx (mem' q) = 0}"
    proof -
      have "set (queue @ map snd ?U) = {q \<in> D. nTx (?mem q) \<noteq> 0 \<and> nChainTx (?mem q) = 0} - {p}" unfolding st [symmetric] using d by auto
      then show ?thesis by (auto simp: same(3) ct)
    qed
    moreover have "\<forall>(q, x) \<in> set (filter (\<lambda>x. fst x \<noteq> p) ?U). pprev (mem' x) = Some q \<and> nChainTx (mem' q) = 0"
      using un same(1,2) by auto
    moreover have "parent_linked mem' x" if "x \<in> set (queue @ waiting p s)" for x
      using that qu pl un new(1) by (auto simp: waiting_def parent_linked_def same(2))
    ultimately show ?thesis unfolding pending_ok_def by blast
  qed
  moreover have "cands_ok mem' D (set_insert (WorkComparator mem') p (l_cands s))"
  proof -
    have c: "set (l_cands s) = {q \<in> D. nChainTx (?mem q) \<noteq> 0}" and srt: "sorted_wrt (WorkComparator ?mem) (l_cands s)"
      using wf(5) by (simp_all add: cands_ok_def)
    have "mem' q = ?mem q" if "q \<in> set (l_cands s)" for q
      using that c p(3) by (intro same(1)) auto
    then have "sorted_wrt (WorkComparator mem') (l_cands s)" by (intro sorted_frame [OF srt]) blast
    moreover have "set (l_cands s) \<subseteq> {q. length (nChainWork (mem' q)) = 8}" "length (nChainWork (mem' p)) = 8"
      using c wf(3) p(1) by (auto simp: works_ok_def same)
    ultimately have "set (set_insert (WorkComparator mem') p (l_cands s)) = insert p (set (l_cands s))
        \<and> sorted_wrt (WorkComparator mem') (set_insert (WorkComparator mem') p (l_cands s))"
      by (intro work.set_insert_ok) simp_all
    moreover have "insert p (set (l_cands s)) = {q \<in> D. nChainTx (mem' q) \<noteq> 0}" unfolding c using p(1) by (auto simp: ct)
    ultimately show ?thesis by (simp add: cands_ok_def)
  qed
  moreover have "index_wf mem' D" using wf(2) by (rule index_wf_frame) (simp add: same)
  moreover have "works_ok mem' D" using wf(3) by (simp add: works_ok_def same)
  ultimately show ?thesis using wf(1) tot by (simp add: link_inv_def s' same)
qed


lemma link_loop_inv: "link_inv D queue s \<Longrightarrow> link_inv D [] (link_loop queue s)"
  by (induction queue s rule: link_loop.induct) (simp_all add: link_block_inv)

text \<open>Linking changes none of the fields that other blocks' positions depend on.\<close>

lemma link_loop_frame:
  "pprev (l_mem (link_loop queue s) p) = pprev (l_mem s p) \<and> nTx (l_mem (link_loop queue s) p) = nTx (l_mem s p)
   \<and> phashBlock (l_mem (link_loop queue s) p) = phashBlock (l_mem s p) \<and> nChainWork (l_mem (link_loop queue s) p) = nChainWork (l_mem s p)
   \<and> nStatus (l_mem (link_loop queue s) p) = nStatus (l_mem s p) \<and> pNextOnThisHeight (l_mem (link_loop queue s) p) = pNextOnThisHeight (l_mem s p)
   \<and> nHeight (l_mem (link_loop queue s) p) = nHeight (l_mem s p) \<and> nBits (l_mem (link_loop queue s) p) = nBits (l_mem s p)"
  by (induction queue s rule: link_loop.induct) (simp_all add: link_block_def Let_def)


section \<open>The tree\<close>

definition block_work :: "u32 \<Rightarrow> nat" where
  "block_work bits = (if bits_valid bits \<and> target_of bits \<noteq> 0 then 2 ^ 256 div (target_of bits + 1) else 0)"

definition node_ok :: "index_store \<Rightarrow> nat \<Rightarrow> ptr \<Rightarrow> bool" where
  "node_ok mem n p \<longleftrightarrow> nStatus (mem p) AND BLOCK_FAILED_MASK = 0 \<and> nStatus (mem p) AND BLOCK_VALID_MASK \<ge> BLOCK_VALID_TREE
     \<and> (nStatus (mem p) AND BLOCK_HAVE_DATA = 0 \<longleftrightarrow> nTx (mem p) = 0)
     \<and> bn_val (nChainWork (mem p)) =
         ((case pprev (mem p) of None \<Rightarrow> 0 | Some q \<Rightarrow> bn_val (nChainWork (mem q))) + block_work (nBits (mem p))) mod 2 ^ 256
     \<and> (\<forall>q. pNextOnThisHeight (mem p) = Some q \<longrightarrow> p < q \<and> q < n)"

definition names_ok :: "index_store \<Rightarrow> nat \<Rightarrow> (base_uint \<times> ptr) list \<Rightarrow> bool" where
  "names_ok mem n m \<longleftrightarrow> distinct (map fst m) \<and> snd ` set m = {..<n} \<and> (\<forall>(h, p) \<in> set m. phashBlock (mem p) = Some h)"

definition best_ok :: "index_store \<Rightarrow> nat \<Rightarrow> ptr option \<Rightarrow> bool" where
  "best_ok mem n best \<longleftrightarrow>
     (case best of
        None \<Rightarrow> n = 0
      | Some b \<Rightarrow> b < n \<and> (\<forall>p < n. bn_val (nChainWork (mem p)) \<le> bn_val (nChainWork (mem b))))"

definition tree_inv :: "block_tree \<Rightarrow> bool" where
  "tree_inv t \<longleftrightarrow>
     link_inv {..<t_alloc t} [] \<lparr>l_mem = t_mem t, l_cands = setBlockIndexCandidates t, l_unlinked = mapBlocksUnlinked t, l_seq = nBlockSequenceId t\<rparr>
     \<and> (\<forall>p < t_alloc t. node_ok (t_mem t) (t_alloc t) p) \<and> names_ok (t_mem t) (t_alloc t) (mapBlockIndex t)
     \<and> best_ok (t_mem t) (t_alloc t) (pindexBestHeader t) \<and> (\<forall>f. Some f \<in> set (vFirstOnThisHeight t) \<longrightarrow> f < t_alloc t)"

definition empty_tree :: block_tree where
  "empty_tree = \<lparr>t_mem = (\<lambda>p. SetNull), t_alloc = 0, mapBlockIndex = [], pindexBestHeader = None, pindexBestInvalid = None,
     setBlockIndexCandidates = [], mapBlocksUnlinked = [], nBlockSequenceId = 1, setDirtyBlockIndex = {}, vFirstOnThisHeight = []\<rparr>"

lemma tree_inv_empty: "tree_inv empty_tree"
  by (simp add: tree_inv_def empty_tree_def link_inv_def index_wf_def works_ok_def linked_ok_def pending_ok_def cands_ok_def
      names_ok_def best_ok_def)

subsection \<open>Frames\<close>

text \<open>Two stores that agree on what linking reads.\<close>

definition same_links :: "CBlockIndex \<Rightarrow> CBlockIndex \<Rightarrow> bool" where
  "same_links a b \<longleftrightarrow> pprev a = pprev b \<and> pskip a = pskip b \<and> nHeight a = nHeight b \<and> nChainWork a = nChainWork b \<and> nTx a = nTx b
     \<and> nChainTx a = nChainTx b \<and> nCanMine a = nCanMine b \<and> nHeightMinedByMe a = nHeightMinedByMe b \<and> nSequenceId a = nSequenceId b"

lemma link_inv_frame:
  assumes i: "link_inv D queue s" and f: "\<forall>p \<in> D. same_links (mem' p) (l_mem s p)"
  shows "link_inv D queue (s\<lparr>l_mem := mem'\<rparr>)"
proof -
  let ?mem = "l_mem s"
  have eq: "pprev (mem' p) = pprev (?mem p)" "nHeight (mem' p) = nHeight (?mem p)" "nChainWork (mem' p) = nChainWork (?mem p)"
    "nTx (mem' p) = nTx (?mem p)" "nChainTx (mem' p) = nChainTx (?mem p)" if "p \<in> D" for p
    using f that by (simp_all add: same_links_def)
  have wf: "index_wf ?mem D" using i by (simp add: link_inv_def)
  have q: "q \<in> D" if "p \<in> D" "pprev (?mem p) = Some q" for p q using index_wfD(3) [OF wf that] by simp
  have par: "parent_linked mem' p = parent_linked ?mem p" "parent_tx mem' p = parent_tx ?mem p" if "p \<in> D" for p
    using eq that q [OF that] by (auto simp: parent_linked_def parent_tx_def split: option.splits)
  have "index_wf mem' D" using wf by (rule index_wf_frame) (use f in \<open>simp add: same_links_def\<close>)
  moreover have "works_ok mem' D" using i by (simp add: link_inv_def works_ok_def eq)
  moreover have "linked_ok mem' D" using i by (simp add: link_inv_def linked_ok_def eq par)
  moreover have "pending_ok mem' D queue (l_unlinked s)"
  proof -
    have pd: "pending_ok ?mem D queue (l_unlinked s)" using i by (simp add: link_inv_def)
    then have "x \<in> D" if "x \<in> set queue \<or> x \<in> snd ` set (l_unlinked s)" for x using that by (auto simp: pending_ok_def)
    moreover have "y \<in> D" if "(y, x) \<in> set (l_unlinked s)" for x y using that pd q calculation by (force simp: pending_ok_def)
    moreover have "{p \<in> D. nTx (mem' p) \<noteq> 0 \<and> nChainTx (mem' p) = 0} = {p \<in> D. nTx (?mem p) \<noteq> 0 \<and> nChainTx (?mem p) = 0}" using eq by auto
    ultimately show ?thesis using pd by (fastforce simp: pending_ok_def eq par)
  qed
  moreover have "cands_ok mem' D (l_cands s)"
  proof -
    have c: "set (l_cands s) = {p \<in> D. nChainTx (?mem p) \<noteq> 0}" "sorted_wrt (WorkComparator ?mem) (l_cands s)"
      using i by (simp_all add: link_inv_def cands_ok_def)
    have "WorkComparator mem' a b = WorkComparator ?mem a b" if "a \<in> D" "b \<in> D" for a b
      using f that by (intro WorkComparator_frame) (simp_all add: same_links_def)
    then have "sorted_wrt (WorkComparator mem') (l_cands s)"
      using c(2) by (rule_tac sorted_wrt_mono_rel [OF _ c(2)]) (use c(1) in auto)
    moreover have "{p \<in> D. nChainTx (mem' p) \<noteq> 0} = {p \<in> D. nChainTx (?mem p) \<noteq> 0}" using eq by auto
    ultimately show ?thesis using c(1) by (simp add: cands_ok_def)
  qed
  moreover have "(\<Sum>p \<in> D. unat (nTx (mem' p))) = (\<Sum>p \<in> D. unat (nTx (?mem p)))" by (intro sum.cong) (simp_all add: eq)
  ultimately show ?thesis using i by (simp add: link_inv_def)
qed

lemma link_inv_extend:
  assumes i: "link_inv D queue s" and p: "p \<notin> D" "index_wf (l_mem s) (insert p D)" "length (nChainWork (l_mem s p)) = 8"
    "nTx (l_mem s p) = 0" "nChainTx (l_mem s p) = 0"
  shows "link_inv (insert p D) queue s"
  using assms by (auto simp: link_inv_def works_ok_def linked_ok_def pending_ok_def cands_ok_def)

subsection \<open>Adding a header\<close>

text \<open>The links between blocks of one height lead to later allocated blocks, so that the walk to the last ends.\<close>

lemma last_on_height_ok:
  assumes "\<forall>p < n. \<forall>q. pNextOnThisHeight (mem p) = Some q \<longrightarrow> p < q \<and> q < n" "f < n"
  shows "\<exists>l. last_on_height mem f = Some l \<and> l < n"
  using assms(2)
proof (induction "n - f" arbitrary: f rule: less_induct)
  case less
  show ?case
  proof (cases "pNextOnThisHeight (mem f)")
    case None
    then show ?thesis using less.prems by (subst last_on_height.simps) simp
  next
    case (Some q)
    then have "f < q" "q < n" using assms(1) less.prems by blast+
    then show ?thesis using less.hyps [of q] Some by (subst last_on_height.simps) auto
  qed
qed

lemma UpdateBlockByHeightList_ok:
  assumes "\<forall>p < n. \<forall>q. pNextOnThisHeight (mem p) = Some q \<longrightarrow> p < q \<and> q < n"
    and "\<forall>f. Some f \<in> set firsts \<longrightarrow> f < n" "pNextOnThisHeight (mem n) = None"
  obtains mem' firsts' where "UpdateBlockByHeightList mem firsts n = Some (mem', firsts')"
    "\<forall>p. \<exists>x. mem' p = (mem p)\<lparr>pNextOnThisHeight := x\<rparr> \<and> (\<forall>q. p \<le> n \<longrightarrow> x = Some q \<longrightarrow> p < q \<and> q < n + 1)"
    "\<forall>f. Some f \<in> set firsts' \<longrightarrow> f < n + 1"
proof -
  let ?h = "nat (nHeight (mem n))"
  define fs where "fs = (if ?h + 1 > length firsts then vec_resize (?h + 1) None firsts else firsts)"
  have u: "UpdateBlockByHeightList mem firsts n = (case fs ! ?h of
      Some f \<Rightarrow> map_option (\<lambda>l. (mem(l := (mem l)\<lparr>pNextOnThisHeight := Some n\<rparr>), fs)) (last_on_height mem f)
    | None \<Rightarrow> Some (mem, fs[?h := Some n]))" if "0 \<le> nHeight (mem n)"
    using that unfolding UpdateBlockByHeightList_def Let_def fs_def [symmetric] by simp
  have fs: "?h < length fs" "\<forall>f. Some f \<in> set fs \<longrightarrow> f < n"
    using assms(2) by (auto simp: fs_def vec_resize_def dest: in_set_takeD)
  have same: "\<forall>p. \<exists>x. mem p = (mem p)\<lparr>pNextOnThisHeight := x\<rparr> \<and> (\<forall>q. p \<le> n \<longrightarrow> x = Some q \<longrightarrow> p < q \<and> q < n + 1)"
  proof (intro allI exI conjI impI)
    fix p q
    show "mem p = (mem p)\<lparr>pNextOnThisHeight := pNextOnThisHeight (mem p)\<rparr>" by simp
    assume p: "p \<le> n" "pNextOnThisHeight (mem p) = Some q"
    then have "p < n" using assms(3) by (cases "p = n") simp_all
    then have "p < q \<and> q < n" using assms(1) p(2) by blast
    then show "p < q" "q < n + 1" by simp_all
  qed
  consider "nHeight (mem n) < 0" | "0 \<le> nHeight (mem n)" "fs ! ?h = None" | f where "0 \<le> nHeight (mem n)" "fs ! ?h = Some f"
    by (cases "fs ! ?h") fastforce+
  then show ?thesis
  proof cases
    case 1
    moreover have "\<forall>f. Some f \<in> set firsts \<longrightarrow> f < n + 1" using assms(2) by auto
    ultimately show ?thesis using that [OF _ same] by (simp add: UpdateBlockByHeightList_def)
  next
    case 2
    have "\<forall>f. Some f \<in> set (fs[?h := Some n]) \<longrightarrow> f < n + 1"
      using fs(2) set_update_subset_insert [of fs ?h "Some n"] by force
    then show ?thesis using 2 that [OF _ same, of "fs[?h := Some n]"] u by simp
  next
    case 3
    have "Some f \<in> set fs" using fs(1) 3(2) by (metis nth_mem)
    then have "f < n" using fs(2) by blast
    then obtain l where l: "last_on_height mem f = Some l" "l < n" using last_on_height_ok [OF assms(1)] by blast
    let ?m = "mem(l := (mem l)\<lparr>pNextOnThisHeight := Some n\<rparr>)"
    have "UpdateBlockByHeightList mem firsts n = Some (?m, fs)" unfolding u [OF 3(1)] 3(2) by (simp add: l(1))
    moreover have "\<exists>x. ?m p = (mem p)\<lparr>pNextOnThisHeight := x\<rparr> \<and> (\<forall>q. p \<le> n \<longrightarrow> x = Some q \<longrightarrow> p < q \<and> q < n + 1)" for p
    proof (cases "p = l")
      case True
      then show ?thesis using l(2) by (intro exI [of _ "Some n"]) simp
    next
      case False
      then show ?thesis using spec [OF same, of p] by simp
    qed
    moreover have "\<forall>f. Some f \<in> set fs \<longrightarrow> f < n + 1" using fs(2) by auto
    ultimately show ?thesis by (intro that [of ?m fs]) blast+
  qed
qed

text \<open>The entry of a new header before it joins the list of its height.\<close>

definition new_store :: "base_uint \<Rightarrow> CBlockHeader \<Rightarrow> (base_uint \<times> ptr) list \<Rightarrow> index_store \<Rightarrow> ptr \<Rightarrow> index_store cpp" where
  "new_store hash block m mem p =
     (let e = (CBlockIndex_of block)\<lparr>nSequenceId := 0, phashBlock := Some hash\<rparr>;
          r = (case map_of m (hashPrevBlock block) of
                 None \<Rightarrow> Inr (mem(p := e))
               | Some q \<Rightarrow>
                   (let mem = mem(p := e\<lparr>pprev := Some q\<rparr>); mem = mem(p := (mem p)\<lparr>nHeight := nHeight (mem q) + 1\<rparr>)
                    in BuildSkip mem p))
      in bind_cpp r (\<lambda>mem.
           bind_cpp (GetBlockProof (mem p)) (\<lambda>proof.
             let prev_work = (case pprev (mem p) of None \<Rightarrow> bn_of_u64 8 0 | Some q \<Rightarrow> nChainWork (mem q));
                 e = (mem p)\<lparr>nChainWork := bn_add prev_work proof\<rparr>
             in bind_cpp (RaiseValidity e BLOCK_VALID_TREE) (\<lambda>(e, _). Inr (mem(p := e))))))"

lemma AddToBlockIndex_new:
  assumes "map_of (mapBlockIndex t) hash = None" "new_store hash block ((hash, t_alloc t) # mapBlockIndex t) (t_mem t) (t_alloc t) = Inr mem1"
    and "UpdateBlockByHeightList mem1 (vFirstOnThisHeight t) (t_alloc t) = Some (mem2, firsts)"
  shows "AddToBlockIndex hash block t = Some (Inr (t_alloc t, t\<lparr>t_mem := mem2, t_alloc := t_alloc t + 1,
    mapBlockIndex := (hash, t_alloc t) # mapBlockIndex t,
    pindexBestHeader := (case pindexBestHeader t of None \<Rightarrow> Some (t_alloc t)
       | Some b \<Rightarrow> if CompareTo (nChainWork (mem1 b)) (nChainWork (mem1 (t_alloc t))) < 0 then Some (t_alloc t) else Some b),
    setDirtyBlockIndex := insert (t_alloc t) (setDirtyBlockIndex t), vFirstOnThisHeight := firsts\<rparr>))"
  unfolding AddToBlockIndex_def assms(1) option.case Let_def assms(2) [unfolded new_store_def Let_def] sum.case assms(3)
  by simp

lemma index_wf_root:
  assumes "index_wf mem {..<n}" "pprev (mem n) = None" "nHeight (mem n) = 0"
  shows "index_wf mem {..<Suc n}"
proof -
  have "entry_wf mem {..<Suc n} n" using assms(2,3) by (simp add: entry_wf_def)
  moreover have "entry_wf mem {..<Suc n} p" if "p < n" for p
  proof -
    have "entry_wf mem {..<n} p" using assms(1) that by (simp add: index_wf_def)
    then show ?thesis by (auto simp: entry_wf_def split: option.splits)
  qed
  ultimately show ?thesis by (auto simp: index_wf_def less_Suc_eq)
qed

lemma new_store_ok:
  fixes n :: nat
  assumes wf: "index_wf mem {..<n}" "works_ok mem {..<n}" and prev: "map_of m (hashPrevBlock block) = pq" "\<forall>q. pq = Some q \<longrightarrow> q < n"
  shows "\<exists>mem1. new_store hash block m mem n = Inr mem1 \<and> (\<forall>p < n. mem1 p = mem p) \<and> index_wf mem1 {..<Suc n}
    \<and> phashBlock (mem1 n) = Some hash \<and> pprev (mem1 n) = pq \<and> nTx (mem1 n) = 0 \<and> nChainTx (mem1 n) = 0 \<and> nStatus (mem1 n) = 2
    \<and> pNextOnThisHeight (mem1 n) = None \<and> length (nChainWork (mem1 n)) = 8
    \<and> bn_val (nChainWork (mem1 n)) = ((case pq of None \<Rightarrow> 0 | Some q \<Rightarrow> bn_val (nChainWork (mem q))) + block_work (nBits (mem1 n))) mod 2 ^ 256"
proof -
  let ?e = "(CBlockIndex_of block)\<lparr>nSequenceId := 0, phashBlock := Some hash\<rparr>"
  define r where "r = (case pq of None \<Rightarrow> Inr (mem(n := ?e))
      | Some q \<Rightarrow> let mem = mem(n := ?e\<lparr>pprev := Some q\<rparr>); mem = mem(n := (mem n)\<lparr>nHeight := nHeight (mem q) + 1\<rparr>) in BuildSkip mem n)"
  have "\<exists>mem0 s h. r = Inr mem0 \<and> mem0 = mem(n := ?e\<lparr>pprev := pq, nHeight := h, pskip := s\<rparr>) \<and> index_wf mem0 {..<Suc n}"
  proof (cases pq)
    case None
    let ?m = "mem(n := ?e)"
    have "index_wf ?m {..<n}" using wf(1) by (rule index_wf_frame) simp
    then have "index_wf ?m {..<Suc n}" by (rule index_wf_root) (simp_all add: CBlockIndex_of_def SetNull_def)
    then show ?thesis using None
      by (intro exI [of _ ?m] exI [of _ None] exI [of _ 0]) (simp add: r_def CBlockIndex_of_def SetNull_def)
  next
    case (Some q)
    then have q: "q < n" using prev(2) by simp
    let ?m = "mem(n := ?e\<lparr>pprev := Some q, nHeight := nHeight (mem q) + 1\<rparr>)"
    have "index_wf ?m {..<n}" using wf(1) by (rule index_wf_frame) simp
    from index_wf_extend [OF this, of n q] q
    obtain s where "BuildSkip ?m n = Inr (?m(n := (?m n)\<lparr>pskip := s\<rparr>))" "index_wf (?m(n := (?m n)\<lparr>pskip := s\<rparr>)) {..<Suc n}"
      by (auto simp: lessThan_Suc)
    then show ?thesis using Some q
      by (intro exI [of _ "?m(n := (?m n)\<lparr>pskip := s\<rparr>)"] exI [of _ s] exI [of _ "nHeight (mem q) + 1"]) (simp add: r_def Let_def)
  qed
  then obtain mem0 s h where r: "r = Inr mem0" and m0: "mem0 = mem(n := ?e\<lparr>pprev := pq, nHeight := h, pskip := s\<rparr>)"
    and wf0: "index_wf mem0 {..<Suc n}" by blast
  obtain w where w: "GetBlockProof (mem0 n) = Inr w" "length w = 8" "bn_val w = block_work (nBits (mem0 n))"
    using GetBlockProof_val [of "mem0 n"] by (auto simp: block_work_def)
  let ?pw = "case pq of None \<Rightarrow> bn_of_u64 8 0 | Some q \<Rightarrow> nChainWork (mem0 q)"
  have pw: "length ?pw = 8" "bn_val ?pw = (case pq of None \<Rightarrow> 0 | Some q \<Rightarrow> bn_val (nChainWork (mem q)))"
    using wf(2) prev(2) by (auto simp: m0 works_ok_def bn_val_of_u64 split: option.split)
  have e0: "pprev (mem0 n) = pq" "nStatus (mem0 n) = 0" by (simp_all add: m0 CBlockIndex_of_def SetNull_def)
  define mem1 where "mem1 = mem0(n := (mem0 n)\<lparr>nChainWork := bn_add ?pw w, nStatus := 2\<rparr>)"
  have "new_store hash block m mem n = Inr mem1"
    unfolding new_store_def prev(1) Let_def r_def [unfolded Let_def, symmetric] r using w(1) e0
    by (simp add: mem1_def RaiseValidity_def)
  moreover have "index_wf mem1 {..<Suc n}" using wf0 by (rule index_wf_frame) (simp add: mem1_def)
  moreover have "bn_val (bn_add ?pw w) = (bn_val ?pw + bn_val w) mod 2 ^ 256" "length (bn_add ?pw w) = 8"
    using pw(1) w(2) by (simp_all add: bn_val_add)
  ultimately show ?thesis using pw(2) w(3)
    by (intro exI [of _ mem1]) (simp add: mem1_def m0 CBlockIndex_of_def SetNull_def)
qed

end
