(* ===== verification/Candidates.thy ===== *)
theory Candidates
  imports BlockTree
begin

unbundle bit_operations_syntax

text \<open>
  The life of the block tree of \<^verbatim>\<open>BlockTree\<close>: headers and block data arrive in any order. The steps
  keep the invariant of the tree, and the candidates for the active chain are exactly the blocks
  whose data and whose ancestors' data have arrived.
\<close>

section \<open>Headers\<close>

abbreviation links_of :: "block_tree \<Rightarrow> link_state" where
  "links_of t \<equiv> \<lparr>l_mem = t_mem t, l_cands = setBlockIndexCandidates t, l_unlinked = mapBlocksUnlinked t, l_seq = nBlockSequenceId t\<rparr>"

lemma link_state_eta [simp]: "\<lparr>l_mem = l_mem s, l_cands = l_cands s, l_unlinked = l_unlinked s, l_seq = l_seq s\<rparr> = s"
  by simp

lemma AddToBlockIndex_known:
  "map_of (mapBlockIndex t) hash = Some p \<Longrightarrow> AddToBlockIndex hash block t = Some (Inr (p, t))"
  by (simp add: AddToBlockIndex_def)

lemma names_ok_lookup: "names_ok mem n m \<Longrightarrow> map_of m h = Some q \<Longrightarrow> q < n"
  by (force simp: names_ok_def dest: map_of_SomeD)

lemma names_ok_extend:
  assumes "names_ok mem n m" "map_of m h = None" "\<forall>p < n. phashBlock (mem' p) = phashBlock (mem p)" "phashBlock (mem' n) = Some h"
  shows "names_ok mem' (Suc n) ((h, n) # m)"
proof -
  have m: "distinct (map fst m)" "snd ` set m = {..<n}" "\<forall>(h, p) \<in> set m. phashBlock (mem p) = Some h" using assms(1) by (simp_all add: names_ok_def)
  have "phashBlock (mem' p) = Some k" if "(k, p) \<in> set m" for k p
  proof -
    have "p \<in> {..<n}" unfolding m(2) [symmetric] using that by force
    then show ?thesis using m(3) assms(3) that by auto
  qed
  moreover have "h \<notin> fst ` set m" using assms(2) by (simp add: map_of_eq_None_iff)
  ultimately show ?thesis using m(1,2) assms(4) by (auto simp: names_ok_def lessThan_Suc)
qed

lemma node_next: "node_ok mem n p \<Longrightarrow> pNextOnThisHeight (mem p) = Some q \<Longrightarrow> p < q \<and> q < n"
  by (simp add: node_ok_def)

lemma best_ok_extend:
  assumes "best_ok mem n best" "\<forall>p < n. mem' p = mem p" "works_ok mem' {..<Suc n}"
  shows "best_ok mem' (Suc n) (case best of None \<Rightarrow> Some n
    | Some b \<Rightarrow> if CompareTo (nChainWork (mem' b)) (nChainWork (mem' n)) < 0 then Some n else Some b)"
proof (cases best)
  case None
  then show ?thesis using assms(1) by (simp add: best_ok_def)
next
  case (Some b)
  let ?w = "\<lambda>p. bn_val (nChainWork (mem' p))"
  have b: "b < n" "\<forall>p < n. ?w p \<le> ?w b" using assms(1,2) Some by (auto simp: best_ok_def)
  have "length (nChainWork (mem' b)) = length (nChainWork (mem' n))" using assms(3) b(1) by (simp add: works_ok_def)
  then have c: "CompareTo (nChainWork (mem' b)) (nChainWork (mem' n)) < 0 \<longleftrightarrow> ?w b < ?w n"
    using CompareTo_val [of "nChainWork (mem' b)" "nChainWork (mem' n)"] by simp
  show ?thesis
  proof (cases "?w b < ?w n")
    case True
    have "?w p \<le> ?w n" if "p < Suc n" for p
    proof (cases "p = n")
      case False
      then have "?w p \<le> ?w b" using b(2) that by simp
      then show ?thesis using True by simp
    qed simp
    then show ?thesis using True c Some by (simp add: best_ok_def)
  next
    case False
    then have "?w p \<le> ?w b" if "p < Suc n" for p using b(2) that by (cases "p = n") simp_all
    then show ?thesis using False c Some b(1) by (simp add: best_ok_def)
  qed
qed

lemma best_ok_frame: "best_ok mem n best \<Longrightarrow> \<forall>p < n. nChainWork (mem' p) = nChainWork (mem p) \<Longrightarrow> best_ok mem' n best"
  by (auto simp: best_ok_def split: option.splits)

lemma tree_invD:
  assumes "tree_inv t"
  shows "link_inv {..<t_alloc t} [] (links_of t)" "p < t_alloc t \<Longrightarrow> node_ok (t_mem t) (t_alloc t) p"
    "names_ok (t_mem t) (t_alloc t) (mapBlockIndex t)" "best_ok (t_mem t) (t_alloc t) (pindexBestHeader t)"
    "Some f \<in> set (vFirstOnThisHeight t) \<Longrightarrow> f < t_alloc t"
    "index_wf (t_mem t) {..<t_alloc t}" "works_ok (t_mem t) {..<t_alloc t}"
  using assms by (simp_all add: tree_inv_def link_inv_def)

lemma AddToBlockIndex_ok:
  assumes t: "tree_inv t" and new: "map_of (mapBlockIndex t) hash = None" and prev: "hashPrevBlock block \<noteq> hash"
  shows "\<exists>t'. AddToBlockIndex hash block t = Some (Inr (t_alloc t, t')) \<and> tree_inv t' \<and> t_alloc t' = Suc (t_alloc t)
    \<and> mapBlockIndex t' = (hash, t_alloc t) # mapBlockIndex t
    \<and> pprev (t_mem t' (t_alloc t)) = map_of (mapBlockIndex t) (hashPrevBlock block) \<and> nTx (t_mem t' (t_alloc t)) = 0
    \<and> (\<forall>p < t_alloc t. \<exists>x. t_mem t' p = (t_mem t p)\<lparr>pNextOnThisHeight := x\<rparr>)
    \<and> setBlockIndexCandidates t' = setBlockIndexCandidates t"
proof -
  let ?n = "t_alloc t" and ?m = "(hash, t_alloc t) # mapBlockIndex t"
  let ?pq = "map_of (mapBlockIndex t) (hashPrevBlock block)"
  note i = tree_invD [OF t]
  have pq: "map_of ?m (hashPrevBlock block) = ?pq" "\<forall>q. ?pq = Some q \<longrightarrow> q < ?n" using prev names_ok_lookup [OF i(3)] by auto
  obtain mem1 where m1: "new_store hash block ?m (t_mem t) ?n = Inr mem1" "\<forall>p < ?n. mem1 p = t_mem t p"
    "index_wf mem1 {..<Suc ?n}" "phashBlock (mem1 ?n) = Some hash" "pprev (mem1 ?n) = ?pq" "nTx (mem1 ?n) = 0"
    "nChainTx (mem1 ?n) = 0" "nStatus (mem1 ?n) = 2" "pNextOnThisHeight (mem1 ?n) = None" "length (nChainWork (mem1 ?n)) = 8"
    "bn_val (nChainWork (mem1 ?n)) =
       ((case ?pq of None \<Rightarrow> 0 | Some q \<Rightarrow> bn_val (nChainWork (t_mem t q))) + block_work (nBits (mem1 ?n))) mod 2 ^ 256"
    using new_store_ok [OF i(6,7) pq, of hash] by (elim exE conjE) (rule that; assumption)
  have nx: "\<forall>p < ?n. \<forall>q. pNextOnThisHeight (mem1 p) = Some q \<longrightarrow> p < q \<and> q < ?n"
  proof (intro allI impI)
    fix p q assume "p < ?n" "pNextOnThisHeight (mem1 p) = Some q"
    then show "p < q \<and> q < ?n" using node_next [OF i(2)] m1(2) by metis
  qed
  obtain mem2 firsts where u: "UpdateBlockByHeightList mem1 (vFirstOnThisHeight t) ?n = Some (mem2, firsts)"
    and m2: "\<forall>p. \<exists>x. mem2 p = (mem1 p)\<lparr>pNextOnThisHeight := x\<rparr> \<and> (\<forall>q. p \<le> ?n \<longrightarrow> x = Some q \<longrightarrow> p < q \<and> q < ?n + 1)"
    and fs: "\<forall>f. Some f \<in> set firsts \<longrightarrow> f < ?n + 1"
    by (rule UpdateBlockByHeightList_ok [OF nx _ m1(9)]) (use i(5) in blast)+
  have f2: "\<exists>x. mem2 p = (mem1 p)\<lparr>pNextOnThisHeight := x\<rparr>" for p using m2 by blast
  have same: "same_links (mem2 p) (mem1 p)" "nStatus (mem2 p) = nStatus (mem1 p)" "nBits (mem2 p) = nBits (mem1 p)"
    "nChainWork (mem2 p) = nChainWork (mem1 p)" "pprev (mem2 p) = pprev (mem1 p)" "phashBlock (mem2 p) = phashBlock (mem1 p)" "nTx (mem2 p) = nTx (mem1 p)" for p
    using f2 [of p] by (auto simp: same_links_def)
  let ?s = "links_of t"
  have "link_inv {..<?n} [] (?s\<lparr>l_mem := mem1\<rparr>)" using i(1) by (rule link_inv_frame) (simp add: m1(2) same_links_def)
  then have "link_inv {..<Suc ?n} [] (?s\<lparr>l_mem := mem1\<rparr>)"
    using link_inv_extend [of "{..<?n}" "[]" "?s\<lparr>l_mem := mem1\<rparr>" ?n] m1 by (simp add: lessThan_Suc)
  then have link: "link_inv {..<Suc ?n} [] (?s\<lparr>l_mem := mem2\<rparr>)" using link_inv_frame [of _ _ "?s\<lparr>l_mem := mem1\<rparr>" mem2] same(1) by simp
  have "node_ok mem2 (Suc ?n) p" if p: "p < Suc ?n" for p
  proof -
    have nxt: "\<forall>q. pNextOnThisHeight (mem2 p) = Some q \<longrightarrow> p < q \<and> q < Suc ?n" 
    proof -
      obtain x where "mem2 p = (mem1 p)\<lparr>pNextOnThisHeight := x\<rparr>" "\<forall>q. p \<le> ?n \<longrightarrow> x = Some q \<longrightarrow> p < q \<and> q < ?n + 1"
        using m2 by blast
      then show ?thesis using p by simp
    qed
    show ?thesis
    proof (cases "p = ?n")
      case True
      have "(case ?pq of None \<Rightarrow> 0 | Some q \<Rightarrow> bn_val (nChainWork (t_mem t q))) = (case ?pq of None \<Rightarrow> 0 | Some q \<Rightarrow> bn_val (nChainWork (mem2 q)))"
        using pq(2) m1(2) same(4) by (simp split: option.split)
      then show ?thesis using True nxt m1 by (simp add: node_ok_def same)
    next
      case False
      then have p: "p < ?n" using p by simp
      have "q < ?n" if "pprev (t_mem t p) = Some q" for q using index_wfD(3) [OF i(6) _ that] p by simp
      then show ?thesis using i(2) [OF p] nxt p m1(2) by (auto simp: node_ok_def same split: option.splits)
    qed
  qed
  moreover have "names_ok mem2 (Suc ?n) ?m"
    by (rule names_ok_extend [OF i(3) new]) (simp_all add: same(6) m1(2,4))
  moreover have "best_ok mem2 (Suc ?n) (case pindexBestHeader t of None \<Rightarrow> Some ?n
       | Some b \<Rightarrow> if CompareTo (nChainWork (mem1 b)) (nChainWork (mem1 ?n)) < 0 then Some ?n else Some b)"
    by (rule best_ok_frame [OF best_ok_extend [OF i(4) m1(2)]])
      (use i(7) m1(2,10) same(4) in \<open>auto simp: works_ok_def less_Suc_eq\<close>)
  moreover have "\<exists>x. mem2 p = (t_mem t p)\<lparr>pNextOnThisHeight := x\<rparr>" if "p < ?n" for p using f2 [of p] m1(2) that by simp
  ultimately show ?thesis
    using AddToBlockIndex_new [OF new m1(1) u] link fs by (simp add: tree_inv_def same m1(5,6))
qed

section \<open>Block data\<close>

lemma UpdateChainMiningStatus_frame:
  "\<exists>c h. UpdateChainMiningStatus mi mem p = (mem p)\<lparr>nCanMine := c, nHeightMinedByMe := h\<rparr>"
proof -
  have "UpdateChainMiningStatus mi mem p = (mem p)\<lparr>nCanMine := nCanMine (UpdateChainMiningStatus mi mem p),
      nHeightMinedByMe := nHeightMinedByMe (UpdateChainMiningStatus mi mem p)\<rparr>"
    by (simp add: UpdateChainMiningStatus_def Let_def split: option.split bool.split)
  then show ?thesis by blast
qed

lemma status_received:
  fixes s :: u32
  assumes "s AND BLOCK_FAILED_MASK = 0"
  shows "(s OR BLOCK_HAVE_DATA) AND BLOCK_FAILED_MASK = 0" "(((s OR BLOCK_HAVE_DATA) AND NOT BLOCK_VALID_MASK) OR 3) AND BLOCK_FAILED_MASK = 0"
    "(((s OR BLOCK_HAVE_DATA) AND NOT BLOCK_VALID_MASK) OR 3) AND BLOCK_VALID_MASK = 3" "(s OR BLOCK_HAVE_DATA) AND BLOCK_HAVE_DATA \<noteq> 0"
    "(((s OR BLOCK_HAVE_DATA) AND NOT BLOCK_VALID_MASK) OR 3) AND BLOCK_HAVE_DATA \<noteq> 0"
proof -
  show a: "(s OR BLOCK_HAVE_DATA) AND BLOCK_FAILED_MASK = 0" by (subst bit.conj_disj_distrib2) (use assms in simp)
  have b: "(s OR BLOCK_HAVE_DATA) AND NOT BLOCK_VALID_MASK AND BLOCK_FAILED_MASK = 0" using a assms by (simp add: and.assoc)
  show "(((s OR BLOCK_HAVE_DATA) AND NOT BLOCK_VALID_MASK) OR 3) AND BLOCK_FAILED_MASK = 0"
    unfolding bit.conj_disj_distrib2 and.assoc using b assms by simp
  show "(((s OR BLOCK_HAVE_DATA) AND NOT BLOCK_VALID_MASK) OR 3) AND BLOCK_VALID_MASK = 3"
    unfolding bit.conj_disj_distrib2 and.assoc by simp
  show d: "(s OR BLOCK_HAVE_DATA) AND BLOCK_HAVE_DATA \<noteq> 0" by (simp add: or.commute)
  then show "(((s OR BLOCK_HAVE_DATA) AND NOT BLOCK_VALID_MASK) OR 3) AND BLOCK_HAVE_DATA \<noteq> 0"
    unfolding bit.conj_disj_distrib2 and.assoc by simp
qed

lemma RaiseValidity_received:
  assumes "nStatus b = s OR BLOCK_HAVE_DATA" "s AND BLOCK_FAILED_MASK = 0"
  shows "\<exists>st r. RaiseValidity b BLOCK_VALID_TRANSACTIONS = Inr (b\<lparr>nStatus := st\<rparr>, r)
    \<and> st AND BLOCK_FAILED_MASK = 0 \<and> 3 \<le> st AND BLOCK_VALID_MASK \<and> st AND BLOCK_HAVE_DATA \<noteq> 0"
proof (cases "nStatus b AND BLOCK_VALID_MASK < 3")
  case True
  let ?st = "(nStatus b AND NOT BLOCK_VALID_MASK) OR 3"
  have "RaiseValidity b BLOCK_VALID_TRANSACTIONS = Inr (b\<lparr>nStatus := ?st\<rparr>, True)"
    using True status_received(1) [OF assms(2)] assms(1) by (simp add: RaiseValidity_def)
  moreover have "?st AND BLOCK_FAILED_MASK = 0" "?st AND BLOCK_VALID_MASK = 3" "?st AND BLOCK_HAVE_DATA \<noteq> 0"
    unfolding assms(1) by (rule status_received [OF assms(2)])+
  ultimately show ?thesis by (metis order_refl)
next
  case False
  have "RaiseValidity b BLOCK_VALID_TRANSACTIONS = Inr (b\<lparr>nStatus := nStatus b\<rparr>, False)"
    using False status_received(1) [OF assms(2)] assms(1) by (simp add: RaiseValidity_def)
  then show ?thesis using False status_received(1,4) [OF assms(2)] assms(1) by (metis linorder_not_less)
qed

text \<open>The entry of \<open>p\<close> once its data has arrived, before it is linked.\<close>

lemma link_inv_received:
  assumes i: "link_inv D [] s" and p: "p \<in> D" "nTx (l_mem s p) = 0" and k: "0 < k" "(\<Sum>q \<in> D. unat (nTx (l_mem s q))) + k < 2 ^ 32"
    and m: "\<forall>q. q \<noteq> p \<longrightarrow> mem' q = l_mem s q" "pprev (mem' p) = pprev (l_mem s p)" "pskip (mem' p) = pskip (l_mem s p)"
      "nHeight (mem' p) = nHeight (l_mem s p)" "nChainWork (mem' p) = nChainWork (l_mem s p)" "nTx (mem' p) = of_nat k" "nChainTx (mem' p) = 0"
    and u: "case pprev (l_mem s p) of None \<Rightarrow> queue = [p] \<and> unl = l_unlinked s
      | Some q \<Rightarrow> if nChainTx (l_mem s q) = 0 then queue = [] \<and> unl = l_unlinked s @ [(q, p)] else queue = [p] \<and> unl = l_unlinked s"
  shows "link_inv D queue (s\<lparr>l_mem := mem', l_unlinked := unl\<rparr>)"
proof -
  let ?mem = "l_mem s"
  have l: "finite D" "index_wf ?mem D" "works_ok ?mem D" "linked_ok ?mem D" "pending_ok ?mem D [] (l_unlinked s)" "cands_ok ?mem D (l_cands s)"
    using i by (simp_all add: link_inv_def)
  have same: "pprev (mem' q) = pprev (?mem q)" "pskip (mem' q) = pskip (?mem q)" "nHeight (mem' q) = nHeight (?mem q)" "nChainWork (mem' q) = nChainWork (?mem q)" for q
    using m by (cases "q = p"; simp)+
  have ct0: "nChainTx (?mem p) = 0" using l(4) p by (auto simp: linked_ok_def)
  have ct: "nChainTx (mem' q) = nChainTx (?mem q)" for q using ct0 m by (cases "q = p") simp_all
  have par: "parent_linked mem' q = parent_linked ?mem q" "parent_tx mem' q = parent_tx ?mem q" for q
    by (simp_all add: parent_linked_def parent_tx_def same ct split: option.split)
  have tx: "nTx (mem' p) \<noteq> 0" using k by (simp add: m(6) word_of_nat_eq_0_iff nat_dvd_not_less)
  have "index_wf mem' D" using l(2) by (rule index_wf_frame) (simp add: same)
  moreover have "works_ok mem' D" using l(3) by (simp add: works_ok_def same)
  moreover have "linked_ok mem' D"
    unfolding linked_ok_def
  proof (intro ballI impI)
    fix q assume q: "q \<in> D" "nChainTx (mem' q) \<noteq> 0"
    then have "mem' q = ?mem q" using ct0 ct m(1) by (cases "q = p") auto
    then show "nTx (mem' q) \<noteq> 0 \<and> parent_linked mem' q \<and> unat (nChainTx (mem' q)) = parent_tx mem' q + unat (nTx (mem' q))"
      using l(4) q by (simp add: linked_ok_def par)
  qed
  moreover have "pending_ok mem' D queue unl"
  proof -
    have pd: "distinct (map snd (l_unlinked s))" "set (map snd (l_unlinked s)) = {q \<in> D. nTx (?mem q) \<noteq> 0 \<and> nChainTx (?mem q) = 0}"
      "\<forall>(q, x) \<in> set (l_unlinked s). pprev (?mem x) = Some q \<and> nChainTx (?mem q) = 0" using l(5) by (simp_all add: pending_ok_def)
    have st: "{q \<in> D. nTx (mem' q) \<noteq> 0 \<and> nChainTx (mem' q) = 0} = insert p (set (map snd (l_unlinked s)))"
      unfolding pd(2) ct using p tx ct0 m(1) by auto
    have np: "p \<notin> set (map snd (l_unlinked s))" unfolding pd(2) using p by simp
    consider "queue = [p]" "unl = l_unlinked s" "parent_linked ?mem p" | q where "queue = []" "unl = l_unlinked s @ [(q, p)]" "pprev (?mem p) = Some q" "nChainTx (?mem q) = 0"
      using u by (auto simp: parent_linked_def split: option.splits if_splits)
    then show ?thesis
    proof cases
      case 1
      then show ?thesis unfolding pending_ok_def st using pd(1,3) np by (simp add: par same ct)
    next
      case 2
      then show ?thesis unfolding pending_ok_def st using pd(1,3) np by (simp add: par same ct)
    qed
  qed
  moreover have "cands_ok mem' D (l_cands s)"
  proof -
    have "\<forall>c \<in> set (l_cands s). mem' c = ?mem c" using l(6) ct0 m(1) by (auto simp: cands_ok_def)
    then show ?thesis using l(6) sorted_frame [of ?mem "l_cands s" mem'] by (simp add: cands_ok_def ct)
  qed
  moreover have "(\<Sum>q \<in> D. unat (nTx (mem' q))) < 2 ^ 32"
  proof -
    have "(\<Sum>q \<in> D. unat (nTx (mem' q))) = unat (nTx (mem' p)) + (\<Sum>q \<in> D - {p}. unat (nTx (mem' q)))" using p(1) l(1) by (rule sum.remove [rotated])
    also have "(\<Sum>q \<in> D - {p}. unat (nTx (mem' q))) = (\<Sum>q \<in> D - {p}. unat (nTx (?mem q)))" using m(1) by (intro sum.cong) auto
    also have "\<dots> \<le> (\<Sum>q \<in> D. unat (nTx (?mem q)))" using l(1) by (intro sum_mono2) auto
    finally show ?thesis using k(2) m(6) by (simp add: unat_of_nat)
  qed
  ultimately show ?thesis using l(1) by (simp add: link_inv_def)
qed

lemma tree_inv_relink:
  assumes t: "tree_inv t" and l: "link_inv {..<t_alloc t} [] (links_of t')"
    and eq: "t_alloc t' = t_alloc t" "mapBlockIndex t' = mapBlockIndex t" "pindexBestHeader t' = pindexBestHeader t" "vFirstOnThisHeight t' = vFirstOnThisHeight t"
    and f: "\<forall>p < t_alloc t. nStatus (t_mem t' p) AND BLOCK_FAILED_MASK = 0 \<and> BLOCK_VALID_TREE \<le> nStatus (t_mem t' p) AND BLOCK_VALID_MASK
        \<and> (nStatus (t_mem t' p) AND BLOCK_HAVE_DATA = 0 \<longleftrightarrow> nTx (t_mem t' p) = 0)"
      "\<forall>p. phashBlock (t_mem t' p) = phashBlock (t_mem t p) \<and> pprev (t_mem t' p) = pprev (t_mem t p) \<and> nChainWork (t_mem t' p) = nChainWork (t_mem t p)
        \<and> pNextOnThisHeight (t_mem t' p) = pNextOnThisHeight (t_mem t p) \<and> nBits (t_mem t' p) = nBits (t_mem t p)"
  shows "tree_inv t'"
proof -
  note i = tree_invD [OF t]
  have "node_ok (t_mem t') (t_alloc t) p" if "p < t_alloc t" for p
    using i(2) [OF that] f(1) that unfolding node_ok_def by (simp add: f(2) split: option.split)
  moreover have "names_ok (t_mem t') (t_alloc t) (mapBlockIndex t)" using i(3) by (simp add: names_ok_def f(2))
  moreover have "best_ok (t_mem t') (t_alloc t) (pindexBestHeader t)" using i(4) by (rule best_ok_frame) (simp add: f(2))
  ultimately show ?thesis using l i(5) by (simp add: tree_inv_def eq)
qed

lemma ReceivedBlockTransactions_ok:
  assumes t: "tree_inv t" and p: "p < t_alloc t" "nTx (t_mem t p) = 0"
    and k: "0 < k" "(\<Sum>q < t_alloc t. unat (nTx (t_mem t q))) + k < 2 ^ 32"
  shows "\<exists>t'. ReceivedBlockTransactions mi k fno pos p t = Inr t' \<and> tree_inv t' \<and> t_alloc t' = t_alloc t \<and> mapBlockIndex t' = mapBlockIndex t
    \<and> (\<forall>q. nTx (t_mem t' q) = (if q = p then of_nat k else nTx (t_mem t q)) \<and> pprev (t_mem t' q) = pprev (t_mem t q))"
proof -
  let ?n = "t_alloc t" and ?mem = "t_mem t"
  note i = tree_invD [OF t]
  have nf: "nStatus (?mem q) AND BLOCK_FAILED_MASK = 0" "BLOCK_VALID_TREE \<le> nStatus (?mem q) AND BLOCK_VALID_MASK"
    "nStatus (?mem q) AND BLOCK_HAVE_DATA = 0 \<longleftrightarrow> nTx (?mem q) = 0" if "q < ?n" for q
    using i(2) [OF that] by (simp_all add: node_ok_def)
  define b where "b = (?mem p)\<lparr>nTx := of_nat k, nChainTx := 0, nFile := fno, nDataPos := pos, nUndoPos := 0,
      nStatus := nStatus (?mem p) OR BLOCK_HAVE_DATA\<rparr>"
  obtain st r where rv: "RaiseValidity b BLOCK_VALID_TRANSACTIONS = Inr (b\<lparr>nStatus := st\<rparr>, r)"
    and st: "st AND BLOCK_FAILED_MASK = 0" "3 \<le> st AND BLOCK_VALID_MASK" "st AND BLOCK_HAVE_DATA \<noteq> 0"
    using RaiseValidity_received [of b, OF _ nf(1) [OF p(1)]] by (auto simp: b_def)
  define mem1 where "mem1 = ?mem(p := b\<lparr>nStatus := st\<rparr>)"
  obtain c h where um: "UpdateChainMiningStatus mi mem1 p = (mem1 p)\<lparr>nCanMine := c, nHeightMinedByMe := h\<rparr>"
    using UpdateChainMiningStatus_frame by blast
  define mem2 where "mem2 = mem1(p := UpdateChainMiningStatus mi mem1 p)"
  have mem2: "mem2 = mem1(p := (mem1 p)\<lparr>nCanMine := c, nHeightMinedByMe := h\<rparr>)" by (simp only: mem2_def um)
  have old: "\<forall>q. q \<noteq> p \<longrightarrow> mem2 q = ?mem q" by (simp add: mem2_def mem1_def)
  have same: "phashBlock (mem2 q) = phashBlock (?mem q)" "pprev (mem2 q) = pprev (?mem q)" "pskip (mem2 q) = pskip (?mem q)" "nHeight (mem2 q) = nHeight (?mem q)"
      "nChainWork (mem2 q) = nChainWork (?mem q)" "pNextOnThisHeight (mem2 q) = pNextOnThisHeight (?mem q)" "nBits (mem2 q) = nBits (?mem q)"
      "nTx (mem2 q) = (if q = p then of_nat k else nTx (?mem q))" for q
    by (simp_all add: mem2 mem1_def b_def)
  have np: "nChainTx (mem2 p) = 0" "nStatus (mem2 p) = st" by (simp_all add: mem2 mem1_def b_def)
  have ct: "nChainTx (mem2 q) = nChainTx (?mem q)" for q
    using i(1) p np(1) old by (cases "q = p") (auto simp: link_inv_def linked_ok_def)
  have k0: "(of_nat k :: u32) \<noteq> 0" using k by (simp add: word_of_nat_eq_0_iff nat_dvd_not_less)
  have status: "nStatus (mem2 q) AND BLOCK_FAILED_MASK = 0 \<and> BLOCK_VALID_TREE \<le> nStatus (mem2 q) AND BLOCK_VALID_MASK
      \<and> (nStatus (mem2 q) AND BLOCK_HAVE_DATA = 0 \<longleftrightarrow> nTx (mem2 q) = 0)" if "q < ?n" for q
  proof (cases "q = p")
    case True
    then show ?thesis using st np(2) order_trans [of BLOCK_VALID_TREE 3] same(8) k0 by simp
  qed (use nf that old in simp)
  have link: "link_inv {..<?n} queue ((links_of t)\<lparr>l_mem := mem2, l_unlinked := unl\<rparr>)"
    if "case pprev (?mem p) of None \<Rightarrow> queue = [p] \<and> unl = mapBlocksUnlinked t
      | Some q \<Rightarrow> if nChainTx (?mem q) = 0 then queue = [] \<and> unl = mapBlocksUnlinked t @ [(q, p)] else queue = [p] \<and> unl = mapBlocksUnlinked t"
    for queue unl
    using i(1) by (rule link_inv_received [where p = p and k = k]) (use p k that old np in \<open>simp_all add: same split: option.splits\<close>)
  let ?t = "t\<lparr>t_mem := mem2, setDirtyBlockIndex := insert p (setDirtyBlockIndex t)\<rparr>"
  let ?s = "link_loop [p] (links_of ?t)"
  let ?linked = "?t\<lparr>t_mem := l_mem ?s, setBlockIndexCandidates := l_cands ?s, mapBlocksUnlinked := l_unlinked ?s, nBlockSequenceId := l_seq ?s\<rparr>"
  have R: "ReceivedBlockTransactions mi k fno pos p t = (case pprev (mem2 p) of
      Some q \<Rightarrow> if nChainTx (mem2 q) = 0 then bind_cpp (IsValid (mem2 q) BLOCK_VALID_TREE) (\<lambda>v.
          Inr (if v then ?t\<lparr>mapBlocksUnlinked := mapBlocksUnlinked ?t @ [(q, p)]\<rparr> else ?t)) else Inr ?linked
    | None \<Rightarrow> Inr ?linked)"
    unfolding ReceivedBlockTransactions_def Let_def b_def [symmetric] rv bind_cpp_simps prod.case mem1_def [symmetric] mem2_def [symmetric]
    by (cases "pprev (mem2 p)") simp_all
  show ?thesis
  proof (cases "parent_linked ?mem p")
    case True
    have "ReceivedBlockTransactions mi k fno pos p t = Inr ?linked"
      unfolding R same(2) ct using True by (simp add: parent_linked_def del: link_loop.simps split: option.splits)
    moreover have "link_inv {..<?n} [p] (links_of ?t)"
      using link [of "[p]" "mapBlocksUnlinked t"] True by (auto simp: parent_linked_def split: option.splits)
    then have "link_inv {..<?n} [] ?s" by (rule link_loop_inv)
    then have "tree_inv ?linked" by (intro tree_inv_relink [OF t]) (simp_all add: link_loop_frame same status del: link_loop.simps)
    ultimately show ?thesis by (simp add: link_loop_frame same del: link_loop.simps)
  next
    case False
    then obtain q where q: "pprev (?mem p) = Some q" "nChainTx (?mem q) = 0" by (auto simp: parent_linked_def split: option.splits)
    have "q < ?n" using index_wfD(3) [OF i(6) _ q(1)] p(1) by simp
    then have "IsValid (mem2 q) BLOCK_VALID_TREE = Inr True" using status by (simp add: IsValid_def)
    then have "ReceivedBlockTransactions mi k fno pos p t = Inr (?t\<lparr>mapBlocksUnlinked := mapBlocksUnlinked t @ [(q, p)]\<rparr>)"
      unfolding R same(2) q(1) using q(2) ct by simp
    moreover have "tree_inv (?t\<lparr>mapBlocksUnlinked := mapBlocksUnlinked t @ [(q, p)]\<rparr>)"
      using link [of "[]" "mapBlocksUnlinked t @ [(q, p)]"] q by (intro tree_inv_relink [OF t]) (simp_all add: same status)
    ultimately show ?thesis by (simp add: same)
  qed
qed

section \<open>Reachable trees\<close>

text \<open>
  \<open>AcceptBlockHeader\<close> adds the header of a block unless it is known, \<open>AcceptBlock\<close> takes the data of a
  block of the index that has none. The total number of transactions of a node fits an
  \<open>unsigned int\<close>, as the comment on \<open>CBlockIndex::nChainTx\<close> requires.
\<close>

inductive tree_step :: "block_tree \<Rightarrow> block_tree \<Rightarrow> bool" where
  header: "hashPrevBlock block \<noteq> hash \<Longrightarrow> AddToBlockIndex hash block t = Some (Inr (p, t')) \<Longrightarrow> tree_step t t'"
| received: "p < t_alloc t \<Longrightarrow> nStatus (t_mem t p) AND BLOCK_HAVE_DATA = 0 \<Longrightarrow> 0 < k \<Longrightarrow>
    (\<Sum>q < t_alloc t. unat (nTx (t_mem t q))) + k < 2 ^ 32 \<Longrightarrow>
    ReceivedBlockTransactions mi k fno pos p t = Inr t' \<Longrightarrow> tree_step t t'"

inductive_cases tree_stepE: "tree_step t t'"

abbreviation tree_reachable :: "block_tree \<Rightarrow> bool" where
  "tree_reachable t \<equiv> tree_step\<^sup>*\<^sup>* empty_tree t"

lemma no_data_iff: "tree_inv t \<Longrightarrow> p < t_alloc t \<Longrightarrow> nStatus (t_mem t p) AND BLOCK_HAVE_DATA = 0 \<longleftrightarrow> nTx (t_mem t p) = 0"
  using tree_invD(2) [of t p] unfolding node_ok_def by blast

lemma tree_step_inv: "tree_step t t' \<Longrightarrow> tree_inv t \<Longrightarrow> tree_inv t'"
proof (erule tree_stepE, goal_cases)
  case (1 block hash p)
  show ?case
  proof (cases "map_of (mapBlockIndex t) hash")
    case None
    then show ?thesis using AddToBlockIndex_ok [of t hash block] 1 by auto
  qed (use 1 AddToBlockIndex_known in auto)
next
  case (2 p k mi fno pos)
  then show ?case using ReceivedBlockTransactions_ok [of t p k mi fno pos] no_data_iff [of t p] by auto
qed

lemma reachable_inv: "tree_reachable t \<Longrightarrow> tree_inv t"
  by (induction rule: rtranclp_induct) (auto intro: tree_inv_empty tree_step_inv)

definition parent_of :: "index_store \<Rightarrow> ptr \<Rightarrow> ptr \<Rightarrow> bool" where
  "parent_of mem p q \<longleftrightarrow> pprev (mem p) = Some q"

text \<open>The data of a block and of all its ancestors is there.\<close>

definition complete_block :: "index_store \<Rightarrow> ptr \<Rightarrow> bool" where
  "complete_block mem p \<longleftrightarrow> (\<forall>q. is_ancestor mem q p \<longrightarrow> nTx (mem q) \<noteq> 0)"

lemma ancestor_iff: "is_ancestor mem q p \<longleftrightarrow> (parent_of mem)\<^sup>*\<^sup>* p q"
proof
  assume "is_ancestor mem q p"
  then obtain n where "walk mem n p = Some q" by (auto simp: is_ancestor_def)
  then show "(parent_of mem)\<^sup>*\<^sup>* p q"
  proof (induction n arbitrary: p)
    case (Suc n)
    then obtain r where "pprev (mem p) = Some r" "(parent_of mem)\<^sup>*\<^sup>* r q" by (auto split: option.splits)
    moreover have "parent_of mem p r" using calculation(1) by (simp add: parent_of_def)
    ultimately show ?case by (blast intro: converse_rtranclp_into_rtranclp)
  qed simp
next
  assume "(parent_of mem)\<^sup>*\<^sup>* p q"
  then show "is_ancestor mem q p"
    by (induction rule: converse_rtranclp_induct) (auto simp: parent_of_def ancestor_refl ancestor_prev)
qed

lemmas complete_block_iff = complete_block_def [unfolded ancestor_iff]

lemma complete_iff_linked:
  assumes i: "link_inv D [] s" and p: "p \<in> D"
  shows "complete_block (l_mem s) p \<longleftrightarrow> nChainTx (l_mem s p) \<noteq> 0"
proof
  let ?mem = "l_mem s"
  have wf: "index_wf ?mem D" and l: "linked_ok ?mem D" and pd: "pending_ok ?mem D [] (l_unlinked s)" using i by (simp_all add: link_inv_def)
  show "nChainTx (?mem p) \<noteq> 0" if "complete_block ?mem p"
    using that p
  proof (induction "nat (nHeight (?mem p))" arbitrary: p rule: less_induct)
    case less
    have tx: "nTx (?mem p) \<noteq> 0" using less.prems(1) by (auto simp: complete_block_iff)
    show ?case
    proof
      assume "nChainTx (?mem p) = 0"
      then have "p \<in> snd ` set (l_unlinked s)" using pd tx less.prems(2) by (simp add: pending_ok_def)
      then obtain q where q: "pprev (?mem p) = Some q" "nChainTx (?mem q) = 0" using pd by (force simp: pending_ok_def)
      have h: "q \<in> D" "nHeight (?mem p) = nHeight (?mem q) + 1" using index_wfD(3) [OF wf less.prems(2) q(1)] by simp_all
      have "complete_block ?mem q"
        unfolding complete_block_iff
      proof (intro allI impI)
        fix r assume "(parent_of ?mem)\<^sup>*\<^sup>* q r"
        then have "(parent_of ?mem)\<^sup>*\<^sup>* p r" by (rule converse_rtranclp_into_rtranclp [rotated]) (simp add: parent_of_def q(1))
        then show "nTx (?mem r) \<noteq> 0" using less.prems(1) by (simp add: complete_block_iff)
      qed
      then show False using less.hyps [of q] h q(2) index_wfD(1) [OF wf h(1)] by simp
    qed
  qed
  show "complete_block ?mem p" if "nChainTx (?mem p) \<noteq> 0"
    unfolding complete_block_iff
  proof (intro allI impI)
    fix q assume "(parent_of ?mem)\<^sup>*\<^sup>* p q"
    then have "q \<in> D \<and> nChainTx (?mem q) \<noteq> 0"
    proof (induction rule: rtranclp_induct)
      case (step y z)
      then show ?case using index_wfD(3) [OF wf] l by (auto simp: parent_of_def linked_ok_def parent_linked_def)
    qed (use that p in simp)
    then show "nTx (?mem q) \<noteq> 0" using l by (simp add: linked_ok_def)
  qed
qed

lemma candidates_complete: "tree_inv t \<Longrightarrow> set (setBlockIndexCandidates t) = {p. p < t_alloc t \<and> complete_block (t_mem t) p}"
  using tree_invD(1) [of t] complete_iff_linked [of "{..<t_alloc t}" "links_of t"] by (auto simp: link_inv_def cands_ok_def)

section \<open>Deliveries\<close>

text \<open>The data of several blocks arrives, one block after the other.\<close>

fun deliver :: "(ptr \<times> nat \<times> mining_info \<times> int \<times> u32) list \<Rightarrow> block_tree \<Rightarrow> block_tree cpp" where
  "deliver [] t = Inr t"
| "deliver ((p, k, mi, fno, pos) # ds) t = bind_cpp (ReceivedBlockTransactions mi k fno pos p t) (deliver ds)"

lemma sum_tx_received:
  assumes "p < n" "nTx (mem p) = 0" "k < 2 ^ 32" "\<forall>q. nTx (mem' q) = (if q = p then of_nat k else nTx (mem q))"
  shows "(\<Sum>q < (n :: nat). unat (nTx (mem' q))) = (\<Sum>q < n. unat (nTx (mem q))) + k"
proof -
  have "(\<Sum>q < n. unat (nTx (mem' q))) = (\<Sum>q < n. unat (nTx (mem q)) + (if q = p then k else 0))"
    using assms(2,3,4) by (intro sum.cong) (simp_all add: unat_of_nat)
  then show ?thesis using assms(1) by (simp add: sum.distrib)
qed

lemma deliver_ok:
  assumes "tree_inv t" "distinct (map fst ds)" "\<forall>d \<in> set ds. fst d < t_alloc t \<and> nTx (t_mem t (fst d)) = 0 \<and> 0 < fst (snd d)"
    and "(\<Sum>q < t_alloc t. unat (nTx (t_mem t q))) + (\<Sum>d \<leftarrow> ds. fst (snd d)) < 2 ^ 32"
  shows "\<exists>t'. deliver ds t = Inr t' \<and> tree_inv t' \<and> tree_step\<^sup>*\<^sup>* t t' \<and> t_alloc t' = t_alloc t
    \<and> (\<forall>q. pprev (t_mem t' q) = pprev (t_mem t q) \<and> (nTx (t_mem t' q) = 0 \<longrightarrow> nTx (t_mem t q) = 0 \<and> q \<notin> fst ` set ds))"
  using assms
proof (induction ds arbitrary: t)
  case (Cons d ds)
  obtain p k mi fno pos where d: "d = (p, k, mi, fno, pos)" by (cases d)
  have p: "p < t_alloc t" "nTx (t_mem t p) = 0" "0 < k" "(\<Sum>q < t_alloc t. unat (nTx (t_mem t q))) + k < 2 ^ 32"
    using Cons.prems(3,4) by (auto simp: d)
  obtain t1 where r: "ReceivedBlockTransactions mi k fno pos p t = Inr t1" and t1: "tree_inv t1" "t_alloc t1 = t_alloc t"
    and eq: "\<forall>q. nTx (t_mem t1 q) = (if q = p then of_nat k else nTx (t_mem t q)) \<and> pprev (t_mem t1 q) = pprev (t_mem t q)"
    using ReceivedBlockTransactions_ok [OF Cons.prems(1) p] by blast
  have st: "tree_step t t1" using tree_step.received [OF p(1) _ p(3,4) r] no_data_iff [OF Cons.prems(1) p(1)] p(2) by simp
  have "\<forall>d \<in> set ds. fst d < t_alloc t1 \<and> nTx (t_mem t1 (fst d)) = 0 \<and> 0 < fst (snd d)"
    using Cons.prems(2,3) eq t1(2) by (auto simp: d)
  moreover have "(\<Sum>q < t_alloc t1. unat (nTx (t_mem t1 q))) + (\<Sum>d \<leftarrow> ds. fst (snd d)) < 2 ^ 32"
    using sum_tx_received [of p "t_alloc t" "t_mem t" k "t_mem t1"] p(1,2) Cons.prems(4) p(4) eq t1(2) by (simp add: d)
  ultimately obtain t' where t': "deliver ds t1 = Inr t'" "tree_inv t'" "tree_step\<^sup>*\<^sup>* t1 t'" "t_alloc t' = t_alloc t1"
    "\<forall>q. pprev (t_mem t' q) = pprev (t_mem t1 q) \<and> (nTx (t_mem t' q) = 0 \<longrightarrow> nTx (t_mem t1 q) = 0 \<and> q \<notin> fst ` set ds)"
    using Cons.IH [OF t1(1)] Cons.prems(2) by auto
  have k0: "(of_nat k :: u32) \<noteq> 0" using p(3,4) by (simp add: word_of_nat_eq_0_iff nat_dvd_not_less)
  have "pprev (t_mem t' q) = pprev (t_mem t q) \<and> (nTx (t_mem t' q) = 0 \<longrightarrow> nTx (t_mem t q) = 0 \<and> q \<notin> fst ` set (d # ds))" for q
    using t'(5) eq k0 by (auto simp: d split: if_splits)
  moreover have "tree_step\<^sup>*\<^sup>* t t'" using st t'(3) by (rule converse_rtranclp_into_rtranclp)
  ultimately show ?case using t'(1,2,4) t1(2) r by (intro exI [of _ t']) (simp add: d)
qed simp

text \<open>
  C4. The comment on \<open>CBlockIndex::nChainTx\<close>: in every state the node can reach, however headers and
  block data arrived, \<open>nChainTx\<close> is non-zero exactly for the blocks whose data and whose ancestors'
  data are there; these blocks are the candidates for the active chain, kept strictly ordered by the
  work comparator, and the best header has the most work of all headers.
\<close>

theorem reachable_candidates:
  assumes "tree_reachable t"
  shows "(\<forall>p < t_alloc t. nChainTx (t_mem t p) \<noteq> 0 \<longleftrightarrow> complete_block (t_mem t) p)
    \<and> set (setBlockIndexCandidates t) = {p. p < t_alloc t \<and> complete_block (t_mem t) p}
    \<and> sorted_wrt (WorkComparator (t_mem t)) (setBlockIndexCandidates t)
    \<and> (0 < t_alloc t \<longrightarrow> (\<exists>b. pindexBestHeader t = Some b \<and> b < t_alloc t
         \<and> (\<forall>p < t_alloc t. bn_val (nChainWork (t_mem t p)) \<le> bn_val (nChainWork (t_mem t b)))))"
proof -
  have t: "tree_inv t" by (rule reachable_inv [OF assms])
  note i = tree_invD [OF t]
  show ?thesis
    using complete_iff_linked [OF i(1)] candidates_complete [OF t] i(1,4)
    by (auto simp: link_inv_def cands_ok_def best_ok_def split: option.splits)
qed

text \<open>
  C5. No block waits for ever: once the missing data of a block and its ancestors has been delivered, in
  any order and mixed with other blocks, every step succeeds and the block is a candidate.
\<close>

theorem delivered_candidate:
  assumes "tree_reachable t" "p < t_alloc t" "distinct (map fst ds)"
    and "\<forall>d \<in> set ds. fst d < t_alloc t \<and> nStatus (t_mem t (fst d)) AND BLOCK_HAVE_DATA = 0 \<and> 0 < fst (snd d)"
    and "(\<Sum>q < t_alloc t. unat (nTx (t_mem t q))) + (\<Sum>d \<leftarrow> ds. fst (snd d)) < 2 ^ 32"
    and "\<forall>q. is_ancestor (t_mem t) q p \<longrightarrow> nStatus (t_mem t q) AND BLOCK_HAVE_DATA \<noteq> 0 \<or> q \<in> fst ` set ds"
  shows "\<exists>t'. deliver ds t = Inr t' \<and> tree_reachable t' \<and> p \<in> set (setBlockIndexCandidates t')"
proof -
  have t: "tree_inv t" by (rule reachable_inv [OF assms(1)])
  have "\<forall>d \<in> set ds. fst d < t_alloc t \<and> nTx (t_mem t (fst d)) = 0 \<and> 0 < fst (snd d)" using assms(4) no_data_iff [OF t] by auto
  from deliver_ok [OF t assms(3) this assms(5)]
  obtain t' where t': "deliver ds t = Inr t'" "tree_inv t'" "tree_step\<^sup>*\<^sup>* t t'" "t_alloc t' = t_alloc t"
    and f: "\<forall>q. pprev (t_mem t' q) = pprev (t_mem t q) \<and> (nTx (t_mem t' q) = 0 \<longrightarrow> nTx (t_mem t q) = 0 \<and> q \<notin> fst ` set ds)"
    by blast
  have par: "parent_of (t_mem t') = parent_of (t_mem t)" using f by (auto simp: parent_of_def fun_eq_iff)
  have "complete_block (t_mem t') p"
    unfolding complete_block_iff par
  proof (intro allI impI)
    fix q assume q: "(parent_of (t_mem t))\<^sup>*\<^sup>* p q"
    then have "q < t_alloc t"
    proof (induction rule: rtranclp_induct)
      case (step y z)
      then show ?case using index_wfD(3) [OF tree_invD(6) [OF t], of y z] by (simp add: parent_of_def)
    qed (rule assms(2))
    then show "nTx (t_mem t' q) \<noteq> 0" using assms(6) [unfolded ancestor_iff] q f no_data_iff [OF t, of q] by blast
  qed
  then have "p \<in> set (setBlockIndexCandidates t')" using candidates_complete [OF t'(2)] t'(4) assms(2) by simp
  moreover have "tree_reachable t'" using assms(1) t'(3) by (rule rtranclp_trans)
  ultimately show ?thesis using t'(1) by blast
qed

text \<open>A genesis block and a block after it, both without data.\<close>

definition example_header :: "base_uint \<Rightarrow> CBlockHeader" where
  "example_header prev = \<lparr>h_nVersion = 3, hashPrevBlock = prev, h_hashMerkleRoot = bn_zero 8, h_nTime = 1, h_nBits = 0, h_nNonce = 0\<rparr>"

definition example_tree :: block_tree where
  "example_tree =
     (case AddToBlockIndex (bn_of_u64 8 1) (example_header (bn_zero 8)) empty_tree of
        Some (Inr (p, t)) \<Rightarrow>
          (case AddToBlockIndex (bn_of_u64 8 2) (example_header (bn_of_u64 8 1)) t of
             Some (Inr (p, t)) \<Rightarrow> t
           | _ \<Rightarrow> t)
      | _ \<Rightarrow> empty_tree)"

definition example_mining :: mining_info where
  "example_mining = \<lparr>CanMine = 1, wallet_has_key = None, GetActiveMinerCount = 1, m_MinerCount = 1\<rparr>"

lemma example_tree_facts:
  "tree_reachable example_tree" "t_alloc example_tree = 2" "pprev (t_mem example_tree 0) = None" "pprev (t_mem example_tree 1) = Some 0"
  "nTx (t_mem example_tree 0) = 0" "nTx (t_mem example_tree 1) = 0"
proof -
  let ?h1 = "bn_of_u64 8 1" and ?h2 = "bn_of_u64 8 2"
  have "?h1 \<noteq> ?h2" by (simp add: bn_of_u64_def)
  moreover have "bn_zero 8 \<noteq> ?h1" by (simp add: bn_of_u64_def bn_zero_def numeral_eq_Suc)
  ultimately have ne: "?h1 \<noteq> ?h2" "bn_zero 8 \<noteq> ?h1" by simp_all
  obtain t1 where a1: "AddToBlockIndex ?h1 (example_header (bn_zero 8)) empty_tree = Some (Inr (t_alloc empty_tree, t1))" "tree_inv t1" "t_alloc t1 = 1"
    "mapBlockIndex t1 = [(?h1, 0)]" "pprev (t_mem t1 0) = None" "nTx (t_mem t1 0) = 0"
    using AddToBlockIndex_ok [OF tree_inv_empty, of ?h1 "example_header (bn_zero 8)"] ne(2) by (auto simp: example_header_def empty_tree_def)
  obtain t2 where a2: "AddToBlockIndex ?h2 (example_header ?h1) t1 = Some (Inr (t_alloc t1, t2))" "t_alloc t2 = 2"
    "pprev (t_mem t2 1) = Some 0" "nTx (t_mem t2 1) = 0" "pprev (t_mem t2 0) = None" "nTx (t_mem t2 0) = 0"
  proof -
    from AddToBlockIndex_ok [OF a1(2), of ?h2 "example_header ?h1"] ne(1)
    obtain t' x where "AddToBlockIndex ?h2 (example_header ?h1) t1 = Some (Inr (t_alloc t1, t'))" "t_alloc t' = 2"
      "pprev (t_mem t' 1) = Some 0" "nTx (t_mem t' 1) = 0" "t_mem t' 0 = (t_mem t1 0)\<lparr>pNextOnThisHeight := x\<rparr>"
      by (auto simp: a1(3,4) example_header_def)
    then show ?thesis using that [of t'] a1(5,6) by simp
  qed
  have e: "example_tree = t2" by (simp add: example_tree_def a1(1) a2(1))
  have "tree_step empty_tree t1" "tree_step t1 t2"
    by (rule tree_step.header [OF _ a1(1)] tree_step.header [OF _ a2(1)], use ne in \<open>simp add: example_header_def\<close>)+
  then show "tree_reachable example_tree" unfolding e by (meson r_into_rtranclp rtranclp.rtrancl_into_rtrancl)
  show "t_alloc example_tree = 2" "pprev (t_mem example_tree 0) = None" "pprev (t_mem example_tree 1) = Some 0"
    "nTx (t_mem example_tree 0) = 0" "nTx (t_mem example_tree 1) = 0" unfolding e by (rule a2)+
qed

theorem delivered_candidate_witness:
  "\<exists>t. deliver [(1, 2, example_mining, 0, 8), (0, 1, example_mining, 0, 300)] example_tree = Inr t \<and> 1 \<in> set (setBlockIndexCandidates t)"
proof -
  note f = example_tree_facts
  have no: "nStatus (t_mem example_tree p) AND BLOCK_HAVE_DATA = 0" if "p = 0 \<or> p = 1" for p
    using no_data_iff [OF reachable_inv [OF f(1)], of p] f that by auto
  have anc: "q = 0 \<or> q = 1" if "(parent_of (t_mem example_tree))\<^sup>*\<^sup>* 1 q" for q
    using that by (induction rule: rtranclp_induct) (auto simp: parent_of_def f simp del: One_nat_def)
  have "\<exists>t. deliver [(1, 2, example_mining, 0, 8), (0, 1, example_mining, 0, 300)] example_tree = Inr t
      \<and> tree_reachable t \<and> 1 \<in> set (setBlockIndexCandidates t)"
  proof (rule delivered_candidate [OF f(1)], goal_cases)
    case 3
    then show ?case using no f(2) by simp
  next
    case 4
    have "{..<2 :: nat} = {0, 1}" by auto
    then show ?case using f by simp
  next
    case 5
    then show ?case using anc by (auto simp: ancestor_iff)
  qed (use f(2) in simp_all)
  then show ?thesis by blast
qed

theorem reachable_candidates_witness:
  "tree_reachable example_tree \<and> setBlockIndexCandidates example_tree = [] \<and> pindexBestHeader example_tree \<noteq> None"
proof -
  note f = example_tree_facts and r = reachable_candidates [OF example_tree_facts(1)]
  have "nTx (t_mem example_tree p) \<noteq> 0" if "complete_block (t_mem example_tree) p" for p using that by (simp add: complete_block_iff)
  then have "\<not> complete_block (t_mem example_tree) p" if "p < 2" for p using f(5,6) that less_2_cases [of p] by (metis One_nat_def)
  then have "set (setBlockIndexCandidates example_tree) = {}" using r f(2) by auto
  moreover have "pindexBestHeader example_tree \<noteq> None" using r f(2) by auto
  ultimately show ?thesis using f(1) by simp
qed

text \<open>
  C36. The index is well formed in every state the node can reach: heights and skip pointers agree with the parents, which are entries
  of the index, every chain work is a 256-bit number, and the map from hashes is a bijection between
  distinct hashes and the entries that carry them.
\<close>

theorem reachable_tree_wf:
  assumes "tree_reachable t"
  shows "index_wf (t_mem t) {..<t_alloc t} \<and> (\<forall>p < t_alloc t. length (nChainWork (t_mem t p)) = 8)
    \<and> distinct (map fst (mapBlockIndex t)) \<and> snd ` set (mapBlockIndex t) = {..<t_alloc t}
    \<and> (\<forall>(h, p) \<in> set (mapBlockIndex t). phashBlock (t_mem t p) = Some h)"
  using tree_invD(3,6,7) [OF reachable_inv [OF assms]] by (simp add: works_ok_def names_ok_def)

theorem reachable_tree_wf_witness: "index_wf (t_mem example_tree) {..<2} \<and> snd ` set (mapBlockIndex example_tree) = {0, 1}"
proof -
  have "{..<2 :: nat} = {0, 1}" by auto
  then show ?thesis using reachable_tree_wf [OF example_tree_facts(1)] example_tree_facts(2) by simp
qed

end
