(* ===== verification/Codec.thy ===== *)
theory Codec
  imports Hdac_Prelude
begin

text \<open>
  The contract of the serialization formats of the program: a decoder that reads one item from
  the front of a byte string undoes the encoder whatever follows. It gives, once for all
  formats, that encodings are prefix free and that sequences of encodings are unambiguous.
  Byte strings are limited to the 32-bit lengths that the readers can count.
\<close>

fun decode_many :: "(bytes \<Rightarrow> ('a \<times> bytes) option) \<Rightarrow> nat \<Rightarrow> bytes \<Rightarrow> ('a list \<times> bytes) option" where
  "decode_many dec 0 bs = Some ([], bs)"
| "decode_many dec (Suc n) bs =
     (case dec bs of
        None \<Rightarrow> None
      | Some (x, bs) \<Rightarrow> (case decode_many dec n bs of
                            None \<Rightarrow> None
                          | Some (xs, bs) \<Rightarrow> Some (x # xs, bs)))"

abbreviation encode_many :: "('a \<Rightarrow> bytes) \<Rightarrow> 'a list \<Rightarrow> bytes" where
  "encode_many enc xs \<equiv> concat (map enc xs)"

locale prefix_codec =
  fixes ok :: "'a \<Rightarrow> bool" and enc :: "'a \<Rightarrow> bytes" and dec :: "bytes \<Rightarrow> ('a \<times> bytes) option"
  assumes enc_nonempty: "ok x \<Longrightarrow> enc x \<noteq> []"
    and dec_enc: "ok x \<Longrightarrow> length (enc x @ rest) < 4294967296 \<Longrightarrow> dec (enc x @ rest) = Some (x, rest)"
begin

lemma enc_prefix_free:
  assumes "ok x" "ok y" "enc x @ r = enc y @ s" "length (enc x @ r) < 4294967296"
  shows "x = y \<and> r = s"
proof -
  have x: "dec (enc x @ r) = Some (x, r)" by (rule dec_enc [OF assms(1,4)])
  have l: "length (enc y @ s) < 4294967296" by (rule subst [OF assms(3)], rule assms(4))
  have y: "dec (enc y @ s) = Some (y, s)" by (rule dec_enc [OF assms(2) l])
  have "Some (x, r) = Some (y, s)" by (rule trans [OF x [symmetric]], subst assms(3), rule y)
  then show ?thesis by simp
qed

lemma decode_many_enc:
  "list_all ok xs \<Longrightarrow> length (encode_many enc xs @ rest) < 4294967296 \<Longrightarrow>
   decode_many dec (length xs) (encode_many enc xs @ rest) = Some (xs, rest)"
proof (induction xs)
  case (Cons x xs)
  have "dec (enc x @ encode_many enc xs @ rest) = Some (x, encode_many enc xs @ rest)"
    using Cons.prems by (intro dec_enc) simp_all
  then show ?case using Cons by simp
qed simp

lemma encode_many_inj:
  "list_all ok xs \<Longrightarrow> list_all ok ys \<Longrightarrow> encode_many enc xs = encode_many enc ys \<Longrightarrow>
   length (encode_many enc xs) < 4294967296 \<Longrightarrow> xs = ys"
proof (induction xs arbitrary: ys)
  case Nil
  then show ?case using enc_nonempty by (cases ys) auto
next
  case (Cons x xs)
  then obtain y zs where ys: "ys = y # zs" using enc_nonempty by (cases ys) auto
  have "x = y \<and> encode_many enc xs = encode_many enc zs"
    using Cons.prems ys by (intro enc_prefix_free) simp_all
  then show ?case using Cons ys by simp
qed

end

end
