(* ===== verification/Serialize.thy ===== *)
theory Serialize
  imports Codec Uint256
begin

text \<open>
  The serialization primitives of \<^verbatim>\<open>utils/serialize.h\<close>: compact sizes, variable-length integers,
  integers and vectors. A stream that is written to is the bytes appended to it; a read takes
  the bytes from the front and returns \<open>None\<close> where the code throws \<open>std::ios_base::failure\<close>.
  \<open>MAX_SIZE\<close> is the global limit on sizes that are read.
\<close>

definition read_bytes :: "nat \<Rightarrow> bytes \<Rightarrow> (bytes \<times> bytes) option" where
  "read_bytes n bs = (if length bs < n then None else Some (take n bs, drop n bs))"

definition read_le :: "nat \<Rightarrow> bytes \<Rightarrow> (nat \<times> bytes) option" where
  "read_le n bs = (case read_bytes n bs of None \<Rightarrow> None | Some (x, bs) \<Rightarrow> Some (le_val x, bs))"

subsection \<open>Compact sizes\<close>

definition GetSizeOfCompactSize :: "nat \<Rightarrow> nat" where
  "GetSizeOfCompactSize nSize =
     (if nSize < 253 then 1 else if nSize \<le> 0xffff then 1 + 2
      else if nSize \<le> 0xffffffff then 1 + 4 else 1 + 8)"

definition WriteCompactSize :: "nat \<Rightarrow> bytes" where
  "WriteCompactSize nSize =
     (if nSize < 253 then [of_nat nSize]
      else if nSize \<le> 0xffff then 253 # le_bytes 2 nSize
      else if nSize \<le> 0xffffffff then 254 # le_bytes 4 nSize
      else 255 # le_bytes 8 nSize)"

definition ReadCompactSize :: "nat \<Rightarrow> bytes \<Rightarrow> (nat \<times> bytes) option" where
  "ReadCompactSize MAX_SIZE bs =
     (case bs of
        [] \<Rightarrow> None
      | chSize # bs \<Rightarrow>
          (case (if chSize < 253 then Some (unat chSize, bs)
                 else if chSize = 253 then
                   (case read_le 2 bs of
                      None \<Rightarrow> None
                    | Some (n, bs) \<Rightarrow> if n < 253 then None else Some (n, bs))
                 else if chSize = 254 then
                   (case read_le 4 bs of
                      None \<Rightarrow> None
                    | Some (n, bs) \<Rightarrow> if n < 0x10000 then None else Some (n, bs))
                 else
                   (case read_le 8 bs of
                      None \<Rightarrow> None
                    | Some (n, bs) \<Rightarrow> if n < 0x100000000 then None else Some (n, bs))) of
             None \<Rightarrow> None
           | Some (nSizeRet, bs) \<Rightarrow> if nSizeRet > MAX_SIZE then None else Some (nSizeRet, bs)))"

subsection \<open>Variable-length integers\<close>

text \<open>
  \<open>WriteVarInt\<close> fills a buffer from the least significant digit and writes it backwards. The
  template is instantiated for a 64-bit type.
\<close>

lemma varint_shift:
  fixes n :: u64
  assumes "\<not> n \<le> 0x7F"
  shows "unat (drop_bit 7 n - 1) + 1 = unat n div 128" "drop_bit 7 n \<noteq> 0" "unat (drop_bit 7 n - 1) < unat n"
proof -
  have n: "128 \<le> unat n" using assms by (simp add: word_le_nat_alt)
  have d: "unat (drop_bit 7 n) = unat n div 128" by (simp add: unat_drop_bit)
  have pos: "1 \<le> unat n div 128" using n by (simp add: div_greater_zero_iff Suc_le_eq)
  then show nz: "drop_bit 7 n \<noteq> 0" using d by auto
  have "unat (drop_bit 7 n - 1) = unat n div 128 - 1" using nz d by (simp add: unat_minus_one)
  then show "unat (drop_bit 7 n - 1) + 1 = unat n div 128" "unat (drop_bit 7 n - 1) < unat n"
    using pos n div_le_dividend [of "unat n" 128] by linarith+
qed

function varint_tmp :: "u64 \<Rightarrow> bool \<Rightarrow> bytes" where
  "varint_tmp n cont =
     ((ucast n AND 0x7F) OR (if cont then 0x80 else 0x00)) #
     (if n \<le> 0x7F then [] else varint_tmp (drop_bit 7 n - 1) True)"
  by pat_completeness auto
termination
  by (relation "measure (\<lambda>(n, cont). unat n)") (auto simp: varint_shift)

declare varint_tmp.simps [simp del]

definition WriteVarInt :: "u64 \<Rightarrow> bytes" where
  "WriteVarInt n = rev (varint_tmp n False)"

fun read_varint :: "u64 \<Rightarrow> bytes \<Rightarrow> (u64 \<times> bytes) option" where
  "read_varint n [] = None"
| "read_varint n (chData # bs) =
     (let n = push_bit 7 n OR ucast (chData AND 0x7F)
      in if chData AND 0x80 \<noteq> 0 then read_varint (n + 1) bs else Some (n, bs))"

definition ReadVarInt :: "bytes \<Rightarrow> (u64 \<times> bytes) option" where
  "ReadVarInt bs = read_varint 0 bs"

function GetSizeOfVarInt :: "u64 \<Rightarrow> nat" where
  "GetSizeOfVarInt n = (if n \<le> 0x7F then 1 else GetSizeOfVarInt (drop_bit 7 n - 1) + 1)"
  by pat_completeness auto
termination
  by (relation "measure unat") (auto simp: varint_shift)

declare GetSizeOfVarInt.simps [simp del]

section \<open>Round trips\<close>

lemma read_bytes_append: "length xs = n \<Longrightarrow> read_bytes n (xs @ rest) = Some (xs, rest)"
  by (simp add: read_bytes_def)

lemma read_le_bytes: "v < 256 ^ n \<Longrightarrow> read_le n (le_bytes n v @ rest) = Some (v, rest)"
  by (simp add: read_le_def read_bytes_append le_val_le_bytes)

lemma ReadCompactSize_Write:
  assumes "n \<le> MAX_SIZE" "n < 2 ^ 64"
  shows "ReadCompactSize MAX_SIZE (WriteCompactSize n @ rest) = Some (n, rest)"
proof -
  have "(of_nat n :: byte) < 253" if "n < 253"
    using that by (simp add: word_less_nat_alt unat_of_nat_byte)
  then show ?thesis using assms
    by (auto simp: WriteCompactSize_def ReadCompactSize_def read_le_bytes unat_of_nat_byte)
qed

interpretation compact_size: prefix_codec "\<lambda>n. n \<le> MAX_SIZE \<and> n < 2 ^ 64" WriteCompactSize "ReadCompactSize MAX_SIZE"
  for MAX_SIZE
  by unfold_locales (use ReadCompactSize_Write in \<open>auto simp: WriteCompactSize_def\<close>)

lemma varint_digit:
  fixes n :: u64
  shows "push_bit 7 (drop_bit 7 n) OR ucast ((ucast n AND 0x7F) AND 0x7F :: byte) = n"
    "ucast (((ucast n AND 0x7F) OR 0x80) AND 0x7F :: byte) = (ucast ((ucast n AND 0x7F) AND 0x7F :: byte) :: u64)"
    "((ucast n AND 0x7F) OR 0x80 :: byte) AND 0x80 \<noteq> 0" "((ucast n AND 0x7F) :: byte) AND 0x80 = 0"
proof -
  have m: "(0x7F :: byte) = mask 7" "(0x80 :: byte) = push_bit 7 1"
    by (simp_all add: mask_eq_exp_minus_1)
  show "push_bit 7 (drop_bit 7 n) OR ucast ((ucast n AND 0x7F) AND 0x7F :: byte) = n"
  proof (rule bit_word_eqI)
    fix i assume "i < LENGTH(64)"
    then show "bit (push_bit 7 (drop_bit 7 n) OR ucast ((ucast n AND 0x7F) AND 0x7F :: byte)) i \<longleftrightarrow> bit n i"
      by (cases "i < 7") (simp_all add: m bit_simps)
  qed
  show "ucast (((ucast n AND 0x7F) OR 0x80) AND 0x7F :: byte) = (ucast ((ucast n AND 0x7F) AND 0x7F :: byte) :: u64)"
    by (simp add: bit.conj_disj_distrib2)
  show "((ucast n AND 0x7F) :: byte) AND 0x80 = 0" by (simp add: and.assoc)
  show "((ucast n AND 0x7F) OR 0x80 :: byte) AND 0x80 \<noteq> 0"
    by (simp add: bit.conj_disj_distrib2 and.assoc)
qed

lemma varint_byte_read:
  "read_varint m (((ucast n AND 0x7F) OR 0x80) # bs) = read_varint ((push_bit 7 m OR ucast ((ucast n AND 0x7F) AND 0x7F :: byte)) + 1) bs"
  "read_varint m ((ucast n AND 0x7F) # bs) = Some (push_bit 7 m OR ucast ((ucast n AND 0x7F) AND 0x7F :: byte), bs)"
  for n :: u64
  by (simp_all only: read_varint.simps Let_def varint_digit not_True_eq_False not_False_eq_True if_True if_False simp_thms)

lemma varint_small: "n \<le> 0x7F \<Longrightarrow> drop_bit 7 (n :: u64) = 0"
proof -
  assume "n \<le> 0x7F"
  then have "unat n div 128 = 0" by (simp add: word_le_nat_alt)
  then show ?thesis by (simp add: word_unat_eq_iff unat_drop_bit)
qed

lemma read_varint_tmp:
  "read_varint 0 (rev (varint_tmp n True) @ rest) = read_varint (n + 1) rest"
proof (induction n True arbitrary: rest rule: varint_tmp.induct)
  case (1 n)
  show ?case
  proof (cases "n \<le> 0x7F")
    case True
    then show ?thesis using varint_digit(1) [of n] varint_small [OF True]
      by (subst varint_tmp.simps) (simp add: varint_byte_read del: read_varint.simps)
  next
    case False
    have "read_varint 0 (rev (varint_tmp n True) @ rest)
        = read_varint (drop_bit 7 n - 1 + 1) (((ucast n AND 0x7F) OR 0x80) # rest)"
      using False 1 by (subst varint_tmp.simps) (simp del: read_varint.simps)
    then show ?thesis using varint_digit(1) [of n]
      by (simp add: varint_byte_read del: read_varint.simps)
  qed
qed

lemma ReadVarInt_Write: "ReadVarInt (WriteVarInt n @ rest) = Some (n, rest)"
proof (cases "n \<le> 0x7F")
  case True
  then show ?thesis using varint_digit(1) [of n] varint_small [OF True] unfolding ReadVarInt_def WriteVarInt_def
    by (subst varint_tmp.simps) (simp add: varint_byte_read del: read_varint.simps)
next
  case False
  have "ReadVarInt (WriteVarInt n @ rest) = read_varint (drop_bit 7 n - 1 + 1) ((ucast n AND 0x7F) # rest)"
    using False unfolding ReadVarInt_def WriteVarInt_def
    by (subst varint_tmp.simps) (simp add: read_varint_tmp del: read_varint.simps)
  then show ?thesis using varint_digit(1) [of n]
    by (simp add: varint_byte_read del: read_varint.simps)
qed

lemma varint_nonempty: "WriteVarInt n \<noteq> []"
  unfolding WriteVarInt_def by (subst varint_tmp.simps) simp

interpretation varint: prefix_codec "\<lambda>_. True" WriteVarInt ReadVarInt
  by unfold_locales (simp_all add: varint_nonempty ReadVarInt_Write)

lemma length_varint_tmp: "length (varint_tmp n c) = GetSizeOfVarInt n"
  by (induction n arbitrary: c rule: GetSizeOfVarInt.induct)
     (subst varint_tmp.simps, subst GetSizeOfVarInt.simps, simp)

text \<open>
  C39. Variable-length integers: what is written is read back whatever follows, takes
  \<open>GetSizeOfVarInt\<close> bytes, and no two sequences of integers have the same encoding.
\<close>

theorem VarInt_roundtrip:
  assumes "length (encode_many WriteVarInt xs) < 2 ^ 32"
  shows "decode_many ReadVarInt (length xs) (encode_many WriteVarInt xs) = Some (xs, [])
    \<and> (encode_many WriteVarInt xs = encode_many WriteVarInt ys \<longrightarrow> xs = ys)
    \<and> length (WriteVarInt n) = GetSizeOfVarInt n"
  using varint.decode_many_enc [of xs "[]"] varint.encode_many_inj [of xs ys] assms
  by (auto simp: list_all_iff) (simp add: WriteVarInt_def length_varint_tmp)

lemma write_varint_16511: "WriteVarInt 16511 = [0xFF, 0x7F]"
  unfolding WriteVarInt_def by (simp add: varint_tmp.simps)

theorem VarInt_roundtrip_witness:
  "decode_many ReadVarInt 1 (encode_many WriteVarInt [16511]) = Some ([16511], [])"
  using VarInt_roundtrip [of "[16511]" "[]" 0] by (simp add: write_varint_16511)

text \<open>
  C36. Two encodings that the documentation of the format gives are not the ones the code writes:
  \<open>16511\<close> takes two bytes, and the middle byte of \<open>65535\<close> is \<open>0xFE\<close>.
\<close>

theorem WriteVarInt_documented_examples:
  "WriteVarInt 16511 = [0xFF, 0x7F] \<and> WriteVarInt 65535 = [0x82, 0xFE, 0x7F]
   \<and> WriteVarInt 16511 \<noteq> [0x80, 0xFF, 0x7F] \<and> WriteVarInt 65535 \<noteq> [0x82, 0xFD, 0x7F]"
  unfolding WriteVarInt_def by (simp add: varint_tmp.simps)

end
