(* ===== verification/Transaction.thy ===== *)
theory Transaction
  imports Serialize
begin

text \<open>
  Transactions (\<^verbatim>\<open>primitives/transaction.h\<close>, \<^verbatim>\<open>primitives/transaction.cpp\<close>): outpoints, inputs,
  outputs, their serialization through the primitives of \<open>Serialize\<close>, and the value and size
  computations. The cached hash of \<open>CTransaction\<close> is the hash of its serialization and is
  computed where it is used. Reading a vector in limited blocks, as the code does to bound
  memory, reads the same elements as reading them one by one.
\<close>

record COutPoint =
  out_hash :: base_uint
  out_n :: u32

record CTxIn =
  prevout :: COutPoint
  scriptSig :: bytes
  nSequence :: u32

record CTxOut =
  nValue :: int
  scriptPubKey :: bytes

record CTransaction =
  tx_nVersion :: int
  vin :: "CTxIn list"
  vout :: "CTxOut list"
  nLockTime :: u32

subsection \<open>Serialization\<close>

definition ser_u32 :: "u32 \<Rightarrow> bytes" where
  "ser_u32 w = le_bytes 4 (unat w)"

definition ser_int :: "nat \<Rightarrow> int \<Rightarrow> bytes" where
  "ser_int n i = le_bytes n (nat (i mod 256 ^ n))"

definition ser_uint256 :: "base_uint \<Rightarrow> bytes" where
  "ser_uint256 h = concat (map ser_u32 h)"

definition ser_bytes :: "bytes \<Rightarrow> bytes" where
  "ser_bytes b = WriteCompactSize (length b) @ b"

definition ser_vector :: "('a \<Rightarrow> bytes) \<Rightarrow> 'a list \<Rightarrow> bytes" where
  "ser_vector ser v = WriteCompactSize (length v) @ concat (map ser v)"

definition ser_outpoint :: "COutPoint \<Rightarrow> bytes" where
  "ser_outpoint p = ser_uint256 (out_hash p) @ ser_u32 (out_n p)"

definition ser_txin :: "CTxIn \<Rightarrow> bytes" where
  "ser_txin i = ser_outpoint (prevout i) @ ser_bytes (scriptSig i) @ ser_u32 (nSequence i)"

definition ser_txout :: "CTxOut \<Rightarrow> bytes" where
  "ser_txout o' = ser_int 8 (nValue o') @ ser_bytes (scriptPubKey o')"

definition ser_tx :: "CTransaction \<Rightarrow> bytes" where
  "ser_tx tx = ser_int 4 (tx_nVersion tx) @ ser_vector ser_txin (vin tx) @
     ser_vector ser_txout (vout tx) @ ser_u32 (nLockTime tx)"

definition unser_u32 :: "bytes \<Rightarrow> (u32 \<times> bytes) option" where
  "unser_u32 bs = map_option (\<lambda>(v, bs). (of_nat v, bs)) (read_le 4 bs)"

definition unser_int :: "nat \<Rightarrow> bytes \<Rightarrow> (int \<times> bytes) option" where
  "unser_int n bs =
     map_option (\<lambda>(v, bs). (if 2 * v < 256 ^ n then int v else int v - 256 ^ n, bs)) (read_le n bs)"

definition unser_bytes :: "nat \<Rightarrow> bytes \<Rightarrow> (bytes \<times> bytes) option" where
  "unser_bytes MAX_SIZE bs =
     Option.bind (ReadCompactSize MAX_SIZE bs) (\<lambda>(n, bs). read_bytes n bs)"

definition unser_vector :: "nat \<Rightarrow> (bytes \<Rightarrow> ('a \<times> bytes) option) \<Rightarrow> bytes \<Rightarrow> ('a list \<times> bytes) option" where
  "unser_vector MAX_SIZE unser bs =
     Option.bind (ReadCompactSize MAX_SIZE bs) (\<lambda>(n, bs). decode_many unser n bs)"

definition unser_outpoint :: "bytes \<Rightarrow> (COutPoint \<times> bytes) option" where
  "unser_outpoint bs =
     Option.bind (decode_many unser_u32 8 bs) (\<lambda>(h, bs).
     Option.bind (unser_u32 bs) (\<lambda>(n, bs). Some (\<lparr>out_hash = h, out_n = n\<rparr>, bs)))"

definition unser_txin :: "nat \<Rightarrow> bytes \<Rightarrow> (CTxIn \<times> bytes) option" where
  "unser_txin MAX_SIZE bs =
     Option.bind (unser_outpoint bs) (\<lambda>(p, bs).
     Option.bind (unser_bytes MAX_SIZE bs) (\<lambda>(s, bs).
     Option.bind (unser_u32 bs) (\<lambda>(n, bs).
       Some (\<lparr>prevout = p, scriptSig = s, nSequence = n\<rparr>, bs))))"

definition unser_txout :: "nat \<Rightarrow> bytes \<Rightarrow> (CTxOut \<times> bytes) option" where
  "unser_txout MAX_SIZE bs =
     Option.bind (unser_int 8 bs) (\<lambda>(v, bs).
     Option.bind (unser_bytes MAX_SIZE bs) (\<lambda>(s, bs).
       Some (\<lparr>nValue = v, scriptPubKey = s\<rparr>, bs)))"

definition unser_tx :: "nat \<Rightarrow> bytes \<Rightarrow> (CTransaction \<times> bytes) option" where
  "unser_tx MAX_SIZE bs =
     Option.bind (unser_int 4 bs) (\<lambda>(ver, bs).
     Option.bind (unser_vector MAX_SIZE (unser_txin MAX_SIZE) bs) (\<lambda>(ins, bs).
     Option.bind (unser_vector MAX_SIZE (unser_txout MAX_SIZE) bs) (\<lambda>(outs, bs).
     Option.bind (unser_u32 bs) (\<lambda>(lt, bs).
       Some (\<lparr>tx_nVersion = ver, vin = ins, vout = outs, nLockTime = lt\<rparr>, bs)))))"

subsection \<open>Predicates, values and sizes\<close>

definition outpoint_IsNull :: "COutPoint \<Rightarrow> bool" where
  "outpoint_IsNull p \<longleftrightarrow> EqualTo (out_hash p) 0 \<and> out_n p = - 1"

definition outpoint_less :: "COutPoint \<Rightarrow> COutPoint \<Rightarrow> bool" where
  "outpoint_less a b \<longleftrightarrow>
     CompareTo (out_hash a) (out_hash b) < 0 \<or> (out_hash a = out_hash b \<and> out_n a < out_n b)"

definition txin_IsFinal :: "CTxIn \<Rightarrow> bool" where
  "txin_IsFinal i \<longleftrightarrow> nSequence i = - 1"

definition CTxOut_null :: CTxOut where
  "CTxOut_null = \<lparr>nValue = - 1, scriptPubKey = []\<rparr>"

definition txout_IsNull :: "CTxOut \<Rightarrow> bool" where
  "txout_IsNull o' \<longleftrightarrow> nValue o' = - 1"

definition IsCoinBase :: "CTransaction \<Rightarrow> bool" where
  "IsCoinBase tx \<longleftrightarrow> length (vin tx) = 1 \<and> outpoint_IsNull (prevout (vin tx ! 0))"

definition tx_IsNull :: "CTransaction \<Rightarrow> bool" where
  "tx_IsNull tx \<longleftrightarrow> vin tx = [] \<and> vout tx = []"

definition MoneyRange :: "int \<Rightarrow> int \<Rightarrow> bool" where
  "MoneyRange MAX_MONEY v \<longleftrightarrow> v \<ge> 0 \<and> v \<le> MAX_MONEY"

text \<open>
  The sum is made in 64 bits before the range tests. A wrapped sum would need a value outside
  the money range, which throws as well, so that the model sums integers.
\<close>

fun value_out_loop :: "int \<Rightarrow> CTxOut list \<Rightarrow> int \<Rightarrow> int cpp" where
  "value_out_loop MAX_MONEY [] nValueOut = Inr nValueOut"
| "value_out_loop MAX_MONEY (o' # os) nValueOut =
     (let nValueOut = nValueOut + nValue o' in
      if \<not> MoneyRange MAX_MONEY (nValue o') \<or> \<not> MoneyRange MAX_MONEY nValueOut then Inl RuntimeException
      else value_out_loop MAX_MONEY os nValueOut)"

definition GetValueOut :: "bool \<Rightarrow> int \<Rightarrow> CTransaction \<Rightarrow> int cpp" where
  "GetValueOut MCP_WITH_NATIVE_CURRENCY MAX_MONEY tx =
     (if \<not> MCP_WITH_NATIVE_CURRENCY then Inr 0 else value_out_loop MAX_MONEY (vout tx) 0)"

definition CalculateModifiedSize :: "CTransaction \<Rightarrow> u32 \<Rightarrow> u32" where
  "CalculateModifiedSize tx nTxSize =
     (let nTxSize = (if nTxSize = 0 then of_nat (length (ser_tx tx)) else nTxSize)
      in fold (\<lambda>i nTxSize.
           let offset = 41 + min 110 (of_nat (length (scriptSig i)))
           in if nTxSize > offset then nTxSize - offset else nTxSize) (vin tx) nTxSize)"

section \<open>Round trip\<close>

context prefix_codec
begin

lemma length_encode_many: "list_all ok xs \<Longrightarrow> length xs \<le> length (encode_many enc xs)"
proof (induction xs)
  case (Cons x xs)
  then have "enc x \<noteq> []" using enc_nonempty by simp
  then have "1 \<le> length (enc x)" by (cases "enc x") auto
  then show ?case using Cons by simp
qed simp

lemma unser_ser_vector:
  assumes "list_all ok xs" "length xs \<le> MAX_SIZE" "length (ser_vector enc xs @ rest) < 4294967296"
  shows "unser_vector MAX_SIZE dec (ser_vector enc xs @ rest) = Some (xs, rest)"
proof -
  have "length xs < 2 ^ 64" using length_encode_many [OF assms(1)] assms(3) by (simp add: ser_vector_def)
  then have "ReadCompactSize MAX_SIZE (WriteCompactSize (length xs) @ encode_many enc xs @ rest)
      = Some (length xs, encode_many enc xs @ rest)"
    using assms(2) by (intro ReadCompactSize_Write)
  moreover have "decode_many dec (length xs) (encode_many enc xs @ rest) = Some (xs, rest)"
    using assms(1,3) by (intro decode_many_enc) (simp_all add: ser_vector_def)
  ultimately show ?thesis by (simp add: ser_vector_def unser_vector_def)
qed

end

lemma le_bytes_nonempty: "0 < n \<Longrightarrow> le_bytes n v \<noteq> []"
  by (metis length_le_bytes length_0_conv less_irrefl)

lemma ser_nonempty: "ser_u32 w \<noteq> []" "ser_int 8 i \<noteq> []"
  by (simp_all add: ser_u32_def ser_int_def le_bytes_nonempty)

interpretation u32_codec: prefix_codec "\<lambda>_. True" ser_u32 unser_u32
proof
  fix x :: u32 and rest
  have "read_le 4 (le_bytes 4 (unat x) @ rest) = Some (unat x, rest)"
    using unat_lt_32 [of x] by (intro read_le_bytes) simp
  then show "unser_u32 (ser_u32 x @ rest) = Some (x, rest)" by (simp add: ser_u32_def unser_u32_def)
qed (rule ser_nonempty)

lemma unser_ser_int:
  assumes "0 < n" "- (256 ^ n) \<le> 2 * i" "2 * i < 256 ^ n"
  shows "unser_int n (ser_int n i @ rest) = Some (i, rest)"
proof -
  let ?M = "256 ^ n :: int"
  have "nat (i mod ?M) < 256 ^ n" by (simp add: nat_less_iff)
  then have r: "read_le n (ser_int n i @ rest) = Some (nat (i mod ?M), rest)"
    unfolding ser_int_def by (rule read_le_bytes)
  have "(if 2 * nat (i mod ?M) < 256 ^ n then int (nat (i mod ?M)) else int (nat (i mod ?M)) - ?M) = i"
  proof (cases "0 \<le> i")
    case True
    then have "i mod ?M = i" using assms(3) by simp
    moreover have "2 * nat i < 256 ^ n"
    proof -
      have "int (2 * nat i) < int (256 ^ n)" using True assms(3) by simp
      then show ?thesis by (simp only: of_nat_less_iff)
    qed
    ultimately show ?thesis using True by simp
  next
    case False
    have "i mod ?M = (i + ?M) mod ?M" by simp
    also have "\<dots> = i + ?M" using False assms(2) by (intro mod_pos_pos_trivial) auto
    finally have m: "i mod ?M = i + ?M" .
    moreover have "\<not> 2 * nat (i + ?M) < 256 ^ n"
    proof
      assume "2 * nat (i + ?M) < 256 ^ n"
      then have "int (2 * nat (i + ?M)) < int (256 ^ n)" by (simp only: of_nat_less_iff)
      then show False using False assms(2) by auto
    qed
    ultimately show ?thesis using False assms(2) by simp
  qed
  then show ?thesis using r by (simp add: unser_int_def)
qed

lemma unser_ser_bytes:
  assumes "length b \<le> MAX_SIZE" "length (ser_bytes b @ rest) < 4294967296"
  shows "unser_bytes MAX_SIZE (ser_bytes b @ rest) = Some (b, rest)"
proof -
  have "length b < 2 ^ 64" using assms(2) by (simp add: ser_bytes_def)
  then have "ReadCompactSize MAX_SIZE (WriteCompactSize (length b) @ b @ rest) = Some (length b, b @ rest)"
    using assms(1) by (intro ReadCompactSize_Write)
  then show ?thesis by (simp add: ser_bytes_def unser_bytes_def read_bytes_append)
qed

definition txin_ok :: "nat \<Rightarrow> CTxIn \<Rightarrow> bool" where
  "txin_ok MAX_SIZE i \<longleftrightarrow> length (out_hash (prevout i)) = 8 \<and> length (scriptSig i) \<le> MAX_SIZE"

definition txout_ok :: "nat \<Rightarrow> CTxOut \<Rightarrow> bool" where
  "txout_ok MAX_SIZE o' \<longleftrightarrow> - (2 ^ 63) \<le> nValue o' \<and> nValue o' < 2 ^ 63 \<and> length (scriptPubKey o') \<le> MAX_SIZE"

definition tx_ok :: "nat \<Rightarrow> CTransaction \<Rightarrow> bool" where
  "tx_ok MAX_SIZE tx \<longleftrightarrow> - (2 ^ 31) \<le> tx_nVersion tx \<and> tx_nVersion tx < 2 ^ 31
     \<and> length (vin tx) \<le> MAX_SIZE \<and> list_all (txin_ok MAX_SIZE) (vin tx)
     \<and> length (vout tx) \<le> MAX_SIZE \<and> list_all (txout_ok MAX_SIZE) (vout tx)"

lemma unser_ser_outpoint:
  assumes "length (out_hash p) = 8" "length (ser_outpoint p @ rest) < 4294967296"
  shows "unser_outpoint (ser_outpoint p @ rest) = Some (p, rest)"
proof -
  have "decode_many unser_u32 (length (out_hash p)) (encode_many ser_u32 (out_hash p) @ ser_u32 (out_n p) @ rest)
      = Some (out_hash p, ser_u32 (out_n p) @ rest)"
    using assms(2) by (intro u32_codec.decode_many_enc) (simp_all add: ser_outpoint_def ser_uint256_def list_all_iff)
  moreover have "unser_u32 (ser_u32 (out_n p) @ rest) = Some (out_n p, rest)"
    using assms(2) by (intro u32_codec.dec_enc) (simp_all add: ser_outpoint_def)
  ultimately show ?thesis using assms(1) by (simp add: unser_outpoint_def ser_outpoint_def ser_uint256_def)
qed

interpretation txin_codec: prefix_codec "txin_ok MAX_SIZE" ser_txin "unser_txin MAX_SIZE" for MAX_SIZE
proof
  fix x :: CTxIn and rest
  show "ser_txin x \<noteq> []" by (simp add: ser_txin_def ser_nonempty)
  assume ok: "txin_ok MAX_SIZE x" and len: "length (ser_txin x @ rest) < 4294967296"
  let ?c = "ser_u32 (nSequence x) @ rest"
  let ?b = "ser_bytes (scriptSig x) @ ?c"
  have "unser_outpoint (ser_outpoint (prevout x) @ ?b) = Some (prevout x, ?b)"
    by (rule unser_ser_outpoint) (use ok len in \<open>simp_all add: txin_ok_def ser_txin_def\<close>)
  moreover have "unser_bytes MAX_SIZE ?b = Some (scriptSig x, ?c)"
    by (rule unser_ser_bytes) (use ok len in \<open>simp_all add: txin_ok_def ser_txin_def\<close>)
  moreover have "unser_u32 ?c = Some (nSequence x, rest)"
    by (rule u32_codec.dec_enc) (use len in \<open>simp_all add: ser_txin_def\<close>)
  ultimately show "unser_txin MAX_SIZE (ser_txin x @ rest) = Some (x, rest)"
    by (simp add: unser_txin_def ser_txin_def)
qed

interpretation txout_codec: prefix_codec "txout_ok MAX_SIZE" ser_txout "unser_txout MAX_SIZE" for MAX_SIZE
proof
  fix x :: CTxOut and rest
  show "ser_txout x \<noteq> []" by (simp add: ser_txout_def ser_nonempty)
  assume ok: "txout_ok MAX_SIZE x" and len: "length (ser_txout x @ rest) < 4294967296"
  let ?b = "ser_bytes (scriptPubKey x) @ rest"
  have "unser_int 8 (ser_int 8 (nValue x) @ ?b) = Some (nValue x, ?b)"
    by (rule unser_ser_int) (use ok in \<open>simp_all add: txout_ok_def\<close>)
  moreover have "unser_bytes MAX_SIZE ?b = Some (scriptPubKey x, rest)"
    by (rule unser_ser_bytes) (use ok len in \<open>simp_all add: txout_ok_def ser_txout_def\<close>)
  ultimately show "unser_txout MAX_SIZE (ser_txout x @ rest) = Some (x, rest)"
    by (simp add: unser_txout_def ser_txout_def)
qed

interpretation tx_codec: prefix_codec "tx_ok MAX_SIZE" ser_tx "unser_tx MAX_SIZE" for MAX_SIZE
proof
  fix x :: CTransaction and rest
  show "ser_tx x \<noteq> []" by (simp add: ser_tx_def ser_nonempty)
  assume ok: "tx_ok MAX_SIZE x" and len: "length (ser_tx x @ rest) < 4294967296"
  let ?c = "ser_u32 (nLockTime x) @ rest"
  let ?b = "ser_vector ser_txout (vout x) @ ?c"
  let ?a = "ser_vector ser_txin (vin x) @ ?b"
  have "unser_int 4 (ser_int 4 (tx_nVersion x) @ ?a) = Some (tx_nVersion x, ?a)"
    by (rule unser_ser_int) (use ok in \<open>simp_all add: tx_ok_def\<close>)
  moreover have "unser_vector MAX_SIZE (unser_txin MAX_SIZE) ?a = Some (vin x, ?b)"
    by (rule txin_codec.unser_ser_vector) (use ok len in \<open>simp_all add: tx_ok_def ser_tx_def\<close>)
  moreover have "unser_vector MAX_SIZE (unser_txout MAX_SIZE) ?b = Some (vout x, ?c)"
    by (rule txout_codec.unser_ser_vector) (use ok len in \<open>simp_all add: tx_ok_def ser_tx_def\<close>)
  moreover have "unser_u32 ?c = Some (nLockTime x, rest)"
    by (rule u32_codec.dec_enc) (use len in \<open>simp_all add: ser_tx_def\<close>)
  ultimately show "unser_tx MAX_SIZE (ser_tx x @ rest) = Some (x, rest)"
    by (simp add: unser_tx_def ser_tx_def)
qed

text \<open>
  Transactions round-trip through serialization, whatever bytes follow; two transactions
  with the same bytes are equal, so that the transaction hash is a function of the fields only
  and commits to all of them.
\<close>

theorem CTransaction_roundtrip:
  assumes "tx_ok MAX_SIZE tx" "length (ser_tx tx @ rest) < 2 ^ 32"
  shows "unser_tx MAX_SIZE (ser_tx tx @ rest) = Some (tx, rest)
    \<and> (\<forall>tx' rest'. tx_ok MAX_SIZE tx' \<and> ser_tx tx @ rest = ser_tx tx' @ rest' \<longrightarrow> tx = tx' \<and> rest = rest')"
  using tx_codec.dec_enc [OF assms(1)] tx_codec.enc_prefix_free [OF assms(1)] assms(2) by fastforce

definition example_tx :: CTransaction where
  "example_tx = \<lparr>tx_nVersion = 1,
     vin = [\<lparr>prevout = \<lparr>out_hash = [1,2,3,4,5,6,7,8], out_n = 0\<rparr>, scriptSig = [0x51], nSequence = - 1\<rparr>],
     vout = [\<lparr>nValue = 50, scriptPubKey = [0x6a]\<rparr>], nLockTime = 0\<rparr>"

theorem CTransaction_roundtrip_witness: "unser_tx 100 (ser_tx example_tx @ [9]) = Some (example_tx, [9])"
  using CTransaction_roundtrip [of 100 example_tx "[9]"]
  by (simp add: example_tx_def tx_ok_def txin_ok_def txout_ok_def ser_tx_def ser_vector_def ser_txin_def
      ser_txout_def ser_outpoint_def ser_uint256_def ser_bytes_def ser_u32_def ser_int_def WriteCompactSize_def)

subsection \<open>Output values\<close>

lemma value_out_loop_sum:
  assumes "0 \<le> acc" "acc \<le> MAX_MONEY"
  shows "value_out_loop MAX_MONEY os acc =
    (if (\<forall>o' \<in> set os. MoneyRange MAX_MONEY (nValue o')) \<and> acc + sum_list (map nValue os) \<le> MAX_MONEY
     then Inr (acc + sum_list (map nValue os)) else Inl RuntimeException)"
  using assms
proof (induction os arbitrary: acc)
  case (Cons o' os)
  have "0 \<le> sum_list (map nValue os)" if "\<forall>o' \<in> set os. MoneyRange MAX_MONEY (nValue o')"
    using that by (induction os) (auto simp: MoneyRange_def)
  then show ?case using Cons by (auto simp: MoneyRange_def Let_def)
qed simp

text \<open>
  C38. \<open>GetValueOut\<close> returns the sum of the output values exactly when every value and the total
  are in the money range, and throws otherwise.
\<close>

theorem GetValueOut_sum:
  assumes "0 \<le> MAX_MONEY"
  shows "GetValueOut True MAX_MONEY tx =
    (if (\<forall>o' \<in> set (vout tx). MoneyRange MAX_MONEY (nValue o')) \<and> sum_list (map nValue (vout tx)) \<le> MAX_MONEY
     then Inr (sum_list (map nValue (vout tx))) else Inl RuntimeException)"
  using value_out_loop_sum [of 0 MAX_MONEY "vout tx"] assms by (simp add: GetValueOut_def)

theorem GetValueOut_sum_witness: "GetValueOut True 100 example_tx = Inr 50"
  using GetValueOut_sum [of 100 example_tx] by (simp add: example_tx_def MoneyRange_def)

end
