(* ===== verification/ScriptNum.thy ===== *)
theory ScriptNum
  imports Hdac_Prelude
begin

text \<open>
  Script numbers (\<open>CScriptNum\<close> of \<^verbatim>\<open>script/script.h\<close>): little-endian byte strings with a sign
  bit in the last byte. Results are kept as 64-bit integers in the code; operands have at most
  four bytes, so that no sum or difference of operands leaves the 64-bit range, and the model
  uses unbounded integers.
\<close>

datatype scriptnum_error = ScriptNumOverflow | NonMinimalScriptNum

definition nMaxNumSize :: nat where
  "nMaxNumSize = 4"

definition set_vch :: "bytes \<Rightarrow> int" where
  "set_vch vch =
     (if vch = [] then 0
      else let result = fold (\<lambda>i r. r OR push_bit (8 * i) (uint (vch ! i))) [0..<length vch] 0
           in if last vch AND 0x80 \<noteq> 0
              then - (result AND NOT (push_bit (8 * (length vch - 1)) 0x80))
              else result)"

definition CScriptNum :: "bytes \<Rightarrow> bool \<Rightarrow> scriptnum_error + int" where
  "CScriptNum vch fRequireMinimal =
     (if length vch > nMaxNumSize then Inl ScriptNumOverflow
      else if fRequireMinimal \<and> length vch > 0 \<and> last vch AND 0x7f = 0 \<and>
              (length vch \<le> 1 \<or> vch ! (length vch - 2) AND 0x80 = 0)
      then Inl NonMinimalScriptNum
      else Inr (set_vch vch))"

function abs_bytes :: "nat \<Rightarrow> bytes" where
  "abs_bytes absvalue =
     (if absvalue = 0 then [] else of_nat (absvalue mod 256) # abs_bytes (absvalue div 256))"
  by pat_completeness auto
termination by (relation "measure id") auto

declare abs_bytes.simps [simp del]

definition serialize :: "int \<Rightarrow> bytes" where
  "serialize val =
     (if val = 0 then []
      else let neg = val < 0;
               result = abs_bytes (nat (if neg then - val else val))
           in if last result AND 0x80 \<noteq> 0 then result @ [if neg then 0x80 else 0]
              else if neg then butlast result @ [last result OR 0x80]
              else result)"

definition getint :: "int \<Rightarrow> int" where
  "getint m_value =
     (if m_value > 2147483647 then 2147483647
      else if m_value < - 2147483648 then - 2147483648 else m_value)"

section \<open>Bytes with a sign bit\<close>

lemma byte_and_0x80: "(b AND 0x80 :: byte) = 0 \<longleftrightarrow> unat b < 128"
proof -
  have "(0x80 :: byte) = 2 ^ 7" by simp
  then have "(b AND 0x80) = 0 \<longleftrightarrow> \<not> bit b 7" by (simp only: and_exp_eq_0_iff_not_bit)
  also have "\<dots> \<longleftrightarrow> \<not> odd (unat b div 128)" by (simp only: bit_unat_iff [symmetric]) (simp add: bit_iff_odd)
  also have "\<dots> \<longleftrightarrow> unat b < 128"
  proof -
    have "unat b div 128 < 2" using unat_lt_8 [of b] by (simp add: div_less_iff_less_mult)
    then have "unat b div 128 = 0 \<or> unat b div 128 = 1" by linarith
    then show ?thesis using unat_lt_8 [of b] by (auto simp: div_eq_0_iff)
  qed
  finally show ?thesis .
qed

lemma byte_and_0x7f: "unat (b AND 0x7f :: byte) = unat b mod 128"
proof -
  have "(0x7f :: byte) = mask 7" by (simp add: mask_eq_exp_minus_1)
  then have "unat (b AND 0x7f) = unat (take_bit 7 b)" by (simp only: take_bit_eq_mask)
  also have "\<dots> = take_bit 7 (unat b)" by (rule unsigned_take_bit_eq)
  finally show ?thesis by (simp add: take_bit_eq_mod)
qed

lemma byte_and_0x7f_zero: "(b AND 0x7f :: byte) = 0 \<longleftrightarrow> unat b mod 128 = 0"
  using byte_and_0x7f [of b] by (metis unat_eq_zero)

lemma byte_or_0x80: "unat b < 128 \<Longrightarrow> unat (b OR 0x80 :: byte) = unat b + 128"
proof -
  assume "unat b < 128"
  then have "b AND 0x80 = 0" by (simp add: byte_and_0x80)
  then show ?thesis by (simp add: unat_or_disjoint)
qed

lemma int_or_disjoint:
  fixes a b :: int
  assumes "0 \<le> a" "a < 2 ^ n"
  shows "a OR push_bit n b = a + 2 ^ n * b"
proof -
  have "a AND push_bit n b = 0"
  proof (rule bit_eqI)
    fix i
    have "\<not> bit a i" if "n \<le> i"
      using assms that by (metis bit_take_bit_iff not_le take_bit_int_eq_self)
    then show "bit (a AND push_bit n b) i \<longleftrightarrow> bit 0 i"
      by (auto simp: bit_and_iff bit_push_bit_iff)
  qed
  then show ?thesis by (simp add: disjunctive_add_eq_or [symmetric] push_bit_eq_mult mult.commute)
qed

lemma le_val_take_Suc:
  "n < length vch \<Longrightarrow> le_val (take (Suc n) vch) = le_val (take n vch) + 256 ^ n * unat (vch ! n)"
  by (simp add: take_Suc_conv_app_nth le_val_append min.absorb2)

lemma set_vch_fold:
  "n \<le> length vch \<Longrightarrow>
   fold (\<lambda>i r. r OR push_bit (8 * i) (uint (vch ! i))) [0..<n] 0 = int (le_val (take n vch))"
proof (induction n)
  case (Suc n)
  have "le_val (take n vch) < 256 ^ n" using le_val_less [of "take n vch"] Suc.prems by simp
  then have "int (le_val (take n vch)) < 2 ^ (8 * n)" by (simp add: power_mult)
  then have "int (le_val (take n vch)) OR push_bit (8 * n) (uint (vch ! n))
      = int (le_val (take n vch)) + 2 ^ (8 * n) * uint (vch ! n)"
    by (intro int_or_disjoint) simp_all
  then show ?case using Suc by (simp add: le_val_take_Suc power_mult)
qed simp

lemma int_and_not_top:
  fixes a :: int
  assumes "0 \<le> a" "a < 2 ^ n"
  shows "(a + 2 ^ n) AND NOT (2 ^ n) = a"
proof -
  have "bit (a + 2 ^ n) i \<longleftrightarrow> bit a i \<or> i = n" for i
  proof -
    have "a + 2 ^ n = a OR push_bit n 1" using int_or_disjoint [OF assms, of 1] by simp
    then show ?thesis by (auto simp: bit_or_iff bit_exp_iff)
  qed
  moreover have "\<not> bit a n" using assms by (metis bit_take_bit_iff less_irrefl take_bit_int_eq_self)
  ultimately show ?thesis by (intro bit_eqI) (auto simp: bit_and_iff bit_not_iff bit_exp_iff)
qed

text \<open>The value of a byte string: magnitude in all bits but the last, sign in the last.\<close>

lemma set_vch_val:
  "set_vch (xs @ [b]) =
     (if unat b < 128 then int (le_val xs + 256 ^ length xs * unat b)
      else - int (le_val xs + 256 ^ length xs * (unat b - 128)))"
proof -
  let ?r = "fold (\<lambda>i r. r OR push_bit (8 * i) (uint ((xs @ [b]) ! i))) [0..<length (xs @ [b])] 0"
  have r: "?r = int (le_val xs + 256 ^ length xs * unat b)"
    using set_vch_fold [of "length (xs @ [b])" "xs @ [b]"] by (simp add: le_val_append del: upt_Suc)
  define m where "m = le_val xs + 256 ^ length xs * (unat b - 128)"
  have top: "push_bit (8 * length xs) 0x80 = (2 :: int) ^ (8 * length xs + 7)"
    by (simp add: push_bit_eq_mult power_add)
  have "?r AND NOT (push_bit (8 * length xs) 0x80) = int m" if "128 \<le> unat b"
  proof -
    have "le_val xs < 256 ^ length xs" by (rule le_val_less)
    moreover have "256 ^ length xs * (unat b - 128 + 1) \<le> 256 ^ length xs * (128 :: nat)"
      using unat_lt_8 [of b] by (intro mult_le_mono2) simp
    ultimately have "m < 256 ^ length xs * 128" by (simp add: m_def algebra_simps)
    then have "m < 2 ^ (8 * length xs + 7)" by (simp add: power_add power_mult)
    then have m: "int m < 2 ^ (8 * length xs + 7)"
      by (metis of_nat_less_iff of_nat_numeral of_nat_power)
    have "256 ^ length xs * unat b = 256 ^ length xs * (unat b - 128) + 256 ^ length xs * 128"
      using that by (simp add: add_mult_distrib2 [symmetric])
    then have "?r = int m + 2 ^ (8 * length xs + 7)" unfolding r m_def by (simp add: power_add power_mult)
    then show ?thesis using int_and_not_top [OF _ m] top by simp
  qed
  then show ?thesis using r
    by (simp add: set_vch_def Let_def byte_and_0x80 m_def del: upt_Suc)
qed

section \<open>Serialization\<close>

lemma abs_bytes_0 [simp]: "abs_bytes 0 = []"
  by (simp add: abs_bytes.simps)

lemma abs_bytes_eq_Nil [simp]: "abs_bytes v = [] \<longleftrightarrow> v = 0"
  by (subst abs_bytes.simps) simp

lemma le_val_abs_bytes [lebytes]: "le_val (abs_bytes v) = v"
  by (induction v rule: abs_bytes.induct) (subst abs_bytes.simps, simp add: unat_of_nat_byte)

lemma last_abs_bytes: "v \<noteq> 0 \<Longrightarrow> last (abs_bytes v) \<noteq> 0"
proof (induction v rule: abs_bytes.induct)
  case (1 v)
  show ?case
  proof (cases "v div 256 = 0")
    case True
    then have "v < 256" by (simp add: div_eq_0_iff)
    then have "unat (of_nat v :: byte) = v" by (simp add: unat_of_nat_byte)
    then show ?thesis using 1 True by (subst abs_bytes.simps) auto
  next
    case False
    then show ?thesis using 1 by (subst abs_bytes.simps) auto
  qed
qed

text \<open>A byte string without a zero last byte is the one its magnitude serializes to.\<close>

lemma abs_bytes_le_val: "bs = [] \<or> last bs \<noteq> 0 \<Longrightarrow> abs_bytes (le_val bs) = bs"
proof (induction bs)
  case (Cons b bs)
  have ne: "le_val (b # bs) \<noteq> 0"
  proof (cases "bs = []")
    case True
    then show ?thesis using Cons.prems by (simp add: unat_eq_0)
  next
    case False
    then have "abs_bytes (le_val bs) \<noteq> []" using Cons by simp
    then show ?thesis by simp
  qed
  have "(unat b + 256 * le_val bs) mod 256 = unat b" "(unat b + 256 * le_val bs) div 256 = le_val bs"
    using unat_lt_8 [of b] by simp_all
  moreover have "abs_bytes (le_val bs) = bs" using Cons by (cases "bs = []") auto
  ultimately show ?case using ne by (subst abs_bytes.simps) simp
qed simp

lemma length_abs_bytes: "v < 256 ^ n \<Longrightarrow> length (abs_bytes v) \<le> n"
proof (induction n arbitrary: v)
  case (Suc n)
  then have "v div 256 < 256 ^ n" by (simp add: div_less_iff_less_mult mult.commute)
  then show ?case using Suc.IH [of "v div 256"] by (subst abs_bytes.simps) auto
qed simp

lemma snoc_abs_bytes:
  assumes "v \<noteq> 0"
  obtains xs b where "abs_bytes v = xs @ [b]" "b \<noteq> 0" "v = le_val xs + 256 ^ length xs * unat b"
proof -
  have "abs_bytes v = butlast (abs_bytes v) @ [last (abs_bytes v)]" using assms by simp
  moreover have "v = le_val (abs_bytes v)" by (simp add: le_val_abs_bytes)
  ultimately show ?thesis using that last_abs_bytes [OF assms]
    by (metis le_val.simps mult_0_right add_0_right le_val_append)
qed

text \<open>The serialization of a non-zero number, by the top byte of its magnitude.\<close>

lemma serialize_cases:
  assumes "n \<noteq> 0" "abs_bytes (nat \<bar>n\<bar>) = xs @ [b]"
  shows "serialize n =
    (if 128 \<le> unat b then xs @ [b, if n < 0 then 0x80 else 0]
     else if n < 0 then xs @ [b OR 0x80] else xs @ [b])"
proof -
  have "nat (if n < 0 then - n else n) = nat \<bar>n\<bar>" by auto
  then show ?thesis using assms(1) unfolding serialize_def Let_def
    by (simp only: assms(2)) (simp add: byte_and_0x80)
qed

lemma set_vch_serialize: "set_vch (serialize n) = n"
proof (cases "n = 0")
  case True
  then show ?thesis by (simp add: serialize_def set_vch_def)
next
  case False
  then obtain xs b where xb: "abs_bytes (nat \<bar>n\<bar>) = xs @ [b]" "b \<noteq> 0"
      "nat \<bar>n\<bar> = le_val xs + 256 ^ length xs * unat b"
    using snoc_abs_bytes [of "nat \<bar>n\<bar>"] by auto
  have n: "n = (if n < 0 then - int (le_val xs + 256 ^ length xs * unat b)
      else int (le_val xs + 256 ^ length xs * unat b))"
    using xb(3) by (metis abs_ge_zero abs_of_neg abs_of_nonneg linorder_not_less minus_minus nat_0_le)
  note s = serialize_cases [OF False xb(1)]
  show ?thesis
  proof (cases "128 \<le> unat b")
    case True
    then show ?thesis using s n set_vch_val [of "xs @ [b]" "if n < 0 then 0x80 else 0"]
      by (auto simp: le_val_append)
  next
    case False
    then show ?thesis using s n set_vch_val [of xs "b OR 0x80"] set_vch_val [of xs b]
      by (auto simp: byte_or_0x80)
  qed
qed

definition minimal_vch :: "bytes \<Rightarrow> bool" where
  "minimal_vch vch \<longleftrightarrow> vch = [] \<or> unat (last vch) mod 128 \<noteq> 0 \<or>
     (length vch > 1 \<and> 128 \<le> unat (vch ! (length vch - 2)))"

lemma CScriptNum_minimal:
  "CScriptNum vch True = Inr n \<longleftrightarrow> length vch \<le> 4 \<and> minimal_vch vch \<and> set_vch vch = n"
  by (auto simp: CScriptNum_def nMaxNumSize_def minimal_vch_def byte_and_0x7f_zero byte_and_0x80 not_less)

lemma minimal_serialize: "minimal_vch (serialize n)"
proof (cases "n = 0")
  case True
  then show ?thesis by (simp add: serialize_def minimal_vch_def)
next
  case False
  then have "nat \<bar>n\<bar> \<noteq> 0" by simp
  then obtain xs b where xb: "abs_bytes (nat \<bar>n\<bar>) = xs @ [b]" "b \<noteq> 0"
    by (rule snoc_abs_bytes)
  have "0 < unat b" using xb(2) by (simp add: unat_gt_0)
  then show ?thesis
    by (simp add: serialize_cases [OF False xb(1)] minimal_vch_def byte_or_0x80 nth_append)
qed

lemma length_serialize:
  assumes "\<bar>n\<bar> < 2 ^ 31"
  shows "length (serialize n) \<le> 4"
proof (cases "n = 0")
  case False
  then obtain xs b where xb: "abs_bytes (nat \<bar>n\<bar>) = xs @ [b]" "b \<noteq> 0"
      "nat \<bar>n\<bar> = le_val xs + 256 ^ length xs * unat b"
    using snoc_abs_bytes [of "nat \<bar>n\<bar>"] by auto
  have "nat \<bar>n\<bar> < 2 ^ 31" using assms by (simp add: nat_less_iff)
  then have small: "256 ^ length xs * unat b < 2 ^ 31" and "nat \<bar>n\<bar> < 256 ^ 4" using xb(3) by auto
  then have l: "length xs \<le> 3" using length_abs_bytes [of "nat \<bar>n\<bar>" 4] xb(1) by simp
  have "unat b < 128" if "length xs = 3" using small that by simp
  then show ?thesis using l by (fastforce simp: serialize_cases [OF False xb(1)])
qed (simp add: serialize_def)

lemma serialize_set_vch:
  assumes "minimal_vch vch"
  shows "serialize (set_vch vch) = vch"
proof (cases vch rule: rev_cases)
  case Nil
  then show ?thesis by (simp add: set_vch_def serialize_def)
next
  case (snoc ys c)
  define m where "m = le_val ys + 256 ^ length ys * (unat c mod 128)"
  have c: "unat c mod 128 = (if unat c < 128 then unat c else unat c - 128)"
    using unat_lt_8 [of c] by (simp add: mod_if)
  have v: "set_vch vch = (if unat c < 128 then int m else - int m)"
    using snoc c by (simp add: set_vch_val m_def)
  show ?thesis
  proof (cases "unat c mod 128 = 0")
    case True
    then have "ys \<noteq> []" "128 \<le> unat (last ys)"
      using assms snoc by (auto simp: minimal_vch_def nth_append last_conv_nth)
    then obtain xs b where ys: "ys = xs @ [b]" "128 \<le> unat b" by (metis append_butlast_last_id)
    have b0: "b \<noteq> 0" using ys(2) by auto
    have m: "m = le_val ys" using True by (simp add: m_def)
    have "abs_bytes m = xs @ [b]" using abs_bytes_le_val [of ys] ys b0 m by simp
    moreover have "m \<noteq> 0" using calculation by (metis abs_bytes_0 snoc_eq_iff_butlast)
    moreover have "c = (if unat c < 128 then 0 else 0x80)"
      using True c by (auto simp: word_unat_eq_iff split: if_splits)
    ultimately show ?thesis using v ys snoc serialize_cases [of "set_vch vch" xs b]
      by (auto split: if_splits)
  next
    case False
    define d where "d = (of_nat (unat c mod 128) :: byte)"
    have d: "unat d = unat c mod 128" by (simp add: d_def unat_of_nat_byte)
    have "m = le_val (ys @ [d])" by (simp add: m_def d le_val_append)
    moreover have "d \<noteq> 0" using False d by (auto simp: word_unat_eq_iff)
    ultimately have a: "abs_bytes m = ys @ [d]" using abs_bytes_le_val [of "ys @ [d]"] by simp
    have "m \<noteq> 0" using a by (metis abs_bytes_0 snoc_eq_iff_butlast)
    moreover have "unat d < 128" by (simp add: d)
    moreover have "c = (if unat c < 128 then d else d OR 0x80)"
      using c d by (auto simp: word_unat_eq_iff byte_or_0x80)
    ultimately show ?thesis using v a snoc serialize_cases [of "set_vch vch" ys d]
      by (auto split: if_splits)
  qed
qed

lemma set_vch_bound:
  assumes "length vch \<le> 4"
  shows "\<bar>set_vch vch\<bar> < 2 ^ 31"
proof (cases vch rule: rev_cases)
  case Nil
  then show ?thesis by (simp add: set_vch_def)
next
  case (snoc ys c)
  define e where "e = (if unat c < 128 then unat c else unat c - 128)"
  have e: "e < 128" using unat_lt_8 [of c] by (auto simp: e_def)
  have "set_vch vch = (if unat c < 128 then int (le_val ys + 256 ^ length ys * e)
      else - int (le_val ys + 256 ^ length ys * e))"
    unfolding snoc set_vch_val by (simp add: e_def)
  then have "\<bar>set_vch vch\<bar> = int (le_val ys + 256 ^ length ys * e)"
    by (simp only: abs_minus_cancel abs_of_nat split: if_split) simp
  also have "le_val ys + 256 ^ length ys * e < 256 ^ length ys * (e + 1)"
    using le_val_less [of ys] by simp
  then have "int (le_val ys + 256 ^ length ys * e) < int (256 ^ length ys * (e + 1))" by linarith
  also have "256 ^ length ys * (e + 1) \<le> 256 ^ 3 * (128 :: nat)"
    using e snoc assms by (intro mult_le_mono power_increasing) auto
  finally show ?thesis by simp
qed

text \<open>
  C33. Script numbers with required minimality: a byte string is read as \<open>n\<close> exactly when it is
  the serialization of \<open>n\<close> and \<open>n\<close> is an integer of 31 bits and sign. Reading is therefore
  the inverse of serializing, no number has two accepted encodings, and out-of-range results
  cannot be used as operands.
\<close>

theorem CScriptNum_serialize:
  "CScriptNum vch True = Inr n \<longleftrightarrow> vch = serialize n \<and> \<bar>n\<bar> < 2 ^ 31"
  unfolding CScriptNum_minimal
  using set_vch_serialize minimal_serialize length_serialize serialize_set_vch set_vch_bound by metis

end
