(* ===== verification/Script.thy ===== *)
theory Script
  imports ScriptNum Codec
begin

text \<open>
  Scripts (\<^verbatim>\<open>script/script.h\<close>, \<^verbatim>\<open>script/script.cpp\<close>): byte strings of instructions, their
  reader \<open>GetOp2\<close>, the writers \<open>operator<<\<close>, and the scans over instructions. An iterator \<open>pc\<close>
  into a script is the suffix it points at, so that \<open>end() - pc\<close> is a length. An opcode is the
  byte that stands for it.
\<close>

subsection \<open>Opcodes\<close>

abbreviation (input) OP_0 :: byte where "OP_0 \<equiv> 0x00"
abbreviation (input) OP_FALSE :: byte where "OP_FALSE \<equiv> OP_0"
abbreviation (input) OP_PUSHDATA1 :: byte where "OP_PUSHDATA1 \<equiv> 0x4c"
abbreviation (input) OP_PUSHDATA2 :: byte where "OP_PUSHDATA2 \<equiv> 0x4d"
abbreviation (input) OP_PUSHDATA4 :: byte where "OP_PUSHDATA4 \<equiv> 0x4e"
abbreviation (input) OP_1NEGATE :: byte where "OP_1NEGATE \<equiv> 0x4f"
abbreviation (input) OP_RESERVED :: byte where "OP_RESERVED \<equiv> 0x50"
abbreviation (input) OP_1 :: byte where "OP_1 \<equiv> 0x51"
abbreviation (input) OP_TRUE :: byte where "OP_TRUE \<equiv> OP_1"
abbreviation (input) OP_2 :: byte where "OP_2 \<equiv> 0x52"
abbreviation (input) OP_3 :: byte where "OP_3 \<equiv> 0x53"
abbreviation (input) OP_4 :: byte where "OP_4 \<equiv> 0x54"
abbreviation (input) OP_5 :: byte where "OP_5 \<equiv> 0x55"
abbreviation (input) OP_6 :: byte where "OP_6 \<equiv> 0x56"
abbreviation (input) OP_7 :: byte where "OP_7 \<equiv> 0x57"
abbreviation (input) OP_8 :: byte where "OP_8 \<equiv> 0x58"
abbreviation (input) OP_9 :: byte where "OP_9 \<equiv> 0x59"
abbreviation (input) OP_10 :: byte where "OP_10 \<equiv> 0x5a"
abbreviation (input) OP_11 :: byte where "OP_11 \<equiv> 0x5b"
abbreviation (input) OP_12 :: byte where "OP_12 \<equiv> 0x5c"
abbreviation (input) OP_13 :: byte where "OP_13 \<equiv> 0x5d"
abbreviation (input) OP_14 :: byte where "OP_14 \<equiv> 0x5e"
abbreviation (input) OP_15 :: byte where "OP_15 \<equiv> 0x5f"
abbreviation (input) OP_16 :: byte where "OP_16 \<equiv> 0x60"
abbreviation (input) OP_NOP :: byte where "OP_NOP \<equiv> 0x61"
abbreviation (input) OP_VER :: byte where "OP_VER \<equiv> 0x62"
abbreviation (input) OP_IF :: byte where "OP_IF \<equiv> 0x63"
abbreviation (input) OP_NOTIF :: byte where "OP_NOTIF \<equiv> 0x64"
abbreviation (input) OP_VERIF :: byte where "OP_VERIF \<equiv> 0x65"
abbreviation (input) OP_VERNOTIF :: byte where "OP_VERNOTIF \<equiv> 0x66"
abbreviation (input) OP_ELSE :: byte where "OP_ELSE \<equiv> 0x67"
abbreviation (input) OP_ENDIF :: byte where "OP_ENDIF \<equiv> 0x68"
abbreviation (input) OP_VERIFY :: byte where "OP_VERIFY \<equiv> 0x69"
abbreviation (input) OP_RETURN :: byte where "OP_RETURN \<equiv> 0x6a"
abbreviation (input) OP_TOALTSTACK :: byte where "OP_TOALTSTACK \<equiv> 0x6b"
abbreviation (input) OP_FROMALTSTACK :: byte where "OP_FROMALTSTACK \<equiv> 0x6c"
abbreviation (input) OP_2DROP :: byte where "OP_2DROP \<equiv> 0x6d"
abbreviation (input) OP_2DUP :: byte where "OP_2DUP \<equiv> 0x6e"
abbreviation (input) OP_3DUP :: byte where "OP_3DUP \<equiv> 0x6f"
abbreviation (input) OP_2OVER :: byte where "OP_2OVER \<equiv> 0x70"
abbreviation (input) OP_2ROT :: byte where "OP_2ROT \<equiv> 0x71"
abbreviation (input) OP_2SWAP :: byte where "OP_2SWAP \<equiv> 0x72"
abbreviation (input) OP_IFDUP :: byte where "OP_IFDUP \<equiv> 0x73"
abbreviation (input) OP_DEPTH :: byte where "OP_DEPTH \<equiv> 0x74"
abbreviation (input) OP_DROP :: byte where "OP_DROP \<equiv> 0x75"
abbreviation (input) OP_DUP :: byte where "OP_DUP \<equiv> 0x76"
abbreviation (input) OP_NIP :: byte where "OP_NIP \<equiv> 0x77"
abbreviation (input) OP_OVER :: byte where "OP_OVER \<equiv> 0x78"
abbreviation (input) OP_PICK :: byte where "OP_PICK \<equiv> 0x79"
abbreviation (input) OP_ROLL :: byte where "OP_ROLL \<equiv> 0x7a"
abbreviation (input) OP_ROT :: byte where "OP_ROT \<equiv> 0x7b"
abbreviation (input) OP_SWAP :: byte where "OP_SWAP \<equiv> 0x7c"
abbreviation (input) OP_TUCK :: byte where "OP_TUCK \<equiv> 0x7d"
abbreviation (input) OP_CAT :: byte where "OP_CAT \<equiv> 0x7e"
abbreviation (input) OP_SUBSTR :: byte where "OP_SUBSTR \<equiv> 0x7f"
abbreviation (input) OP_LEFT :: byte where "OP_LEFT \<equiv> 0x80"
abbreviation (input) OP_RIGHT :: byte where "OP_RIGHT \<equiv> 0x81"
abbreviation (input) OP_SIZE :: byte where "OP_SIZE \<equiv> 0x82"
abbreviation (input) OP_INVERT :: byte where "OP_INVERT \<equiv> 0x83"
abbreviation (input) OP_AND :: byte where "OP_AND \<equiv> 0x84"
abbreviation (input) OP_OR :: byte where "OP_OR \<equiv> 0x85"
abbreviation (input) OP_XOR :: byte where "OP_XOR \<equiv> 0x86"
abbreviation (input) OP_EQUAL :: byte where "OP_EQUAL \<equiv> 0x87"
abbreviation (input) OP_EQUALVERIFY :: byte where "OP_EQUALVERIFY \<equiv> 0x88"
abbreviation (input) OP_RESERVED1 :: byte where "OP_RESERVED1 \<equiv> 0x89"
abbreviation (input) OP_RESERVED2 :: byte where "OP_RESERVED2 \<equiv> 0x8a"
abbreviation (input) OP_1ADD :: byte where "OP_1ADD \<equiv> 0x8b"
abbreviation (input) OP_1SUB :: byte where "OP_1SUB \<equiv> 0x8c"
abbreviation (input) OP_2MUL :: byte where "OP_2MUL \<equiv> 0x8d"
abbreviation (input) OP_2DIV :: byte where "OP_2DIV \<equiv> 0x8e"
abbreviation (input) OP_NEGATE :: byte where "OP_NEGATE \<equiv> 0x8f"
abbreviation (input) OP_ABS :: byte where "OP_ABS \<equiv> 0x90"
abbreviation (input) OP_NOT :: byte where "OP_NOT \<equiv> 0x91"
abbreviation (input) OP_0NOTEQUAL :: byte where "OP_0NOTEQUAL \<equiv> 0x92"
abbreviation (input) OP_ADD :: byte where "OP_ADD \<equiv> 0x93"
abbreviation (input) OP_SUB :: byte where "OP_SUB \<equiv> 0x94"
abbreviation (input) OP_MUL :: byte where "OP_MUL \<equiv> 0x95"
abbreviation (input) OP_DIV :: byte where "OP_DIV \<equiv> 0x96"
abbreviation (input) OP_MOD :: byte where "OP_MOD \<equiv> 0x97"
abbreviation (input) OP_LSHIFT :: byte where "OP_LSHIFT \<equiv> 0x98"
abbreviation (input) OP_RSHIFT :: byte where "OP_RSHIFT \<equiv> 0x99"
abbreviation (input) OP_BOOLAND :: byte where "OP_BOOLAND \<equiv> 0x9a"
abbreviation (input) OP_BOOLOR :: byte where "OP_BOOLOR \<equiv> 0x9b"
abbreviation (input) OP_NUMEQUAL :: byte where "OP_NUMEQUAL \<equiv> 0x9c"
abbreviation (input) OP_NUMEQUALVERIFY :: byte where "OP_NUMEQUALVERIFY \<equiv> 0x9d"
abbreviation (input) OP_NUMNOTEQUAL :: byte where "OP_NUMNOTEQUAL \<equiv> 0x9e"
abbreviation (input) OP_LESSTHAN :: byte where "OP_LESSTHAN \<equiv> 0x9f"
abbreviation (input) OP_GREATERTHAN :: byte where "OP_GREATERTHAN \<equiv> 0xa0"
abbreviation (input) OP_LESSTHANOREQUAL :: byte where "OP_LESSTHANOREQUAL \<equiv> 0xa1"
abbreviation (input) OP_GREATERTHANOREQUAL :: byte where "OP_GREATERTHANOREQUAL \<equiv> 0xa2"
abbreviation (input) OP_MIN :: byte where "OP_MIN \<equiv> 0xa3"
abbreviation (input) OP_MAX :: byte where "OP_MAX \<equiv> 0xa4"
abbreviation (input) OP_WITHIN :: byte where "OP_WITHIN \<equiv> 0xa5"
abbreviation (input) OP_RIPEMD160 :: byte where "OP_RIPEMD160 \<equiv> 0xa6"
abbreviation (input) OP_SHA1 :: byte where "OP_SHA1 \<equiv> 0xa7"
abbreviation (input) OP_SHA256 :: byte where "OP_SHA256 \<equiv> 0xa8"
abbreviation (input) OP_HASH160 :: byte where "OP_HASH160 \<equiv> 0xa9"
abbreviation (input) OP_HASH256 :: byte where "OP_HASH256 \<equiv> 0xaa"
abbreviation (input) OP_CODESEPARATOR :: byte where "OP_CODESEPARATOR \<equiv> 0xab"
abbreviation (input) OP_CHECKSIG :: byte where "OP_CHECKSIG \<equiv> 0xac"
abbreviation (input) OP_CHECKSIGVERIFY :: byte where "OP_CHECKSIGVERIFY \<equiv> 0xad"
abbreviation (input) OP_CHECKMULTISIG :: byte where "OP_CHECKMULTISIG \<equiv> 0xae"
abbreviation (input) OP_CHECKMULTISIGVERIFY :: byte where "OP_CHECKMULTISIGVERIFY \<equiv> 0xaf"
abbreviation (input) OP_NOP1 :: byte where "OP_NOP1 \<equiv> 0xb0"
abbreviation (input) OP_NOP2 :: byte where "OP_NOP2 \<equiv> 0xb1"
abbreviation (input) OP_NOP3 :: byte where "OP_NOP3 \<equiv> 0xb2"
abbreviation (input) OP_NOP4 :: byte where "OP_NOP4 \<equiv> 0xb3"
abbreviation (input) OP_NOP5 :: byte where "OP_NOP5 \<equiv> 0xb4"
abbreviation (input) OP_NOP6 :: byte where "OP_NOP6 \<equiv> 0xb5"
abbreviation (input) OP_NOP7 :: byte where "OP_NOP7 \<equiv> 0xb6"
abbreviation (input) OP_NOP8 :: byte where "OP_NOP8 \<equiv> 0xb7"
abbreviation (input) OP_NOP9 :: byte where "OP_NOP9 \<equiv> 0xb8"
abbreviation (input) OP_NOP10 :: byte where "OP_NOP10 \<equiv> 0xb9"
abbreviation (input) OP_DROPDATA :: byte where "OP_DROPDATA \<equiv> 0xf8"
abbreviation (input) OP_SMALLDATA :: byte where "OP_SMALLDATA \<equiv> 0xf9"
abbreviation (input) OP_SMALLINTEGER :: byte where "OP_SMALLINTEGER \<equiv> 0xfa"
abbreviation (input) OP_PUBKEYS :: byte where "OP_PUBKEYS \<equiv> 0xfb"
abbreviation (input) OP_PUBKEYHASH :: byte where "OP_PUBKEYHASH \<equiv> 0xfd"
abbreviation (input) OP_PUBKEY :: byte where "OP_PUBKEY \<equiv> 0xfe"
abbreviation (input) OP_INVALIDOPCODE :: byte where "OP_INVALIDOPCODE \<equiv> 0xff"

definition opcode_names :: "(byte \<times> string) list" where
  "opcode_names =
    [(OP_0, ''0''),
     (OP_PUSHDATA1, ''OP_PUSHDATA1''),
     (OP_PUSHDATA2, ''OP_PUSHDATA2''),
     (OP_PUSHDATA4, ''OP_PUSHDATA4''),
     (OP_1NEGATE, ''-1''),
     (OP_RESERVED, ''OP_RESERVED''),
     (OP_1, ''1''),
     (OP_2, ''2''),
     (OP_3, ''3''),
     (OP_4, ''4''),
     (OP_5, ''5''),
     (OP_6, ''6''),
     (OP_7, ''7''),
     (OP_8, ''8''),
     (OP_9, ''9''),
     (OP_10, ''10''),
     (OP_11, ''11''),
     (OP_12, ''12''),
     (OP_13, ''13''),
     (OP_14, ''14''),
     (OP_15, ''15''),
     (OP_16, ''16''),
     (OP_NOP, ''OP_NOP''),
     (OP_VER, ''OP_VER''),
     (OP_IF, ''OP_IF''),
     (OP_NOTIF, ''OP_NOTIF''),
     (OP_VERIF, ''OP_VERIF''),
     (OP_VERNOTIF, ''OP_VERNOTIF''),
     (OP_ELSE, ''OP_ELSE''),
     (OP_ENDIF, ''OP_ENDIF''),
     (OP_VERIFY, ''OP_VERIFY''),
     (OP_RETURN, ''OP_RETURN''),
     (OP_TOALTSTACK, ''OP_TOALTSTACK''),
     (OP_FROMALTSTACK, ''OP_FROMALTSTACK''),
     (OP_2DROP, ''OP_2DROP''),
     (OP_2DUP, ''OP_2DUP''),
     (OP_3DUP, ''OP_3DUP''),
     (OP_2OVER, ''OP_2OVER''),
     (OP_2ROT, ''OP_2ROT''),
     (OP_2SWAP, ''OP_2SWAP''),
     (OP_IFDUP, ''OP_IFDUP''),
     (OP_DEPTH, ''OP_DEPTH''),
     (OP_DROP, ''OP_DROP''),
     (OP_DUP, ''OP_DUP''),
     (OP_NIP, ''OP_NIP''),
     (OP_OVER, ''OP_OVER''),
     (OP_PICK, ''OP_PICK''),
     (OP_ROLL, ''OP_ROLL''),
     (OP_ROT, ''OP_ROT''),
     (OP_SWAP, ''OP_SWAP''),
     (OP_TUCK, ''OP_TUCK''),
     (OP_CAT, ''OP_CAT''),
     (OP_SUBSTR, ''OP_SUBSTR''),
     (OP_LEFT, ''OP_LEFT''),
     (OP_RIGHT, ''OP_RIGHT''),
     (OP_SIZE, ''OP_SIZE''),
     (OP_INVERT, ''OP_INVERT''),
     (OP_AND, ''OP_AND''),
     (OP_OR, ''OP_OR''),
     (OP_XOR, ''OP_XOR''),
     (OP_EQUAL, ''OP_EQUAL''),
     (OP_EQUALVERIFY, ''OP_EQUALVERIFY''),
     (OP_RESERVED1, ''OP_RESERVED1''),
     (OP_RESERVED2, ''OP_RESERVED2''),
     (OP_1ADD, ''OP_1ADD''),
     (OP_1SUB, ''OP_1SUB''),
     (OP_2MUL, ''OP_2MUL''),
     (OP_2DIV, ''OP_2DIV''),
     (OP_NEGATE, ''OP_NEGATE''),
     (OP_ABS, ''OP_ABS''),
     (OP_NOT, ''OP_NOT''),
     (OP_0NOTEQUAL, ''OP_0NOTEQUAL''),
     (OP_ADD, ''OP_ADD''),
     (OP_SUB, ''OP_SUB''),
     (OP_MUL, ''OP_MUL''),
     (OP_DIV, ''OP_DIV''),
     (OP_MOD, ''OP_MOD''),
     (OP_LSHIFT, ''OP_LSHIFT''),
     (OP_RSHIFT, ''OP_RSHIFT''),
     (OP_BOOLAND, ''OP_BOOLAND''),
     (OP_BOOLOR, ''OP_BOOLOR''),
     (OP_NUMEQUAL, ''OP_NUMEQUAL''),
     (OP_NUMEQUALVERIFY, ''OP_NUMEQUALVERIFY''),
     (OP_NUMNOTEQUAL, ''OP_NUMNOTEQUAL''),
     (OP_LESSTHAN, ''OP_LESSTHAN''),
     (OP_GREATERTHAN, ''OP_GREATERTHAN''),
     (OP_LESSTHANOREQUAL, ''OP_LESSTHANOREQUAL''),
     (OP_GREATERTHANOREQUAL, ''OP_GREATERTHANOREQUAL''),
     (OP_MIN, ''OP_MIN''),
     (OP_MAX, ''OP_MAX''),
     (OP_WITHIN, ''OP_WITHIN''),
     (OP_RIPEMD160, ''OP_RIPEMD160''),
     (OP_SHA1, ''OP_SHA1''),
     (OP_SHA256, ''OP_SHA256''),
     (OP_HASH160, ''OP_HASH160''),
     (OP_HASH256, ''OP_HASH256''),
     (OP_CODESEPARATOR, ''OP_CODESEPARATOR''),
     (OP_CHECKSIG, ''OP_CHECKSIG''),
     (OP_CHECKSIGVERIFY, ''OP_CHECKSIGVERIFY''),
     (OP_CHECKMULTISIG, ''OP_CHECKMULTISIG''),
     (OP_CHECKMULTISIGVERIFY, ''OP_CHECKMULTISIGVERIFY''),
     (OP_NOP1, ''OP_NOP1''),
     (OP_NOP2, ''OP_NOP2''),
     (OP_NOP3, ''OP_NOP3''),
     (OP_NOP4, ''OP_NOP4''),
     (OP_NOP5, ''OP_NOP5''),
     (OP_NOP6, ''OP_NOP6''),
     (OP_NOP7, ''OP_NOP7''),
     (OP_NOP8, ''OP_NOP8''),
     (OP_NOP9, ''OP_NOP9''),
     (OP_NOP10, ''OP_NOP10''),
     (OP_INVALIDOPCODE, ''OP_INVALIDOPCODE'')]"

definition GetOpName :: "byte \<Rightarrow> string" where
  "GetOpName opcode =
     (case map_of opcode_names opcode of Some nm \<Rightarrow> nm | None \<Rightarrow> ''OP_UNKNOWN'')"

subsection \<open>Reading instructions\<close>

text \<open>
  \<open>GetOp2\<close> returns its result, the opcode, the operand, and where it leaves \<open>pc\<close>, which it moves
  also when it fails. The length left is compared after a cast to \<open>unsigned int\<close>.
\<close>

definition push_size :: "byte \<Rightarrow> bytes \<Rightarrow> (nat \<times> bytes) option" where
  "push_size opcode pc =
     (if opcode < OP_PUSHDATA1 then Some (unat opcode, pc)
      else if opcode = OP_PUSHDATA1 then
        (if length pc < 1 then None else Some (unat (hd pc), tl pc))
      else if opcode = OP_PUSHDATA2 then
        (if length pc < 2 then None else Some (le_val (take 2 pc), drop 2 pc))
      else
        (if length pc < 4 then None else Some (le_val (take 4 pc), drop 4 pc)))"

definition GetOp2 :: "bytes \<Rightarrow> bool \<times> byte \<times> bytes \<times> bytes" where
  "GetOp2 pc =
     (case pc of
        [] \<Rightarrow> (False, OP_INVALIDOPCODE, [], [])
      | opcode # pc \<Rightarrow>
          if opcode \<le> OP_PUSHDATA4 then
            (case push_size opcode pc of
               None \<Rightarrow> (False, OP_INVALIDOPCODE, [], pc)
             | Some (nSize, pc) \<Rightarrow>
                 if length pc mod 4294967296 < nSize then (False, OP_INVALIDOPCODE, [], pc)
                 else (True, opcode, take nSize pc, drop nSize pc))
          else (True, opcode, [], pc))"

subsection \<open>Writing instructions\<close>

definition push_data :: "bytes \<Rightarrow> bytes" where
  "push_data b =
     (if length b < unat OP_PUSHDATA1 then [of_nat (length b)]
      else if length b \<le> 0xff then [OP_PUSHDATA1, of_nat (length b)]
      else if length b \<le> 0xffff then OP_PUSHDATA2 # le_bytes 2 (length b)
      else OP_PUSHDATA4 # le_bytes 4 (length b)) @ b"

definition push_int64 :: "int \<Rightarrow> bytes" where
  "push_int64 n =
     (if n = - 1 \<or> (n \<ge> 1 \<and> n \<le> 16) then [of_int (n + (uint OP_1 - 1))]
      else if n = 0 then [OP_0]
      else push_data (serialize n))"

definition DecodeOP_N :: "byte \<Rightarrow> int cpp" where
  "DecodeOP_N opcode =
     (if opcode = OP_0 then Inr 0
      else bind_cpp (assert_cpp (opcode \<ge> OP_1 \<and> opcode \<le> OP_16)) (\<lambda>_.
        Inr (uint opcode - (uint OP_1 - 1))))"

definition EncodeOP_N :: "int \<Rightarrow> byte cpp" where
  "EncodeOP_N n =
     bind_cpp (assert_cpp (n \<ge> 0 \<and> n \<le> 16)) (\<lambda>_.
       Inr (if n = 0 then OP_0 else of_int (uint OP_1 + n - 1)))"

lemma push_size_length: "push_size opcode pc = Some (n, pc') \<Longrightarrow> length pc' \<le> length pc"
  by (auto simp: push_size_def split: if_splits)

lemma GetOp2_length:
  "GetOp2 pc = (fRet, opcode, vch, pc') \<Longrightarrow> pc \<noteq> [] \<Longrightarrow> length pc' < length pc"
  by (cases pc) (auto simp: GetOp2_def less_Suc_eq_le split: if_splits option.splits dest!: push_size_length)

lemma GetOp2_success: "GetOp2 pc = (True, opcode, vch, pc') \<Longrightarrow> length pc' < length pc"
  using GetOp2_length [of pc True opcode vch pc'] by (cases "pc = []") (auto simp: GetOp2_def)

subsection \<open>Scans\<close>

text \<open>\<open>FindAndDelete\<close>: the scan keeps what it reads and drops every copy of \<open>b\<close> that starts at \<open>pc\<close>.\<close>

function strip_copies :: "bytes \<Rightarrow> bytes \<Rightarrow> nat \<times> bytes" where
  "strip_copies b pc =
     (if b \<noteq> [] \<and> length pc \<ge> length b \<and> take (length b) pc = b
      then (case strip_copies b (drop (length b) pc) of (n, pc') \<Rightarrow> (n + 1, pc'))
      else (0, pc))"
  by pat_completeness auto
termination
  by (relation "measure (\<lambda>(b, pc). length pc)") (auto intro!: diff_less simp: length_greater_0_conv [symmetric] simp del: length_greater_0_conv)

declare strip_copies.simps [simp del]

lemma strip_copies_length: "strip_copies b pc = (n, pc') \<Longrightarrow> length pc = n * length b + length pc'"
proof (induction b pc arbitrary: n pc' rule: strip_copies.induct)
  case (1 b pc)
  show ?case using 1 by (subst (asm) (2) strip_copies.simps) (auto split: if_splits prod.splits)
qed

lemma delete_step_length:
  "(n, pc') = strip_copies b pc \<Longrightarrow> (True, opcode, vch, pc'') = GetOp2 pc' \<Longrightarrow> length pc'' < length pc"
  using strip_copies_length [of b pc n pc'] GetOp2_success [of pc' opcode vch pc''] by simp

function delete_loop :: "bytes \<Rightarrow> bytes \<Rightarrow> nat \<times> bytes" where
  "delete_loop b pc =
     (case strip_copies b pc of (n, pc) \<Rightarrow>
      case GetOp2 pc of (fRet, opcode, vch, pc') \<Rightarrow>
        if fRet then
          (case delete_loop b pc' of (m, out) \<Rightarrow> (n + m, take (length pc - length pc') pc @ out))
        else (n, pc))"
  by pat_completeness auto
termination
  by (relation "measure (\<lambda>(b, pc). length pc)")
     (auto intro: delete_step_length)

declare delete_loop.simps [simp del]

definition FindAndDelete :: "bytes \<Rightarrow> bytes \<Rightarrow> nat \<times> bytes" where
  "FindAndDelete script b = (if b = [] then (0, script) else delete_loop b script)"

function find_loop :: "byte \<Rightarrow> bytes \<Rightarrow> nat \<Rightarrow> nat" where
  "find_loop op pc nFound =
     (if pc = [] then nFound
      else case GetOp2 pc of (fRet, opcode, vch, pc') \<Rightarrow>
        if fRet then find_loop op pc' (if opcode = op then nFound + 1 else nFound) else nFound)"
  by pat_completeness auto
termination
  by (relation "measure (\<lambda>(op, pc, n). length pc)") (auto dest!: GetOp2_success [OF sym])

definition Find :: "bytes \<Rightarrow> byte \<Rightarrow> nat" where
  "Find script op = find_loop op script 0"

function sigop_loop :: "bool \<Rightarrow> bytes \<Rightarrow> byte \<Rightarrow> nat \<Rightarrow> nat" where
  "sigop_loop fAccurate pc lastOpcode n =
     (if pc = [] then n
      else case GetOp2 pc of (fRet, opcode, vch, pc') \<Rightarrow>
        if \<not> fRet then n
        else sigop_loop fAccurate pc' opcode
          (if opcode = OP_CHECKSIG \<or> opcode = OP_CHECKSIGVERIFY then n + 1
           else if opcode = OP_CHECKMULTISIG \<or> opcode = OP_CHECKMULTISIGVERIFY then
             (if fAccurate \<and> lastOpcode \<ge> OP_1 \<and> lastOpcode \<le> OP_16
              then n + (case DecodeOP_N lastOpcode of Inr k \<Rightarrow> nat k | Inl _ \<Rightarrow> 0)
              else n + 20)
           else n))"
  by pat_completeness auto
termination
  by (relation "measure (\<lambda>(f, pc, l, n). length pc)") (auto dest!: GetOp2_success [OF sym])

definition GetSigOpCount :: "bytes \<Rightarrow> bool \<Rightarrow> nat" where
  "GetSigOpCount script fAccurate = sigop_loop fAccurate script OP_INVALIDOPCODE 0"

definition IsPayToPublicKeyHash :: "bytes \<Rightarrow> bool" where
  "IsPayToPublicKeyHash script \<longleftrightarrow>
     length script = 25 \<and> script ! 0 = OP_DUP \<and> script ! 1 = OP_HASH160 \<and> script ! 2 = 0x14 \<and>
     script ! 23 = OP_EQUALVERIFY \<and> script ! 24 = OP_CHECKSIG"

definition IsPayToScriptHash :: "bytes \<Rightarrow> bool" where
  "IsPayToScriptHash script \<longleftrightarrow>
     length script \<ge> 23 \<and> script ! 0 = OP_HASH160 \<and> script ! 1 = 0x14 \<and> script ! 22 = OP_EQUAL"

text \<open>The last operand that a push-only \<open>scriptSig\<close> leaves, or \<open>None\<close> where the code returns \<open>0\<close>.\<close>

function last_push_loop :: "bytes \<Rightarrow> bytes \<Rightarrow> bytes option" where
  "last_push_loop pc data =
     (if pc = [] then Some data
      else case GetOp2 pc of (fRet, opcode, vch, pc') \<Rightarrow>
        if \<not> fRet then None else if opcode > OP_16 then None else last_push_loop pc' vch)"
  by pat_completeness auto
termination
  by (relation "measure (\<lambda>(pc, data). length pc)") (auto dest!: GetOp2_success [OF sym])

definition GetSigOpCount_P2SH :: "bytes \<Rightarrow> bytes \<Rightarrow> nat" where
  "GetSigOpCount_P2SH script scriptSig =
     (if \<not> IsPayToScriptHash script then GetSigOpCount script True
      else case last_push_loop scriptSig [] of
             None \<Rightarrow> 0
           | Some data \<Rightarrow> GetSigOpCount data True)"

function IsPushOnly :: "bytes \<Rightarrow> bool" where
  "IsPushOnly pc =
     (if pc = [] then True
      else case GetOp2 pc of (fRet, opcode, vch, pc') \<Rightarrow>
        if \<not> fRet then False else if opcode > OP_16 then False else IsPushOnly pc')"
  by pat_completeness auto
termination
  by (relation "measure length") (auto dest!: GetOp2_success [OF sym])

definition HasSmallIntegerInTheBeginning :: "bytes \<Rightarrow> bool" where
  "HasSmallIntegerInTheBeginning script =
     (case script of
        [] \<Rightarrow> False
      | opcode # _ \<Rightarrow> opcode = OP_0 \<or> (opcode \<ge> OP_1 \<and> opcode \<le> OP_16))"

text \<open>
  \<open>RemoveOpDrops\<close>: a script with an \<open>OP_RETURN\<close> anywhere is left alone; otherwise the
  instructions before the operand of the first \<open>OP_DROP\<close> are kept.
\<close>

function has_op_return :: "bytes \<Rightarrow> bool" where
  "has_op_return pc =
     (if pc = [] then False
      else case GetOp2 pc of (fRet, opcode, vch, pc') \<Rightarrow>
        if fRet \<and> opcode = OP_RETURN then True else has_op_return pc')"
  by pat_completeness auto
termination
  by (relation "measure length") (auto dest!: GetOp2_length [OF sym])

text \<open>The position of the first \<open>OP_DROP\<close>: \<open>Inl ()\<close> when an instruction before it does not parse.\<close>

function op_drop_pos :: "bytes \<Rightarrow> nat \<Rightarrow> unit + nat option" where
  "op_drop_pos pc count =
     (if pc = [] then Inr None
      else case GetOp2 pc of (fRet, opcode, vch, pc') \<Rightarrow>
        if \<not> fRet then Inl ()
        else if opcode = OP_DROP then Inr (Some count) else op_drop_pos pc' (count + 1))"
  by pat_completeness auto
termination
  by (relation "measure (\<lambda>(pc, c). length pc)") (auto dest!: GetOp2_success [OF sym])

fun copy_ops :: "nat \<Rightarrow> bytes \<Rightarrow> bytes" where
  "copy_ops 0 pc = []"
| "copy_ops (Suc k) pc =
     (case GetOp2 pc of (fRet, opcode, vch, pc') \<Rightarrow>
        (if vch \<noteq> [] then push_data vch else [opcode]) @ copy_ops k pc')"

definition RemoveOpDrops :: "bytes \<Rightarrow> bytes" where
  "RemoveOpDrops script =
     (if has_op_return script then script
      else case op_drop_pos script 0 of
             Inl _ \<Rightarrow> script
           | Inr None \<Rightarrow> script
           | Inr (Some opDropPos) \<Rightarrow> copy_ops (opDropPos - 1) script)"

declare find_loop.simps [simp del] sigop_loop.simps [simp del] last_push_loop.simps [simp del]
  IsPushOnly.simps [simp del] has_op_return.simps [simp del] op_drop_pos.simps [simp del]

section \<open>Scripts as sequences of instructions\<close>

lemma GetOp2_push_data:
  assumes "length (b @ rest) < 4294967296"
  shows "\<exists>opcode. GetOp2 (push_data b @ rest) = (True, opcode, b, rest) \<and> opcode \<le> OP_PUSHDATA4"
proof -
  have l: "\<not> (length b + length rest) mod 4294967296 < length b" using assms by simp
  consider (direct) "length b < 76" | (one) "76 \<le> length b" "length b \<le> 255"
    | (two) "255 < length b" "length b \<le> 65535" | (four) "65535 < length b" by linarith
  then show ?thesis
  proof cases
    case direct
    then have u: "unat (of_nat (length b) :: byte) = length b" by (simp add: unat_of_nat_byte)
    have "(of_nat (length b) :: byte) < OP_PUSHDATA1" "(of_nat (length b) :: byte) \<le> OP_PUSHDATA4"
      using direct by (simp_all add: word_less_nat_alt word_le_nat_alt u)
    then show ?thesis using direct u l by (simp add: push_data_def GetOp2_def push_size_def)
  next
    case one
    then have u: "unat (of_nat (length b) :: byte) = length b" by (simp add: unat_of_nat_byte)
    then show ?thesis using one l by (simp add: push_data_def GetOp2_def push_size_def)
  next
    case two
    then have "le_val (le_bytes 2 (length b)) = length b" by (simp add: le_val_le_bytes)
    then show ?thesis using two l by (simp add: push_data_def GetOp2_def push_size_def)
  next
    case four
    then have "le_val (le_bytes 4 (length b)) = length b" using assms by (simp add: le_val_le_bytes)
    then show ?thesis using four l by (simp add: push_data_def GetOp2_def push_size_def)
  qed
qed

lemma GetOp2_code: "opcode > OP_PUSHDATA4 \<Longrightarrow> GetOp2 (opcode # pc) = (True, opcode, [], pc)"
  by (simp add: GetOp2_def not_le [symmetric])

datatype instr = Push bytes | Code byte

fun instr_ok :: "instr \<Rightarrow> bool" where
  "instr_ok (Push d) \<longleftrightarrow> True"
| "instr_ok (Code opcode) \<longleftrightarrow> opcode > OP_PUSHDATA4"

fun enc_instr :: "instr \<Rightarrow> bytes" where
  "enc_instr (Push d) = push_data d"
| "enc_instr (Code opcode) = [opcode]"

definition dec_instr :: "bytes \<Rightarrow> (instr \<times> bytes) option" where
  "dec_instr pc =
     (case GetOp2 pc of (fRet, opcode, vch, pc') \<Rightarrow>
        if \<not> fRet then None
        else Some (if opcode \<le> OP_PUSHDATA4 then Push vch else Code opcode, pc'))"

lemma push_data_length: "length (push_data b) > length b"
  by (simp add: push_data_def)

interpretation script: prefix_codec instr_ok enc_instr dec_instr
proof
  fix x rest
  show "instr_ok x \<Longrightarrow> enc_instr x \<noteq> []" by (cases x) (auto simp: push_data_def)
  assume "instr_ok x" "length (enc_instr x @ rest) < 4294967296"
  then show "dec_instr (enc_instr x @ rest) = Some (x, rest)"
  proof (cases x)
    case (Push d)
    then have "length (d @ rest) < 4294967296"
      using \<open>length (enc_instr x @ rest) < 4294967296\<close> push_data_length [of d] by simp
    then show ?thesis using Push GetOp2_push_data [of d rest] by (auto simp: dec_instr_def)
  next
    case (Code opcode)
    then show ?thesis using \<open>instr_ok x\<close> by (simp add: dec_instr_def GetOp2_code not_le)
  qed
qed

definition small_script :: "instr list \<Rightarrow> bytes \<Rightarrow> bool" where
  "small_script is rest \<longleftrightarrow> list_all instr_ok is \<and> length (encode_many enc_instr is @ rest) < 4294967296"

lemma small_script_tl: "small_script (i # is) rest \<Longrightarrow> small_script is rest"
  by (simp add: small_script_def)

text \<open>One step of any scan over a well-formed script.\<close>

lemma GetOp2_instr:
  assumes "small_script (i # is) rest"
  shows "\<exists>opcode vch. GetOp2 (encode_many enc_instr (i # is) @ rest)
      = (True, opcode, vch, encode_many enc_instr is @ rest) \<and>
    (case i of Push d \<Rightarrow> opcode \<le> OP_PUSHDATA4 \<and> vch = d | Code c \<Rightarrow> opcode = c \<and> vch = [])"
proof -
  have "length (enc_instr i @ encode_many enc_instr is @ rest) < 4294967296" "instr_ok i"
    using assms by (simp_all add: small_script_def)
  from script.dec_enc [OF this(2,1)] show ?thesis using \<open>instr_ok i\<close>
    by (cases i) (auto simp: dec_instr_def GetOp2_code not_le split: prod.splits if_splits)
qed

lemma encode_Cons_ne: "instr_ok i \<Longrightarrow> encode_many enc_instr (i # is) @ rest \<noteq> []"
  using script.enc_nonempty [of i] by simp

subsection \<open>Push-only scripts\<close>

fun instr_push :: "instr \<Rightarrow> bool" where
  "instr_push (Push d) \<longleftrightarrow> True"
| "instr_push (Code opcode) \<longleftrightarrow> opcode \<le> OP_16"

lemma IsPushOnly_instr:
  "small_script is [] \<Longrightarrow> IsPushOnly (encode_many enc_instr is) \<longleftrightarrow> list_all instr_push is"
proof (induction "is")
  case Nil
  then show ?case by (simp add: IsPushOnly.simps)
next
  case (Cons i "is")
  define pc where "pc = encode_many enc_instr (i # is)"
  obtain opcode vch where g: "GetOp2 pc = (True, opcode, vch, encode_many enc_instr is)"
      "case i of Push d \<Rightarrow> opcode \<le> OP_PUSHDATA4 \<and> vch = d | Code c \<Rightarrow> opcode = c \<and> vch = []"
    using GetOp2_instr [OF Cons.prems] unfolding pc_def by auto
  have "opcode \<le> OP_16 \<longleftrightarrow> instr_push i"
    using g(2) order_trans [of opcode OP_PUSHDATA4 OP_16] by (cases i) auto
  moreover have "pc \<noteq> []"
    using encode_Cons_ne [of i "is" "[]"] Cons.prems by (simp add: small_script_def pc_def)
  ultimately have "IsPushOnly pc \<longleftrightarrow> instr_push i \<and> IsPushOnly (encode_many enc_instr is)"
    using g(1) by (subst IsPushOnly.simps) (auto simp: not_less [symmetric])
  then show ?case using Cons.IH [OF small_script_tl [OF Cons.prems]] by (simp add: pc_def)
qed

subsection \<open>Deleting instructions\<close>

text \<open>At an instruction boundary the encoding of \<open>o\<close> is a prefix exactly when \<open>o\<close> comes next.\<close>

lemma enc_prefix_head:
  assumes "instr_ok j" "small_script is []" "take (length (enc_instr j)) (encode_many enc_instr is) = enc_instr j"
  shows "\<exists>js. is = j # js"
proof (cases "is")
  case Nil
  then show ?thesis using assms(3) script.enc_nonempty [OF assms(1)] by simp
next
  case (Cons i js)
  have "enc_instr j @ drop (length (enc_instr j)) (encode_many enc_instr is) = enc_instr i @ encode_many enc_instr js"
    using assms(3) Cons by (metis append_take_drop_id concat.simps(2) list.simps(9))
  moreover have "length (enc_instr j @ drop (length (enc_instr j)) (encode_many enc_instr is)) < 4294967296"
    using assms(2) calculation Cons by (simp add: small_script_def)
  ultimately have "j = i" using script.enc_prefix_free [of j i] assms(1,2) Cons by (simp add: small_script_def)
  then show ?thesis using Cons by simp
qed

lemma strip_copies_instr:
  assumes "instr_ok j"
  shows "small_script is [] \<Longrightarrow> \<exists>n js. strip_copies (enc_instr j) (encode_many enc_instr is) = (n, encode_many enc_instr js)
     \<and> is = replicate n j @ js \<and> (js = [] \<or> hd js \<noteq> j)"
proof (induction "is")
  case Nil
  then show ?case using script.enc_nonempty [OF assms]
    by (subst strip_copies.simps) (auto intro!: exI [of _ 0] exI [of _ "[]"])
next
  case (Cons i "is")
  show ?case
  proof (cases "i = j")
    case True
    then obtain n js where n: "strip_copies (enc_instr j) (encode_many enc_instr is) = (n, encode_many enc_instr js)"
        "is = replicate n j @ js" "js = [] \<or> hd js \<noteq> j"
      using Cons.IH [OF small_script_tl [OF Cons.prems]] by blast
    have "strip_copies (enc_instr j) (enc_instr j @ encode_many enc_instr is) = (n + 1, encode_many enc_instr js)"
      using n(1) script.enc_nonempty [OF assms] by (subst strip_copies.simps) simp
    then show ?thesis using True n by (intro exI [of _ "n + 1"] exI [of _ js]) simp
  next
    case False
    then have "take (length (enc_instr j)) (encode_many enc_instr (i # is)) \<noteq> enc_instr j"
      using enc_prefix_head [OF assms Cons.prems] by blast
    then have "strip_copies (enc_instr j) (encode_many enc_instr (i # is)) = (0, encode_many enc_instr (i # is))"
      by (subst strip_copies.simps) (simp only: simp_thms if_False)
    then show ?thesis using False by (intro exI [of _ 0] exI [of _ "i # is"]) simp
  qed
qed

lemma filter_replicate_eq: "filter (\<lambda>i. i \<noteq> j) (replicate n j) = []"
  by simp

lemma delete_loop_instr:
  assumes j: "instr_ok j"
  shows "small_script is [] \<Longrightarrow> delete_loop (enc_instr j) (encode_many enc_instr is)
     = (count_list is j, encode_many enc_instr (filter (\<lambda>i. i \<noteq> j) is))"
proof (induction "length is" arbitrary: "is" rule: less_induct)
  case less
  obtain n js where n: "strip_copies (enc_instr j) (encode_many enc_instr is) = (n, encode_many enc_instr js)"
      "is = replicate n j @ js" "js = [] \<or> hd js \<noteq> j"
    using strip_copies_instr [OF j less.prems] by blast
  have small: "small_script js []" using less.prems n(2) by (simp add: small_script_def)
  have cnt: "count_list (replicate n j) j = n" by (induction n) simp_all
  show ?case
  proof (cases js)
    case Nil
    then show ?thesis using n cnt by (subst delete_loop.simps) (simp add: GetOp2_def)
  next
    case (Cons i ks)
    define pc where "pc = encode_many enc_instr js"
    obtain opcode vch where g: "GetOp2 pc = (True, opcode, vch, encode_many enc_instr ks)"
      using GetOp2_instr [of i ks "[]"] small Cons unfolding pc_def by auto
    have "delete_loop (enc_instr j) (encode_many enc_instr ks)
        = (count_list ks j, encode_many enc_instr (filter (\<lambda>i. i \<noteq> j) ks))"
      using small Cons n(2) small_script_tl [of i ks "[]"] by (intro less.hyps) auto
    moreover have "take (length pc - length (encode_many enc_instr ks)) pc = enc_instr i"
      using Cons by (simp add: pc_def)
    ultimately have "delete_loop (enc_instr j) (encode_many enc_instr is)
        = (n + count_list ks j, enc_instr i @ encode_many enc_instr (filter (\<lambda>i. i \<noteq> j) ks))"
      using n(1) g by (subst delete_loop.simps) (simp add: pc_def [symmetric])
    then show ?thesis using n(2,3) Cons cnt by simp
  qed
qed

text \<open>
  C35. \<open>FindAndDelete\<close> of one instruction in a well-formed script removes exactly the
  instructions equal to it and returns their number: no copy inside an operand is touched.
\<close>

theorem FindAndDelete_instructions:
  assumes "list_all instr_ok is" "instr_ok j" "length (encode_many enc_instr is) < 2 ^ 32"
  shows "FindAndDelete (encode_many enc_instr is) (enc_instr j)
     = (count_list is j, encode_many enc_instr (filter (\<lambda>i. i \<noteq> j) is))"
  using delete_loop_instr [OF assms(2), of "is"] assms script.enc_nonempty [OF assms(2)]
  by (simp add: FindAndDelete_def small_script_def)

theorem FindAndDelete_instructions_witness:
  "FindAndDelete [2, 7, 0xac, 0xab, 0xac, 1, 0xab, 0xab] [0xab] = (2, [2, 7, 0xac, 0xac, 1, 0xab])"
  using FindAndDelete_instructions [of "[Push [7, 0xac], Code 0xab, Code 0xac, Push [0xab], Code 0xab]" "Code 0xab"]
  by (simp add: push_data_def)

subsection \<open>Stripping metadata\<close>

lemma op_drop_pos_instr:
  "small_script (is @ [Code OP_DROP]) rest \<Longrightarrow> Code OP_DROP \<notin> set is \<Longrightarrow>
   op_drop_pos (encode_many enc_instr (is @ [Code OP_DROP]) @ rest) n = Inr (Some (n + length is))"
proof (induction "is" arbitrary: n)
  case Nil
  then show ?case by (subst op_drop_pos.simps) (simp add: GetOp2_code)
next
  case (Cons i "is")
  define pc where "pc = encode_many enc_instr ((i # is) @ [Code OP_DROP]) @ rest"
  have s: "small_script (i # is @ [Code OP_DROP]) rest" using Cons.prems by simp
  obtain opcode vch where g: "GetOp2 pc = (True, opcode, vch, encode_many enc_instr (is @ [Code OP_DROP]) @ rest)"
      "case i of Push d \<Rightarrow> opcode \<le> OP_PUSHDATA4 \<and> vch = d | Code c \<Rightarrow> opcode = c \<and> vch = []"
    using GetOp2_instr [OF s] unfolding pc_def by auto
  have "opcode \<noteq> OP_DROP" using g(2) Cons.prems(2) by (cases i) auto
  moreover have "pc \<noteq> []"
    using encode_Cons_ne [of i "is @ [Code OP_DROP]" rest] s by (simp add: small_script_def pc_def)
  ultimately have "op_drop_pos pc n = op_drop_pos (encode_many enc_instr (is @ [Code OP_DROP]) @ rest) (n + 1)"
    using g(1) by (subst op_drop_pos.simps) simp
  then show ?case using Cons.IH [OF small_script_tl [OF s]] Cons.prems(2) by (simp add: pc_def)
qed

lemma copy_ops_instr:
  "small_script is rest \<Longrightarrow> copy_ops (length is) (encode_many enc_instr is @ rest) = encode_many enc_instr is"
proof (induction "is")
  case (Cons i "is")
  define pc where "pc = encode_many enc_instr (i # is) @ rest"
  obtain opcode vch where g: "GetOp2 pc = (True, opcode, vch, encode_many enc_instr is @ rest)"
      "case i of Push d \<Rightarrow> opcode \<le> OP_PUSHDATA4 \<and> vch = d | Code c \<Rightarrow> opcode = c \<and> vch = []"
    using GetOp2_instr [OF Cons.prems] unfolding pc_def by auto
  have "opcode = 0" if "i = Push []"
    using g(1) that by (simp add: pc_def push_data_def GetOp2_def push_size_def)
  then have "(if vch \<noteq> [] then push_data vch else [opcode]) = enc_instr i"
    using g(2) by (cases i) (auto simp: push_data_def)
  then show ?case using g(1) Cons.IH [OF small_script_tl [OF Cons.prems]]
    by (simp add: pc_def [symmetric] del: concat.simps list.map) simp
qed simp

text \<open>
  C30. Stripping metadata: a script of the form \<open>ops <data> OP_DROP rest\<close>, with no \<open>OP_RETURN\<close>
  in it and no \<open>OP_DROP\<close> among \<open>ops\<close>, loses everything from the operand on and nothing else.
\<close>

theorem RemoveOpDrops_metadata:
  assumes "list_all instr_ok ops" "Code OP_DROP \<notin> set ops"
    and "script = encode_many enc_instr ops @ push_data d @ [OP_DROP] @ rest"
    and "length script < 2 ^ 32" "\<not> has_op_return script"
  shows "RemoveOpDrops script = encode_many enc_instr ops"
proof -
  let ?all = "(ops @ [Push d]) @ [Code OP_DROP]"
  have s: "script = encode_many enc_instr ?all @ rest" using assms(3) by simp
  have small: "small_script ?all rest" using assms(1,4) s by (simp add: small_script_def)
  have "op_drop_pos script 0 = Inr (Some (length ops + 1))"
    unfolding s using op_drop_pos_instr [OF small, of 0] assms(2) by simp
  moreover have "copy_ops (length ops) script = encode_many enc_instr ops"
    using copy_ops_instr [of ops "push_data d @ [OP_DROP] @ rest"] assms(1,3,4)
    by (simp add: small_script_def)
  ultimately show ?thesis using assms(5) by (simp add: RemoveOpDrops_def)
qed

theorem RemoveOpDrops_metadata_witness:
  "RemoveOpDrops [0x76, 0xa9, 2, 1, 2, 0x88, 0xac, 1, 9, 0x75] = [0x76, 0xa9, 2, 1, 2, 0x88, 0xac]"
  using RemoveOpDrops_metadata [of "[Code 0x76, Code 0xa9, Push [1, 2], Code 0x88, Code 0xac]"
      "[0x76, 0xa9, 2, 1, 2, 0x88, 0xac, 1, 9, 0x75]" "[9]" "[]"]
  by (simp add: push_data_def has_op_return.simps GetOp2_def push_size_def)

subsection \<open>Signature operations\<close>

text \<open>
  What \<open>GetSigOpCount\<close> counts, on the instructions of a script: \<open>prev\<close> is the opcode before.
\<close>

fun instr_opcode :: "instr \<Rightarrow> byte" where
  "instr_opcode (Push d) = hd (push_data d)"
| "instr_opcode (Code c) = c"

fun sigops :: "bool \<Rightarrow> byte \<Rightarrow> instr list \<Rightarrow> nat" where
  "sigops acc prev [] = 0"
| "sigops acc prev (i # is) =
     (if i = Code OP_CHECKSIG \<or> i = Code OP_CHECKSIGVERIFY then 1
      else if i = Code OP_CHECKMULTISIG \<or> i = Code OP_CHECKMULTISIGVERIFY then
        (if acc \<and> OP_1 \<le> prev \<and> prev \<le> OP_16 then unat prev - 80 else 20)
      else 0) + sigops acc (instr_opcode i) is"

lemma DecodeOP_N_small: "OP_1 \<le> c \<Longrightarrow> c \<le> OP_16 \<Longrightarrow> DecodeOP_N c = Inr (int (unat c - 80))"
proof -
  assume c: "OP_1 \<le> c" "c \<le> OP_16"
  then have "81 \<le> unat c" by (simp add: word_le_nat_alt)
  then have "int (unat c - 80) = uint c - 80" by (simp add: of_nat_diff)
  moreover have "c \<noteq> 0" using c by auto
  ultimately show ?thesis using c by (simp add: DecodeOP_N_def)
qed

lemma GetOp2_push_opcode:
  assumes "length (b @ rest) < 4294967296"
  shows "GetOp2 (push_data b @ rest) = (True, hd (push_data b), b, rest)"
proof -
  obtain opcode where o: "GetOp2 (push_data b @ rest) = (True, opcode, b, rest)"
    using GetOp2_push_data [OF assms] by blast
  moreover obtain x xs where "push_data b = x # xs" by (cases "push_data b") (auto simp: push_data_def)
  ultimately show ?thesis by (auto simp: GetOp2_def split: if_splits option.splits)
qed

lemma GetOp2_instr_opcode:
  assumes "small_script (i # is) rest"
  shows "GetOp2 (encode_many enc_instr (i # is) @ rest)
      = (True, instr_opcode i, (case i of Push d \<Rightarrow> d | Code c \<Rightarrow> []), encode_many enc_instr is @ rest)"
proof (cases i)
  case (Push d)
  then have "length (d @ encode_many enc_instr is @ rest) < 4294967296"
    using assms push_data_length [of d] by (simp add: small_script_def)
  then show ?thesis using Push GetOp2_push_opcode by simp
next
  case (Code c)
  then show ?thesis using assms by (simp add: small_script_def GetOp2_code)
qed

lemma instr_opcode_eq: "instr_ok i \<Longrightarrow> OP_PUSHDATA4 < c \<Longrightarrow> instr_opcode i = c \<longleftrightarrow> i = Code c"
proof (cases i)
  case (Push d)
  assume "OP_PUSHDATA4 < c"
  obtain opcode where "hd (push_data d) = opcode" "opcode \<le> OP_PUSHDATA4"
  proof -
    have "hd (push_data d) \<le> OP_PUSHDATA4"
      by (auto simp: push_data_def word_le_nat_alt unat_of_nat_byte)
    then show ?thesis using that by blast
  qed
  then show ?thesis using Push \<open>OP_PUSHDATA4 < c\<close> by auto
qed simp

lemma sigop_loop_sigops:
  "small_script is [] \<Longrightarrow> sigop_loop acc (encode_many enc_instr is) prev n = n + sigops acc prev is"
proof (induction "is" arbitrary: prev n)
  case Nil
  then show ?case by (subst sigop_loop.simps) simp
next
  case (Cons i "is")
  define pc where "pc = encode_many enc_instr (i # is)"
  have g: "GetOp2 pc = (True, instr_opcode i, (case i of Push d \<Rightarrow> d | Code c \<Rightarrow> []), encode_many enc_instr is)"
    using GetOp2_instr_opcode [OF Cons.prems] by (simp add: pc_def)
  have ok: "instr_ok i" using Cons.prems by (simp add: small_script_def)
  have ne: "pc \<noteq> []" using encode_Cons_ne [OF ok, of "is" "[]"] by (simp add: pc_def)
  define k where "k = (if i = Code OP_CHECKSIG \<or> i = Code OP_CHECKSIGVERIFY then 1
      else if i = Code OP_CHECKMULTISIG \<or> i = Code OP_CHECKMULTISIGVERIFY then
        (if acc \<and> OP_1 \<le> prev \<and> prev \<le> OP_16 then unat prev - 80 else 20) else (0 :: nat))"
  have "sigop_loop acc pc prev n = sigop_loop acc (encode_many enc_instr is) (instr_opcode i) (n + k)"
    using g ne ok by (subst sigop_loop.simps) (simp add: instr_opcode_eq k_def DecodeOP_N_small)
  then show ?case using Cons.IH [OF small_script_tl [OF Cons.prems]] by (simp add: pc_def k_def)
qed

text \<open>
  C25. The signature-operation count of a well-formed script: one for each single check, and for
  each multisignature check \<open>20\<close>, or in the accurate count the small integer before it; operands
  are never counted, and the accurate count is at most the other one.
\<close>

theorem GetSigOpCount_instructions:
  assumes "list_all instr_ok is" "length (encode_many enc_instr is) < 2 ^ 32"
  shows "GetSigOpCount (encode_many enc_instr is) acc = sigops acc OP_INVALIDOPCODE is
    \<and> GetSigOpCount (encode_many enc_instr is) True \<le> GetSigOpCount (encode_many enc_instr is) False"
proof -
  have "unat c - 80 \<le> 20" if "c \<le> OP_16" for c :: byte using that by (simp add: word_le_nat_alt)
  then have "sigops True c is \<le> sigops False c is" for c
    by (induction "is" arbitrary: c) (auto intro: add_mono)
  then show ?thesis using assms by (simp add: GetSigOpCount_def sigop_loop_sigops small_script_def)
qed

theorem GetSigOpCount_instructions_witness:
  "GetSigOpCount [0x52, 1, 0xae, 0x53, 0xae] True = 3"
  using GetSigOpCount_instructions [of "[Code 0x52, Push [0xae], Code 0x53, Code 0xae]" True]
  by (simp add: push_data_def)

end
