(* ===== verification/SigEncoding.thy ===== *)
theory SigEncoding
  imports Script
begin

text \<open>
  The checks of \<^verbatim>\<open>script/interpreter.cpp\<close> on the shape of what scripts push: truth values,
  public keys, DER signatures, minimal pushes. Errors are the values of \<open>ScriptError\<close>
  (\<^verbatim>\<open>script/script_error.h\<close>); a check returns \<open>None\<close> when it passes. The hash functions and the
  low-\<open>S\<close> test, which the code takes from its crypto classes and from \<open>libsecp256k1\<close>, are fields
  of \<open>script_env\<close>, as is the signature checker that the interpreter is called with.
\<close>

datatype ScriptError =
    SCRIPT_ERR_OK | SCRIPT_ERR_UNKNOWN_ERROR | SCRIPT_ERR_EVAL_FALSE | SCRIPT_ERR_OP_RETURN
  | SCRIPT_ERR_SCRIPT_SIZE | SCRIPT_ERR_PUSH_SIZE | SCRIPT_ERR_OP_COUNT | SCRIPT_ERR_STACK_SIZE
  | SCRIPT_ERR_SIG_COUNT | SCRIPT_ERR_PUBKEY_COUNT | SCRIPT_ERR_VERIFY | SCRIPT_ERR_EQUALVERIFY
  | SCRIPT_ERR_CHECKMULTISIGVERIFY | SCRIPT_ERR_CHECKSIGVERIFY | SCRIPT_ERR_NUMEQUALVERIFY
  | SCRIPT_ERR_BAD_OPCODE | SCRIPT_ERR_DISABLED_OPCODE | SCRIPT_ERR_INVALID_STACK_OPERATION
  | SCRIPT_ERR_INVALID_ALTSTACK_OPERATION | SCRIPT_ERR_UNBALANCED_CONDITIONAL
  | SCRIPT_ERR_SIG_HASHTYPE | SCRIPT_ERR_SIG_DER | SCRIPT_ERR_MINIMALDATA | SCRIPT_ERR_SIG_PUSHONLY
  | SCRIPT_ERR_SIG_HIGH_S | SCRIPT_ERR_SIG_NULLDUMMY | SCRIPT_ERR_PUBKEYTYPE
  | SCRIPT_ERR_DISCOURAGE_UPGRADABLE_NOPS

abbreviation (input) "SIGHASH_ALL \<equiv> (1 :: byte)"
abbreviation (input) "SIGHASH_NONE \<equiv> (2 :: byte)"
abbreviation (input) "SIGHASH_SINGLE \<equiv> (3 :: byte)"
abbreviation (input) "SIGHASH_ANYONECANPAY \<equiv> (0x80 :: byte)"

abbreviation (input) "SCRIPT_VERIFY_P2SH \<equiv> (1 :: u32)"
abbreviation (input) "SCRIPT_VERIFY_STRICTENC \<equiv> (2 :: u32)"
abbreviation (input) "SCRIPT_VERIFY_DERSIG \<equiv> (4 :: u32)"
abbreviation (input) "SCRIPT_VERIFY_LOW_S \<equiv> (8 :: u32)"
abbreviation (input) "SCRIPT_VERIFY_NULLDUMMY \<equiv> (16 :: u32)"
abbreviation (input) "SCRIPT_VERIFY_SIGPUSHONLY \<equiv> (32 :: u32)"
abbreviation (input) "SCRIPT_VERIFY_MINIMALDATA \<equiv> (64 :: u32)"
abbreviation (input) "SCRIPT_VERIFY_DISCOURAGE_UPGRADABLE_NOPS \<equiv> (128 :: u32)"
abbreviation (input) "SCRIPT_VERIFY_SKIP_SEND_PERMISSION_CHECK \<equiv> (0x1000000 :: u32)"

text \<open>
  \<open>CheckSig vchSig vchPubKey scriptCode CheckSendPermission\<close> returns its result and the new value
  of the reference argument \<open>CheckSendPermission\<close>.
\<close>

record script_env =
  env_ripemd160 :: "bytes \<Rightarrow> bytes"
  env_sha1 :: "bytes \<Rightarrow> bytes"
  env_sha256 :: "bytes \<Rightarrow> bytes"
  env_CheckLowS :: "bytes \<Rightarrow> bool"
  env_CheckSig :: "bytes \<Rightarrow> bytes \<Rightarrow> bytes \<Rightarrow> bool \<Rightarrow> bool \<times> bool"

definition CHash160 :: "script_env \<Rightarrow> bytes \<Rightarrow> bytes" where
  "CHash160 env b = env_ripemd160 env (env_sha256 env b)"

definition CHash256 :: "script_env \<Rightarrow> bytes \<Rightarrow> bytes" where
  "CHash256 env b = env_sha256 env (env_sha256 env b)"

fun CastToBool :: "bytes \<Rightarrow> bool" where
  "CastToBool [] = False"
| "CastToBool (b # bs) =
     (if b \<noteq> 0 then (if bs = [] \<and> b = 0x80 then False else True) else CastToBool bs)"

definition IsCompressedOrUncompressedPubKey :: "bytes \<Rightarrow> bool" where
  "IsCompressedOrUncompressedPubKey vchPubKey =
     (if length vchPubKey < 33 then False
      else if vchPubKey ! 0 = 0x04 then (if length vchPubKey \<noteq> 65 then False else True)
      else if vchPubKey ! 0 = 0x02 \<or> vchPubKey ! 0 = 0x03 then
        (if length vchPubKey \<noteq> 33 then False else True)
      else False)"

definition IsValidSignatureEncoding :: "bytes \<Rightarrow> bool" where
  "IsValidSignatureEncoding sig =
     (if length sig < 9 then False
      else if length sig > 73 then False
      else if sig ! 0 \<noteq> 0x30 then False
      else if unat (sig ! 1) \<noteq> length sig - 3 then False
      else let lenR = unat (sig ! 3) in
        if 5 + lenR \<ge> length sig then False
        else let lenS = unat (sig ! (5 + lenR)) in
          if lenR + lenS + 7 \<noteq> length sig then False
          else if sig ! 2 \<noteq> 0x02 then False
          else if lenR = 0 then False
          else if sig ! 4 AND 0x80 \<noteq> 0 then False
          else if lenR > 1 \<and> sig ! 4 = 0 \<and> \<not> (sig ! 5 AND 0x80 \<noteq> 0) then False
          else if sig ! (lenR + 4) \<noteq> 0x02 then False
          else if lenS = 0 then False
          else if sig ! (lenR + 6) AND 0x80 \<noteq> 0 then False
          else if lenS > 1 \<and> sig ! (lenR + 6) = 0 \<and> \<not> (sig ! (lenR + 7) AND 0x80 \<noteq> 0) then False
          else True)"

text \<open>
  \<open>IsLowDERSignature\<close> sets an error only for a bad encoding; a high \<open>S\<close> leaves the error that
  \<open>EvalScript\<close> set at its start.
\<close>

definition IsLowDERSignature :: "script_env \<Rightarrow> bytes \<Rightarrow> ScriptError option" where
  "IsLowDERSignature env vchSig =
     (if \<not> IsValidSignatureEncoding vchSig then Some SCRIPT_ERR_SIG_DER
      else if env_CheckLowS env (butlast vchSig) then None else Some SCRIPT_ERR_UNKNOWN_ERROR)"

definition IsDefinedHashtypeSignature :: "bytes \<Rightarrow> bool" where
  "IsDefinedHashtypeSignature vchSig =
     (if length vchSig = 0 then False
      else let nHashType = last vchSig AND NOT SIGHASH_ANYONECANPAY in
        if nHashType < SIGHASH_ALL \<or> nHashType > SIGHASH_SINGLE then False else True)"

definition CheckSignatureEncoding :: "script_env \<Rightarrow> bytes \<Rightarrow> u32 \<Rightarrow> ScriptError option" where
  "CheckSignatureEncoding env vchSig flags =
     (if length vchSig = 0 then None
      else if flags AND (SCRIPT_VERIFY_DERSIG OR SCRIPT_VERIFY_LOW_S OR SCRIPT_VERIFY_STRICTENC) \<noteq> 0 \<and>
              \<not> IsValidSignatureEncoding vchSig
      then Some SCRIPT_ERR_SIG_DER
      else if flags AND SCRIPT_VERIFY_LOW_S \<noteq> 0 \<and> IsLowDERSignature env vchSig \<noteq> None
      then IsLowDERSignature env vchSig
      else if flags AND SCRIPT_VERIFY_STRICTENC \<noteq> 0 \<and> \<not> IsDefinedHashtypeSignature vchSig
      then Some SCRIPT_ERR_SIG_HASHTYPE
      else None)"

definition CheckPubKeyEncoding :: "bytes \<Rightarrow> u32 \<Rightarrow> ScriptError option" where
  "CheckPubKeyEncoding vchPubKey flags =
     (if flags AND SCRIPT_VERIFY_STRICTENC \<noteq> 0 \<and> \<not> IsCompressedOrUncompressedPubKey vchPubKey
      then Some SCRIPT_ERR_PUBKEYTYPE else None)"

definition CheckMinimalPush :: "bytes \<Rightarrow> byte \<Rightarrow> bool" where
  "CheckMinimalPush data opcode =
     (if length data = 0 then opcode = OP_0
      else if length data = 1 \<and> data ! 0 \<ge> 1 \<and> data ! 0 \<le> 16 then opcode = OP_1 + (data ! 0 - 1)
      else if length data = 1 \<and> data ! 0 = 0x81 then opcode = OP_1NEGATE
      else if length data \<le> 75 then unat opcode = length data
      else if length data \<le> 255 then opcode = OP_PUSHDATA1
      else if length data \<le> 65535 then opcode = OP_PUSHDATA2
      else True)"

section \<open>What the checks accept\<close>

text \<open>A DER integer that is not negative: not empty, sign bit clear, no superfluous leading zero.\<close>

definition der_integer :: "bytes \<Rightarrow> bool" where
  "der_integer r \<longleftrightarrow> r \<noteq> [] \<and> unat (hd r) < 128 \<and>
     (length r > 1 \<and> hd r = 0 \<longrightarrow> 128 \<le> unat (r ! 1))"

definition der_signature :: "bytes \<Rightarrow> bytes \<Rightarrow> byte \<Rightarrow> bytes" where
  "der_signature r s hashtype =
     [0x30, of_nat (length r + length s + 4), 0x02, of_nat (length r)] @ r @
     [0x02, of_nat (length s)] @ s @ [hashtype]"

lemma der_signature_valid:
  assumes "der_integer r" "der_integer s" "length r + length s \<le> 66"
  shows "IsValidSignatureEncoding (der_signature r s h)"
proof -
  have u: "unat (of_nat (length r) :: byte) = length r" "unat (of_nat (length s) :: byte) = length s"
    "unat (of_nat (length r + length s + 4) :: byte) = length r + length s + 4"
    using assms(3) by (simp_all add: unat_of_nat_byte del: of_nat_add)
  obtain a r' where r: "r = a # r'" using assms(1) by (cases r) (auto simp: der_integer_def)
  obtain b s' where s: "s = b # s'" using assms(2) by (cases s) (auto simp: der_integer_def)
  have "a = 0 \<longrightarrow> r' \<noteq> [] \<longrightarrow> 128 \<le> unat (r' ! 0)" "unat a < 128"
    "b = 0 \<longrightarrow> s' \<noteq> [] \<longrightarrow> 128 \<le> unat (s' ! 0)" "unat b < 128"
    using assms(1,2) r s by (auto simp: der_integer_def)
  then show ?thesis using u assms(3) unfolding r s
    by (cases r'; cases s')
       (simp_all add: IsValidSignatureEncoding_def der_signature_def Let_def byte_and_0x80 nth_append
          not_less del: of_nat_add of_nat_Suc)
qed

lemma der_signature_nth:
  "der_signature r s h ! (k + 4) = (r @ [0x02, of_nat (length s)] @ s @ [h]) ! k"
  by (simp add: der_signature_def numeral_eq_Suc)

lemma valid_der_signature:
  assumes v: "IsValidSignatureEncoding sig"
  shows "\<exists>r s h. sig = der_signature r s h \<and> der_integer r \<and> der_integer s \<and> length r + length s \<le> 66"
proof -
  define lenR where "lenR = unat (sig ! 3)"
  define lenS where "lenS = unat (sig ! (5 + lenR))"
  note v' = v [unfolded IsValidSignatureEncoding_def Let_def, folded lenR_def, folded lenS_def]
  have len: "9 \<le> length sig" "length sig \<le> 73" "lenR + lenS + 7 = length sig"
    and tag: "sig ! 0 = 0x30" "unat (sig ! 1) = length sig - 3" "sig ! 2 = 0x02" "sig ! (lenR + 4) = 0x02"
    and r: "lenR \<noteq> 0" "unat (sig ! 4) < 128" "lenR > 1 \<and> sig ! 4 = 0 \<longrightarrow> 128 \<le> unat (sig ! 5)"
    and s: "lenS \<noteq> 0" "unat (sig ! (lenR + 6)) < 128"
      "lenS > 1 \<and> sig ! (lenR + 6) = 0 \<longrightarrow> 128 \<le> unat (sig ! (lenR + 7))"
    using v' by (auto simp: byte_and_0x80 not_less split: if_splits)
  define R where "R = take lenR (drop 4 sig)"
  define S where "S = take lenS (drop (lenR + 6) sig)"
  have l: "length R = lenR" "length S = lenS" using len by (simp_all add: R_def S_def)
  have nR: "R ! i = sig ! (i + 4)" if "i < lenR" for i using that len by (simp add: R_def add.commute)
  have nS: "S ! i = sig ! (lenR + 6 + i)" if "i < lenS" for i using that len by (simp add: S_def)
  have "der_integer R" using r l nR [of 0] nR [of 1] by (auto simp: der_integer_def hd_conv_nth simp flip: length_0_conv)
  moreover have "der_integer S"
    using s l nS [of 0] nS [of 1]
    by (auto simp: der_integer_def hd_conv_nth add.commute simp flip: length_0_conv)
  moreover have "sig = der_signature R S (last sig)"
  proof (rule nth_equalityI)
    show "length sig = length (der_signature R S (last sig))" using len l by (simp add: der_signature_def)
    have "lenR + lenS + 4 = unat (sig ! 1)" using tag(2) len by simp
    then have b1: "of_nat (lenR + lenS + 4) = sig ! 1" by (metis unat_of_nat_byte of_nat_unat ucast_id word_unat_eq_iff mod_less unat_lt_8)
    have b3: "of_nat lenR = sig ! 3" by (simp add: lenR_def)
    have b5: "of_nat lenS = sig ! (5 + lenR)" by (simp add: lenS_def)
    fix i assume "i < length sig"
    then consider "i < 4" | "4 \<le> i" "i < lenR + 4" | "i = lenR + 4" | "i = lenR + 5"
      | "lenR + 6 \<le> i" "i < lenR + 6 + lenS" | "i = lenR + 6 + lenS" using len by linarith
    then show "sig ! i = der_signature R S (last sig) ! i"
    proof cases
      case 1
      then consider "i = 0" | "i = 1" | "i = 2" | "i = 3" by linarith
      then show ?thesis using tag b1 b3 l by cases (simp_all add: der_signature_def del: of_nat_add)
    next
      case 2
      then obtain k where "i = k + 4" "k < lenR" using le_Suc_ex [of 4 i] by (auto simp: add.commute)
      then show ?thesis using l nR [of k] by (simp only: der_signature_nth nth_append if_True)
    next
      case 3
      then show ?thesis using l tag by (simp only: der_signature_nth) (simp add: nth_append)
    next
      case 4
      then have "i = Suc lenR + 4" by simp
      then show ?thesis using l b5 by (simp only: der_signature_nth) (simp add: nth_append)
    next
      case 5
      then obtain k where k: "i = lenR + 6 + k" "k < lenS" using le_Suc_ex [of "lenR + 6" i] by auto
      then have "i = Suc (Suc (lenR + k)) + 4" by simp
      then show ?thesis using l nS [OF k(2)] k(2) by (simp only: der_signature_nth) (simp add: nth_append k(1) ac_simps)
    next
      case 6
      then have i: "i = Suc (Suc (lenR + lenS)) + 4" by simp
      have "i = length sig - 1" "sig \<noteq> []" using 6 len by auto
      then have "sig ! i = last sig" by (simp add: last_conv_nth)
      then show ?thesis using l i by (simp only: der_signature_nth) (simp add: nth_append)
    qed
  qed
  ultimately show ?thesis using l len by (intro exI [of _ R] exI [of _ S] exI [of _ "last sig"]) simp
qed

text \<open>
  The shortest big-endian two's complement encoding of a natural number: the last byte holds eight
  bits, the first one seven. Zero is one zero byte.
\<close>

fun der_nat :: "nat \<Rightarrow> bytes" where
  "der_nat n = (if n < 128 then [of_nat n] else der_nat (n div 256) @ [of_nat (n mod 256)])"

declare der_nat.simps [simp del]

lemma der_nat_integer: "der_integer (der_nat n)"
proof (induction n rule: der_nat.induct)
  case (1 n)
  show ?case
  proof (cases "n < 128")
    case True
    then show ?thesis by (subst der_nat.simps) (simp add: der_integer_def unat_of_nat_byte)
  next
    case False
    let ?xs = "der_nat (n div 256)"
    have e: "der_nat n = ?xs @ [of_nat (n mod 256)]" using False by (subst der_nat.simps) simp
    have xs: "der_integer ?xs" using 1 False by blast
    then have ne: "?xs \<noteq> []" by (simp add: der_integer_def)
    show ?thesis
    proof (cases "length ?xs > 1")
      case True
      then show ?thesis using xs ne unfolding e by (simp add: der_integer_def nth_append)
    next
      case short: False
      then obtain b where b: "?xs = [b]" using ne by (cases ?xs) auto
      then have "n div 256 < 128" by (subst (asm) der_nat.simps) (auto split: if_splits simp: der_nat.simps [of "n div 256 div 256"])
      then have "b = of_nat (n div 256)" "unat b = n div 256" using b by (subst (asm) der_nat.simps, auto simp: unat_of_nat_byte)+
      have "128 \<le> n mod 256" if "b = 0"
      proof -
        have "n div 256 = 0" using that \<open>unat b = n div 256\<close> by simp
        then show ?thesis using False by (simp add: div_eq_0_iff)
      qed
      then show ?thesis using xs unfolding e b by (auto simp: der_integer_def unat_of_nat_byte)
    qed
  qed
qed

lemma der_integer_nat: "der_integer r \<Longrightarrow> \<exists>n. r = der_nat n"
proof (induction r rule: rev_induct)
  case (snoc b xs)
  show ?case
  proof (cases "xs = []")
    case True
    then have "r = der_nat (unat b)" if "r = xs @ [b]" for r
      using snoc.prems that by (subst der_nat.simps) (simp add: der_integer_def)
    then show ?thesis by blast
  next
    case False
    have "der_integer xs" using snoc.prems False by (auto simp: der_integer_def nth_append)
    then obtain m where m: "xs = der_nat m" using snoc.IH by blast
    have "128 \<le> 256 * m + unat b"
    proof (cases "m = 0")
      case True
      then have "xs = [0]" unfolding m by (simp add: der_nat.simps)
      then show ?thesis using snoc.prems by (simp add: der_integer_def)
    qed simp
    then have "der_nat (256 * m + unat b) = xs @ [b]" using m unat_lt_8 [of b] by (subst der_nat.simps) (simp add: div_mult_self4)
    then show ?thesis by metis
  qed
qed (simp add: der_integer_def)

text \<open>
  C37. Strict DER: the accepted signatures are exactly the byte strings
  \<open>30 len 02 |R| R 02 |S| S hashtype\<close> of at most 73 bytes in which \<open>R\<close> and \<open>S\<close> are the shortest encodings
  of two natural numbers. Zero is one of them: \<open>30 06 02 01 00 02 01 00 01\<close> is accepted, although the
  comments ask for positive integers which do not start with a zero byte unless a byte with the
  sign bit follows.
\<close>

theorem IsValidSignatureEncoding_iff:
  "IsValidSignatureEncoding sig \<longleftrightarrow>
     (\<exists>R S h. sig = der_signature (der_nat R) (der_nat S) h \<and> length (der_nat R) + length (der_nat S) \<le> 66)"
  using valid_der_signature [of sig] der_signature_valid der_nat_integer der_integer_nat by metis

lemma zero_signature: "IsValidSignatureEncoding [0x30, 6, 2, 1, 0, 2, 1, 0, 1]"
  by (simp add: IsValidSignatureEncoding_def)

end
