(* ===== verification/Interpreter.thy ===== *)
theory Interpreter
  imports SigEncoding "HOL-Library.Sublist"
begin

text \<open>
  The script interpreter of \<^verbatim>\<open>script/interpreter.cpp\<close>: \<open>EvalScript\<close>, a stack machine, and
  \<open>VerifyScript\<close>. A stack (a vector whose top is its back) is a list whose head is the top, and
  so is \<open>vfExec\<close>. The cases of the opcode switch are one definition per group; each returns an
  error or the new state. An exception inside the loop becomes \<open>SCRIPT_ERR_UNKNOWN_ERROR\<close>, as
  the \<open>catch\<close> clause of the code has it.
\<close>

type_synonym valstack = "bytes list"

record eval_state =
  stack :: valstack
  altstack :: valstack
  vfExec :: "bool list"
  nOpCount :: int
  pbegincodehash :: bytes

type_synonym step_result = "ScriptError + eval_state"

abbreviation (input) vchFalse :: bytes where "vchFalse \<equiv> []"
abbreviation (input) vchTrue :: bytes where "vchTrue \<equiv> [1]"

abbreviation (input) vch_bool :: "bool \<Rightarrow> bytes" where
  "vch_bool b \<equiv> if b then vchTrue else vchFalse"

definition num_operand :: "bool \<Rightarrow> bytes \<Rightarrow> ScriptError + int" where
  "num_operand fRequireMinimal vch =
     (case CScriptNum vch fRequireMinimal of Inl _ \<Rightarrow> Inl SCRIPT_ERR_UNKNOWN_ERROR | Inr n \<Rightarrow> Inr n)"

definition bind_err :: "'e + 'a \<Rightarrow> ('a \<Rightarrow> 'e + 'b) \<Rightarrow> 'e + 'b" where
  "bind_err r f = (case r of Inl e \<Rightarrow> Inl e | Inr x \<Rightarrow> f x)"

lemma bind_err_simps [simp]: "bind_err (Inl e) f = Inl e" "bind_err (Inr x) f = f x"
  by (simp_all add: bind_err_def)

lemma bind_err_Inr: "bind_err r f = Inr y \<longleftrightarrow> (\<exists>x. r = Inr x \<and> f x = Inr y)"
  by (cases r) simp_all

subsection \<open>Control\<close>

definition op_push_value :: "byte \<Rightarrow> eval_state \<Rightarrow> step_result" where
  "op_push_value opcode st =
     Inr (st\<lparr>stack := serialize (uint opcode - (uint OP_1 - 1)) # stack st\<rparr>)"

definition op_control :: "u32 \<Rightarrow> bool \<Rightarrow> byte \<Rightarrow> eval_state \<Rightarrow> step_result" where
  "op_control flags fExec opcode st =
     (if opcode = OP_NOP then Inr st
      else if OP_NOP1 \<le> opcode \<and> opcode \<le> OP_NOP10 then
        (if flags AND SCRIPT_VERIFY_DISCOURAGE_UPGRADABLE_NOPS \<noteq> 0
         then Inl SCRIPT_ERR_DISCOURAGE_UPGRADABLE_NOPS else Inr st)
      else if opcode = OP_IF \<or> opcode = OP_NOTIF then
        (if fExec then
           (case stack st of
              [] \<Rightarrow> Inl SCRIPT_ERR_UNBALANCED_CONDITIONAL
            | vch # rest \<Rightarrow>
                (let fValue = CastToBool vch;
                     fValue = (if opcode = OP_NOTIF then \<not> fValue else fValue)
                 in Inr (st\<lparr>stack := rest, vfExec := fValue # vfExec st\<rparr>)))
         else Inr (st\<lparr>vfExec := False # vfExec st\<rparr>))
      else if opcode = OP_ELSE then
        (case vfExec st of
           [] \<Rightarrow> Inl SCRIPT_ERR_UNBALANCED_CONDITIONAL
         | b # bs \<Rightarrow> Inr (st\<lparr>vfExec := (\<not> b) # bs\<rparr>))
      else if opcode = OP_ENDIF then
        (case vfExec st of
           [] \<Rightarrow> Inl SCRIPT_ERR_UNBALANCED_CONDITIONAL
         | b # bs \<Rightarrow> Inr (st\<lparr>vfExec := bs\<rparr>))
      else if opcode = OP_VERIFY then
        (case stack st of
           [] \<Rightarrow> Inl SCRIPT_ERR_INVALID_STACK_OPERATION
         | vch # rest \<Rightarrow> if CastToBool vch then Inr (st\<lparr>stack := rest\<rparr>) else Inl SCRIPT_ERR_VERIFY)
      else if opcode = OP_RETURN then Inl SCRIPT_ERR_OP_RETURN
      else Inl SCRIPT_ERR_BAD_OPCODE)"

subsection \<open>Stack operations\<close>

definition op_pick_roll :: "bool \<Rightarrow> byte \<Rightarrow> eval_state \<Rightarrow> step_result" where
  "op_pick_roll fRequireMinimal opcode st =
     (case stack st of
        vchN # x # rest \<Rightarrow>
          bind_err (num_operand fRequireMinimal vchN) (\<lambda>m.
            let n = getint m; s = x # rest in
            if n < 0 \<or> n \<ge> int (length s) then Inl SCRIPT_ERR_INVALID_STACK_OPERATION
            else
              let vch = s ! nat n;
                  s = (if opcode = OP_ROLL then take (nat n) s @ drop (nat n + 1) s else s)
              in Inr (st\<lparr>stack := vch # s\<rparr>))
      | _ \<Rightarrow> Inl SCRIPT_ERR_INVALID_STACK_OPERATION)"

fun stack_op :: "byte \<Rightarrow> valstack \<Rightarrow> valstack option" where
  "stack_op opcode s =
     (if opcode = OP_2DROP then (case s of x2 # x1 # r \<Rightarrow> Some r | _ \<Rightarrow> None)
      else if opcode = OP_2DUP then (case s of x2 # x1 # r \<Rightarrow> Some (x2 # x1 # x2 # x1 # r) | _ \<Rightarrow> None)
      else if opcode = OP_3DUP then
        (case s of x3 # x2 # x1 # r \<Rightarrow> Some (x3 # x2 # x1 # x3 # x2 # x1 # r) | _ \<Rightarrow> None)
      else if opcode = OP_2OVER then
        (case s of x4 # x3 # x2 # x1 # r \<Rightarrow> Some (x2 # x1 # x4 # x3 # x2 # x1 # r) | _ \<Rightarrow> None)
      else if opcode = OP_2ROT then
        (case s of x6 # x5 # x4 # x3 # x2 # x1 # r \<Rightarrow> Some (x2 # x1 # x6 # x5 # x4 # x3 # r) | _ \<Rightarrow> None)
      else if opcode = OP_2SWAP then
        (case s of x4 # x3 # x2 # x1 # r \<Rightarrow> Some (x2 # x1 # x4 # x3 # r) | _ \<Rightarrow> None)
      else if opcode = OP_IFDUP then
        (case s of x # r \<Rightarrow> Some (if CastToBool x then x # x # r else x # r) | _ \<Rightarrow> None)
      else if opcode = OP_DEPTH then Some (serialize (int (length s)) # s)
      else if opcode = OP_DROP then (case s of x # r \<Rightarrow> Some r | _ \<Rightarrow> None)
      else if opcode = OP_DUP then (case s of x # r \<Rightarrow> Some (x # x # r) | _ \<Rightarrow> None)
      else if opcode = OP_NIP then (case s of x2 # x1 # r \<Rightarrow> Some (x2 # r) | _ \<Rightarrow> None)
      else if opcode = OP_OVER then (case s of x2 # x1 # r \<Rightarrow> Some (x1 # x2 # x1 # r) | _ \<Rightarrow> None)
      else if opcode = OP_ROT then
        (case s of x3 # x2 # x1 # r \<Rightarrow> Some (x1 # x3 # x2 # r) | _ \<Rightarrow> None)
      else if opcode = OP_SWAP then (case s of x2 # x1 # r \<Rightarrow> Some (x1 # x2 # r) | _ \<Rightarrow> None)
      else if opcode = OP_TUCK then (case s of x2 # x1 # r \<Rightarrow> Some (x2 # x1 # x2 # r) | _ \<Rightarrow> None)
      else if opcode = OP_SIZE then
        (case s of x # r \<Rightarrow> Some (serialize (int (length x)) # x # r) | _ \<Rightarrow> None)
      else None)"

declare stack_op.simps [simp del]

definition op_stack :: "bool \<Rightarrow> byte \<Rightarrow> eval_state \<Rightarrow> step_result" where
  "op_stack fRequireMinimal opcode st =
     (if opcode = OP_TOALTSTACK then
        (case stack st of
           [] \<Rightarrow> Inl SCRIPT_ERR_INVALID_STACK_OPERATION
         | x # r \<Rightarrow> Inr (st\<lparr>stack := r, altstack := x # altstack st\<rparr>))
      else if opcode = OP_FROMALTSTACK then
        (case altstack st of
           [] \<Rightarrow> Inl SCRIPT_ERR_INVALID_ALTSTACK_OPERATION
         | x # r \<Rightarrow> Inr (st\<lparr>stack := x # stack st, altstack := r\<rparr>))
      else if opcode = OP_PICK \<or> opcode = OP_ROLL then op_pick_roll fRequireMinimal opcode st
      else case stack_op opcode (stack st) of
             None \<Rightarrow> Inl SCRIPT_ERR_INVALID_STACK_OPERATION
           | Some s \<Rightarrow> Inr (st\<lparr>stack := s\<rparr>))"

definition op_equal :: "byte \<Rightarrow> eval_state \<Rightarrow> step_result" where
  "op_equal opcode st =
     (case stack st of
        vch2 # vch1 # rest \<Rightarrow>
          (let fEqual = (vch1 = vch2) in
           if opcode = OP_EQUALVERIFY then
             (if fEqual then Inr (st\<lparr>stack := rest\<rparr>) else Inl SCRIPT_ERR_EQUALVERIFY)
           else Inr (st\<lparr>stack := vch_bool fEqual # rest\<rparr>))
      | _ \<Rightarrow> Inl SCRIPT_ERR_INVALID_STACK_OPERATION)"

subsection \<open>Numeric operations\<close>

definition numeric1 :: "byte \<Rightarrow> int \<Rightarrow> int" where
  "numeric1 opcode bn =
     (if opcode = OP_1ADD then bn + 1
      else if opcode = OP_1SUB then bn - 1
      else if opcode = OP_NEGATE then - bn
      else if opcode = OP_ABS then (if bn < 0 then - bn else bn)
      else if opcode = OP_NOT then of_bool (bn = 0)
      else of_bool (bn \<noteq> 0))"

definition op_numeric1 :: "bool \<Rightarrow> byte \<Rightarrow> eval_state \<Rightarrow> step_result" where
  "op_numeric1 fRequireMinimal opcode st =
     (case stack st of
        [] \<Rightarrow> Inl SCRIPT_ERR_INVALID_STACK_OPERATION
      | x # rest \<Rightarrow>
          bind_err (num_operand fRequireMinimal x) (\<lambda>bn.
            Inr (st\<lparr>stack := serialize (numeric1 opcode bn) # rest\<rparr>)))"

definition numeric2 :: "byte \<Rightarrow> int \<Rightarrow> int \<Rightarrow> int" where
  "numeric2 opcode bn1 bn2 =
     (if opcode = OP_ADD then bn1 + bn2
      else if opcode = OP_SUB then bn1 - bn2
      else if opcode = OP_BOOLAND then of_bool (bn1 \<noteq> 0 \<and> bn2 \<noteq> 0)
      else if opcode = OP_BOOLOR then of_bool (bn1 \<noteq> 0 \<or> bn2 \<noteq> 0)
      else if opcode = OP_NUMEQUAL \<or> opcode = OP_NUMEQUALVERIFY then of_bool (bn1 = bn2)
      else if opcode = OP_NUMNOTEQUAL then of_bool (bn1 \<noteq> bn2)
      else if opcode = OP_LESSTHAN then of_bool (bn1 < bn2)
      else if opcode = OP_GREATERTHAN then of_bool (bn1 > bn2)
      else if opcode = OP_LESSTHANOREQUAL then of_bool (bn1 \<le> bn2)
      else if opcode = OP_GREATERTHANOREQUAL then of_bool (bn1 \<ge> bn2)
      else if opcode = OP_MIN then (if bn1 < bn2 then bn1 else bn2)
      else (if bn1 > bn2 then bn1 else bn2))"

definition op_numeric2 :: "bool \<Rightarrow> byte \<Rightarrow> eval_state \<Rightarrow> step_result" where
  "op_numeric2 fRequireMinimal opcode st =
     (case stack st of
        x2 # x1 # rest \<Rightarrow>
          bind_err (num_operand fRequireMinimal x1) (\<lambda>bn1.
          bind_err (num_operand fRequireMinimal x2) (\<lambda>bn2.
            let vch = serialize (numeric2 opcode bn1 bn2) in
            if opcode = OP_NUMEQUALVERIFY then
              (if CastToBool vch then Inr (st\<lparr>stack := rest\<rparr>) else Inl SCRIPT_ERR_NUMEQUALVERIFY)
            else Inr (st\<lparr>stack := vch # rest\<rparr>)))
      | _ \<Rightarrow> Inl SCRIPT_ERR_INVALID_STACK_OPERATION)"

definition op_within :: "bool \<Rightarrow> eval_state \<Rightarrow> step_result" where
  "op_within fRequireMinimal st =
     (case stack st of
        x3 # x2 # x1 # rest \<Rightarrow>
          bind_err (num_operand fRequireMinimal x1) (\<lambda>bn1.
          bind_err (num_operand fRequireMinimal x2) (\<lambda>bn2.
          bind_err (num_operand fRequireMinimal x3) (\<lambda>bn3.
            Inr (st\<lparr>stack := vch_bool (bn2 \<le> bn1 \<and> bn1 < bn3) # rest\<rparr>))))
      | _ \<Rightarrow> Inl SCRIPT_ERR_INVALID_STACK_OPERATION)"

subsection \<open>Hashes and signatures\<close>

definition op_hash :: "script_env \<Rightarrow> byte \<Rightarrow> eval_state \<Rightarrow> step_result" where
  "op_hash env opcode st =
     (case stack st of
        [] \<Rightarrow> Inl SCRIPT_ERR_INVALID_STACK_OPERATION
      | vch # rest \<Rightarrow>
          (let vchHash =
             (if opcode = OP_RIPEMD160 then env_ripemd160 env vch
              else if opcode = OP_SHA1 then env_sha1 env vch
              else if opcode = OP_SHA256 then env_sha256 env vch
              else if opcode = OP_HASH160 then CHash160 env vch
              else CHash256 env vch)
           in Inr (st\<lparr>stack := vchHash # rest\<rparr>)))"

definition first_error :: "ScriptError option \<Rightarrow> ScriptError option \<Rightarrow> ScriptError option" where
  "first_error a b = (case a of Some e \<Rightarrow> Some e | None \<Rightarrow> b)"

definition op_checksig :: "script_env \<Rightarrow> u32 \<Rightarrow> byte \<Rightarrow> eval_state \<Rightarrow> step_result" where
  "op_checksig env flags opcode st =
     (case stack st of
        vchPubKey # vchSig # rest \<Rightarrow>
          (let scriptCode = snd (FindAndDelete (pbegincodehash st) (push_data vchSig)) in
           case first_error (CheckSignatureEncoding env vchSig flags) (CheckPubKeyEncoding vchPubKey flags) of
             Some e \<Rightarrow> Inl e
           | None \<Rightarrow>
               (let cannot_send = (flags AND SCRIPT_VERIFY_SKIP_SEND_PERMISSION_CHECK = 0);
                    (fOk, cannot_send) = env_CheckSig env vchSig vchPubKey scriptCode cannot_send;
                    fSuccess = (fOk \<and> \<not> cannot_send)
                in if opcode = OP_CHECKSIGVERIFY then
                     (if fSuccess then Inr (st\<lparr>stack := rest\<rparr>) else Inl SCRIPT_ERR_CHECKSIGVERIFY)
                   else Inr (st\<lparr>stack := vch_bool fSuccess # rest\<rparr>)))
      | _ \<Rightarrow> Inl SCRIPT_ERR_INVALID_STACK_OPERATION)"

text \<open>
  The loop of \<open>OP_CHECKMULTISIG\<close>. Its lists are the signatures and the keys still to be tried,
  so that their lengths are \<open>nSigsCount\<close> and \<open>nKeysCount\<close>; the result is \<open>fSuccess\<close> with
  \<open>cannot_send\<close>. There is always a key left when a signature is: the clause with no key is
  not reached from \<open>op_checkmultisig\<close>.
\<close>

fun multisig_loop ::
    "script_env \<Rightarrow> u32 \<Rightarrow> bytes \<Rightarrow> bytes list \<Rightarrow> bytes list \<Rightarrow> bool \<Rightarrow> ScriptError + bool \<times> bool" where
  "multisig_loop env flags scriptCode [] keys cannot_send = Inr (True, cannot_send)"
| "multisig_loop env flags scriptCode (vchSig # sigs) [] cannot_send = Inr (False, cannot_send)"
| "multisig_loop env flags scriptCode (vchSig # sigs) (vchPubKey # keys) cannot_send =
     (case first_error (CheckSignatureEncoding env vchSig flags) (CheckPubKeyEncoding vchPubKey flags) of
        Some e \<Rightarrow> Inl e
      | None \<Rightarrow>
          (let (fOk, cannot_send) = env_CheckSig env vchSig vchPubKey scriptCode cannot_send;
               sigs = (if fOk then sigs else vchSig # sigs)
           in if length sigs > length keys then Inr (False, cannot_send)
              else multisig_loop env flags scriptCode sigs keys cannot_send))"

definition op_checkmultisig :: "script_env \<Rightarrow> u32 \<Rightarrow> byte \<Rightarrow> eval_state \<Rightarrow> step_result" where
  "op_checkmultisig env flags opcode st =
     (let fRequireMinimal = (flags AND SCRIPT_VERIFY_MINIMALDATA \<noteq> 0); s = stack st in
      if int (length s) < 1 then Inl SCRIPT_ERR_INVALID_STACK_OPERATION
      else bind_err (num_operand fRequireMinimal (s ! 0)) (\<lambda>bn.
        let nKeysCount = getint bn in
        if nKeysCount < 0 \<or> nKeysCount > 20 then Inl SCRIPT_ERR_PUBKEY_COUNT
        else
          let st = st\<lparr>nOpCount := nOpCount st + nKeysCount\<rparr>; nKeys = nat nKeysCount in
          if nOpCount st > 201 then Inl SCRIPT_ERR_OP_COUNT
          else if length s < 2 + nKeys then Inl SCRIPT_ERR_INVALID_STACK_OPERATION
          else bind_err (num_operand fRequireMinimal (s ! (1 + nKeys))) (\<lambda>bn.
            let nSigsCount = getint bn in
            if nSigsCount < 0 \<or> nSigsCount > nKeysCount then Inl SCRIPT_ERR_SIG_COUNT
            else
              let nSigs = nat nSigsCount in
              if length s < 3 + nKeys + nSigs then Inl SCRIPT_ERR_INVALID_STACK_OPERATION
              else
                let keys = take nKeys (drop 1 s);
                    sigs = take nSigs (drop (2 + nKeys) s);
                    scriptCode = fold (\<lambda>vchSig code. snd (FindAndDelete code (push_data vchSig)))
                                   sigs (pbegincodehash st);
                    cannot_send = (flags AND SCRIPT_VERIFY_SKIP_SEND_PERMISSION_CHECK = 0)
                in bind_err (multisig_loop env flags scriptCode sigs keys cannot_send)
                  (\<lambda>(fSuccess, cannot_send).
                     let fSuccess = (fSuccess \<and> \<not> cannot_send);
                         dummy = s ! (2 + nKeys + nSigs);
                         rest = drop (3 + nKeys + nSigs) s
                     in if flags AND SCRIPT_VERIFY_NULLDUMMY \<noteq> 0 \<and> length dummy \<noteq> 0
                        then Inl SCRIPT_ERR_SIG_NULLDUMMY
                        else if opcode = OP_CHECKMULTISIGVERIFY then
                          (if fSuccess then Inr (st\<lparr>stack := rest\<rparr>)
                           else Inl SCRIPT_ERR_CHECKMULTISIGVERIFY)
                        else Inr (st\<lparr>stack := vch_bool fSuccess # rest\<rparr>)))))"

subsection \<open>One instruction\<close>

definition disabled_opcode :: "byte \<Rightarrow> bool" where
  "disabled_opcode opcode \<longleftrightarrow>
     opcode \<in> {OP_CAT, OP_SUBSTR, OP_LEFT, OP_RIGHT, OP_INVERT, OP_AND, OP_OR, OP_XOR, OP_2MUL,
               OP_2DIV, OP_MUL, OP_DIV, OP_MOD, OP_LSHIFT, OP_RSHIFT}"

definition exec_opcode ::
    "script_env \<Rightarrow> u32 \<Rightarrow> bool \<Rightarrow> byte \<Rightarrow> bytes \<Rightarrow> eval_state \<Rightarrow> step_result" where
  "exec_opcode env flags fExec opcode pc st =
     (let fRequireMinimal = (flags AND SCRIPT_VERIFY_MINIMALDATA \<noteq> 0) in
      if opcode = OP_1NEGATE \<or> (OP_1 \<le> opcode \<and> opcode \<le> OP_16) then op_push_value opcode st
      else if opcode \<in> {OP_NOP, OP_IF, OP_NOTIF, OP_ELSE, OP_ENDIF, OP_VERIFY, OP_RETURN} \<or>
              (OP_NOP1 \<le> opcode \<and> opcode \<le> OP_NOP10) then op_control flags fExec opcode st
      else if (OP_TOALTSTACK \<le> opcode \<and> opcode \<le> OP_TUCK) \<or> opcode = OP_SIZE
      then op_stack fRequireMinimal opcode st
      else if opcode = OP_EQUAL \<or> opcode = OP_EQUALVERIFY then op_equal opcode st
      else if opcode \<in> {OP_1ADD, OP_1SUB, OP_NEGATE, OP_ABS, OP_NOT, OP_0NOTEQUAL}
      then op_numeric1 fRequireMinimal opcode st
      else if opcode \<in> {OP_ADD, OP_SUB, OP_BOOLAND, OP_BOOLOR, OP_NUMEQUAL, OP_NUMEQUALVERIFY,
                        OP_NUMNOTEQUAL, OP_LESSTHAN, OP_GREATERTHAN, OP_LESSTHANOREQUAL,
                        OP_GREATERTHANOREQUAL, OP_MIN, OP_MAX}
      then op_numeric2 fRequireMinimal opcode st
      else if opcode = OP_WITHIN then op_within fRequireMinimal st
      else if OP_RIPEMD160 \<le> opcode \<and> opcode \<le> OP_HASH256 then op_hash env opcode st
      else if opcode = OP_CODESEPARATOR then Inr (st\<lparr>pbegincodehash := pc\<rparr>)
      else if opcode = OP_CHECKSIG \<or> opcode = OP_CHECKSIGVERIFY then op_checksig env flags opcode st
      else if opcode = OP_CHECKMULTISIG \<or> opcode = OP_CHECKMULTISIGVERIFY
      then op_checkmultisig env flags opcode st
      else Inl SCRIPT_ERR_BAD_OPCODE)"

definition count_op :: "byte \<Rightarrow> eval_state \<Rightarrow> eval_state" where
  "count_op opcode st = (if opcode > OP_16 then st\<lparr>nOpCount := nOpCount st + 1\<rparr> else st)"

text \<open>The body of the loop after the instruction has been read: \<open>pc\<close> is what follows it.\<close>

definition eval_instr ::
    "script_env \<Rightarrow> u32 \<Rightarrow> byte \<Rightarrow> bytes \<Rightarrow> bytes \<Rightarrow> eval_state \<Rightarrow> step_result" where
  "eval_instr env flags opcode vchPushValue pc st =
     (let fExec = (\<not> list_ex Not (vfExec st)); st = count_op opcode st in
      if opcode > OP_16 \<and> nOpCount st > 201 then Inl SCRIPT_ERR_OP_COUNT
      else if disabled_opcode opcode then Inl SCRIPT_ERR_DISABLED_OPCODE
      else bind_err
        (if fExec \<and> opcode \<le> OP_PUSHDATA4 then
           (if flags AND SCRIPT_VERIFY_MINIMALDATA \<noteq> 0 \<and> \<not> CheckMinimalPush vchPushValue opcode
            then Inl SCRIPT_ERR_MINIMALDATA
            else Inr (st\<lparr>stack := vchPushValue # stack st\<rparr>))
         else if fExec \<or> (OP_IF \<le> opcode \<and> opcode \<le> OP_ENDIF)
         then exec_opcode env flags fExec opcode pc st
         else Inr st)
        (\<lambda>st. if length (stack st) + length (altstack st) > 1000 then Inl SCRIPT_ERR_STACK_SIZE
              else Inr st))"

function eval_loop :: "script_env \<Rightarrow> u32 \<Rightarrow> bytes \<Rightarrow> eval_state \<Rightarrow> step_result" where
  "eval_loop env flags pc st =
     (if pc = [] then Inr st
      else case GetOp2 pc of (fRet, opcode, vchPushValue, pc') \<Rightarrow>
        if \<not> fRet then Inl SCRIPT_ERR_BAD_OPCODE
        else case eval_instr env flags opcode vchPushValue pc' st of
               Inl e \<Rightarrow> Inl e
             | Inr st' \<Rightarrow> eval_loop env flags pc' st')"
  by pat_completeness auto
termination
  by (relation "measure (\<lambda>(env, flags, pc, st). length pc)") (auto dest!: GetOp2_success [OF sym])

declare eval_loop.simps [simp del]

definition EvalScript :: "script_env \<Rightarrow> u32 \<Rightarrow> bytes \<Rightarrow> valstack \<Rightarrow> ScriptError + valstack" where
  "EvalScript env flags script stk =
     (if length script > 10000 then Inl SCRIPT_ERR_SCRIPT_SIZE
      else case eval_loop env flags script
                  \<lparr>stack = stk, altstack = [], vfExec = [], nOpCount = 0, pbegincodehash = script\<rparr> of
             Inl e \<Rightarrow> Inl e
           | Inr st \<Rightarrow> if vfExec st \<noteq> [] then Inl SCRIPT_ERR_UNBALANCED_CONDITIONAL else Inr (stack st))"

section \<open>Running instructions\<close>

fun instr_operand :: "instr \<Rightarrow> bytes" where
  "instr_operand (Push d) = d"
| "instr_operand (Code c) = []"

fun eval_instrs :: "script_env \<Rightarrow> u32 \<Rightarrow> instr list \<Rightarrow> eval_state \<Rightarrow> step_result" where
  "eval_instrs env flags [] st = Inr st"
| "eval_instrs env flags (i # is) st =
     bind_err (eval_instr env flags (instr_opcode i) (instr_operand i) (encode_many enc_instr is) st)
       (eval_instrs env flags is)"

lemma eval_loop_instrs:
  "small_script is [] \<Longrightarrow> eval_loop env flags (encode_many enc_instr is) st = eval_instrs env flags is st"
proof (induction "is" arbitrary: st)
  case Nil
  then show ?case by (simp add: eval_loop.simps)
next
  case (Cons i "is")
  define pc where "pc = encode_many enc_instr (i # is)"
  have g: "GetOp2 pc = (True, instr_opcode i, instr_operand i, encode_many enc_instr is)"
    using GetOp2_instr_opcode [OF Cons.prems] by (cases i) (simp_all add: pc_def)
  have "pc \<noteq> []"
    using encode_Cons_ne [of i "is" "[]"] Cons.prems by (simp add: small_script_def pc_def)
  then have "eval_loop env flags pc st =
      bind_err (eval_instr env flags (instr_opcode i) (instr_operand i) (encode_many enc_instr is) st)
        (eval_loop env flags (encode_many enc_instr is))"
    using g by (subst eval_loop.simps) (simp add: bind_err_def)
  then show ?case using Cons.IH [OF small_script_tl [OF Cons.prems]]
    by (simp add: pc_def) (simp add: bind_err_def split: sum.splits)
qed

text \<open>
  Invariants of the loop: what every instruction keeps holds of the final state. Three of them
  are interpreted: the bound on the stacks, the bound on the operation count, and that neither
  the count nor a rejected instruction is ever forgotten.
\<close>

locale eval_invariant =
  fixes env :: script_env and flags :: u32 and I :: "eval_state \<Rightarrow> bool"
  assumes step: "I st \<Longrightarrow> eval_instr env flags opcode vch pc st = Inr st' \<Longrightarrow> I st'"
begin

lemma loop: "eval_loop env flags pc st = Inr st' \<Longrightarrow> I st \<Longrightarrow> I st'"
proof (induction "length pc" arbitrary: pc st rule: less_induct)
  case less
  show ?case
  proof (cases "pc = []")
    case True
    then show ?thesis using less.prems by (simp add: eval_loop.simps)
  next
    case False
    obtain fRet opcode vch pc' where g: "GetOp2 pc = (fRet, opcode, vch, pc')" by (metis prod_cases4)
    have ok: fRet using less.prems(1) False g
      by (cases fRet) (simp_all add: eval_loop.simps [of env flags pc])
    then obtain st1 where s: "eval_instr env flags opcode vch pc' st = Inr st1"
        "eval_loop env flags pc' st1 = Inr st'"
      using less.prems(1) False g by (auto simp: eval_loop.simps [of env flags pc] split: sum.splits)
    have "length pc' < length pc" using g ok by (auto dest: GetOp2_success)
    then show ?thesis using less.hyps s step [OF less.prems(2) s(1)] by blast
  qed
qed

end

subsection \<open>Resource limits\<close>

lemma eval_instr_stack:
  "eval_instr env flags opcode vch pc st = Inr st' \<Longrightarrow> length (stack st') + length (altstack st') \<le> 1000"
  by (auto simp: eval_instr_def Let_def bind_err_Inr split: if_splits)

interpretation stack_bound: eval_invariant env flags "\<lambda>st. length (stack st) + length (altstack st) \<le> 1000"
  for env flags
  by unfold_locales (rule eval_instr_stack)

text \<open>Case analysis on a successful conditional that forgets the condition.\<close>

lemma if_InrE:
  "(if c then a else b) = Inr y \<Longrightarrow> (a = Inr y \<Longrightarrow> P) \<Longrightarrow> (b = Inr y \<Longrightarrow> P) \<Longrightarrow> P"
  by (cases c) simp_all

lemma op_control_count: "op_control flags fExec opcode st = Inr st' \<Longrightarrow> nOpCount st' = nOpCount st"
  unfolding op_control_def Let_def by (elim if_InrE) (auto split: list.splits elim: if_InrE)

lemma op_stack_count: "op_stack m opcode st = Inr st' \<Longrightarrow> nOpCount st' = nOpCount st"
  unfolding op_stack_def op_pick_roll_def Let_def
  by (elim if_InrE) (auto split: list.splits option.splits simp: bind_err_Inr elim: if_InrE)

lemma op_push_hash_count:
  "op_push_value opcode st = Inr st' \<Longrightarrow> nOpCount st' = nOpCount st"
  "op_hash env opcode st = Inr st' \<Longrightarrow> nOpCount st' = nOpCount st"
  by (auto simp: op_push_value_def op_hash_def Let_def split: list.splits)

lemma op_compare_count:
  "op_equal opcode st = Inr st' \<Longrightarrow> nOpCount st' = nOpCount st"
  "op_within m st = Inr st' \<Longrightarrow> nOpCount st' = nOpCount st"
  "op_numeric1 m opcode st = Inr st' \<Longrightarrow> nOpCount st' = nOpCount st"
  "op_numeric2 m opcode st = Inr st' \<Longrightarrow> nOpCount st' = nOpCount st"
  unfolding op_equal_def op_within_def op_numeric1_def op_numeric2_def Let_def
  by (auto simp: bind_err_Inr split: list.splits elim!: if_InrE)

lemma op_checksig_count: "op_checksig env flags opcode st = Inr st' \<Longrightarrow> nOpCount st' = nOpCount st"
  unfolding op_checksig_def Let_def
  by (auto split: list.splits option.splits prod.splits elim!: if_InrE)

lemmas op_groups_count =
  op_control_count op_stack_count op_push_hash_count op_compare_count op_checksig_count

lemma op_checkmultisig_count:
  "op_checkmultisig env flags opcode st = Inr st' \<Longrightarrow> nOpCount st \<le> nOpCount st' \<and> nOpCount st' \<le> 201"
  unfolding op_checkmultisig_def Let_def
  by (auto simp: bind_err_Inr not_less split: if_split_asm prod.splits)

lemma exec_opcode_count:
  assumes "exec_opcode env flags fExec opcode pc st = Inr st'"
  shows "nOpCount st \<le> nOpCount st' \<and> (nOpCount st \<le> 201 \<longrightarrow> nOpCount st' \<le> 201)"
  using assms unfolding exec_opcode_def Let_def
  by (elim if_InrE) (auto dest: op_groups_count op_checkmultisig_count)

lemma eval_instr_count:
  assumes "eval_instr env flags opcode vch pc st = Inr st'"
  shows "nOpCount st + of_bool (opcode > OP_16) \<le> nOpCount st'
    \<and> (nOpCount st \<le> 201 \<longrightarrow> nOpCount st' \<le> 201)"
  using assms unfolding eval_instr_def Let_def
  by (auto simp: count_op_def bind_err_Inr split: if_splits dest!: exec_opcode_count)

interpretation count_bound: eval_invariant env flags "\<lambda>st. nOpCount st \<le> 201"
  for env flags
  by unfold_locales (use eval_instr_count in blast)

lemma eval_instrs_count:
  "eval_instrs env flags is st = Inr st' \<Longrightarrow>
   nOpCount st + int (length (filter (\<lambda>i. instr_opcode i > OP_16) is)) \<le> nOpCount st'"
proof (induction "is" arbitrary: st)
  case (Cons i "is")
  then obtain st1 where s: "eval_instr env flags (instr_opcode i) (instr_operand i) (encode_many enc_instr is) st = Inr st1"
      "eval_instrs env flags is st1 = Inr st'" by (auto simp: bind_err_Inr)
  show ?case using eval_instr_count [OF s(1)] Cons.IH [OF s(2)] by (auto split: if_splits)
qed simp

subsection \<open>Disabled opcodes\<close>

lemma eval_instrs_disabled:
  "Code c \<in> set is \<Longrightarrow> disabled_opcode c \<Longrightarrow> \<exists>e. eval_instrs env flags is st = Inl e"
proof (induction "is" arbitrary: st)
  case (Cons i "is")
  show ?case
  proof (cases "i = Code c")
    case True
    then show ?thesis using Cons.prems(2) by (simp add: eval_instr_def Let_def)
  next
    case False
    then show ?thesis using Cons by (auto simp: bind_err_def split: sum.splits)
  qed
qed simp

section \<open>Multisignature checks\<close>

text \<open>
  What \<open>OP_CHECKMULTISIG\<close> decides: whether the signatures can be matched with keys in order,
  each key used at most once.
\<close>

definition matched :: "(bytes \<Rightarrow> bytes \<Rightarrow> bool) \<Rightarrow> bytes list \<Rightarrow> bytes list \<Rightarrow> bool" where
  "matched V sigs keys \<longleftrightarrow> (\<exists>ks. subseq ks keys \<and> list_all2 V sigs ks)"

lemma matched_Nil: "matched V [] keys"
  unfolding matched_def by (rule exI [of _ "[]"]) simp

lemma matched_length: "matched V sigs keys \<Longrightarrow> length sigs \<le> length keys"
  by (auto simp: matched_def dest!: list_all2_lengthD dest: list_emb_length)

text \<open>The greedy choice is safe: a key that verifies the first signature may be spent on it.\<close>

lemma matched_Cons:
  "matched V (s # sigs) (k # keys) \<longleftrightarrow> (if V s k then matched V sigs keys else matched V (s # sigs) keys)"
proof
  assume "matched V (s # sigs) (k # keys)"
  then obtain x ks where ks: "subseq (x # ks) (k # keys)" "V s x" "list_all2 V sigs ks"
    unfolding matched_def by (auto simp: list_all2_Cons1)
  have "subseq ks keys" using ks(1) by (metis subseq_Cons' subseq_Cons2_iff)
  moreover have "x \<noteq> k \<Longrightarrow> subseq (x # ks) keys" using ks(1) by simp
  ultimately show "if V s k then matched V sigs keys else matched V (s # sigs) keys"
    using ks(2,3) unfolding matched_def by (cases "V s k") (auto intro: exI [of _ ks] exI [of _ "x # ks"])
next
  assume m: "if V s k then matched V sigs keys else matched V (s # sigs) keys"
  show "matched V (s # sigs) (k # keys)"
  proof (cases "V s k")
    case True
    then obtain ks where "subseq ks keys" "list_all2 V sigs ks" using m by (auto simp: matched_def)
    then have "subseq (k # ks) (k # keys)" "list_all2 V (s # sigs) (k # ks)" using True by auto
    then show ?thesis unfolding matched_def by blast
  next
    case False
    then show ?thesis using m unfolding matched_def by auto
  qed
qed

lemma multisig_loop_matched:
  assumes enc: "\<And>s k. s \<in> set sigs \<Longrightarrow> k \<in> set keys \<Longrightarrow>
      CheckSignatureEncoding env s flags = None \<and> CheckPubKeyEncoding k flags = None"
    and V: "\<And>s k b. fst (env_CheckSig env s k code b) = V s k"
    and len: "length sigs \<le> length keys"
  shows "\<exists>cs'. multisig_loop env flags code sigs keys cs = Inr (matched V sigs keys, cs')"
  using enc len
proof (induction keys arbitrary: sigs cs)
  case Nil
  then show ?case by (simp add: matched_Nil)
next
  case (Cons k keys)
  show ?case
  proof (cases sigs)
    case Nil
    then show ?thesis by (simp add: matched_Nil)
  next
    case (Cons s ss)
    obtain fOk cs1 where c: "env_CheckSig env s k code cs = (fOk, cs1)" by fastforce
    then have fOk: "fOk = V s k" using V [of s k cs] by simp
    define sigs' where "sigs' = (if V s k then ss else s # ss)"
    have m: "matched V sigs (k # keys) = matched V sigs' keys"
      unfolding Cons matched_Cons by (simp add: sigs'_def)
    have l: "multisig_loop env flags code sigs (k # keys) cs =
        (if length sigs' > length keys then Inr (False, cs1)
         else multisig_loop env flags code sigs' keys cs1)"
      using Cons.prems(1) [of s k] Cons c fOk by (simp add: first_error_def sigs'_def Let_def)
    show ?thesis
    proof (cases "length sigs' > length keys")
      case True
      then have "\<not> matched V sigs' keys" using matched_length by fastforce
      then show ?thesis using True l m by simp
    next
      case False
      have "\<exists>cs'. multisig_loop env flags code sigs' keys cs1 = Inr (matched V sigs' keys, cs')"
      proof (rule Cons.IH)
        show "CheckSignatureEncoding env x flags = None \<and> CheckPubKeyEncoding y flags = None"
          if "x \<in> set sigs'" "y \<in> set keys" for x y
          using that Cons.prems(1) [of x y] Cons by (auto simp: sigs'_def split: if_splits)
      qed (use False in simp)
      then show ?thesis using False l m by simp
    qed
  qed
qed

section \<open>Properties\<close>

text \<open>
  C38. Resource limits of \<open>EvalScript\<close>: a run that succeeds on a script of instructions whose data is
  pushed in the shortest form, started with at most 1000 stack elements, leaves at most 1000 stack elements, and the script has at most 10000 bytes and at most 201 instructions
  above \<open>OP_16\<close>, whether they were executed or not.
\<close>

theorem EvalScript_limits:
  assumes "list_all instr_ok is" "EvalScript env flags (encode_many enc_instr is) stk = Inr stk'"
    and "length stk \<le> 1000"
  shows "length stk' \<le> 1000 \<and> length (encode_many enc_instr is) \<le> 10000
    \<and> length (filter (\<lambda>i. instr_opcode i > OP_16) is) \<le> 201"
proof -
  define script where "script = encode_many enc_instr is"
  define st0 where "st0 = \<lparr>stack = stk, altstack = [], vfExec = [], nOpCount = 0, pbegincodehash = script\<rparr>"
  have l: "length script \<le> 10000" using assms(2) by (auto simp: EvalScript_def script_def split: if_splits)
  then obtain st where st: "eval_loop env flags script st0 = Inr st" "stk' = stack st"
    using assms(2) unfolding EvalScript_def script_def [symmetric] st0_def [symmetric]
    by (auto split: sum.splits if_splits)
  have "length (stack st) + length (altstack st) \<le> 1000"
    using stack_bound.loop [OF st(1)] assms(3) by (simp add: st0_def)
  moreover have "nOpCount st \<le> 201" using count_bound.loop [OF st(1)] by (simp add: st0_def)
  moreover have "eval_instrs env flags is st0 = Inr st"
    using st(1) l assms(1) eval_loop_instrs [of "is"] by (simp add: script_def small_script_def)
  ultimately show ?thesis using eval_instrs_count [of env flags "is" st0 st] st(2) l
    by (simp add: st0_def script_def)
qed

text \<open>
  A disabled opcode anywhere in a well-formed script, also in a branch that is not executed,
  makes the script fail whatever the stack, the flags and the signature checker.
\<close>

theorem EvalScript_disabled:
  assumes "list_all instr_ok is" "Code c \<in> set is" "disabled_opcode c"
  shows "\<exists>e. EvalScript env flags (encode_many enc_instr is) stk = Inl e"
  using eval_instrs_disabled [OF assms(2,3)] eval_loop_instrs [of "is"] assms(1)
  by (auto simp: EvalScript_def small_script_def split: sum.splits)
     (metis Inl_Inr_False not_less_iff_gr_or_eq order_less_trans)

text \<open>
  C39. The loop of \<open>OP_CHECKMULTISIG\<close>, which tries keys greedily and stops early, succeeds exactly
  when the signatures can be matched in order with distinct keys, provided the encodings are
  acceptable and the checker's verdict does not depend on the permission flag.
\<close>

theorem multisig_loop_correct:
  assumes "\<And>s k. s \<in> set sigs \<Longrightarrow> k \<in> set keys \<Longrightarrow>
      CheckSignatureEncoding env s flags = None \<and> CheckPubKeyEncoding k flags = None"
    and "\<And>s k b. fst (env_CheckSig env s k code b) = V s k"
    and "length sigs \<le> length keys"
  shows "\<exists>cs'. multisig_loop env flags code sigs keys cs
     = Inr ((\<exists>ks. subseq ks keys \<and> list_all2 V sigs ks), cs')"
  using multisig_loop_matched [OF assms] unfolding matched_def by blast

definition example_env :: script_env where
  "example_env = \<lparr>env_ripemd160 = take 20, env_sha1 = take 20, env_sha256 = (\<lambda>b. b),
     env_CheckLowS = (\<lambda>_. True), env_CheckSig = (\<lambda>s k c b. (s = k, False))\<rparr>"

theorem EvalScript_limits_witness:
  "EvalScript example_env 0 [0x51, 0x76] [] = Inr [[1], [1]]
   \<and> length (filter (\<lambda>i. instr_opcode i > OP_16) [Code 0x51, Code 0x76]) \<le> 201"
proof -
  have ex: "EvalScript example_env 0 [0x51, 0x76] [] = Inr [[1], [1]]"
    by (simp add: EvalScript_def eval_loop.simps GetOp2_def eval_instr_def Let_def count_op_def
        disabled_opcode_def exec_opcode_def op_push_value_def serialize_def abs_bytes.simps
        op_stack_def stack_op.simps)
  then show ?thesis using EvalScript_limits [of "[Code 0x51, Code 0x76]" example_env 0 "[]" "[[1], [1]]"]
    by simp
qed

theorem EvalScript_disabled_witness:
  "\<exists>e. EvalScript example_env 0 [0x00, 0x63, 0x7e, 0x68] [] = Inl e"
  using EvalScript_disabled [of "[Push [], Code 0x63, Code 0x7e, Code 0x68]" "0x7e" example_env 0 "[]"]
  by (simp add: push_data_def disabled_opcode_def)

theorem multisig_loop_correct_witness:
  "\<exists>cs'. multisig_loop example_env 0 [] [[7], [9]] [[7], [8], [9]] True = Inr (True, cs')"
proof -
  have "\<exists>cs'. multisig_loop example_env 0 [] [[7], [9]] [[7], [8], [9]] True
     = Inr ((\<exists>ks. subseq ks [[7], [8], [9]] \<and> list_all2 (\<lambda>s k. s = k) [[7], [9 :: byte]] ks), cs')"
    by (rule multisig_loop_correct [where V = "\<lambda>s k. s = k"])
       (auto simp: example_env_def CheckSignatureEncoding_def CheckPubKeyEncoding_def)
  moreover have "\<exists>ks. subseq ks [[7], [8], [9]] \<and> list_all2 (\<lambda>s k. s = k) [[7], [9] :: bytes] ks"
    by (rule exI [of _ "[[7], [9]]"]) simp
  ultimately show ?thesis by simp
qed

end
