(* ===== verification/Standard.thy ===== *)
theory Standard
  imports Interpreter
begin

text \<open>
  Standard output scripts (\<^verbatim>\<open>script/standard.cpp\<close>): template matching (\<open>Solver\<close>), the direct
  parser that replaced it (\<open>ExtractDestinations\<close>), null-data recognition, and the constructors of
  scripts for destinations. Reference parameters of the code are components of the result, also
  where the function returns \<open>false\<close>. A destination holds the bytes of its hash. The global
  limits that the chain parameters set are the fields of \<open>std_params\<close>.
\<close>

datatype txnouttype =
  TX_NONSTANDARD | TX_PUBKEY | TX_PUBKEYHASH | TX_SCRIPTHASH | TX_MULTISIG | TX_NULL_DATA

datatype CTxDestination = CNoDestination | CKeyID bytes | CScriptID bytes

record std_params =
  datacarrier :: bool
  MAX_OP_RETURN_RELAY :: nat
  MAX_SCRIPT_ELEMENT_SIZE :: nat
  MCP_STD_OP_DROP_COUNT :: nat

definition GetTxnOutputType :: "txnouttype \<Rightarrow> string" where
  "GetTxnOutputType t =
     (case t of
        TX_NONSTANDARD \<Rightarrow> ''nonstandard'' | TX_PUBKEY \<Rightarrow> ''pubkey'' | TX_PUBKEYHASH \<Rightarrow> ''pubkeyhash''
      | TX_SCRIPTHASH \<Rightarrow> ''scripthash'' | TX_MULTISIG \<Rightarrow> ''multisig'' | TX_NULL_DATA \<Rightarrow> ''nulldata'')"

subsection \<open>Public keys\<close>

definition GetLen :: "byte \<Rightarrow> nat" where
  "GetLen chHeader =
     (if chHeader = 2 \<or> chHeader = 3 then 33
      else if chHeader = 4 \<or> chHeader = 6 \<or> chHeader = 7 then 65 else 0)"

text \<open>The key a byte string is read as: \<open>[]\<close> stands for an invalidated key.\<close>

definition CPubKey_Set :: "bytes \<Rightarrow> bytes" where
  "CPubKey_Set vch =
     (let len = (if vch = [] then 0 else GetLen (hd vch))
      in if len \<noteq> 0 \<and> len = length vch then vch else [])"

definition CPubKey_IsValid :: "bytes \<Rightarrow> bool" where
  "CPubKey_IsValid key \<longleftrightarrow> key \<noteq> []"

definition GetID :: "script_env \<Rightarrow> bytes \<Rightarrow> bytes" where
  "GetID env key = CHash160 env key"

subsection \<open>Template matching\<close>

function pubkeys_loop :: "bytes \<Rightarrow> byte \<Rightarrow> bytes \<Rightarrow> bytes list \<Rightarrow> bytes \<times> byte \<times> bytes \<times> bytes list" where
  "pubkeys_loop pc1 opcode1 vch1 vSolutions =
     (if length vch1 \<ge> 33 \<and> length vch1 \<le> 65 then
        (case GetOp2 pc1 of (fRet, opcode, vch, pc) \<Rightarrow>
           if fRet then pubkeys_loop pc opcode vch (vSolutions @ [vch1])
           else (pc, opcode, vch, vSolutions @ [vch1]))
      else (pc1, opcode1, vch1, vSolutions))"
  by pat_completeness auto
termination
  by (relation "measure (\<lambda>(pc, opcode, vch, sols). length pc)") (auto dest!: GetOp2_success [OF sym])

declare pubkeys_loop.simps [simp del]

text \<open>One opcode of the template against one instruction; \<open>None\<close> is the \<open>break\<close> of the loop.\<close>

definition match_opcode ::
    "std_params \<Rightarrow> byte \<Rightarrow> bytes \<Rightarrow> byte \<Rightarrow> bytes \<Rightarrow> bytes list \<Rightarrow> bytes list option" where
  "match_opcode ps opcode1 vch1 opcode2 vch2 vSolutions =
     (if opcode2 = OP_PUBKEY then
        (if length vch1 < 33 \<or> length vch1 > 65 then None else Some (vSolutions @ [vch1]))
      else if opcode2 = OP_PUBKEYHASH then
        (if length vch1 \<noteq> 20 then None else Some (vSolutions @ [vch1]))
      else if opcode2 = OP_SMALLINTEGER then
        (if opcode1 = OP_0 \<or> (opcode1 \<ge> OP_1 \<and> opcode1 \<le> OP_16)
         then Some (vSolutions @ [[case DecodeOP_N opcode1 of Inr n \<Rightarrow> of_int n | Inl _ \<Rightarrow> 0]])
         else None)
      else if opcode2 = OP_SMALLDATA then
        (if length vch1 > MAX_OP_RETURN_RELAY ps then None else Some vSolutions)
      else if opcode2 = OP_DROPDATA then
        (if length vch1 > MAX_SCRIPT_ELEMENT_SIZE ps then None else Some vSolutions)
      else if opcode1 \<noteq> opcode2 \<or> vch1 \<noteq> vch2 then None
      else Some vSolutions)"

lemma pubkeys_loop_length: "pubkeys_loop pc1 opcode1 vch1 sols = (pc, opcode, vch, sols') \<Longrightarrow> length pc \<le> length pc1"
proof (induction pc1 opcode1 vch1 sols rule: pubkeys_loop.induct)
  case (1 pc1 opcode1 vch1 sols)
  obtain f o' v p where g: "GetOp2 pc1 = (f, o', v, p)" by (metis prod_cases4)
  have "length p \<le> length pc1"
    using GetOp2_length [OF g] g by (cases "pc1 = []") (auto simp: GetOp2_def)
  then show ?case using 1 g by (subst (asm) (2) pubkeys_loop.simps) (fastforce split: if_splits)
qed

function template_loop :: "std_params \<Rightarrow> bytes \<Rightarrow> bytes \<Rightarrow> bytes list \<Rightarrow> bytes list option" where
  "template_loop ps pc1 pc2 vSolutions =
     (if pc1 = [] \<and> pc2 = [] then Some vSolutions
      else case GetOp2 pc1 of (fRet1, opcode1, vch1, pc1') \<Rightarrow>
        if \<not> fRet1 then None
        else case GetOp2 pc2 of (fRet2, opcode2, vch2, pc2') \<Rightarrow>
          if \<not> fRet2 then None
          else if opcode2 = OP_PUBKEYS then
            (case pubkeys_loop pc1' opcode1 vch1 vSolutions of (pc1'', opcode1, vch1, vSolutions) \<Rightarrow>
             case GetOp2 pc2' of (fRet2, opcode2, vch2, pc2'') \<Rightarrow>
               if \<not> fRet2 then None
               else case match_opcode ps opcode1 vch1 opcode2 vch2 vSolutions of
                      None \<Rightarrow> None
                    | Some vSolutions \<Rightarrow> template_loop ps pc1'' pc2'' vSolutions)
          else case match_opcode ps opcode1 vch1 opcode2 vch2 vSolutions of
                 None \<Rightarrow> None
               | Some vSolutions \<Rightarrow> template_loop ps pc1' pc2' vSolutions)"
  by pat_completeness auto
termination
  by (relation "measure (\<lambda>(ps, pc1, pc2, sols). length pc1)")
     (auto dest!: GetOp2_success [OF sym] dest: pubkeys_loop_length [OF sym])

declare template_loop.simps [simp del]

text \<open>
  The templates in the order of the multimap: by the numeric value of the type, then by insertion.
\<close>

definition mTemplates :: "std_params \<Rightarrow> (txnouttype \<times> bytes) list" where
  "mTemplates ps =
     [(TX_PUBKEY, [OP_PUBKEY, OP_CHECKSIG]),
      (TX_PUBKEYHASH, [OP_DUP, OP_HASH160, OP_PUBKEYHASH, OP_EQUALVERIFY, OP_CHECKSIG]),
      (TX_SCRIPTHASH, [OP_HASH160, OP_PUBKEYHASH, OP_EQUAL]),
      (TX_MULTISIG, [OP_SMALLINTEGER, OP_PUBKEYS, OP_SMALLINTEGER, OP_CHECKMULTISIG])] @
     (if datacarrier ps then [(TX_NULL_DATA, [OP_RETURN, OP_SMALLDATA])] else []) @
     [(TX_NULL_DATA, [OP_RETURN]),
      (TX_NULL_DATA, [OP_DROPDATA, OP_DROP, OP_RETURN]),
      (TX_NULL_DATA, [OP_DROPDATA, OP_DROP, OP_RETURN, OP_SMALLDATA]),
      (TX_NULL_DATA, [OP_DROPDATA, OP_DROP, OP_DROPDATA, OP_DROP, OP_RETURN]),
      (TX_NULL_DATA, [OP_DROPDATA, OP_DROP, OP_DROPDATA, OP_DROP, OP_RETURN, OP_SMALLDATA])]"

definition solver_attempts :: "std_params \<Rightarrow> (txnouttype \<times> bytes) list" where
  "solver_attempts ps =
     concat (map (\<lambda>(t, tmpl).
       map (\<lambda>d. (t, tmpl @ concat (replicate d [OP_DROPDATA, OP_DROP])))
         [0..<MCP_STD_OP_DROP_COUNT ps + 1]) (mTemplates ps))"

fun solver_scan :: "std_params \<Rightarrow> bytes \<Rightarrow> (txnouttype \<times> bytes) list \<Rightarrow> bool \<times> txnouttype \<times> bytes list" where
  "solver_scan ps script [] = (False, TX_NONSTANDARD, [])"
| "solver_scan ps script ((t, tmpl) # rest) =
     (case template_loop ps script tmpl [] of
        None \<Rightarrow> solver_scan ps script rest
      | Some vSolutions \<Rightarrow>
          if t = TX_MULTISIG then
            (let m = hd (hd vSolutions); n = hd (last vSolutions)
             in (\<not> (m < 1 \<or> n < 1 \<or> m > n \<or> length vSolutions - 2 \<noteq> unat n), t, vSolutions))
          else (True, t, vSolutions))"

definition Solver :: "std_params \<Rightarrow> bytes \<Rightarrow> bool \<times> txnouttype \<times> bytes list" where
  "Solver ps scriptPubKey = solver_scan ps scriptPubKey (solver_attempts ps)"

definition ScriptSigArgsExpected :: "txnouttype \<Rightarrow> bytes list \<Rightarrow> int" where
  "ScriptSigArgsExpected t vSolutions =
     (case t of
        TX_NONSTANDARD \<Rightarrow> - 1 | TX_NULL_DATA \<Rightarrow> - 1 | TX_PUBKEY \<Rightarrow> 1 | TX_PUBKEYHASH \<Rightarrow> 2
      | TX_MULTISIG \<Rightarrow> (if length vSolutions < 1 \<or> length (vSolutions ! 0) < 1 then - 1
                         else uint (vSolutions ! 0 ! 0) + 1)
      | TX_SCRIPTHASH \<Rightarrow> 1)"

definition IsStandardFull :: "std_params \<Rightarrow> bytes \<Rightarrow> bool \<times> txnouttype" where
  "IsStandardFull ps scriptPubKey =
     (case Solver ps scriptPubKey of (ok, whichType, vSolutions) \<Rightarrow>
        if \<not> ok then (False, whichType)
        else if whichType = TX_MULTISIG \<and>
                (let m = hd (hd vSolutions); n = hd (last vSolutions)
                 in n < 1 \<or> n > 3 \<or> m < 1 \<or> m > n)
        then (False, whichType)
        else (whichType \<noteq> TX_NONSTANDARD, whichType))"

subsection \<open>Destinations of matched scripts\<close>

definition ExtractDestinationScriptValid :: "script_env \<Rightarrow> bytes \<Rightarrow> CTxDestination option" where
  "ExtractDestinationScriptValid env script =
     (if length script \<ge> 25 \<and> script ! 0 = OP_DUP then Some (CKeyID (take 20 (drop 3 script)))
      else if length script \<ge> 23 \<and> script ! 0 = OP_HASH160 then Some (CScriptID (take 20 (drop 2 script)))
      else if length script \<ge> 35 \<and> script ! 0 \<ge> 33 \<and> script ! 0 \<le> 65 \<and> length script \<ge> 2 + unat (script ! 0)
      then (let pubKey = CPubKey_Set (take (unat (script ! 0)) (drop 1 script))
            in if \<not> CPubKey_IsValid pubKey then None else Some (CKeyID (GetID env pubKey)))
      else None)"

definition ExtractDestinationFull :: "script_env \<Rightarrow> std_params \<Rightarrow> bytes \<Rightarrow> CTxDestination option" where
  "ExtractDestinationFull env ps scriptPubKey =
     (case Solver ps scriptPubKey of (ok, whichType, vSolutions) \<Rightarrow>
        if \<not> ok then None
        else if whichType = TX_PUBKEY then
          (let pubKey = CPubKey_Set (vSolutions ! 0)
           in if \<not> CPubKey_IsValid pubKey then None else Some (CKeyID (GetID env pubKey)))
        else if whichType = TX_PUBKEYHASH then Some (CKeyID (vSolutions ! 0))
        else if whichType = TX_SCRIPTHASH then Some (CScriptID (vSolutions ! 0))
        else None)"

text \<open>\<open>bool\<close> result, \<open>typeRet\<close>, \<open>addressRet\<close>, \<open>nRequiredRet\<close>.\<close>

type_synonym destinations = "bool \<times> txnouttype \<times> CTxDestination list \<times> int"

definition ExtractDestinationsFull :: "script_env \<Rightarrow> std_params \<Rightarrow> bytes \<Rightarrow> int \<Rightarrow> destinations" where
  "ExtractDestinationsFull env ps scriptPubKey nRequired =
     (let script = RemoveOpDrops scriptPubKey in
      case Solver ps script of (ok, typeRet, vSolutions) \<Rightarrow>
        if \<not> ok then (False, typeRet, [], nRequired)
        else if typeRet = TX_NULL_DATA then (False, typeRet, [], nRequired)
        else if typeRet = TX_MULTISIG then
          (let addressRet = map (\<lambda>key. CKeyID (GetID env key))
                 (filter CPubKey_IsValid (map CPubKey_Set (butlast (tl vSolutions))));
               nRequired = uint (hd (hd vSolutions))
           in (addressRet \<noteq> [], typeRet, addressRet, nRequired))
        else
          (case ExtractDestinationScriptValid env script of
             None \<Rightarrow> (False, typeRet, [], 1)
           | Some address \<Rightarrow> (True, typeRet, [address], 1)))"

subsection \<open>Null data\<close>

text \<open>
  The first loop of \<open>IsStandardNullData\<close>: up to two \<open><data> OP_DROP\<close> pairs and an \<open>OP_RETURN\<close>.
  The counter is the number of pairs still allowed; the result is the sizes of direct pushes
  (a pushdata opcode leaves the size \<open>0\<close>), whether a pushdata opcode was seen under
  \<open>standard_check\<close>, and the rest. The local \<open>fixed\<close> of the code is the constant \<open>true\<close>.
\<close>

fun null_data_loop ::
    "bool \<Rightarrow> nat \<Rightarrow> bytes \<Rightarrow> nat list \<Rightarrow> bool \<Rightarrow> (nat list \<times> bool \<times> bytes) option" where
  "null_data_loop standard_check 0 pc sizes recheck =
     (case GetOp2 pc of (fRet, opcode, vch, pc) \<Rightarrow>
        if \<not> fRet then None
        else if opcode = OP_RETURN then Some (sizes, recheck, pc) else None)"
| "null_data_loop standard_check (Suc k) pc sizes recheck =
     (case GetOp2 pc of (fRet, opcode, vch, pc) \<Rightarrow>
        if \<not> fRet then None
        else if opcode = OP_RETURN then Some (sizes, recheck, pc)
        else if opcode > OP_PUSHDATA4 then None
        else
          (case GetOp2 pc of (fRet, opcode', vch, pc) \<Rightarrow>
             if \<not> fRet then None
             else if opcode' \<noteq> OP_DROP then None
             else null_data_loop standard_check k pc
                    (sizes @ [if opcode < OP_PUSHDATA1 then unat opcode else 0])
                    (recheck \<or> (\<not> opcode < OP_PUSHDATA1 \<and> standard_check))))"

definition null_data_tail :: "std_params \<Rightarrow> bool \<Rightarrow> bytes \<Rightarrow> bool" where
  "null_data_tail ps standard_check pc =
     (if pc = [] then True
      else case GetOp2 pc of (fRet, opcode, vch, pc') \<Rightarrow>
        if (if length pc > unat OP_PUSHDATA1
            then standard_check \<and> length vch > MAX_OP_RETURN_RELAY ps
            else opcode \<ge> OP_PUSHDATA1 \<or> (standard_check \<and> unat opcode > MAX_OP_RETURN_RELAY ps))
        then False
        else \<not> fst (GetOp2 pc'))"

text \<open>The second pass, which reads the sizes of pushdata operands.\<close>

fun null_data_sizes :: "nat \<Rightarrow> bytes \<Rightarrow> nat list \<Rightarrow> nat list" where
  "null_data_sizes 0 pc sizes = []"
| "null_data_sizes (Suc k) pc sizes =
     (case GetOp2 pc of (fRet, opcode, vch, pc) \<Rightarrow>
        if opcode = OP_RETURN then sizes
        else
          (let size = (if OP_PUSHDATA1 \<le> opcode \<and> opcode \<le> OP_PUSHDATA4 then length vch
                       else case sizes of [] \<Rightarrow> 0 | s # _ \<Rightarrow> s)
           in size # null_data_sizes k (snd (snd (snd (GetOp2 pc)))) (tl sizes)))"

definition IsStandardNullData :: "std_params \<Rightarrow> bytes \<Rightarrow> bool \<Rightarrow> bool" where
  "IsStandardNullData ps script standard_check =
     (case null_data_loop standard_check 2 script [] False of
        None \<Rightarrow> False
      | Some (sizes, recheck, pc) \<Rightarrow>
          if \<not> null_data_tail ps standard_check pc then False
          else if standard_check then
            (let sizes = (if recheck then null_data_sizes 2 script sizes else sizes)
             in list_all (\<lambda>s. \<not> s > MAX_SCRIPT_ELEMENT_SIZE ps) sizes)
          else True)"

subsection \<open>The direct parser\<close>

text \<open>\<open>GetOp\<close> followed by a test of the opcode, or of the size of the operand.\<close>

definition expect_op :: "byte \<Rightarrow> bytes \<Rightarrow> bytes option" where
  "expect_op op pc =
     (case GetOp2 pc of (fRet, opcode, vch, pc) \<Rightarrow> if \<not> fRet \<or> opcode \<noteq> op then None else Some pc)"

definition expect_hash :: "bytes \<Rightarrow> (bytes \<times> bytes) option" where
  "expect_hash pc =
     (case GetOp2 pc of (fRet, opcode, vch, pc) \<Rightarrow>
        if \<not> fRet \<or> length vch \<noteq> 20 then None else Some (vch, pc))"

definition VectorToAddress :: "script_env \<Rightarrow> bytes \<Rightarrow> CTxDestination" where
  "VectorToAddress env vch =
     (if length vch \<ge> 33 \<and> length vch \<le> 65 then
        (let pubKey = CPubKey_Set vch
         in if CPubKey_IsValid pubKey then CKeyID (GetID env pubKey) else CNoDestination)
      else CNoDestination)"

text \<open>
  The two parsed prefixes: \<open>Inl\<close> carries the addresses collected when the parser gives up, \<open>Inr\<close>
  the address and the rest of the script.
\<close>

definition parse_p2pkh :: "bytes \<Rightarrow> CTxDestination list + CTxDestination \<times> bytes" where
  "parse_p2pkh pc =
     (case expect_op OP_HASH160 pc of
        None \<Rightarrow> Inl []
      | Some pc \<Rightarrow>
          (case expect_hash pc of
             None \<Rightarrow> Inl []
           | Some (vch, pc) \<Rightarrow>
               (case expect_op OP_EQUALVERIFY pc of
                  None \<Rightarrow> Inl [CKeyID vch]
                | Some pc \<Rightarrow>
                    (case expect_op OP_CHECKSIG pc of
                       None \<Rightarrow> Inl [CKeyID vch]
                     | Some pc \<Rightarrow> Inr (CKeyID vch, pc)))))"

definition parse_p2sh :: "bytes \<Rightarrow> CTxDestination list + CTxDestination \<times> bytes" where
  "parse_p2sh pc =
     (case expect_hash pc of
        None \<Rightarrow> Inl []
      | Some (vch, pc) \<Rightarrow>
          (case expect_op OP_EQUAL pc of
             None \<Rightarrow> Inl [CScriptID vch]
           | Some pc \<Rightarrow> Inr (CScriptID vch, pc)))"

fun dest_bytes :: "CTxDestination \<Rightarrow> bytes" where
  "dest_bytes CNoDestination = []"
| "dest_bytes (CKeyID h) = h"
| "dest_bytes (CScriptID h) = h"

definition ExtractDestinations10008 :: "script_env \<Rightarrow> std_params \<Rightarrow> bytes \<Rightarrow> destinations" where
  "ExtractDestinations10008 env ps script =
     (let tail = (\<lambda>typeRet addressRet pc.
        (if pc = [] then (True, typeRet, addressRet, 1)
         else case GetOp2 pc of (fRet, opcode, vch, pc) \<Rightarrow>
           if fRet \<and> opcode \<noteq> OP_RETURN \<and> pc \<noteq> [] \<and>
              (case GetOp2 pc of (fRet, opcode, vch, pc) \<Rightarrow> fRet \<and> opcode = OP_DROP)
           then (True, typeRet, addressRet, 1)
           else (True, TX_NONSTANDARD, [], 1)))
      in case GetOp2 script of (fRet, opcode, vch, pc) \<Rightarrow>
        if \<not> fRet then tail TX_NONSTANDARD [] pc
        else if opcode = OP_DUP then
          (case parse_p2pkh pc of
             Inl addressRet \<Rightarrow> (False, TX_NONSTANDARD, addressRet, 1)
           | Inr (address, pc) \<Rightarrow> tail TX_PUBKEYHASH [address] pc)
        else if opcode = OP_HASH160 then
          (case parse_p2sh pc of
             Inl addressRet \<Rightarrow> (False, TX_NONSTANDARD, addressRet, 1)
           | Inr (address, pc) \<Rightarrow> tail TX_SCRIPTHASH [address] pc)
        else if IsStandardNullData ps script False then (False, TX_NULL_DATA, [], 1)
        else ExtractDestinationsFull env ps script 1)"

text \<open>
  The keys of a bare multisignature script up to the opcode of their number: on success the
  number, on failure nothing; the keys collected are returned in both cases.
\<close>

function multisig_keys_loop ::
    "script_env \<Rightarrow> bytes \<Rightarrow> bytes list \<Rightarrow> (int \<times> bytes) option \<times> bytes list" where
  "multisig_keys_loop env pc keys =
     (case GetOp2 pc of (fRet, opcode, vch, pc') \<Rightarrow>
        if \<not> fRet then (None, keys)
        else if opcode \<ge> OP_1 \<and> opcode \<le> OP_16 then
          (case DecodeOP_N opcode of
             Inr n \<Rightarrow> if n \<noteq> int (length keys) then (None, keys) else (Some (n, pc'), keys)
           | Inl _ \<Rightarrow> (None, keys))
        else if VectorToAddress env vch = CNoDestination then (None, keys)
        else multisig_keys_loop env pc' (keys @ [vch]))"
  by pat_completeness auto
termination
  by (relation "measure (\<lambda>(env, pc, keys). length pc)") (auto dest!: GetOp2_success [OF sym])

declare multisig_keys_loop.simps [simp del]

text \<open>The metadata after a destination: any number of \<open><data> OP_DROP\<close> pairs.\<close>

function drops_loop :: "bytes \<Rightarrow> bool" where
  "drops_loop pc =
     (if pc = [] then True
      else case GetOp2 pc of (fRet, opcode, vch, pc') \<Rightarrow>
        if \<not> fRet \<or> opcode > OP_PUSHDATA4 then False
        else case GetOp2 pc' of (fRet', opcode', vch', pc'') \<Rightarrow>
          if \<not> fRet' \<or> opcode' \<noteq> OP_DROP then False else drops_loop pc'')"
  by pat_completeness auto
termination
  by (relation "measure length") (auto dest!: GetOp2_success [OF sym])

declare drops_loop.simps [simp del]

text \<open>The result of \<open>ExtractDestinations\<close> with what it appends to \<open>*lpvSolutionsRet\<close>.\<close>

type_synonym extracted = "destinations \<times> bytes list"

definition ExtractDestinations :: "script_env \<Rightarrow> std_params \<Rightarrow> bytes \<Rightarrow> extracted" where
  "ExtractDestinations env ps script =
     (let finish = (\<lambda>typeRet addressRet nRequired sols pc.
        (if drops_loop pc then ((True, typeRet, addressRet, nRequired), sols)
         else ((False, TX_NONSTANDARD, addressRet, nRequired), sols)))
      in case GetOp2 script of (fRet, opcode, vch, pc) \<Rightarrow>
        if \<not> fRet then finish TX_NONSTANDARD [] 1 [] pc
        else if opcode = OP_DUP then
          (case parse_p2pkh pc of
             Inl addressRet \<Rightarrow> ((False, TX_NONSTANDARD, addressRet, 1), map dest_bytes addressRet)
           | Inr (address, pc) \<Rightarrow> finish TX_PUBKEYHASH [address] 1 [dest_bytes address] pc)
        else if opcode = OP_HASH160 then
          (case parse_p2sh pc of
             Inl addressRet \<Rightarrow> ((False, TX_NONSTANDARD, addressRet, 1), map dest_bytes addressRet)
           | Inr (address, pc) \<Rightarrow> finish TX_SCRIPTHASH [address] 1 [dest_bytes address] pc)
        else if IsStandardNullData ps script False then ((False, TX_NULL_DATA, [], 1), [])
        else if VectorToAddress env vch \<noteq> CNoDestination then
          (case expect_op OP_CHECKSIG pc of
             None \<Rightarrow> ((False, TX_NONSTANDARD, [], 1), [])
           | Some pc \<Rightarrow> finish TX_PUBKEY [VectorToAddress env vch] 1 [vch] pc)
        else if opcode \<ge> OP_1 \<and> opcode \<le> OP_16 then
          (let nRequired = (case DecodeOP_N opcode of Inr k \<Rightarrow> k | Inl _ \<Rightarrow> 0) in
           case multisig_keys_loop env pc [] of
             (None, keys) \<Rightarrow>
               ((False, TX_NONSTANDARD, map (VectorToAddress env) keys, nRequired),
                [of_int nRequired] # keys)
           | (Some (n, pc), keys) \<Rightarrow>
               (let addressRet = map (VectorToAddress env) keys;
                    sols = [of_int nRequired] # keys @ [[of_int n]]
                in case expect_op OP_CHECKMULTISIG pc of
                     None \<Rightarrow> ((False, TX_NONSTANDARD, addressRet, nRequired), sols)
                   | Some pc \<Rightarrow> finish TX_MULTISIG addressRet nRequired sols pc))
        else ((False, TX_NONSTANDARD, [], 1), []))"

definition TemplateSolver :: "script_env \<Rightarrow> std_params \<Rightarrow> bytes \<Rightarrow> bytes list \<Rightarrow> bool \<times> txnouttype \<times> bytes list" where
  "TemplateSolver env ps script vSolutions =
     (case ExtractDestinations env ps script of ((ok, typeRet, addressRet, nRequired), sols) \<Rightarrow>
        (ok, typeRet, vSolutions @ sols))"

text \<open>\<open>addressRets[0]\<close> is read without a test that there is one.\<close>

definition ExtractDestination :: "script_env \<Rightarrow> std_params \<Rightarrow> bytes \<Rightarrow> CTxDestination option cpp" where
  "ExtractDestination env ps script =
     (case ExtractDestinations env ps script of ((ok, typeRet, addressRets, nRequired), sols) \<Rightarrow>
        if \<not> ok then Inr None
        else if typeRet = TX_MULTISIG then Inr None
        else case addressRets of [] \<Rightarrow> Inl OutOfRange | a # _ \<Rightarrow> Inr (Some a))"

fun op_drops :: "std_params \<Rightarrow> nat \<Rightarrow> bytes \<Rightarrow> bool" where
  "op_drops ps 0 pc = (pc = [])"
| "op_drops ps (Suc d) pc =
     (if pc = [] then True
      else case GetOp2 pc of (fRet, opcode, vch, pc) \<Rightarrow>
        if \<not> fRet \<or> length vch > MAX_SCRIPT_ELEMENT_SIZE ps then False
        else case expect_op OP_DROP pc of None \<Rightarrow> False | Some pc \<Rightarrow> op_drops ps d pc)"

definition IsStandard :: "std_params \<Rightarrow> bytes \<Rightarrow> bool \<times> txnouttype" where
  "IsStandard ps script =
     (let finish = (\<lambda>whichType pc.
        if op_drops ps (MCP_STD_OP_DROP_COUNT ps) pc then (True, whichType) else (False, TX_NONSTANDARD))
      in case GetOp2 script of (fRet, opcode, vch, pc) \<Rightarrow>
        if \<not> fRet then finish TX_NONSTANDARD pc
        else if opcode = OP_DUP then
          (case parse_p2pkh pc of
             Inl _ \<Rightarrow> (False, TX_NONSTANDARD)
           | Inr (_, pc) \<Rightarrow> finish TX_PUBKEYHASH pc)
        else if opcode = OP_HASH160 then
          (case parse_p2sh pc of
             Inl _ \<Rightarrow> (False, TX_NONSTANDARD)
           | Inr (_, pc) \<Rightarrow> finish TX_SCRIPTHASH pc)
        else if IsStandardNullData ps script True then (True, TX_NULL_DATA)
        else IsStandardFull ps script)"

subsection \<open>Scripts for destinations\<close>

fun GetScriptForDestination :: "CTxDestination \<Rightarrow> bytes" where
  "GetScriptForDestination CNoDestination = []"
| "GetScriptForDestination (CKeyID keyID) =
     [OP_DUP] @ [OP_HASH160] @ push_data keyID @ [OP_EQUALVERIFY] @ [OP_CHECKSIG]"
| "GetScriptForDestination (CScriptID scriptID) = [OP_HASH160] @ push_data scriptID @ [OP_EQUAL]"

definition GetScriptForMultisig :: "int \<Rightarrow> bytes list \<Rightarrow> bytes cpp" where
  "GetScriptForMultisig nRequired keys =
     bind_cpp (EncodeOP_N nRequired) (\<lambda>m.
     bind_cpp (EncodeOP_N (int (length keys))) (\<lambda>n.
       Inr ([m] @ concat (map push_data keys) @ [n] @ [OP_CHECKMULTISIG])))"

definition GetScriptForPubKey :: "bytes \<Rightarrow> bytes" where
  "GetScriptForPubKey key = push_data key @ [OP_CHECKSIG]"

section \<open>Round trips\<close>

lemma expect_op_code: "OP_PUSHDATA4 < c \<Longrightarrow> expect_op c (c # pc) = Some pc"
  by (simp add: expect_op_def GetOp2_code)

lemma expect_hash_push:
  "length h = 20 \<Longrightarrow> length (h @ pc) < 4294967296 \<Longrightarrow> expect_hash (push_data h @ pc) = Some (h, pc)"
  by (simp add: expect_hash_def GetOp2_push_opcode)

definition metadata :: "bytes list \<Rightarrow> instr list" where
  "metadata ds = concat (map (\<lambda>d. [Push d, Code OP_DROP]) ds)"

lemma metadata_simps [simp]: "metadata [] = []" "metadata (d # ds) = Push d # Code OP_DROP # metadata ds"
  by (simp_all add: metadata_def)

lemma drops_loop_metadata:
  "length (encode_many enc_instr (metadata ds)) < 4294967296 \<Longrightarrow> drops_loop (encode_many enc_instr (metadata ds))"
proof (induction ds)
  case Nil
  then show ?case by (simp add: drops_loop.simps)
next
  case (Cons d ds)
  let ?rest = "OP_DROP # encode_many enc_instr (metadata ds)"
  have "length (d @ ?rest) < 4294967296" using Cons.prems push_data_length [of d] by simp
  then obtain opcode where "GetOp2 (push_data d @ ?rest) = (True, opcode, d, ?rest)" "opcode \<le> OP_PUSHDATA4"
    using GetOp2_push_data by blast
  moreover have "push_data d @ ?rest \<noteq> []" "\<not> OP_PUSHDATA4 < opcode" using calculation(2) by simp_all
  ultimately have "drops_loop (push_data d @ ?rest) = drops_loop (encode_many enc_instr (metadata ds))"
    by (subst drops_loop.simps) (simp add: GetOp2_code)
  then show ?case using Cons by simp
qed

lemma parse_p2pkh_script:
  "length h = 20 \<Longrightarrow> length rest < 4294967200 \<Longrightarrow>
   parse_p2pkh (OP_HASH160 # push_data h @ OP_EQUALVERIFY # OP_CHECKSIG # rest) = Inr (CKeyID h, rest)"
  by (simp add: parse_p2pkh_def expect_op_code expect_hash_push)

lemma parse_p2sh_script:
  "length h = 20 \<Longrightarrow> length rest < 4294967200 \<Longrightarrow>
   parse_p2sh (push_data h @ OP_EQUAL # rest) = Inr (CScriptID h, rest)"
  by (simp add: parse_p2sh_def expect_op_code expect_hash_push)

text \<open>
  C39. Destinations round-trip: the script written for a key or script hash, followed by any
  metadata in \<open><data> OP_DROP\<close> pairs, is read back as that destination.
\<close>

theorem ExtractDestination_roundtrip:
  assumes "dest = CKeyID h \<or> dest = CScriptID h" "length h = 20"
    and "length (encode_many enc_instr (metadata ds)) < 2 ^ 31"
  shows "ExtractDestination env ps (GetScriptForDestination dest @ encode_many enc_instr (metadata ds))
    = Inr (Some dest)"
proof -
  define rest where "rest = encode_many enc_instr (metadata ds)"
  have rest: "drops_loop rest" "length rest < 4294967200"
    using drops_loop_metadata [of ds] assms(3) by (simp_all add: rest_def)
  from assms(1) show ?thesis unfolding rest_def [symmetric]
  proof
    assume "dest = CKeyID h"
    then show "ExtractDestination env ps (GetScriptForDestination dest @ rest) = Inr (Some dest)"
      using rest assms(2)
      by (simp add: ExtractDestination_def ExtractDestinations_def GetOp2_code parse_p2pkh_script Let_def)
  next
    assume "dest = CScriptID h"
    then show "ExtractDestination env ps (GetScriptForDestination dest @ rest) = Inr (Some dest)"
      using rest assms(2)
      by (simp add: ExtractDestination_def ExtractDestinations_def GetOp2_code parse_p2sh_script Let_def)
  qed
qed

definition example_params :: std_params where
  "example_params = \<lparr>datacarrier = True, MAX_OP_RETURN_RELAY = 80, MAX_SCRIPT_ELEMENT_SIZE = 520,
     MCP_STD_OP_DROP_COUNT = 5\<rparr>"

theorem ExtractDestination_roundtrip_witness:
  "ExtractDestination example_env example_params
     (GetScriptForDestination (CKeyID (replicate 20 7)) @ encode_many enc_instr (metadata [[1, 2]]))
   = Inr (Some (CKeyID (replicate 20 7)))"
  by (rule ExtractDestination_roundtrip [of _ "replicate 20 7"]) (simp_all add: push_data_def)

subsection \<open>Multisignature scripts\<close>

definition pubkey_ok :: "bytes \<Rightarrow> bool" where
  "pubkey_ok k \<longleftrightarrow> k \<noteq> [] \<and> GetLen (hd k) \<noteq> 0 \<and> GetLen (hd k) = length k"

lemma pubkey_ok_address: "pubkey_ok k \<Longrightarrow> VectorToAddress env k = CKeyID (GetID env k)"
  by (auto simp: pubkey_ok_def VectorToAddress_def CPubKey_Set_def CPubKey_IsValid_def GetLen_def Let_def
      split: if_splits)

lemma GetOp2_pubkey:
  assumes "pubkey_ok k" "length rest < 4294967200"
  shows "\<exists>opcode. GetOp2 (push_data k @ rest) = (True, opcode, k, rest) \<and> opcode < OP_1"
proof -
  obtain opcode where "GetOp2 (push_data k @ rest) = (True, opcode, k, rest)" "opcode \<le> OP_PUSHDATA4"
    using GetOp2_push_data [of k rest] assms
    by (auto simp: pubkey_ok_def GetLen_def split: if_splits)
  moreover have "(OP_PUSHDATA4 :: byte) < OP_1" by simp
  ultimately show ?thesis using le_less_trans by blast
qed

lemma EncodeOP_N_small:
  assumes "1 \<le> n" "n \<le> 16"
  shows "\<exists>c. EncodeOP_N n = Inr c \<and> OP_1 \<le> c \<and> c \<le> OP_16 \<and> DecodeOP_N c = Inr n"
proof -
  define c where "c = (word_of_int (80 + n) :: byte)"
  have "uint c = (80 + n) mod 256" unfolding c_def uint_word_of_int by simp
  then have "uint c = 80 + n" using assms by simp
  moreover have "uint OP_1 + n - 1 = 80 + n" by simp
  moreover have "OP_1 \<le> c" "c \<le> OP_16" "c \<noteq> OP_0" using assms calculation(1) by (auto simp: word_le_def)
  ultimately show ?thesis using assms unfolding EncodeOP_N_def DecodeOP_N_def
    by (intro exI [of _ c]) (simp only: c_def [symmetric], simp)
qed

lemma multisig_keys_loop_keys:
  assumes n: "OP_1 \<le> c" "c \<le> OP_16" "DecodeOP_N c = Inr (int (length acc + length ks))"
    and keys: "list_all pubkey_ok ks" and len: "length (concat (map push_data ks) @ c # rest) < 4294967200"
  shows "multisig_keys_loop env (concat (map push_data ks) @ c # rest) acc
    = (Some (int (length acc + length ks), rest), acc @ ks)"
  using n(3) keys len
proof (induction ks arbitrary: acc)
  case Nil
  have "OP_PUSHDATA4 < c" using n(1) less_le_trans [of OP_PUSHDATA4 OP_1 c] by simp
  then show ?case using n(1,2) Nil by (subst multisig_keys_loop.simps) (simp add: GetOp2_code)
next
  case (Cons k ks)
  let ?rest = "concat (map push_data ks) @ c # rest"
  obtain opcode where g: "GetOp2 (push_data k @ ?rest) = (True, opcode, k, ?rest)" "opcode < OP_1"
    using GetOp2_pubkey [of k ?rest] Cons.prems by auto
  have "multisig_keys_loop env (push_data k @ ?rest) acc = multisig_keys_loop env ?rest (acc @ [k])"
    using g(1) Cons.prems(2) g(2) [folded not_le] by (subst multisig_keys_loop.simps) (auto simp: pubkey_ok_address)
  also have "\<dots> = (Some (int (length (acc @ [k]) + length ks), rest), (acc @ [k]) @ ks)"
    using Cons.prems by (intro Cons.IH) simp_all
  finally show ?case by simp
qed

text \<open>
  C38. Bare multisignature scripts round-trip: the script built for \<open>m\<close> of the given keys is
  recognised as multisignature with the same number of required signatures and the addresses
  of exactly these keys in order.
\<close>

theorem ExtractDestinations_multisig:
  assumes "1 \<le> m" "m \<le> 16" "1 \<le> length keys" "length keys \<le> 16" "list_all pubkey_ok keys"
  shows "\<exists>script. GetScriptForMultisig m keys = Inr script \<and>
    fst (ExtractDestinations env ps script)
      = (True, TX_MULTISIG, map (\<lambda>k. CKeyID (GetID env k)) keys, m)"
proof -
  obtain c where c: "EncodeOP_N m = Inr c" "OP_1 \<le> c" "c \<le> OP_16" "DecodeOP_N c = Inr m"
    using EncodeOP_N_small [OF assms(1,2)] by blast
  obtain n where n: "EncodeOP_N (int (length keys)) = Inr n" "OP_1 \<le> n" "n \<le> OP_16"
      "DecodeOP_N n = Inr (int (length keys))"
    using EncodeOP_N_small [of "int (length keys)"] assms(3,4) by auto
  have len: "length (push_data k) \<le> 70" if "k \<in> set keys" for k
  proof -
    have "length k = 33 \<or> length k = 65"
      using that assms(5) by (auto simp: list_all_iff pubkey_ok_def GetLen_def split: if_splits)
    then show ?thesis by (auto simp: push_data_def)
  qed
  have "length (concat (map push_data ks)) \<le> 70 * length ks" if "set ks \<subseteq> set keys" for ks
    using that len by (induction ks) (auto intro: add_mono)
  from this [of keys] have small: "length (concat (map push_data keys) @ n # [OP_CHECKMULTISIG]) < 4294967200"
    using assms(4) by simp
  define T where "T = concat (map push_data keys) @ n # [OP_CHECKMULTISIG]"
  have hi: "OP_PUSHDATA4 < c" using c(2) less_le_trans [of OP_PUSHDATA4 OP_1 c] by simp
  have "unat c \<le> 96" using c(3) by (simp add: word_le_nat_alt)
  then have ne: "c \<noteq> OP_DUP" "c \<noteq> OP_HASH160" "c \<noteq> OP_RETURN" by auto
  have g: "GetOp2 (c # T) = (True, c, [], T)" using hi by (rule GetOp2_code)
  have nn: "\<not> IsStandardNullData ps (c # T) False"
    using hi ne(3) g by (simp add: IsStandardNullData_def numeral_2_eq_2)
  have keys: "multisig_keys_loop env T [] = (Some (int (length keys), [OP_CHECKMULTISIG]), keys)"
    using multisig_keys_loop_keys [OF n(2,3), of "[]" keys "[OP_CHECKMULTISIG]" env] n(4) assms(5) small
    by (simp add: T_def)
  have addr: "map (VectorToAddress env) keys = map (\<lambda>k. CKeyID (GetID env k)) keys"
    using assms(5) by (simp add: list_all_iff pubkey_ok_address)
  have e: "VectorToAddress env [] = CNoDestination" by (simp add: VectorToAddress_def)
  have last: "expect_op OP_CHECKMULTISIG [OP_CHECKMULTISIG] = Some []" "drops_loop []"
    by (simp_all add: expect_op_code drops_loop.simps)
  have "fst (ExtractDestinations env ps (c # T)) = (True, TX_MULTISIG, map (\<lambda>k. CKeyID (GetID env k)) keys, m)"
    unfolding ExtractDestinations_def Let_def
    by (simp only: g prod.case not_True_eq_False if_False ne nn e simp_thms c(2-4) keys option.case sum.case
        last if_True fst_conv addr)
  then show ?thesis using c(1) n(1) by (simp add: GetScriptForMultisig_def T_def)
qed

theorem ExtractDestinations_multisig_witness:
  "\<exists>script. GetScriptForMultisig 1 [2 # replicate 32 5] = Inr script \<and>
    fst (ExtractDestinations example_env example_params script)
      = (True, TX_MULTISIG, [CKeyID (GetID example_env (2 # replicate 32 5))], 1)"
  using ExtractDestinations_multisig [of 1 "[2 # replicate 32 5]" example_env example_params]
  by (simp add: pubkey_ok_def GetLen_def)

text \<open>
  C38. An output script whose first instruction does not parse, such as the empty script, is not
  covered by the branches of the parser: \<open>ExtractDestination\<close> then reads the first element of an
  empty address vector, and \<open>IsStandard\<close> accepts the empty script although its type is
  non-standard.
\<close>

theorem ExtractDestination_empty_script:
  "ExtractDestination env ps [] = Inl OutOfRange \<and> IsStandard ps [] = (True, TX_NONSTANDARD)"
proof -
  have "op_drops ps n []" for n by (cases n) simp_all
  then show ?thesis
    by (simp add: ExtractDestination_def ExtractDestinations_def GetOp2_def drops_loop.simps
        IsStandard_def Let_def)
qed

end
