(* ===== verification/Compressor.thy ===== *)
theory Compressor
  imports Transaction Standard
begin

text \<open>
  The compact format of unspent outputs (\<^verbatim>\<open>utils/compressor.h\<close>, \<^verbatim>\<open>utils/compressor.cpp\<close>): amounts with
  their trailing zeros factored out, and short forms for the usual output scripts. Amounts are
  \<open>uint64_t\<close>, read as natural numbers with the wrap-around written out. Whether a point is on the
  curve and its decompression are done by \<open>libsecp256k1\<close>: they are the parameters \<open>IsFullyValid\<close>
  and \<open>PkDecompress\<close>, related by the hypothesis \<open>decompresses\<close>.
\<close>

definition put_varint :: "nat \<Rightarrow> bytes" where
  "put_varint n = WriteVarInt (of_nat n)"

definition get_varint :: "bytes \<Rightarrow> (nat \<times> bytes) option" where
  "get_varint s = map_option (\<lambda>(v, s). (unat v, s)) (ReadVarInt s)"

subsection \<open>Amounts\<close>

function compress_loop :: "nat \<Rightarrow> nat \<Rightarrow> nat \<times> nat" where
  "compress_loop n e = (if n mod 10 = 0 \<and> e < 9 then compress_loop (n div 10) (e + 1) else (n, e))"
  by pat_completeness auto
termination by (relation "measure (\<lambda>(n, e). 9 - e)") auto

declare compress_loop.simps [simp del]

definition CompressAmount :: "nat \<Rightarrow> nat" where
  "CompressAmount n =
     (if n = 0 then 0
      else case compress_loop n 0 of (n, e) \<Rightarrow>
        if e < 9 then (let d = n mod 10; n = n div 10 in (1 + (n * 9 + d - 1) * 10 + e) mod 2 ^ 64)
        else (1 + (n - 1) * 10 + 9) mod 2 ^ 64)"

fun mul10_loop :: "nat \<Rightarrow> nat \<Rightarrow> nat" where
  "mul10_loop 0 n = n"
| "mul10_loop (Suc e) n = mul10_loop e (n * 10 mod 2 ^ 64)"

definition DecompressAmount :: "nat \<Rightarrow> nat" where
  "DecompressAmount x =
     (if x = 0 then 0
      else let x = x - 1; e = x mod 10; x = x div 10 in
        if e < 9 then (let d = x mod 9 + 1; x = x div 9 in mul10_loop e ((x * 10 + d) mod 2 ^ 64))
        else mul10_loop e ((x + 1) mod 2 ^ 64))"

subsection \<open>Scripts\<close>

definition IsToKeyID :: "bytes \<Rightarrow> bytes option" where
  "IsToKeyID script =
     (if length script = 25 \<and> script ! 0 = OP_DUP \<and> script ! 1 = OP_HASH160 \<and> script ! 2 = 20
         \<and> script ! 23 = OP_EQUALVERIFY \<and> script ! 24 = OP_CHECKSIG
      then Some (take 20 (drop 3 script)) else None)"

definition IsToScriptID :: "bytes \<Rightarrow> bytes option" where
  "IsToScriptID script =
     (if length script = 23 \<and> script ! 0 = OP_HASH160 \<and> script ! 1 = 20 \<and> script ! 22 = OP_EQUAL
      then Some (take 20 (drop 2 script)) else None)"

definition IsToPubKey :: "(bytes \<Rightarrow> bool) \<Rightarrow> bytes \<Rightarrow> bytes option" where
  "IsToPubKey IsFullyValid script =
     (if length script = 35 \<and> script ! 0 = 33 \<and> script ! 34 = OP_CHECKSIG
         \<and> (script ! 1 = 0x02 \<or> script ! 1 = 0x03)
      then Some (CPubKey_Set (take 33 (drop 1 script)))
      else if length script = 67 \<and> script ! 0 = 65 \<and> script ! 66 = OP_CHECKSIG \<and> script ! 1 = 0x04
      then (let pubkey = CPubKey_Set (take 65 (drop 1 script))
            in if IsFullyValid pubkey then Some pubkey else None)
      else None)"

definition CompressScript :: "(bytes \<Rightarrow> bool) \<Rightarrow> bytes \<Rightarrow> bytes option" where
  "CompressScript IsFullyValid script =
     (case IsToKeyID script of
        Some keyID \<Rightarrow> Some (0x00 # keyID)
      | None \<Rightarrow>
          (case IsToScriptID script of
             Some scriptID \<Rightarrow> Some (0x01 # scriptID)
           | None \<Rightarrow>
               (case IsToPubKey IsFullyValid script of
                  None \<Rightarrow> None
                | Some pubkey \<Rightarrow>
                    if pubkey ! 0 = 0x02 \<or> pubkey ! 0 = 0x03
                    then Some (pubkey ! 0 # take 32 (drop 1 pubkey))
                    else if pubkey ! 0 = 0x04
                    then Some ((0x04 OR (pubkey ! 64 AND 0x01)) # take 32 (drop 1 pubkey))
                    else None)))"

definition GetSpecialSize :: "nat \<Rightarrow> nat" where
  "GetSpecialSize nSize =
     (if nSize = 0 \<or> nSize = 1 then 20
      else if nSize = 2 \<or> nSize = 3 \<or> nSize = 4 \<or> nSize = 5 then 32 else 0)"

text \<open>\<open>DecompressScript\<close> returns the new script, or \<open>None\<close> where it leaves the script as it was.\<close>

definition DecompressScript :: "(bytes \<Rightarrow> bytes option) \<Rightarrow> nat \<Rightarrow> bytes \<Rightarrow> bytes option cpp" where
  "DecompressScript PkDecompress nSize vch =
     (if nSize = 0 then Inr (Some ([OP_DUP, OP_HASH160, 20] @ take 20 vch @ [OP_EQUALVERIFY, OP_CHECKSIG]))
      else if nSize = 1 then Inr (Some ([OP_HASH160, 20] @ take 20 vch @ [OP_EQUAL]))
      else if nSize = 2 \<or> nSize = 3 then Inr (Some ([33, of_nat nSize] @ take 32 vch @ [OP_CHECKSIG]))
      else if nSize = 4 \<or> nSize = 5 then
        (case PkDecompress (CPubKey_Set (of_nat (nSize - 2) # take 32 vch)) of
           None \<Rightarrow> Inr None
         | Some pubkey \<Rightarrow>
             bind_cpp (assert_cpp (length pubkey = 65)) (\<lambda>_. Inr (Some (65 # pubkey @ [OP_CHECKSIG]))))
      else Inr None)"

definition ser_cscript :: "(bytes \<Rightarrow> bool) \<Rightarrow> bytes \<Rightarrow> bytes" where
  "ser_cscript IsFullyValid script =
     (case CompressScript IsFullyValid script of
        Some compr \<Rightarrow> compr
      | None \<Rightarrow> put_varint ((length script + 6) mod 2 ^ 32) @ script)"

text \<open>Reading into a script that holds \<open>old\<close>; \<open>None\<close> when the stream ends early.\<close>

definition unser_cscript ::
    "(bytes \<Rightarrow> bytes option) \<Rightarrow> bytes \<Rightarrow> bytes \<Rightarrow> (bytes cpp \<times> bytes) option" where
  "unser_cscript PkDecompress old s =
     (case get_varint s of
        None \<Rightarrow> None
      | Some (v, s) \<Rightarrow>
          (let nSize = v mod 2 ^ 32 in
           if nSize < 6 then
             (case read_bytes (GetSpecialSize nSize) s of
                None \<Rightarrow> None
              | Some (vch, s) \<Rightarrow>
                  Some (map_sum id (\<lambda>r. case r of None \<Rightarrow> old | Some new \<Rightarrow> new)
                    (DecompressScript PkDecompress nSize vch), s))
           else map_option (\<lambda>(script, s). (Inr script, s)) (read_bytes (nSize - 6) s)))"

definition ser_ctxout :: "(bytes \<Rightarrow> bool) \<Rightarrow> CTxOut \<Rightarrow> bytes" where
  "ser_ctxout IsFullyValid txout =
     put_varint (CompressAmount (nat (nValue txout mod 2 ^ 64))) @ ser_cscript IsFullyValid (scriptPubKey txout)"

definition unser_ctxout :: "(bytes \<Rightarrow> bytes option) \<Rightarrow> bytes \<Rightarrow> (CTxOut \<times> bytes) option" where
  "unser_ctxout PkDecompress s =
     (case get_varint s of
        None \<Rightarrow> None
      | Some (nVal, s) \<Rightarrow>
          (case unser_cscript PkDecompress [] s of
             Some (Inr script, s) \<Rightarrow>
               Some (\<lparr>nValue = to_int64 (int (DecompressAmount (nVal mod 2 ^ 64))), scriptPubKey = script\<rparr>, s)
           | _ \<Rightarrow> None))"

section \<open>Round trips\<close>

lemma get_put_varint:
  assumes "n < 2 ^ 64" "length (put_varint n @ rest) < 4294967296"
  shows "get_varint (put_varint n @ rest) = Some (n, rest)"
  using varint.dec_enc [of "of_nat n" rest] assms
  by (simp add: get_varint_def put_varint_def unat_of_nat take_bit_nat_eq_self)

lemma put_varint_ne: "put_varint n \<noteq> []"
  using varint.enc_nonempty by (simp add: put_varint_def)

lemma compress_loop_val:
  "compress_loop n e = (m, e') \<Longrightarrow> e \<le> 9 \<Longrightarrow> n = m * 10 ^ (e' - e) \<and> e \<le> e' \<and> e' \<le> 9 \<and> (e' < 9 \<longrightarrow> m mod 10 \<noteq> 0)"
proof (induction n e rule: compress_loop.induct)
  case (1 n e)
  show ?case
  proof (cases "n mod 10 = 0 \<and> e < 9")
    case True
    then have l: "compress_loop (n div 10) (e + 1) = (m, e')" using "1.prems"(1) by (simp add: compress_loop.simps [of n e])
    have IH: "n div 10 = m * 10 ^ (e' - (e + 1)) \<and> e + 1 \<le> e' \<and> e' \<le> 9 \<and> (e' < 9 \<longrightarrow> m mod 10 \<noteq> 0)"
      using "1.IH" [OF True l] True by simp
    have "n = 10 * (n div 10)" using True by auto
    also have "\<dots> = m * 10 ^ (e' - e)" using IH by (simp add: Suc_diff_Suc [symmetric] less_eq_Suc_le)
    finally show ?thesis using IH by simp
  next
    case False
    then show ?thesis using "1.prems" by (auto simp: compress_loop.simps [of n e])
  qed
qed

lemma mul10_loop_val: "n * 10 ^ e < 2 ^ 64 \<Longrightarrow> mul10_loop e n = n * 10 ^ e"
proof (induction e arbitrary: n)
  case (Suc e)
  have "n * 10 \<le> n * 10 ^ Suc e" by simp
  then have "n * 10 mod 2 ^ 64 = n * 10" using Suc.prems by (intro mod_less) linarith
  then show ?case using Suc.IH [of "n * 10"] Suc.prems by (simp add: ac_simps)
qed simp

lemma DecompressAmount_Compress:
  assumes "n < 2 ^ 60"
  shows "DecompressAmount (CompressAmount n) = n \<and> CompressAmount n < 2 ^ 64"
proof (cases "n = 0")
  case False
  obtain m e where me: "compress_loop n 0 = (m, e)" by fastforce
  have v: "n = m * 10 ^ e" "e \<le> 9" "e < 9 \<Longrightarrow> m mod 10 \<noteq> 0" using compress_loop_val [OF me] by auto
  have m: "0 < m" "m \<le> n" using v(1) False by auto
  show ?thesis
  proof (cases "e < 9")
    case True
    define d where "d = m mod 10 - 1"
    have d: "m = m div 10 * 10 + (d + 1)" "d < 9" using v(3) [OF True] by (auto simp: d_def)
    define x where "x = m div 10 * 9 + d"
    have x: "x div 9 = m div 10" "x mod 9 = d" using d(2) by (simp_all add: x_def)
    have "1 + x * 10 + e < 2 ^ 64" using m(2) assms True d(2) by (simp add: x_def)
    moreover have "m div 10 * 9 + m mod 10 - 1 = x" using v(3) [OF True] by (simp add: x_def d_def)
    ultimately have c: "CompressAmount n = 1 + x * 10 + e" using False True me by (simp add: CompressAmount_def Let_def)
    have "(1 + x * 10 + e - 1) mod 10 = e" "(1 + x * 10 + e - 1) div 10 = x" using True by simp_all
    moreover have "(m div 10 * 10 + (d + 1)) mod 2 ^ 64 = m" using d(1) m assms by simp
    ultimately have "DecompressAmount (CompressAmount n) = mul10_loop e m"
      using True x by (simp add: c DecompressAmount_def Let_def)
    then show ?thesis using mul10_loop_val [of m e] v(1) assms \<open>1 + x * 10 + e < 2 ^ 64\<close> c by simp
  next
    case e: False
    then have e9: "e = 9" using v(2) by simp
    have "1 + (m - 1) * 10 + 9 < 2 ^ 64" using m assms v(1) e9 by simp
    then have c: "CompressAmount n = 1 + (m - 1) * 10 + 9" using False me e9 by (simp add: CompressAmount_def)
    have "DecompressAmount (CompressAmount n) = mul10_loop 9 ((m - 1 + 1) mod 2 ^ 64)"
      by (simp add: c DecompressAmount_def Let_def del: mul10_loop.simps)
    also have "\<dots> = mul10_loop 9 m" using m assms by simp
    finally show ?thesis using mul10_loop_val [of m 9] v(1) assms e9 \<open>1 + (m - 1) * 10 + 9 < 2 ^ 64\<close> c by simp
  qed
qed (simp add: CompressAmount_def DecompressAmount_def)


text \<open>What the decompression of public keys promises.\<close>

definition decompresses :: "(bytes \<Rightarrow> bool) \<Rightarrow> (bytes \<Rightarrow> bytes option) \<Rightarrow> bool" where
  "decompresses IsFullyValid PkDecompress \<longleftrightarrow>
     (\<forall>k. length k = 65 \<and> hd k = 4 \<and> IsFullyValid k \<longrightarrow>
        PkDecompress ((2 + (k ! 64 AND 1)) # take 32 (tl k)) = Some k)"

lemma get_varint_byte: "b \<in> {0, 1, 2, 3, 4, 5} \<Longrightarrow> get_varint (b # s) = Some (unat b, s)"
  by (auto simp: get_varint_def ReadVarInt_def)

lemma split_around:
  assumes "length s = a + n + b"
  shows "take a s @ take n (drop a s) @ drop (a + n) s = s"
  using assms by (metis append_take_drop_id drop_drop add.commute)


lemma take_nths:
  "0 < length s \<Longrightarrow> take 1 s = [s ! 0]" "1 < length s \<Longrightarrow> take 2 s = [s ! 0, s ! 1]"
  "2 < length s \<Longrightarrow> take 3 s = [s ! 0, s ! 1, s ! 2]"
  by (cases s; cases "tl s"; cases "tl (tl s)"; simp add: eval_nat_numeral)+

lemma drop_nths:
  "length s = n + 1 \<Longrightarrow> drop n s = [s ! n]" "length s = n + 2 \<Longrightarrow> drop n s = [s ! n, s ! (n + 1)]"
  using Cons_nth_drop_Suc [of n s] Cons_nth_drop_Suc [of "n + 1" s] by simp_all

lemma IsToKeyID_Some:
  assumes "IsToKeyID s = Some h"
  shows "length h = 20 \<and> s = [OP_DUP, OP_HASH160, 20] @ h @ [OP_EQUALVERIFY, OP_CHECKSIG]"
proof -
  have c: "length s = 25" "s ! 0 = OP_DUP" "s ! 1 = OP_HASH160" "s ! 2 = 20" "s ! 23 = OP_EQUALVERIFY"
      "s ! 24 = OP_CHECKSIG" "h = take 20 (drop 3 s)"
    using assms by (simp_all add: IsToKeyID_def split: if_splits)
  have "take 3 s = [OP_DUP, OP_HASH160, 20]" "drop 23 s = [OP_EQUALVERIFY, OP_CHECKSIG]"
    using take_nths(3) [of s] drop_nths(2) [of s 23] c by simp_all
  then show ?thesis using split_around [of s 3 20 2] c(1,7) by simp
qed

lemma IsToScriptID_Some:
  assumes "IsToScriptID s = Some h"
  shows "length h = 20 \<and> s = [OP_HASH160, 20] @ h @ [OP_EQUAL]"
proof -
  have c: "length s = 23" "s ! 0 = OP_HASH160" "s ! 1 = 20" "s ! 22 = OP_EQUAL" "h = take 20 (drop 2 s)"
    using assms by (simp_all add: IsToScriptID_def split: if_splits)
  have "take 2 s = [OP_HASH160, 20]" "drop 22 s = [OP_EQUAL]"
    using take_nths(2) [of s] drop_nths(1) [of s 22] c by simp_all
  then show ?thesis using split_around [of s 2 20 1] c(1,5) by simp
qed

lemma IsToPubKey_Some:
  assumes "IsToPubKey v s = Some k"
  shows "length k = 33 \<and> (hd k = 2 \<or> hd k = 3) \<and> s = [33] @ k @ [OP_CHECKSIG]
    \<or> length k = 65 \<and> hd k = 4 \<and> v k \<and> s = [65] @ k @ [OP_CHECKSIG]"
proof (cases "length s = 35 \<and> s ! 0 = 33 \<and> s ! 34 = OP_CHECKSIG \<and> (s ! 1 = 0x02 \<or> s ! 1 = 0x03)")
  case True
  have "hd (take 33 (drop 1 s)) = s ! 1" using True by (simp add: hd_drop_conv_nth)
  then have "k = take 33 (drop 1 s)" "hd k = s ! 1" using assms True
    by (auto simp: IsToPubKey_def CPubKey_Set_def GetLen_def Let_def)
  then show ?thesis using True split_around [of s 1 33 1] take_nths(1) [of s] drop_nths(1) [of s 34] by simp
next
  case False
  then have c: "length s = 67" "s ! 0 = 65" "s ! 66 = OP_CHECKSIG" "s ! 1 = 0x04"
    using assms by (auto simp: IsToPubKey_def split: if_splits)
  have "hd (take 65 (drop 1 s)) = s ! 1" using c by (simp add: hd_drop_conv_nth)
  then have "k = take 65 (drop 1 s)" "hd k = 4" "v k" using assms c
    by (auto simp: IsToPubKey_def CPubKey_Set_def GetLen_def Let_def split: if_splits)
  then show ?thesis using c split_around [of s 1 65 1] take_nths(1) [of s] drop_nths(1) [of s 66] by simp
qed

lemma cscript_special:
  assumes "b \<in> {0, 1, 2, 3, 4, 5}" "length h = GetSpecialSize (unat b)"
    and "DecompressScript dec (unat b) h = Inr (Some s)"
  shows "unser_cscript dec old ((b # h) @ rest) = Some (Inr s, rest)"
proof -
  have "unat b mod 4294967296 = unat b" "unat b < 6" using assms(1) by auto
  then show ?thesis using get_varint_byte [OF assms(1), of "h @ rest"] assms(2,3) read_bytes_append [OF assms(2)]
    by (simp add: unser_cscript_def Let_def)
qed

lemma and_1_byte: "(x AND 1 :: byte) = 0 \<or> x AND 1 = 1"
  by (metis and_one_eq odd_iff_mod_2_eq_one even_iff_mod_2_eq_zero)


lemma unser_ser_cscript:
  assumes dec: "decompresses v dec" and len: "length s + 6 < 2 ^ 32" "length (ser_cscript v s @ rest) < 2 ^ 32"
  shows "unser_cscript dec old (ser_cscript v s @ rest) = Some (Inr s, rest)"
proof (cases "CompressScript v s")
  case None
  have n: "(length s + 6) mod 2 ^ 32 = length s + 6" using len(1) by (rule mod_less)
  have ser: "ser_cscript v s @ rest = put_varint (length s + 6) @ (s @ rest)"
    using None n by (simp add: ser_cscript_def)
  have "get_varint (put_varint (length s + 6) @ (s @ rest)) = Some (length s + 6, s @ rest)"
    using len ser by (intro get_put_varint) simp_all
  then show ?thesis unfolding ser using len(1) by (simp add: unser_cscript_def Let_def read_bytes_append)
next
  case (Some c)
  then have ser: "ser_cscript v s = c" by (simp add: ser_cscript_def)
  consider h where "c = 0 # h" "IsToKeyID s = Some h" | h where "c = 1 # h" "IsToScriptID s = Some h"
    | k where "IsToPubKey v s = Some k" "c = (if k ! 0 = 2 \<or> k ! 0 = 3 then k ! 0 else 4 OR (k ! 64 AND 1)) # take 32 (drop 1 k)"
    using Some by (auto simp: CompressScript_def split: option.splits if_splits)
  then show ?thesis
  proof cases
    case 1
    then show ?thesis using IsToKeyID_Some [OF 1(2)] unfolding ser 1(1)
      by (intro cscript_special) (auto simp: GetSpecialSize_def DecompressScript_def)
  next
    case 2
    then show ?thesis using IsToScriptID_Some [OF 2(2)] unfolding ser 2(1)
      by (intro cscript_special) (auto simp: GetSpecialSize_def DecompressScript_def)
  next
    case 3
    consider "length k = 33 \<and> (hd k = 2 \<or> hd k = 3) \<and> s = [33] @ k @ [OP_CHECKSIG]"
      | "length k = 65 \<and> hd k = 4 \<and> v k \<and> s = [65] @ k @ [OP_CHECKSIG]"
      using IsToPubKey_Some [OF 3(1)] by blast
    then show ?thesis
    proof cases
      case 1
      then have k: "length k = 33" "hd k = 2 \<or> hd k = 3" "s = [33] @ k @ [OP_CHECKSIG]" by auto
      then obtain b h where bh: "k = b # h" "length h = 32" "b = 2 \<or> b = 3" by (cases k) auto
      then show ?thesis unfolding ser 3(2)
        by (intro cscript_special) (auto simp: k(3) GetSpecialSize_def DecompressScript_def)
    next
      case 2
      then have k: "length k = 65" "hd k = 4" "v k" "s = [65] @ k @ [OP_CHECKSIG]" by auto
      then obtain h where h: "k = 4 # h" "length h = 64" by (cases k) auto
      have "dec ((2 + (k ! 64 AND 1)) # take 32 (tl k)) = Some k"
        using dec k(1-3) unfolding decompresses_def by blast
      then have d: "dec ((2 + (k ! 64 AND 1)) # take 32 h) = Some k" by (simp only: h(1) list.sel)
      have x: "k ! 64 AND 1 = 0 \<or> k ! 64 AND 1 = 1" by (rule and_1_byte)
      then show ?thesis using d k h unfolding ser 3(2)
        by (intro cscript_special) (auto simp: k(4) GetSpecialSize_def DecompressScript_def CPubKey_Set_def GetLen_def)
    qed
  qed
qed


definition ctxout_ok :: "CTxOut \<Rightarrow> bool" where
  "ctxout_ok txout \<longleftrightarrow> 0 \<le> nValue txout \<and> nValue txout < 2 ^ 60 \<and> length (scriptPubKey txout) + 6 < 2 ^ 32"

lemma unser_ser_ctxout:
  assumes dec: "decompresses v dec" and ok: "ctxout_ok txout" and len: "length (ser_ctxout v txout @ rest) < 2 ^ 32"
  shows "unser_ctxout dec (ser_ctxout v txout @ rest) = Some (txout, rest)"
proof -
  let ?n = "nat (nValue txout)" and ?s = "ser_cscript v (scriptPubKey txout)"
  have n: "nat (nValue txout mod 2 ^ 64) = ?n" "?n < 2 ^ 60" using ok by (auto simp: ctxout_ok_def)
  note c = DecompressAmount_Compress [OF n(2)]
  have ser: "ser_ctxout v txout @ rest = put_varint (CompressAmount ?n) @ (?s @ rest)"
    by (simp only: ser_ctxout_def n(1) append_assoc)
  have "get_varint (put_varint (CompressAmount ?n) @ (?s @ rest)) = Some (CompressAmount ?n, ?s @ rest)"
    using c len ser by (intro get_put_varint) simp_all
  moreover have "unser_cscript dec [] (?s @ rest) = Some (Inr (scriptPubKey txout), rest)"
    using len ok ser by (intro unser_ser_cscript [OF dec]) (simp_all add: ctxout_ok_def)
  moreover have "to_int64 (int ?n) = nValue txout" using ok by (simp add: ctxout_ok_def)
  ultimately show ?thesis unfolding ser using c by (simp add: unser_ctxout_def)
qed

end
