(* ===== verification/HdacScript.thy ===== *)
theory HdacScript
  imports Interpreter
begin

text \<open>
  The scanning functions of \<^verbatim>\<open>protocol/hdac/hdacscript.cpp\<close>, which look for metadata in output
  scripts and for signatures and keys in input scripts. The source walks the buffer with a
  pointer; here the pointer is its distance from the start of the buffer, an integer, because
  a push size is read into a signed \<open>int\<close> and can be negative. Reading outside the buffer is
  \<open>OutOfRange\<close>, and a loop that does not end has the value \<open>None\<close>.
\<close>

definition mc_GetLE :: "bytes \<Rightarrow> int" where
  "mc_GetLE b = to_int64 (int (le_val b))"

text \<open>Offset and size of the element that starts the given bytes; \<open>None\<close> is \<open>MC_ERR_WRONG_SCRIPT\<close>.\<close>

definition mc_GetPushDataElement :: "bytes \<Rightarrow> (int \<times> int) option" where
  "mc_GetPushDataElement src =
     (case src of
        [] \<Rightarrow> None
      | opcode # rest \<Rightarrow>
          if opcode \<le> OP_PUSHDATA4 then
            (let check = (\<lambda>skip nSize. if int (length src) < skip + nSize then None else Some (skip, nSize)) in
             if opcode < OP_PUSHDATA1 then check 1 (uint opcode)
             else if opcode = OP_PUSHDATA1 then
               (if length rest < 1 then None else check 2 (to_int32 (mc_GetLE (take 1 rest))))
             else if opcode = OP_PUSHDATA2 then
               (if length rest < 2 then None else check 3 (to_int32 (mc_GetLE (take 2 rest))))
             else
               (if length rest < 4 then None else check 5 (to_int32 (mc_GetLE (take 4 rest)))))
          else if opcode > OP_16 then None
          else Some (1, 0))"

text \<open>Bytes from the pointer on, and the byte at the pointer.\<close>

definition from_ptr :: "bytes \<Rightarrow> int \<Rightarrow> bytes" where
  "from_ptr src p = drop (nat p) src"

definition deref :: "bytes \<Rightarrow> int \<Rightarrow> byte" where
  "deref src p = src ! nat p"

subsection \<open>Metadata in output scripts\<close>

text \<open>
  The two loops of \<open>mc_ParseOpDropOpReturnScript\<close>. \<open>drops\<close> holds the arrays \<open>op_drop_offset\<close> and
  \<open>op_drop_size\<close> of the caller, pairwise.
\<close>

partial_function (option) op_drop_loop ::
    "bytes \<Rightarrow> nat \<Rightarrow> int \<Rightarrow> (int \<times> int) list \<Rightarrow> (int \<times> (int \<times> int) list) cpp option" where
  "op_drop_loop src d ptr drops =
     (if d < length drops \<and> ptr < int (length src) then
        (if ptr < 0 then Some (Inl OutOfRange)
         else if deref src ptr = OP_RETURN then Some (Inr (ptr, drops))
         else
           (let drops = drops[d := (0, - 1)] in
            case mc_GetPushDataElement (from_ptr src ptr) of
              None \<Rightarrow> op_drop_loop src d (ptr + 1) drops
            | Some (elem_offset, elem_size) \<Rightarrow>
                (let elem_offset = elem_offset + ptr; ptr = elem_offset + elem_size in
                 if ptr < int (length src) then
                   (if ptr < 0 then Some (Inl OutOfRange)
                    else if deref src ptr = OP_DROP
                    then op_drop_loop src (d + 1) (ptr + 1) (drops[d := (elem_offset, elem_size)])
                    else op_drop_loop src d ptr drops)
                 else op_drop_loop src d ptr drops)))
      else Some (Inr (ptr, drops)))"

partial_function (option) op_return_loop :: "bytes \<Rightarrow> int \<Rightarrow> int cpp option" where
  "op_return_loop src ptr =
     (if ptr < int (length src) then
        (if ptr < 0 then Some (Inl OutOfRange)
         else if deref src ptr = OP_RETURN then Some (Inr ptr)
         else case mc_GetPushDataElement (from_ptr src ptr) of
                None \<Rightarrow> op_return_loop src (ptr + 1)
              | Some (elem_offset, elem_size) \<Rightarrow> op_return_loop src (ptr + (elem_offset + elem_size)))
      else Some (Inr ptr))"

text \<open>
  The result is \<open>None\<close> for \<open>NULL\<close>, and otherwise the arrays and the offset and size of what
  \<open>OP_RETURN\<close> carries.
\<close>

definition mc_ParseOpDropOpReturnScript ::
    "bytes \<Rightarrow> (int \<times> int) list \<Rightarrow> ((int \<times> int) list \<times> int \<times> int) option cpp option" where
  "mc_ParseOpDropOpReturnScript src drops =
     (case op_drop_loop src 0 0 drops of
        None \<Rightarrow> None
      | Some (Inl e) \<Rightarrow> Some (Inl e)
      | Some (Inr (ptr, drops)) \<Rightarrow>
          (case op_return_loop src ptr of
             None \<Rightarrow> None
           | Some (Inl e) \<Rightarrow> Some (Inl e)
           | Some (Inr ptr) \<Rightarrow>
               if ptr \<ge> int (length src) then Some (Inr None)
               else
                 (let ptr = ptr + 1 in
                  case mc_GetPushDataElement (from_ptr src ptr) of
                    None \<Rightarrow> Some (Inr (Some (drops, ptr, 0)))
                  | Some (off, len) \<Rightarrow> Some (Inr (Some (drops, off + ptr, len))))))"

definition IsUnspendable :: "bytes \<Rightarrow> bool cpp option" where
  "IsUnspendable script =
     map_option (map_sum id (\<lambda>r. r \<noteq> None)) (mc_ParseOpDropOpReturnScript script [(0, 0), (0, 0)])"

subsection \<open>Signatures in input scripts\<close>

partial_function (option) mutable_tx_loop :: "bytes \<Rightarrow> int \<Rightarrow> u32 \<Rightarrow> u32 cpp option" where
  "mutable_tx_loop src ptr result =
     (if ptr < int (length src) then
        (if ptr < 0 then Some (Inl OutOfRange)
         else case mc_GetPushDataElement (from_ptr src ptr) of
                None \<Rightarrow> mutable_tx_loop src ptr (result OR 7)
              | Some (off, len) \<Rightarrow>
                  if ptr + off + len \<noteq> int (length src) then
                    (if len \<noteq> 0 then
                       (if ptr + off + len - 1 < 0 then Some (Inl OutOfRange)
                        else
                          (let sighash_type = deref src (ptr + off + len - 1);
                               result = (if sighash_type AND 0x1f = 0 then result OR 1 else result);
                               sighash_type = sighash_type AND 0x1f
                           in mutable_tx_loop src (ptr + (off + len))
                                (result OR (if sighash_type = 1 then 2 else if sighash_type = 3 then 4
                                            else if sighash_type \<noteq> 2 then 7 else 0))))
                     else mutable_tx_loop src (ptr + (off + len)) (if ptr \<noteq> 0 then result OR 7 else result))
                  else mutable_tx_loop src (ptr + (off + len)) result)
      else Some (Inr result))"

definition mc_CheckSigScriptForMutableTx :: "bytes \<Rightarrow> u32 cpp option" where
  "mc_CheckSigScriptForMutableTx src = mutable_tx_loop src 0 0"

text \<open>
  \<open>mc_ExtractAddressFromInputScript\<close> returns whether its result is not \<open>NULL\<close>, and its output
  arguments: offset and size of the address (\<open>None\<close> where it does not write them), whether the
  last element is a redeem script, and the signature hash type.
\<close>

record input_address =
  addr_found :: bool
  addr_coord :: "(int \<times> int) option"
  is_redeem_script :: bool
  sighash_type :: int

partial_function (option) input_script_loop ::
    "bytes \<Rightarrow> int \<Rightarrow> int \<Rightarrow> int \<Rightarrow> bool \<Rightarrow> int \<Rightarrow> (input_address + (int \<times> bool \<times> int \<times> int)) cpp option" where
  "input_script_loop src check_last ptr lastLen redeem sighash =
     (if ptr < int (length src) then
        (if ptr < 0 then Some (Inl OutOfRange)
         else case mc_GetPushDataElement (from_ptr src ptr) of
                None \<Rightarrow> Some (Inr (Inl \<lparr>addr_found = False, addr_coord = None, is_redeem_script = redeem,
                          sighash_type = 2\<rparr>))
              | Some (off, len) \<Rightarrow>
                  (let sighash = (if sighash < 0 then 1 else sighash);
                       inspect = ((ptr + off + len \<noteq> int (length src) \<or> check_last > 0) \<and> len \<noteq> 0)
                   in if inspect \<and> ptr + off + len - 1 < 0 then Some (Inl OutOfRange)
                      else
                        (let b = deref src (ptr + off + len - 1) AND 0x1f;
                             sighash = (if \<not> inspect then sighash
                                        else if b \<noteq> 1 then
                                          (if b \<noteq> 3 then 2 else if sighash \<noteq> 2 then 3 else sighash)
                                        else sighash)
                         in if ptr = 0 \<and> len \<noteq> 0 \<and> ptr + off + len = int (length src)
                            then Some (Inr (Inl \<lparr>addr_found = False, addr_coord = None,
                                   is_redeem_script = redeem, sighash_type = sighash\<rparr>))
                            else input_script_loop src check_last (ptr + (off + len)) len
                                   (if ptr = 0 \<and> len = 0 then True else redeem) sighash)))
      else Some (Inr (Inr (ptr, redeem, sighash, lastLen))))"

definition mc_ExtractAddressFromInputScript :: "bytes \<Rightarrow> int \<Rightarrow> input_address cpp option" where
  "mc_ExtractAddressFromInputScript src check_last =
     map_option (map_sum id (\<lambda>r.
       case r of
         Inl a \<Rightarrow> a
       | Inr (ptr, redeem, sighash, len) \<Rightarrow>
           if sighash < 0 then \<lparr>addr_found = False, addr_coord = None, is_redeem_script = redeem, sighash_type = 2\<rparr>
           else \<lparr>addr_found = (check_last = 0), addr_coord = Some (ptr - len, len), is_redeem_script = redeem,
                  sighash_type = sighash\<rparr>))
       (input_script_loop src check_last 0 0 False (- 1))"

section \<open>Scans of well-formed scripts\<close>

lemma GetPushDataElement_code:
  assumes "OP_PUSHDATA4 < c"
  shows "mc_GetPushDataElement (c # rest) = (if c > OP_16 then None else Some (1, 0))"
proof -
  have "\<not> c \<le> OP_PUSHDATA4" using assms by (simp only: not_le)
  then show ?thesis by (simp add: mc_GetPushDataElement_def)
qed

lemma mc_GetLE_small: "length b \<le> 4 \<Longrightarrow> mc_GetLE b = int (le_val b)"
proof -
  assume "length b \<le> 4"
  then have "(256 :: nat) ^ length b \<le> 256 ^ 4" by (intro power_increasing) simp_all
  then have "le_val b < 4294967296" using le_val_less [of b] by simp
  then show ?thesis by (simp add: mc_GetLE_def)
qed

text \<open>
  The instructions of a script as \<open>GetOp2\<close> reads them, in whatever form its data is pushed; \<open>None\<close> if one
  cannot be read. The bytes of one of them are a chunk.
\<close>

function script_ops :: "bytes \<Rightarrow> (byte \<times> bytes) list option" where
  "script_ops pc =
     (if pc = [] then Some []
      else case GetOp2 pc of (fRet, opcode, vch, pc') \<Rightarrow>
        if fRet then map_option (\<lambda>ops. (opcode, vch) # ops) (script_ops pc') else None)"
  by pat_completeness auto
termination
  by (relation "measure length") (auto dest!: GetOp2_success [OF sym])

declare script_ops.simps [simp del]

definition one_op :: "bytes \<Rightarrow> bool" where
  "one_op b \<longleftrightarrow> (\<exists>opcode vch. GetOp2 b = (True, opcode, vch, []))"

definition chunks_ok :: "bytes list \<Rightarrow> bool" where
  "chunks_ok is \<longleftrightarrow> list_all one_op is \<and> length (concat is) < 2 ^ 31"

lemma one_op_nonempty: "one_op b \<Longrightarrow> b \<noteq> []"
  by (auto simp: one_op_def GetOp2_def)

lemma one_op_code:
  assumes "one_op b" "OP_PUSHDATA4 < hd b"
  shows "b = [hd b]"
proof -
  have "\<not> hd b \<le> OP_PUSHDATA4" using assms(2) by (simp only: not_le)
  then show ?thesis using assms(1) by (cases b) (auto simp: one_op_def GetOp2_def)
qed

lemma push_size_prefix:
  assumes "push_size c pc = Some (n, x)"
  shows "\<exists>h. pc = h @ x \<and> (\<forall>y. push_size c (h @ y) = Some (n, y))"
proof -
  consider "c < OP_PUSHDATA1" | "c = OP_PUSHDATA1" | "c \<ge> OP_PUSHDATA1" "c \<noteq> OP_PUSHDATA1" "c = OP_PUSHDATA2"
    | "c \<ge> OP_PUSHDATA1" "c \<noteq> OP_PUSHDATA1" "c \<noteq> OP_PUSHDATA2" by (metis not_le)
  then show ?thesis
  proof cases
    case 1
    then show ?thesis using assms by (intro exI [of _ "[]"]) (simp add: push_size_def)
  next
    case 2
    then show ?thesis using assms by (intro exI [of _ "take 1 pc"]) (cases pc; simp add: push_size_def)
  next
    case 3
    then show ?thesis using assms by (intro exI [of _ "take 2 pc"]) (auto simp: push_size_def split: if_splits)
  next
    case 4
    then show ?thesis using assms by (intro exI [of _ "take 4 pc"]) (auto simp: push_size_def split: if_splits)
  qed
qed

lemma push_size_append: "push_size c pc = Some (n, x) \<Longrightarrow> push_size c (pc @ r) = Some (n, x @ r)"
  using push_size_prefix [of c pc n x] by auto

lemma pushdata_cases:
  fixes c :: byte
  assumes "c \<le> OP_PUSHDATA4"
  obtains "c < OP_PUSHDATA1" | "c = OP_PUSHDATA1" | "c = OP_PUSHDATA2" | "c = OP_PUSHDATA4"
proof -
  have "unat c \<le> 78" using assms by (simp add: word_le_nat_alt)
  then consider "unat c < 76" | "unat c = 76" | "unat c = 77" | "unat c = 78" by linarith
  then show ?thesis
    by cases (use that in \<open>simp_all add: word_less_nat_alt word_unat_eq_iff\<close>)
qed

lemma element_push_size:
  assumes "c \<le> OP_PUSHDATA4" "push_size c pc = Some (n, x)" "n < 2 ^ 31" "n \<le> length x"
  shows "\<exists>k. mc_GetPushDataElement (c # pc) = Some (k, int n) \<and> k + int (length x) = 1 + int (length pc)"
proof -
  have le1: "le_val (take 1 pc) = unat (hd pc)" if "pc \<noteq> []" using that by (cases pc) simp_all
  show ?thesis using assms(1)
  proof (cases rule: pushdata_cases)
    case 1
    then show ?thesis using assms by (auto simp: push_size_def mc_GetPushDataElement_def uint_nat)
  next
    case 2
    then show ?thesis using assms le1 by (cases pc) (auto simp: push_size_def mc_GetPushDataElement_def mc_GetLE_small)
  next
    case 3
    then show ?thesis using assms by (auto simp: push_size_def mc_GetPushDataElement_def mc_GetLE_small split: if_splits)
  next
    case 4
    then show ?thesis using assms by (auto simp: push_size_def mc_GetPushDataElement_def mc_GetLE_small split: if_splits)
  qed
qed

text \<open>One step of the pointer over an instruction that is not \<open>OP_RETURN\<close>.\<close>

lemma element_step:
  assumes "one_op b" "length b < 2 ^ 31"
  shows "case mc_GetPushDataElement (b @ rest) of
      None \<Rightarrow> length b = 1
    | Some (k, s) \<Rightarrow> k + s = int (length b)"
proof -
  obtain c vch where g: "GetOp2 b = (True, c, vch, [])" using assms(1) by (auto simp: one_op_def)
  then obtain pc where b: "b = c # pc" by (cases b) (auto simp: GetOp2_def split: if_splits option.splits)
  show ?thesis
  proof (cases "c \<le> OP_PUSHDATA4")
    case False
    then have "pc = []" "OP_PUSHDATA4 < c" using g by (auto simp: b GetOp2_def)
    then show ?thesis using GetPushDataElement_code [of c rest] by (simp add: b)
  next
    case True
    then obtain n x where x: "push_size c pc = Some (n, x)" "\<not> length x mod 4294967296 < n" "drop n x = []"
      using g by (auto simp: b GetOp2_def split: option.splits if_splits)
    have "length x \<le> length pc" using push_size_length [OF x(1)] .
    then have l: "length x < 2 ^ 31" using assms(2) by (simp add: b)
    then have n: "n = length x" using x(2,3) by simp
    have "n < 2 ^ 31" "n \<le> length (x @ rest)" using l n by simp_all
    from element_push_size [OF True push_size_append [OF x(1)] this]
    obtain k where "mc_GetPushDataElement (c # pc @ rest) = Some (k, int n)"
      "k + int (length (x @ rest)) = 1 + int (length (pc @ rest))" by blast
    then show ?thesis using n by (simp add: b)
  qed
qed

lemma at_instr:
  assumes "one_op i"
  shows "from_ptr (pre @ concat (i # is)) (int (length pre)) = i @ concat is"
    and "deref (pre @ concat (i # is)) (int (length pre)) = hd i"
    and "int (length pre) < int (length (pre @ concat (i # is)))"
proof -
  have ne: "i \<noteq> []" by (rule one_op_nonempty [OF assms])
  then show "int (length pre) < int (length (pre @ concat (i # is)))" by (simp add: add_pos_nonneg)
  show "deref (pre @ concat (i # is)) (int (length pre)) = hd i"
    using ne by (simp add: deref_def nth_append hd_conv_nth)
qed (simp add: from_ptr_def)

definition steps_by :: "bytes \<Rightarrow> int \<Rightarrow> int \<Rightarrow> bool" where
  "steps_by src p n \<longleftrightarrow> 0 \<le> p \<and> p < int (length src) \<and>
     (case mc_GetPushDataElement (from_ptr src p) of None \<Rightarrow> n = 1 | Some (k, s) \<Rightarrow> k + s = n)"

lemma steps_by_instr:
  assumes "chunks_ok (i # is)"
  shows "steps_by (pre @ concat (i # is)) (int (length pre)) (int (length i))"
proof -
  have ok: "one_op i" "length i < 2 ^ 31" using assms by (simp_all add: chunks_ok_def)
  show ?thesis unfolding steps_by_def at_instr(1) [OF ok(1)]
    using at_instr(3) [OF ok(1), of pre "is"] element_step [OF ok, of "concat is"]
    by (auto split: option.splits)
qed

lemma op_return_step:
  "steps_by src p n \<Longrightarrow> deref src p \<noteq> OP_RETURN \<Longrightarrow> op_return_loop src p = op_return_loop src (p + n)"
  by (subst op_return_loop.simps) (auto simp: steps_by_def split: option.splits)

lemma op_return_loop_instr:
  assumes "chunks_ok is"
  shows "op_return_loop (pre @ concat is) (int (length pre)) =
    Some (Inr (int (length pre + length (concat (takeWhile (\<lambda>b. hd b \<noteq> OP_RETURN) is)))))"
  using assms
proof (induction "is" arbitrary: pre)
  case Nil
  then show ?case by (subst op_return_loop.simps) simp
next
  case (Cons i "is")
  have ok: "one_op i" "chunks_ok is" using Cons.prems by (simp_all add: chunks_ok_def)
  define src where "src = pre @ concat (i # is)"
  have src: "src = (pre @ i) @ concat is" by (simp add: src_def)
  have st: "steps_by src (int (length pre)) (int (length i))"
    unfolding src_def by (rule steps_by_instr [OF Cons.prems])
  have d: "deref src (int (length pre)) = OP_RETURN \<longleftrightarrow> hd i = OP_RETURN"
    unfolding src_def at_instr(2) [OF ok(1)] ..
  show ?case
  proof (cases "hd i = OP_RETURN")
    case True
    then have "op_return_loop src (int (length pre)) = Some (Inr (int (length pre)))"
      using st d by (subst op_return_loop.simps) (simp add: steps_by_def)
    then show ?thesis using True by (simp add: src_def)
  next
    case False
    then have "op_return_loop src (int (length pre)) = op_return_loop src (int (length (pre @ i)))"
      using op_return_step [OF st] d by simp
    also have "\<dots> = Some (Inr (int (length (pre @ i) +
        length (concat (takeWhile (\<lambda>b. hd b \<noteq> OP_RETURN) is)))))"
      unfolding src by (rule Cons.IH [OF ok(2)])
    finally show ?thesis using False by (simp add: src_def add.assoc)
  qed
qed


lemma op_drop_step:
  assumes "steps_by src p n" "deref src p \<noteq> OP_RETURN" "d < length drops" "0 < n"
  shows "\<exists>d' drops'. op_drop_loop src d p drops = op_drop_loop src d' (p + n) drops' \<or>
    p + n < int (length src) \<and> deref src (p + n) = OP_DROP \<and>
      op_drop_loop src d p drops = op_drop_loop src d' (p + n + 1) drops'"
proof (cases "mc_GetPushDataElement (from_ptr src p)")
  case None
  then have "op_drop_loop src d p drops = op_drop_loop src d (p + n) (drops[d := (0, - 1)])"
    using assms by (subst op_drop_loop.simps) (simp add: steps_by_def)
  then show ?thesis by blast
next
  case (Some e)
  then obtain k s where ks: "mc_GetPushDataElement (from_ptr src p) = Some (k, s)" by (cases e) auto
  have n: "k + p + s = p + n" using assms(1) ks by (simp add: steps_by_def)
  show ?thesis
  proof (cases "p + n < int (length src) \<and> deref src (p + n) = OP_DROP")
    case True
    then have "op_drop_loop src d p drops = op_drop_loop src (d + 1) (p + n + 1) (drops[d := (0, - 1), d := (k + p, s)])"
      using assms ks by (subst op_drop_loop.simps) (simp add: steps_by_def Let_def n del: add_left_cancel)
    then show ?thesis using True by blast
  next
    case False
    then have "op_drop_loop src d p drops = op_drop_loop src d (p + n) (drops[d := (0, - 1)])"
      using assms ks by (subst op_drop_loop.simps) (auto simp: steps_by_def Let_def n)
    then show ?thesis by blast
  qed
qed

lemma IsUnspendable_loops:
  assumes "op_drop_loop src 0 0 [(0, 0), (0, 0)] = Some (Inr (p, dr))" "op_return_loop src p = Some (Inr q)"
  shows "IsUnspendable src = Some (Inr (q < int (length src)))"
  using assms by (cases "mc_GetPushDataElement (from_ptr src (q + 1))")
    (auto simp: IsUnspendable_def mc_ParseOpDropOpReturnScript_def Let_def)

lemma op_drop_loop_instr:
  assumes "chunks_ok is"
  shows "\<exists>k drops'. op_drop_loop (pre @ concat is) d (int (length pre)) drops =
      Some (Inr (int (length (pre @ concat (take k is))), drops'))
    \<and> OP_RETURN \<notin> hd ` set (take k is)"
  using assms
proof (induction "length is" arbitrary: "is" pre d drops rule: less_induct)
  case less
  let ?src = "pre @ concat is" and ?p = "int (length pre)"
  show ?case
  proof (cases "d < length drops \<and> is \<noteq> [] \<and> hd (hd is) \<noteq> OP_RETURN")
    case False
    have "op_drop_loop ?src d ?p drops = Some (Inr (?p, drops))"
    proof (cases "is")
      case Nil
      then show ?thesis by (subst op_drop_loop.simps) simp
    next
      case (Cons i js)
      then have "one_op i" using less.prems by (simp add: chunks_ok_def)
      then show ?thesis using False Cons at_instr(2,3) [of i pre js]
        by (subst op_drop_loop.simps) auto
    qed
    then show ?thesis by (intro exI [of _ 0]) auto
  next
    case True
    then obtain i js where "is": "is = i # js" and i: "hd i \<noteq> OP_RETURN" by (cases "is") auto
    have ok: "one_op i" "chunks_ok js" using less.prems "is" by (simp_all add: chunks_ok_def)
    have st: "steps_by ?src ?p (int (length i))" unfolding "is" by (rule steps_by_instr [OF less.prems [unfolded "is"]])
    have nr: "deref ?src ?p \<noteq> OP_RETURN" unfolding "is" at_instr(2) [OF ok(1)] using i by simp
    have src: "?src = (pre @ i) @ concat js" by (simp add: "is")
    have pos: "0 < int (length i)" using one_op_nonempty [OF ok(1)] by simp
    have next_p: "?p + int (length i) = int (length (pre @ i))" by simp
    from op_drop_step [OF st nr _ pos] True obtain d' drops' where
      "op_drop_loop ?src d ?p drops = op_drop_loop ?src d' (int (length (pre @ i))) drops' \<or>
       int (length (pre @ i)) < int (length ?src) \<and> deref ?src (int (length (pre @ i))) = OP_DROP \<and>
         op_drop_loop ?src d ?p drops = op_drop_loop ?src d' (int (length (pre @ i)) + 1) drops'"
      unfolding next_p by blast
    then show ?thesis
    proof (elim disjE conjE)
      assume e: "op_drop_loop ?src d ?p drops = op_drop_loop ?src d' (int (length (pre @ i))) drops'"
      obtain k dr where "op_drop_loop ((pre @ i) @ concat js) d' (int (length (pre @ i))) drops' =
          Some (Inr (int (length ((pre @ i) @ concat (take k js))), dr))"
          "OP_RETURN \<notin> hd ` set (take k js)"
        using less.hyps [of js "pre @ i" d' drops'] ok(2) "is" by auto
      then show ?thesis using e i unfolding src [symmetric] by (intro exI [of _ "Suc k"] exI [of _ dr]) (simp add: "is")
    next
      assume l: "int (length (pre @ i)) < int (length ?src)"
        and dr: "deref ?src (int (length (pre @ i))) = OP_DROP"
        and e: "op_drop_loop ?src d ?p drops = op_drop_loop ?src d' (int (length (pre @ i)) + 1) drops'"
      obtain j ks where js: "js = j # ks" using l src by (cases js) auto
      have okj: "one_op j" "chunks_ok ks" using ok(2) js by (simp_all add: chunks_ok_def)
      have "hd j = OP_DROP" using dr unfolding src js at_instr(2) [OF okj(1)] .
      then have "j = [OP_DROP]" using one_op_code [OF okj(1)] by simp
      then have src2: "?src = (pre @ i @ [OP_DROP]) @ concat ks" by (simp add: "is" js)
      obtain k dr where "op_drop_loop ((pre @ i @ [OP_DROP]) @ concat ks) d'
            (int (length (pre @ i @ [OP_DROP]))) drops' =
          Some (Inr (int (length ((pre @ i @ [OP_DROP]) @ concat (take k ks))), dr))"
          "OP_RETURN \<notin> hd ` set (take k ks)"
        using less.hyps [of ks "pre @ i @ [OP_DROP]" d' drops'] okj(2) "is" js by auto
      moreover have "int (length (pre @ i)) + 1 = int (length (pre @ i @ [OP_DROP]))" by simp
      ultimately have "op_drop_loop ?src d ?p drops =
          Some (Inr (int (length ((pre @ i @ [OP_DROP]) @ concat (take k ks))), dr))"
        by (simp only: e src2 [symmetric])
      then show ?thesis using i \<open>j = [OP_DROP]\<close> \<open>OP_RETURN \<notin> hd ` set (take k ks)\<close>
        by (intro exI [of _ "Suc (Suc k)"] exI [of _ dr]) (simp add: "is" js)
    qed
  qed
qed

lemma GetOp2_chunk:
  assumes "GetOp2 pc = (True, op, vch, pc')"
  shows "\<exists>b. pc = b @ pc' \<and> one_op b \<and> hd b = op"
proof -
  obtain c rest where pc: "pc = c # rest" using assms by (cases pc) (auto simp: GetOp2_def)
  show ?thesis
  proof (cases "c \<le> OP_PUSHDATA4")
    case False
    then show ?thesis using assms by (intro exI [of _ "[c]"]) (auto simp: pc GetOp2_def one_op_def)
  next
    case True
    then obtain n x where x: "push_size c rest = Some (n, x)" "\<not> length x mod 4294967296 < n" "pc' = drop n x" "op = c"
      using assms by (auto simp: pc GetOp2_def split: option.splits if_splits)
    obtain h where h: "rest = h @ x" "\<And>y. push_size c (h @ y) = Some (n, y)" using push_size_prefix [OF x(1)] by blast
    have "n \<le> length x mod 4294967296" using x(2) by simp
    moreover have "length x mod 4294967296 < 4294967296" by simp
    ultimately have n: "n \<le> length x mod 4294967296" "n < 4294967296" by simp_all
    have nx: "n \<le> length x" using n(1) by (meson le_trans mod_less_eq_dividend)
    have "GetOp2 (c # h @ take n x) = (True, c, take n x, [])"
      using True h(2) [of "take n x"] nx n(2) by (simp add: GetOp2_def)
    then have "one_op (c # h @ take n x)" unfolding one_op_def by blast
    then show ?thesis using h(1) x(3,4) by (intro exI [of _ "c # h @ take n x"]) (simp add: pc)
  qed
qed

lemma script_ops_Nil: "script_ops [] = Some []"
  by (simp add: script_ops.simps)

lemma script_ops_Cons:
  "script_ops (c # pc) =
     (if c \<le> OP_PUSHDATA4 then
        (case push_size c pc of None \<Rightarrow> None
         | Some (n, x) \<Rightarrow> if length x mod 4294967296 < n then None
                         else map_option (\<lambda>ops. (c, take n x) # ops) (script_ops (drop n x)))
      else map_option (\<lambda>ops. (c, []) # ops) (script_ops pc))"
  by (subst script_ops.simps) (simp add: GetOp2_def split: option.split)

lemma script_ops_chunks:
  "script_ops s = Some ops \<Longrightarrow> \<exists>is. s = concat is \<and> list_all one_op is \<and> map hd is = map fst ops"
proof (induction s arbitrary: ops rule: script_ops.induct)
  case (1 pc)
  show ?case
  proof (cases "pc = []")
    case True
    then show ?thesis using "1.prems" by (intro exI [of _ "[]"]) (simp add: script_ops.simps)
  next
    case False
    obtain f op vch pc' where g: "GetOp2 pc = (f, op, vch, pc')" by (cases "GetOp2 pc")
    then obtain ops' where f: "f" and ops: "script_ops pc' = Some ops'" "ops = (op, vch) # ops'"
      using "1.prems" False by (subst (asm) script_ops.simps) (auto split: if_splits)
    obtain js where js: "pc' = concat js" "list_all one_op js" "map hd js = map fst ops'"
      using "1.IH" [OF False g [symmetric] refl refl f ops(1)] by auto
    obtain b where b: "pc = b @ pc'" "one_op b" "hd b = op" using GetOp2_chunk [OF g [unfolded eqTrueI [OF f]]] by blast
    then show ?thesis using js ops(2) by (intro exI [of _ "b # js"]) simp
  qed
qed

lemma IsUnspendable_chunks:
  assumes sh: "chunks_ok is"
  shows "IsUnspendable (concat is) = Some (Inr (OP_RETURN \<in> hd ` set is))"
proof -
  let ?src = "concat is"
  obtain k dr where k: "op_drop_loop ?src 0 0 [(0, 0), (0, 0)] = Some (Inr (int (length (concat (take k is))), dr))"
      "OP_RETURN \<notin> hd ` set (take k is)"
    using op_drop_loop_instr [OF sh, of "[]" 0 "[(0, 0), (0, 0)]"] by auto
  define tw where "tw = takeWhile (\<lambda>b. hd b \<noteq> OP_RETURN) (drop k is)"
  have split: "?src = concat (take k is) @ concat (drop k is)" by (metis append_take_drop_id concat_append)
  have "list_all one_op (drop k is)" using sh unfolding chunks_ok_def by (metis append_take_drop_id list_all_append)
  moreover have "length (concat (drop k is)) < 2 ^ 31" using sh unfolding chunks_ok_def split by simp
  ultimately have "chunks_ok (drop k is)" by (simp add: chunks_ok_def)
  from op_return_loop_instr [OF this, of "concat (take k is)"]
  have r: "op_return_loop ?src (int (length (concat (take k is)))) =
      Some (Inr (int (length (concat (take k is)) + length (concat tw))))"
    by (simp only: split [symmetric] tw_def)
  have tail: "concat (drop k is) = concat tw @ concat (dropWhile (\<lambda>b. hd b \<noteq> OP_RETURN) (drop k is))"
    unfolding tw_def by (metis takeWhile_dropWhile_id concat_append)
  have ne: "\<forall>b \<in> set is. b \<noteq> []" using sh one_op_nonempty by (auto simp: chunks_ok_def list_all_iff)
  show ?thesis
  proof (cases "OP_RETURN \<in> hd ` set is")
    case False
    then have "\<forall>b \<in> set (drop k is). hd b \<noteq> OP_RETURN" by (metis image_eqI in_set_dropD)
    then have "tw = drop k is" unfolding tw_def by (simp add: takeWhile_eq_all_conv)
    then have "int (length (concat (take k is)) + length (concat tw)) = int (length ?src)"
      by (subst split) simp
    then show ?thesis using False IsUnspendable_loops [OF k(1) r] by simp
  next
    case True
    have "set is = set (take k is) \<union> set (drop k is)" by (metis append_take_drop_id set_append)
    then have "\<exists>b \<in> set (drop k is). hd b = OP_RETURN" using True k(2) by auto
    then obtain b ys where d: "dropWhile (\<lambda>b. hd b \<noteq> OP_RETURN) (drop k is) = b # ys"
      by (cases "dropWhile (\<lambda>b. hd b \<noteq> OP_RETURN) (drop k is)") (auto dest: dropWhile_eq_Nil_conv [THEN iffD1])
    have "b \<in> set (drop k is)" using d by (metis list.set_intros(1) set_dropWhileD)
    then have "b \<noteq> []" using ne in_set_dropD by fastforce
    then have "length (concat (take k is)) + length (concat tw) < length ?src"
      unfolding split tail d by (cases b) simp_all
    then show ?thesis using True IsUnspendable_loops [OF k(1) r] by (simp only: of_nat_less_iff)
  qed
qed

lemma dead_return:
  "IsUnspendable [0x00, 0x63, 0x6a, 0x68, 0x51] = Some (Inr True)" "EvalScript env 0 [0x00, 0x63, 0x6a, 0x68, 0x51] [] = Inr [[1]]"
proof -
  have "script_ops [0x00, 0x63, 0x6a, 0x68, 0x51] = Some [(0, []), (0x63, []), (0x6a, []), (0x68, []), (0x51, [])]"
    by (simp add: script_ops_Cons script_ops_Nil push_size_def)
  from script_ops_chunks [OF this] obtain "is" where "is": "[0x00, 0x63, 0x6a, 0x68, 0x51] = concat is" "list_all one_op is"
    "map hd is = map fst [(0 :: byte, [] :: bytes), (0x63, []), (0x6a, []), (0x68, []), (0x51, [])]" by blast
  have "hd ` set is = set (map hd is)" by simp
  then have "0x6a \<in> hd ` set is" unfolding "is"(3) by simp
  moreover have "length (concat is) < 2 ^ 31" unfolding "is"(1) [symmetric] by simp
  ultimately show "IsUnspendable [0x00, 0x63, 0x6a, 0x68, 0x51] = Some (Inr True)"
    using IsUnspendable_chunks [of "is"] "is"(2) unfolding "is"(1) by (simp add: chunks_ok_def)
  show "EvalScript env 0 [0x00, 0x63, 0x6a, 0x68, 0x51] [] = Inr [[1]]"
    by (simp add: EvalScript_def eval_loop.simps GetOp2_def push_size_def eval_instr_def Let_def count_op_def disabled_opcode_def
        exec_opcode_def op_control_def CastToBool.simps op_push_value_def serialize_def abs_bytes.simps op_stack_def stack_op.simps)
qed

text \<open>
  C29. \<open>IsUnspendable\<close> on a script of less than \<open>2 ^ 31\<close> bytes whose instructions can all be read, in
  whatever form its data is pushed, returns, and holds exactly when \<open>OP_RETURN\<close> is one of the
  instructions; an operand that contains its byte does not count, an instruction in a branch that is
  not executed does. So the scan does not do what the comment on it says, that the script is guaranteed
  to fail: \<open>0 IF RETURN ENDIF 1\<close> is called unspendable, and \<open>EvalScript\<close> accepts it.
\<close>

theorem IsUnspendable_instructions:
  assumes "script_ops s = Some ops" "length s < 2 ^ 31"
  shows "IsUnspendable s = Some (Inr (OP_RETURN \<in> fst ` set ops))
    \<and> IsUnspendable [0x00, 0x63, 0x6a, 0x68, 0x51] = Some (Inr True) \<and> EvalScript env 0 [0x00, 0x63, 0x6a, 0x68, 0x51] [] = Inr [[1]]"
proof -
  obtain "is" where "is": "s = concat is" "list_all one_op is" "map hd is = map fst ops" using script_ops_chunks [OF assms(1)] by blast
  have "hd ` set is = fst ` set ops" using "is"(3) by (metis list.set_map)
  then have "IsUnspendable s = Some (Inr (OP_RETURN \<in> fst ` set ops))"
    using IsUnspendable_chunks [of "is"] "is" assms(2) by (simp add: chunks_ok_def)
  then show ?thesis using dead_return by simp
qed

theorem IsUnspendable_instructions_witness: "IsUnspendable [0x4c, 1, 0x6a, 0x75, 0x6a] = Some (Inr True)"
proof -
  have "script_ops [0x4c, 1, 0x6a, 0x75, 0x6a] = Some [(0x4c, [0x6a]), (0x75, []), (0x6a, [])]"
    by (simp add: script_ops_Cons script_ops_Nil push_size_def)
  from IsUnspendable_instructions [OF this] show ?thesis by simp
qed

definition looping_push :: bytes where
  "looping_push = [0x4e, 0xfb, 0xff, 0xff, 0xff]"

lemma looping_element: "mc_GetPushDataElement looping_push = Some (5, - 5)"
  by (simp add: looping_push_def mc_GetPushDataElement_def mc_GetLE_def to_int64_def to_int32_def)

lemma op_drop_loop_diverges:
  assumes "op_drop_loop src d ptr drops = Some y"
  shows "\<not> (src = looping_push \<and> d < length drops \<and> ptr = 0)"
proof (rule op_drop_loop.raw_induct
    [where P = "\<lambda>src d ptr drops y. \<not> (src = looping_push \<and> d < length drops \<and> ptr = 0)", OF _ assms], goal_cases)
  case (1 loop src d ptr drops y)
  show ?case
  proof
    assume bad: "src = looping_push \<and> d < length drops \<and> ptr = 0"
    have "deref looping_push 0 = 0x4e" "length looping_push = 5" by (simp_all add: looping_push_def deref_def)
    then have "loop looping_push d 0 (drops[d := (0, - 1)]) = Some y"
      using 1(2) bad looping_element by (simp add: from_ptr_def Let_def)
    then show False using 1(1) [of looping_push d 0 "drops[d := (0, - 1)]" y] bad by simp
  qed
qed

lemma mutable_tx_loop_diverges:
  assumes "mutable_tx_loop src ptr result = Some y"
  shows "\<not> (0 \<le> ptr \<and> ptr < int (length src) \<and> mc_GetPushDataElement (from_ptr src ptr) = None)"
proof (rule mutable_tx_loop.raw_induct
    [where P = "\<lambda>src ptr result y. \<not> (0 \<le> ptr \<and> ptr < int (length src) \<and>
        mc_GetPushDataElement (from_ptr src ptr) = None)", OF _ assms], goal_cases)
  case (1 loop src ptr result y)
  show ?case
  proof
    assume bad: "0 \<le> ptr \<and> ptr < int (length src) \<and> mc_GetPushDataElement (from_ptr src ptr) = None"
    then have "loop src ptr (result OR 7) = Some y" using 1(2) by simp
    then show False using 1(1) bad by blast
  qed
qed

text \<open>
  C30. Two scans that do not end. A push that announces \<open>2 ^ 32 - 5\<close> bytes is read as size \<open>- 5\<close>,
  which passes the bound check and moves the pointer back to where it was, so that
  \<open>IsUnspendable\<close> of this five-byte script never returns; and
  \<open>mc_CheckSigScriptForMutableTx\<close> does not advance over an opcode that is no push.
\<close>

theorem script_scans_diverge:
  "IsUnspendable [0x4e, 0xfb, 0xff, 0xff, 0xff] = None \<and> mc_CheckSigScriptForMutableTx [0xac] = None"
proof -
  have "op_drop_loop looping_push 0 0 [(0, 0), (0, 0)] = None"
    using op_drop_loop_diverges [of looping_push 0 0 "[(0, 0), (0, 0)]"] by (cases "op_drop_loop looping_push 0 0 [(0, 0), (0, 0)]") auto
  moreover have "mc_GetPushDataElement [0xac] = None" by (simp add: mc_GetPushDataElement_def)
  then have "mutable_tx_loop [0xac] 0 0 = None"
    using mutable_tx_loop_diverges [of "[0xac]" 0 0] by (cases "mutable_tx_loop [0xac] 0 0") (auto simp: from_ptr_def)
  ultimately show ?thesis
    by (simp add: IsUnspendable_def mc_ParseOpDropOpReturnScript_def mc_CheckSigScriptForMutableTx_def looping_push_def)
qed

end
