(* ===== verification/Coins.thy ===== *)
theory Coins
  imports Compressor HdacScript
begin

text \<open>
  \<open>CCoins\<close> (\<^verbatim>\<open>storage/coins.h\<close>, \<^verbatim>\<open>storage/coins.cpp\<close>): the unspent outputs of one transaction, with
  spent ones null and trailing nulls dropped, its serialization with a bit mask of the outputs
  that are left, spending, and the undo record of \<^verbatim>\<open>chain/undo.h\<close>. \<open>ClearUnspendable\<close> needs
  \<open>IsUnspendable\<close>, which may not return: its results are options of \<open>cpp\<close> results.
\<close>

record CCoins =
  fCoinBase :: bool
  c_vout :: "CTxOut list"
  c_nHeight :: int
  c_nVersion :: int

record CTxInUndo =
  u_txout :: CTxOut
  u_fCoinBase :: bool
  u_nHeight :: u32
  u_nVersion :: int

definition CCoins_Clear :: CCoins where
  "CCoins_Clear = \<lparr>fCoinBase = False, c_vout = [], c_nHeight = 0, c_nVersion = 0\<rparr>"

definition Cleanup :: "CCoins \<Rightarrow> CCoins" where
  "Cleanup c = c\<lparr>c_vout := rev (dropWhile txout_IsNull (rev (c_vout c)))\<rparr>"

definition IsAvailable :: "CCoins \<Rightarrow> nat \<Rightarrow> bool" where
  "IsAvailable c nPos \<longleftrightarrow> nPos < length (c_vout c) \<and> \<not> txout_IsNull (c_vout c ! nPos)"

definition IsPruned :: "CCoins \<Rightarrow> bool" where
  "IsPruned c \<longleftrightarrow> list_all txout_IsNull (c_vout c)"

definition coins_eq :: "CCoins \<Rightarrow> CCoins \<Rightarrow> bool" where
  "coins_eq a b =
     (if IsPruned a \<and> IsPruned b then True
      else fCoinBase a = fCoinBase b \<and> c_nHeight a = c_nHeight b \<and> c_nVersion a = c_nVersion b
        \<and> c_vout a = c_vout b)"

fun clear_unspendable_loop :: "CTxOut list \<Rightarrow> CTxOut list cpp option" where
  "clear_unspendable_loop [] = Some (Inr [])"
| "clear_unspendable_loop (txout # outs) =
     (case IsUnspendable (scriptPubKey txout) of
        None \<Rightarrow> None
      | Some (Inl e) \<Rightarrow> Some (Inl e)
      | Some (Inr b) \<Rightarrow>
          map_option (map_sum id (\<lambda>outs. (if b then CTxOut_null else txout) # outs))
            (clear_unspendable_loop outs))"

definition ClearUnspendable :: "CCoins \<Rightarrow> CCoins cpp option" where
  "ClearUnspendable c =
     map_option (map_sum id (\<lambda>outs. Cleanup (c\<lparr>c_vout := outs\<rparr>))) (clear_unspendable_loop (c_vout c))"

definition FromTx :: "CTransaction \<Rightarrow> int \<Rightarrow> CCoins cpp option" where
  "FromTx tx nHeightIn =
     ClearUnspendable \<lparr>fCoinBase = IsCoinBase tx, c_vout = vout tx, c_nHeight = nHeightIn, c_nVersion = tx_nVersion tx\<rparr>"

text \<open>\<open>Spend\<close> returns the undo record it writes, or \<open>None\<close> for \<open>false\<close>.\<close>

definition Spend :: "CCoins \<Rightarrow> nat \<Rightarrow> (CCoins \<times> CTxInUndo) option" where
  "Spend c n =
     (if n \<ge> length (c_vout c) then None
      else if txout_IsNull (c_vout c ! n) then None
      else
        (let undo = \<lparr>u_txout = c_vout c ! n, u_fCoinBase = False, u_nHeight = 0, u_nVersion = 0\<rparr>;
             c = Cleanup (c\<lparr>c_vout := (c_vout c)[n := CTxOut_null]\<rparr>)
         in Some (c, if length (c_vout c) = 0
                     then undo\<lparr>u_nHeight := of_int (c_nHeight c), u_fCoinBase := fCoinBase c, u_nVersion := c_nVersion c\<rparr>
                     else undo)))"

subsection \<open>Serialization\<close>

text \<open>\<open>WriteVarInt\<close> of an \<open>int\<close>: a negative number is below \<open>0x7F\<close> and written as one byte.\<close>

definition put_varint_int :: "int \<Rightarrow> bytes" where
  "put_varint_int n = (if n < 0 then [of_int (n mod 128)] else put_varint (nat n))"

definition mask_bit :: "CTxOut list \<Rightarrow> nat \<Rightarrow> nat \<Rightarrow> bool" where
  "mask_bit outs b i \<longleftrightarrow> 2 + b * 8 + i < length outs \<and> \<not> txout_IsNull (outs ! (2 + b * 8 + i))"

definition mask_count :: "CTxOut list \<Rightarrow> nat" where
  "mask_count outs = (length outs + 5) div 8"

definition CalcMaskSize :: "CCoins \<Rightarrow> nat \<times> nat" where
  "CalcMaskSize c =
     foldl (\<lambda>(nLastUsedByte, nNonzeroBytes) b.
              if list_ex (mask_bit (c_vout c) b) [0..<8] then (b + 1, nNonzeroBytes + 1)
              else (nLastUsedByte, nNonzeroBytes))
       (0, 0) [0..<mask_count (c_vout c)]"

definition mask_byte :: "CTxOut list \<Rightarrow> nat \<Rightarrow> byte" where
  "mask_byte outs b = foldl (\<lambda>ch i. if mask_bit outs b i then ch OR push_bit i 1 else ch) 0 [0..<8]"

definition ser_coins :: "(bytes \<Rightarrow> bool) \<Rightarrow> CCoins \<Rightarrow> bytes cpp" where
  "ser_coins IsFullyValid c =
     (case CalcMaskSize c of (nMaskSize, nMaskCode) \<Rightarrow>
        let outs = c_vout c;
            fFirst = (length outs > 0 \<and> \<not> txout_IsNull (outs ! 0));
            fSecond = (length outs > 1 \<and> \<not> txout_IsNull (outs ! 1))
        in bind_cpp (assert_cpp (fFirst \<or> fSecond \<or> nMaskCode \<noteq> 0)) (\<lambda>_.
             let nCode = 8 * (nMaskCode - (if fFirst \<or> fSecond then 0 else 1)) + (if fCoinBase c then 1 else 0)
                         + (if fFirst then 2 else 0) + (if fSecond then 4 else 0)
             in Inr (put_varint_int (c_nVersion c) @ put_varint (nCode mod 2 ^ 32)
                  @ map (mask_byte outs) [0..<nMaskSize]
                  @ concat (map (\<lambda>o'. if txout_IsNull o' then [] else ser_ctxout IsFullyValid o') outs)
                  @ put_varint_int (c_nHeight c))))"

function read_mask :: "nat \<Rightarrow> bytes \<Rightarrow> (bool list \<times> bytes) option" where
  "read_mask nMaskCode s =
     (if nMaskCode = 0 then Some ([], s)
      else case s of
             [] \<Rightarrow> None
           | chAvail # s \<Rightarrow>
               (case read_mask (if chAvail \<noteq> 0 then nMaskCode - 1 else nMaskCode) s of
                  None \<Rightarrow> None
                | Some (vAvail, s) \<Rightarrow> Some (map (\<lambda>p. chAvail AND push_bit p 1 \<noteq> 0) [0..<8] @ vAvail, s)))"
  by pat_completeness auto
termination by (relation "measure (\<lambda>(n, s). length s)") auto

declare read_mask.simps [simp del]

fun read_outs :: "(bytes \<Rightarrow> bytes option) \<Rightarrow> bool list \<Rightarrow> bytes \<Rightarrow> (CTxOut list \<times> bytes) option" where
  "read_outs PkDecompress [] s = Some ([], s)"
| "read_outs PkDecompress (f # vAvail) s =
     (case (if f then unser_ctxout PkDecompress s else Some (CTxOut_null, s)) of
        None \<Rightarrow> None
      | Some (o', s) \<Rightarrow> map_option (\<lambda>(outs, s). (o' # outs, s)) (read_outs PkDecompress vAvail s))"

definition unser_coins :: "(bytes \<Rightarrow> bytes option) \<Rightarrow> bytes \<Rightarrow> (CCoins \<times> bytes) option" where
  "unser_coins PkDecompress s =
     (case get_varint s of
        None \<Rightarrow> None
      | Some (version, s) \<Rightarrow>
          (case get_varint s of
             None \<Rightarrow> None
           | Some (code, s) \<Rightarrow>
               (let nCode = code mod 2 ^ 32;
                    nMaskCode = nCode div 8 + (if nCode AND 6 \<noteq> 0 then 0 else 1)
                in case read_mask nMaskCode s of
                     None \<Rightarrow> None
                   | Some (vAvail, s) \<Rightarrow>
                       (case read_outs PkDecompress ([nCode AND 2 \<noteq> 0, nCode AND 4 \<noteq> 0] @ vAvail) s of
                          None \<Rightarrow> None
                        | Some (outs, s) \<Rightarrow>
                            (case get_varint s of
                               None \<Rightarrow> None
                             | Some (height, s) \<Rightarrow>
                                 Some (Cleanup \<lparr>fCoinBase = (nCode AND 1 \<noteq> 0), c_vout = outs,
                                         c_nHeight = to_int32 (int height), c_nVersion = to_int32 (int version)\<rparr>, s))))))"

section \<open>The coins format round-trips\<close>

subsection \<open>The mask\<close>

lemma bit_mask_fold:
  "j < 8 \<Longrightarrow> n \<le> 8 \<Longrightarrow>
   bit (foldl (\<lambda>ch i. if P i then ch OR push_bit i 1 else ch) (0 :: byte) [0..<n]) j \<longleftrightarrow> j < n \<and> P j"
  by (induction n) (auto simp: bit_or_iff bit_exp_iff less_Suc_eq)

lemma mask_byte_bit: "p < 8 \<Longrightarrow> mask_byte outs b AND push_bit p 1 \<noteq> 0 \<longleftrightarrow> mask_bit outs b p"
proof -
  assume p: "p < 8"
  have "x AND push_bit p 1 \<noteq> 0 \<longleftrightarrow> bit x p" for x :: byte
    using p by (simp add: and_exp_eq_0_iff_not_bit push_bit_eq_mult)
  then show ?thesis using bit_mask_fold [OF p, of 8 "mask_bit outs b"] p by (simp add: mask_byte_def)
qed

lemma mask_byte_zero: "mask_byte outs b \<noteq> 0 \<longleftrightarrow> list_ex (mask_bit outs b) [0..<8]"
proof -
  have "mask_byte outs b = 0 \<longleftrightarrow> (\<forall>j<8. \<not> mask_bit outs b j)"
  proof
    assume z: "mask_byte outs b = 0"
    show "\<forall>j<8. \<not> mask_bit outs b j" using mask_byte_bit [of _ outs b] by (simp add: z)
  next
    assume "\<forall>j<8. \<not> mask_bit outs b j"
    then have "\<not> bit (mask_byte outs b) j" if "j < 8" for j
      using that bit_mask_fold [OF that, of 8 "mask_bit outs b"] by (simp add: mask_byte_def)
    then show "mask_byte outs b = 0" by (intro bit_word_eqI) simp
  qed
  then show ?thesis by (auto simp: list_ex_iff)
qed

lemma mask_fold:
  "\<exists>L. foldl (\<lambda>(l, nz) b. if P b then (b + 1, nz + 1) else (l, nz)) (0, 0) [0..<N] = (L, length (filter P [0..<N]))
     \<and> (0 < N \<and> P (N - 1) \<longrightarrow> L = N) \<and> L \<le> N" for P :: "nat \<Rightarrow> bool"
proof (induction N)
  case (Suc N)
  then obtain L where "foldl (\<lambda>(l, nz) b. if P b then (b + 1, nz + 1) else (l, nz)) (0, 0) [0..<N]
      = (L, length (filter P [0..<N]))" "L \<le> N" by auto
  then show ?case by simp
qed simp

text \<open>Outputs whose last one is unspent, with spent ones null.\<close>

definition outs_ok :: "CTxOut list \<Rightarrow> bool" where
  "outs_ok outs \<longleftrightarrow> outs \<noteq> [] \<and> \<not> txout_IsNull (last outs)
     \<and> list_all (\<lambda>o'. if txout_IsNull o' then o' = CTxOut_null else ctxout_ok o') outs"

lemma last_mask_byte:
  assumes "outs_ok outs" "0 < mask_count outs"
  shows "mask_byte outs (mask_count outs - 1) \<noteq> 0"
proof -
  define n where "n = length outs"
  have n: "2 < n" using assms(2) by (simp add: mask_count_def n_def)
  define b i where "b = mask_count outs - 1" and "i = (n - 3) mod 8"
  have "n + 5 = (n - 3) + 8" using n by simp
  then have "(n + 5) div 8 - 1 = (n - 3) div 8" by (simp only: div_add_self2)
  then have "b = (n - 3) div 8" by (simp add: b_def mask_count_def n_def)
  then have "b * 8 + i = n - 3" by (simp add: i_def)
  then have "2 + b * 8 + i = n - 1" using n by linarith
  moreover have "outs ! (n - 1) = last outs" using assms(1) by (simp add: outs_ok_def last_conv_nth n_def)
  ultimately have "mask_bit outs b i" using assms(1) n by (simp add: mask_bit_def outs_ok_def n_def)
  moreover have "i < 8" by (simp add: i_def)
  ultimately show ?thesis unfolding b_def mask_byte_zero list_ex_iff by auto
qed

lemma CalcMaskSize_ok:
  assumes "outs_ok (c_vout c)"
  shows "CalcMaskSize c = (mask_count (c_vout c),
      length (filter (\<lambda>x. x \<noteq> 0) (map (mask_byte (c_vout c)) [0..<mask_count (c_vout c)])))"
proof -
  let ?N = "mask_count (c_vout c)" and ?P = "\<lambda>b. list_ex (mask_bit (c_vout c) b) [0..<8]"
  obtain L where L: "CalcMaskSize c = (L, length (filter ?P [0..<?N]))" "0 < ?N \<and> ?P (?N - 1) \<longrightarrow> L = ?N" "L \<le> ?N"
    using mask_fold [of ?P ?N] by (auto simp: CalcMaskSize_def)
  have "L = ?N" using L last_mask_byte [OF assms] unfolding mask_byte_zero by (cases "?N = 0") auto
  moreover have "filter (\<lambda>x. x \<noteq> 0) (map (mask_byte (c_vout c)) [0..<?N]) = map (mask_byte (c_vout c)) (filter ?P [0..<?N])"
    unfolding filter_map comp_def mask_byte_zero ..
  ultimately show ?thesis using L(1) by simp
qed

lemma read_mask_bytes:
  "bs = [] \<or> last bs \<noteq> 0 \<Longrightarrow> read_mask (length (filter (\<lambda>x. x \<noteq> 0) bs)) (bs @ rest)
     = Some (concat (map (\<lambda>b. map (\<lambda>p. b AND push_bit p 1 \<noteq> 0) [0..<8]) bs), rest)"
proof (induction bs)
  case Nil
  then show ?case by (simp add: read_mask.simps)
next
  case (Cons b bs)
  have "last (b # bs) \<in> set (filter (\<lambda>x. x \<noteq> 0) (b # bs))"
    using Cons.prems last_in_set [of "b # bs"] by (simp only: set_filter mem_Collect_eq) simp
  then have ne: "length (filter (\<lambda>x. x \<noteq> 0) (b # bs)) \<noteq> 0" by (metis length_0_conv list.set(1) empty_iff)
  have IH: "read_mask (length (filter (\<lambda>x. x \<noteq> 0) bs)) (bs @ rest)
     = Some (concat (map (\<lambda>b. map (\<lambda>p. b AND push_bit p 1 \<noteq> 0) [0..<8]) bs), rest)"
    using Cons by (cases bs) auto
  show ?case using ne IH by (subst read_mask.simps) (auto simp del: upt_rec_numeral)
qed

lemma mask_bits:
  "concat (map (\<lambda>b. map (\<lambda>p. b AND push_bit p 1 \<noteq> 0) [0..<8]) (map (mask_byte outs) [0..<N]))
     = map (\<lambda>i. 2 + i < length outs \<and> \<not> txout_IsNull (outs ! (2 + i))) [0..<8 * N]"
proof (induction N)
  case (Suc N)
  have "map (\<lambda>p. mask_byte outs N AND push_bit p 1 \<noteq> 0) [0..<8] = map (mask_bit outs N) [0..<8]"
    by (intro map_cong refl mask_byte_bit) simp
  also have "\<dots> = map (\<lambda>i. 2 + i < length outs \<and> \<not> txout_IsNull (outs ! (2 + i))) [8 * N..<8 * N + 8]"
    by (simp add: mask_bit_def map_add_upt [symmetric] comp_def add.commute mult.commute add.assoc del: map_add_upt)
  finally have "map (\<lambda>p. mask_byte outs N AND push_bit p 1 \<noteq> 0) [0..<8] =
      map (\<lambda>i. 2 + i < length outs \<and> \<not> txout_IsNull (outs ! (2 + i))) [8 * N..<8 * N + 8]" .
  moreover have "[0..<8 * Suc N] = [0..<8 * N] @ [8 * N..<8 * N + 8]"
    using upt_add_eq_append [of 0 "8 * N" 8] by (simp add: add.commute)
  ultimately show ?case using Suc by (simp only: upt_Suc_append le0 map_append concat_append list.map concat.simps append_Nil2)
qed simp

subsection \<open>Reading the outputs\<close>

lemma avail_list:
  "[0 < length outs \<and> \<not> txout_IsNull (outs ! 0), 1 < length outs \<and> \<not> txout_IsNull (outs ! 1)]
     @ map (\<lambda>i. 2 + i < length outs \<and> \<not> txout_IsNull (outs ! (2 + i))) [0..<8 * mask_count outs]
   = map (\<lambda>o'. \<not> txout_IsNull o') outs @ replicate (2 + 8 * mask_count outs - length outs) False"
    (is "?l = ?r")
proof (rule nth_equalityI)
  have N: "length outs \<le> 2 + 8 * mask_count outs" by (simp add: mask_count_def)
  then show "length ?l = length ?r" by simp
  fix i assume "i < length ?l"
  then have i: "i < 2 + 8 * mask_count outs" by simp
  have "?l ! i \<longleftrightarrow> i < length outs \<and> \<not> txout_IsNull (outs ! i)"
  proof (cases "i < 2")
    case True
    then have "i = 0 \<or> i = 1" by linarith
    then show ?thesis by auto
  next
    case False
    then obtain j where "i = Suc (Suc j)" by (metis add_2_eq_Suc le_Suc_ex not_less)
    then show ?thesis using i by simp
  qed
  moreover have "?r ! i \<longleftrightarrow> i < length outs \<and> \<not> txout_IsNull (outs ! i)"
    using i N by (simp add: nth_append)
  ultimately show "?l ! i = ?r ! i" by simp
qed

abbreviation ser_outs :: "(bytes \<Rightarrow> bool) \<Rightarrow> CTxOut list \<Rightarrow> bytes" where
  "ser_outs v outs \<equiv> concat (map (\<lambda>o'. if txout_IsNull o' then [] else ser_ctxout v o') outs)"

lemma read_outs_null: "read_outs dec (replicate m False) s = Some (replicate m CTxOut_null, s)"
  by (induction m) simp_all

lemma read_outs_ser:
  assumes dec: "decompresses v dec"
    and "list_all (\<lambda>o'. if txout_IsNull o' then o' = CTxOut_null else ctxout_ok o') outs"
    and "length (ser_outs v outs @ rest) < 2 ^ 32"
  shows "read_outs dec (map (\<lambda>o'. \<not> txout_IsNull o') outs @ replicate m False) (ser_outs v outs @ rest)
    = Some (outs @ replicate m CTxOut_null, rest)"
  using assms(2-)
proof (induction outs)
  case Nil
  then show ?case by (simp add: read_outs_null)
next
  case (Cons o' outs)
  then show ?case
    using unser_ser_ctxout [OF dec, of o' "ser_outs v outs @ rest"] by (cases "txout_IsNull o'") simp_all
qed

lemma txout_null [simp]: "txout_IsNull CTxOut_null"
  by (simp add: txout_IsNull_def CTxOut_null_def)

lemma drop_trailing_nulls:
  assumes "outs = [] \<or> \<not> txout_IsNull (last outs)"
  shows "rev (dropWhile txout_IsNull (rev (outs @ replicate m CTxOut_null))) = outs"
proof -
  have "dropWhile txout_IsNull (rev outs) = rev outs"
    using assms by (cases "rev outs") (auto simp: last_rev [symmetric] rev_swap)
  moreover have "dropWhile txout_IsNull (replicate m CTxOut_null @ xs) = dropWhile txout_IsNull xs" for xs
    by (induction m) simp_all
  ultimately show ?thesis by simp
qed

lemma nat_and_low:
  fixes q r m :: nat
  assumes "r < 8" "m < 8"
  shows "(8 * q + r) AND m = r AND m"
proof -
  have m: "m = m AND mask 3" using assms(2) by (simp add: take_bit_eq_mask [symmetric] take_bit_nat_eq_self)
  have "(8 * q + r) AND m = ((8 * q + r) AND mask 3) AND m" by (subst m) (simp only: and.assoc and.commute)
  also have "(8 * q + r) AND mask 3 = r"
    using assms(1) by (simp add: take_bit_eq_mask [symmetric] take_bit_eq_mod)
  finally show ?thesis .
qed

text \<open>The flags in the header code.\<close>

lemma header_code:
  fixes q :: nat
  assumes "r = (if cb then 1 else 0) + (if f1 then 2 else 0) + (if f2 then 4 else 0)"
  shows "(8 * q + r) AND 1 \<noteq> 0 \<longleftrightarrow> cb" "(8 * q + r) AND 2 \<noteq> 0 \<longleftrightarrow> f1" "(8 * q + r) AND 4 \<noteq> 0 \<longleftrightarrow> f2"
    "(8 * q + r) AND 6 \<noteq> 0 \<longleftrightarrow> f1 \<or> f2" "(8 * q + r) div 8 = q"
proof -
  have r: "r = (if f2 then (if f1 then (if cb then 7 else 6) else (if cb then 5 else 4))
       else (if f1 then (if cb then 3 else 2) else (if cb then 1 else 0)))"
    using assms by simp
  then have "r < 8" by simp
  then have low: "(8 * q + r) AND m = r AND m" if "m < 8" for m using nat_and_low [of r m q] that by simp
  show "(8 * q + r) AND 1 \<noteq> 0 \<longleftrightarrow> cb" by (subst low) (simp_all add: r)
  show "(8 * q + r) AND 2 \<noteq> 0 \<longleftrightarrow> f1" by (subst low) (simp_all add: r)
  show "(8 * q + r) AND 4 \<noteq> 0 \<longleftrightarrow> f2" by (subst low) (simp_all add: r)
  show "(8 * q + r) AND 6 \<noteq> 0 \<longleftrightarrow> f1 \<or> f2" by (subst low) (simp_all add: r)
  show "(8 * q + r) div 8 = q" using \<open>r < 8\<close> by simp
qed


definition coins_ok :: "CCoins \<Rightarrow> bool" where
  "coins_ok c \<longleftrightarrow> outs_ok (c_vout c) \<and> length (c_vout c) < 2 ^ 28
     \<and> 0 \<le> c_nHeight c \<and> c_nHeight c < 2 ^ 31 \<and> - (2 ^ 31) \<le> c_nVersion c \<and> c_nVersion c < 2 ^ 31"

text \<open>What is read back of a version: of a negative one the format keeps the low seven bits.\<close>

definition stored_version :: "int \<Rightarrow> int" where
  "stored_version v = (if v < 0 then v mod 128 else v)"

lemma mask_code_positive:
  assumes "outs_ok outs"
    and "\<not> (0 < length outs \<and> \<not> txout_IsNull (outs ! 0))" "\<not> (1 < length outs \<and> \<not> txout_IsNull (outs ! 1))"
  shows "length (filter (\<lambda>x. x \<noteq> 0) (map (mask_byte outs) [0..<mask_count outs])) \<noteq> 0"
proof -
  let ?N = "mask_count outs"
  have "outs ! (length outs - 1) = last outs" using assms(1) by (simp add: outs_ok_def last_conv_nth)
  then have "length outs \<noteq> 1" "length outs \<noteq> 2" "length outs \<noteq> 0"
    using assms by (auto simp: outs_ok_def)
  then have "8 \<le> length outs + 5" by linarith
  then have N: "0 < ?N" by (simp add: mask_count_def div_greater_zero_iff)
  then have "mask_byte outs (?N - 1) \<in> set (filter (\<lambda>x. x \<noteq> 0) (map (mask_byte outs) [0..<?N]))"
    using last_mask_byte [OF assms(1)] by simp
  then show ?thesis by (metis length_0_conv list.set(1) empty_iff)
qed

lemma put_varint_int_stored: "put_varint_int n = put_varint (nat (stored_version n))"
proof (cases "n < 0")
  case True
  define k where "k = nat (n mod 128)"
  have k: "k < 128" "n mod 128 = int k" by (simp_all add: k_def nat_less_iff)
  have "put_varint k = [of_nat k]"
  proof -
    have "(of_nat k :: u64) \<le> 0x7F" using k(1) by (simp add: word_le_nat_alt unat_of_nat take_bit_eq_mod)
    moreover have "(ucast (of_nat k :: u64) AND 0x7F :: byte) = of_nat k"
    proof -
      have m: "(0x7F :: byte) = mask 7" by (simp add: mask_eq_exp_minus_1)
      have "unat (ucast (of_nat k :: u64) AND mask 7 :: byte) = k"
      proof -
        have "unat (ucast (of_nat k :: u64) AND mask 7 :: byte) = take_bit 7 (take_bit 8 (take_bit 64 k))"
          by (simp add: take_bit_eq_mask [symmetric] unsigned_take_bit_eq unsigned_ucast_eq unsigned_of_nat)
        then show ?thesis using k(1) by (simp add: take_bit_eq_mod)
      qed
      then show ?thesis unfolding m by (metis of_nat_unat ucast_id)
    qed
    ultimately show ?thesis unfolding put_varint_def WriteVarInt_def by (subst varint_tmp.simps) simp
  qed
  then show ?thesis using True k(2) by (simp add: put_varint_int_def stored_version_def)
qed (simp add: put_varint_int_def stored_version_def)

lemma get_put_varint_int:
  assumes "n < 2 ^ 31" "length (put_varint_int n @ rest) < 2 ^ 32"
  shows "get_varint (put_varint_int n @ rest) = Some (nat (stored_version n), rest)"
proof -
  have "n mod 128 < 2 ^ 31" by (rule less_trans [OF pos_mod_bound]) simp_all
  then have "stored_version n < 2 ^ 31" using assms(1) by (cases "n < 0") (simp_all add: stored_version_def)
  then show ?thesis using get_put_varint [of "nat (stored_version n)" rest] assms(2) unfolding put_varint_int_stored by simp
qed

lemma unser_ser_coins:
  assumes dec: "decompresses v dec" and ok: "coins_ok c"
  shows "\<exists>b. ser_coins v c = Inr b \<and> (length (b @ rest) < 2 ^ 32 \<longrightarrow> unser_coins dec (b @ rest) = Some (c\<lparr>c_nVersion := stored_version (c_nVersion c)\<rparr>, rest))"
proof -
  define outs where "outs = c_vout c"
  define bs where "bs = map (mask_byte outs) [0..<mask_count outs]"
  define nz where "nz = length (filter (\<lambda>x. x \<noteq> 0) bs)"
  define f1 f2 where "f1 = (0 < length outs \<and> \<not> txout_IsNull (outs ! 0))" and "f2 = (1 < length outs \<and> \<not> txout_IsNull (outs ! 1))"
  have oo: "outs_ok outs" using ok by (simp add: coins_ok_def outs_def)
  have calc: "CalcMaskSize c = (mask_count outs, nz)"
    using CalcMaskSize_ok [of c] oo by (simp add: outs_def bs_def nz_def)
  have pos: "f1 \<or> f2 \<or> nz \<noteq> 0" using mask_code_positive [OF oo] unfolding f1_def f2_def nz_def bs_def by blast
  define q r where "q = nz - (if f1 \<or> f2 then 0 else 1)"
    and "r = (if fCoinBase c then 1 else 0) + (if f1 then 2 else 0) + (if f2 then 4 else (0 :: nat))"
  note code = header_code [of r "fCoinBase c" f1 f2 q, OF r_def]
  have "nz \<le> mask_count outs" unfolding nz_def bs_def by (metis length_filter_le length_map diff_zero length_upt)
  moreover have "mask_count outs < 2 ^ 28" using ok by (auto simp: mask_count_def coins_ok_def outs_def div_less_iff_less_mult)
  moreover have "q \<le> nz" "r \<le> 7" by (simp_all add: q_def r_def)
  ultimately have lt: "8 * q + r < 2 ^ 32" by simp
  then have small: "(8 * q + r) mod 2 ^ 32 = 8 * q + r" by (rule mod_less)
  define b where "b = put_varint_int (c_nVersion c) @ put_varint (8 * q + r) @ bs @ ser_outs v outs @ put_varint_int (c_nHeight c)"
  have nCode: "8 * (nz - (if f1 \<or> f2 then 0 else 1)) + (if fCoinBase c then 1 else 0) + (if f1 then 2 else 0) + (if f2 then 4 else 0)
      = 8 * q + r" by (simp add: q_def r_def)
  have "ser_coins v c = Inr b"
    unfolding ser_coins_def calc Let_def prod.case outs_def [symmetric] f1_def [symmetric] f2_def [symmetric] nCode small
    using pos by (simp add: b_def bs_def)
  moreover have "unser_coins dec (b @ rest) = Some (c\<lparr>c_nVersion := stored_version (c_nVersion c)\<rparr>, rest)" if len: "length (b @ rest) < 2 ^ 32"
  proof -
    let ?r4 = "put_varint_int (c_nHeight c) @ rest"
    let ?r3 = "ser_outs v outs @ ?r4"
    let ?r1 = "put_varint (8 * q + r) @ bs @ ?r3"
    have b: "b @ rest = put_varint_int (c_nVersion c) @ ?r1" by (simp add: b_def)
    have l: "length ?r1 < 2 ^ 32" "length ?r3 < 2 ^ 32" "length ?r4 < 2 ^ 32" using len by (simp_all add: b_def)
    have g1: "get_varint (b @ rest) = Some (nat (stored_version (c_nVersion c)), ?r1)"
      unfolding b using ok len b by (intro get_put_varint_int) (simp_all add: coins_ok_def)
    have "8 * q + r < 2 ^ 64" using lt by simp
    then have g2: "get_varint ?r1 = Some (8 * q + r, bs @ ?r3)" using l by (intro get_put_varint) simp_all
    have n: "q + (if f1 \<or> f2 then 0 else 1) = nz" using pos by (auto simp: q_def)
    have "bs = [] \<or> last bs \<noteq> 0" using last_mask_byte [OF oo] by (auto simp: bs_def last_map)
    from read_mask_bytes [OF this, of ?r3, folded nz_def]
    have g3: "read_mask nz (bs @ ?r3) = Some (map (\<lambda>i. 2 + i < length outs \<and> \<not> txout_IsNull (outs ! (2 + i))) [0..<8 * mask_count outs], ?r3)"
      unfolding bs_def mask_bits .
    have g4: "read_outs dec ([f1, f2] @ map (\<lambda>i. 2 + i < length outs \<and> \<not> txout_IsNull (outs ! (2 + i))) [0..<8 * mask_count outs]) ?r3
        = Some (outs @ replicate (2 + 8 * mask_count outs - length outs) CTxOut_null, ?r4)"
      unfolding f1_def f2_def avail_list using oo l by (intro read_outs_ser [OF dec]) (simp_all add: outs_ok_def)
    have g5: "get_varint ?r4 = Some (nat (c_nHeight c), rest)"
      using ok l get_put_varint_int [of "c_nHeight c" rest] by (simp add: coins_ok_def stored_version_def)
    have "0 \<le> stored_version (c_nVersion c)" "stored_version (c_nVersion c) < 2 ^ 31"
      using ok pos_mod_bound [of 128 "c_nVersion c"] by (auto simp: stored_version_def coins_ok_def)
    then have "Cleanup \<lparr>fCoinBase = fCoinBase c, c_vout = outs @ replicate (2 + 8 * mask_count outs - length outs) CTxOut_null,
        c_nHeight = to_int32 (int (nat (c_nHeight c))), c_nVersion = to_int32 (int (nat (stored_version (c_nVersion c))))\<rparr>
        = c\<lparr>c_nVersion := stored_version (c_nVersion c)\<rparr>"
      using drop_trailing_nulls [of outs] oo ok by (simp add: Cleanup_def outs_ok_def coins_ok_def outs_def)
    then show ?thesis
      unfolding unser_coins_def g1 option.case prod.case g2 Let_def small code n g3 g4 g5 by simp
  qed
  ultimately show ?thesis by blast
qed


text \<open>
  C28. The database format of unspent outputs round-trips except for negative versions: a transaction's
  coins that are not all spent, with outputs and a height in range, serialize without an assertion failure, and reading the bytes
  back, whatever follows them, gives the same coins; only of a negative version (which transactions may
  have) the low seven bits come back, so that the coins are then other ones. The hypothesis on
  the curve code is that decompressing the short form of a valid key gives the key.
\<close>

theorem CCoins_roundtrip:
  assumes "decompresses IsFullyValid PkDecompress" "coins_ok c"
    and "\<And>b. ser_coins IsFullyValid c = Inr b \<Longrightarrow> length (b @ rest) < 2 ^ 32"
  shows "\<exists>b. ser_coins IsFullyValid c = Inr b \<and> unser_coins PkDecompress (b @ rest) = Some (c\<lparr>c_nVersion := stored_version (c_nVersion c)\<rparr>, rest)
    \<and> (c\<lparr>c_nVersion := stored_version (c_nVersion c)\<rparr> = c \<longleftrightarrow> 0 \<le> c_nVersion c)"
proof -
  have "c\<lparr>c_nVersion := stored_version (c_nVersion c)\<rparr> = c \<longleftrightarrow> stored_version (c_nVersion c) = c_nVersion c" by (cases c) simp
  also have "\<dots> \<longleftrightarrow> 0 \<le> c_nVersion c" using pos_mod_sign [of 128 "c_nVersion c"] by (auto simp: stored_version_def)
  finally show ?thesis using unser_ser_coins [OF assms(1,2)] assms(3) by blast
qed

definition example_coins :: CCoins where
  "example_coins = \<lparr>fCoinBase = True, c_vout = [CTxOut_null, CTxOut_null, CTxOut_null, \<lparr>nValue = 1200, scriptPubKey = [0x6a]\<rparr>],
     c_nHeight = 7, c_nVersion = 1\<rparr>"

definition example_valid :: "bytes \<Rightarrow> bool" where
  "example_valid k \<longleftrightarrow> k = 4 # replicate 64 7"

definition example_decompress :: "bytes \<Rightarrow> bytes option" where
  "example_decompress b = (if b = 3 # replicate 32 7 then Some (4 # replicate 64 7) else None)"

lemma example_decompresses: "decompresses example_valid example_decompress"
  by (simp add: decompresses_def example_valid_def example_decompress_def take_replicate)

lemma upt8: "[0..<8] = [0, 1, 2, 3, 4, 5, 6, 7 :: nat]"
  by code_simp

lemma example_ser: "ser_coins example_valid example_coins = Inr [1, 1, 2, 0x67, 7, 0x6a, 7]"
  by (simp add: ser_coins_def example_coins_def CalcMaskSize_def mask_count_def mask_bit_def mask_byte_def
    CTxOut_null_def txout_IsNull_def put_varint_int_def put_varint_def WriteVarInt_def varint_tmp.simps
    ser_ctxout_def ser_cscript_def CompressScript_def IsToKeyID_def IsToScriptID_def IsToPubKey_def
    CompressAmount_def compress_loop.simps upt8)

theorem CCoins_roundtrip_witness:
  "\<exists>b. ser_coins example_valid example_coins = Inr b
    \<and> unser_coins example_decompress (b @ [1]) = Some (example_coins, [1])"
proof -
  have "coins_ok example_coins"
    by (simp add: coins_ok_def outs_ok_def example_coins_def txout_IsNull_def CTxOut_null_def ctxout_ok_def)
  moreover have "0 \<le> c_nVersion example_coins" by (simp add: example_coins_def)
  ultimately show ?thesis using CCoins_roundtrip [OF example_decompresses, of example_coins "[1]"] by (simp add: example_ser)
qed

end
