(* ===== verification/Merkle.thy ===== *)
theory Merkle
  imports Coins
begin

text \<open>
  Merkle trees of blocks (\<^verbatim>\<open>primitives/block.cpp\<close>): \<open>BuildMerkleTree\<close>, which fills one array with the
  levels of the tree and notices duplicated ends, \<open>GetMerkleBranch\<close> and \<open>CheckMerkleBranch\<close>. The
  double SHA-256 of two concatenated hashes and the hash of a transaction are arguments.
\<close>

type_synonym pair_hash = "base_uint \<Rightarrow> base_uint \<Rightarrow> base_uint"

section \<open>Building the tree\<close>

abbreviation (input) "MERKLETREE_NO_COINBASE_OP_RETURN \<equiv> (1 :: nat)"

text \<open>The leaf of a coinbase leaves out its unspendable outputs in one kind of tree.\<close>

fun spendable_outputs :: "CTxOut list \<Rightarrow> CTxOut list cpp option" where
  "spendable_outputs [] = Some (Inr [])"
| "spendable_outputs (out # outs) =
     Option.bind (IsUnspendable (scriptPubKey out)) (\<lambda>r. case r of
        Inl e \<Rightarrow> Some (Inl e)
      | Inr u \<Rightarrow> map_option (map_sum id (\<lambda>outs. if u then outs else out # outs)) (spendable_outputs outs))"

definition merkle_leaf :: "(CTransaction \<Rightarrow> base_uint) \<Rightarrow> nat \<Rightarrow> CTransaction \<Rightarrow> base_uint cpp option" where
  "merkle_leaf GetHash nMerkleTreeType tx =
     (if nMerkleTreeType = MERKLETREE_NO_COINBASE_OP_RETURN \<and> IsCoinBase tx
      then map_option (map_sum id (\<lambda>outs. GetHash (tx\<lparr>vout := outs\<rparr>))) (spendable_outputs (vout tx))
      else Some (Inr (GetHash tx)))"

fun merkle_leaves :: "(CTransaction \<Rightarrow> base_uint) \<Rightarrow> nat \<Rightarrow> CTransaction list \<Rightarrow> base_uint list cpp option" where
  "merkle_leaves GetHash mtype [] = Some (Inr [])"
| "merkle_leaves GetHash mtype (tx # txs) =
     Option.bind (merkle_leaf GetHash mtype tx) (\<lambda>r. case r of
        Inl e \<Rightarrow> Some (Inl e)
      | Inr h \<Rightarrow> map_option (map_sum id (\<lambda>hs. h # hs)) (merkle_leaves GetHash mtype txs))"

text \<open>One level: \<open>j\<close> is where it starts in the array and \<open>nSize\<close> is its size.\<close>

function merkle_row :: "pair_hash \<Rightarrow> nat \<Rightarrow> nat \<Rightarrow> nat \<Rightarrow> base_uint list \<Rightarrow> bool \<Rightarrow> base_uint list \<times> bool" where
  "merkle_row H j nSize i tree mutated =
     (if i < nSize then
        (let i2 = min (i + 1) (nSize - 1);
             mutated = (mutated \<or> i2 = i + 1 \<and> i2 + 1 = nSize \<and> tree ! (j + i) = tree ! (j + i2))
         in merkle_row H j nSize (i + 2) (tree @ [H (tree ! (j + i)) (tree ! (j + i2))]) mutated)
      else (tree, mutated))"
  by pat_completeness auto
termination by (relation "measure (\<lambda>(H, j, nSize, i, tree, mutated). nSize - i)") auto

declare merkle_row.simps [simp del]

function merkle_rows :: "pair_hash \<Rightarrow> nat \<Rightarrow> nat \<Rightarrow> base_uint list \<times> bool \<Rightarrow> base_uint list \<times> bool" where
  "merkle_rows H j nSize (tree, mutated) =
     (if nSize > 1 then merkle_rows H (j + nSize) ((nSize + 1) div 2) (merkle_row H j nSize 0 tree mutated)
      else (tree, mutated))"
  by pat_completeness auto
termination by (relation "measure (\<lambda>(H, j, nSize, r). nSize)") auto

declare merkle_rows.simps [simp del]

definition BuildMerkleTree :: "pair_hash \<Rightarrow> base_uint list \<Rightarrow> base_uint list \<times> bool \<times> base_uint" where
  "BuildMerkleTree H leaves =
     (case merkle_rows H 0 (length leaves) (leaves, False) of
        (tree, mutated) \<Rightarrow> (tree, mutated, if tree = [] then bn_zero 8 else last tree))"

section \<open>Branches\<close>

function merkle_branch :: "base_uint list \<Rightarrow> nat \<Rightarrow> nat \<Rightarrow> int \<Rightarrow> base_uint list cpp" where
  "merkle_branch tree j nSize nIndex =
     (if nSize > 1 then
        (let k = int j + min (nIndex XOR 1) (int nSize - 1)
         in if k < 0 \<or> k \<ge> int (length tree) then Inl OutOfRange
            else bind_cpp (merkle_branch tree (j + nSize) ((nSize + 1) div 2) (drop_bit 1 nIndex)) (\<lambda>br.
                   Inr (tree ! nat k # br)))
      else Inr [])"
  by pat_completeness auto
termination by (relation "measure (\<lambda>(tree, j, nSize, nIndex). nSize)") auto

declare merkle_branch.simps [simp del]

definition GetMerkleBranch :: "pair_hash \<Rightarrow> base_uint list \<Rightarrow> base_uint list \<Rightarrow> int \<Rightarrow> base_uint list cpp" where
  "GetMerkleBranch H leaves vMerkleTree nIndex =
     (let tree = (if vMerkleTree = [] then fst (BuildMerkleTree H leaves) else vMerkleTree)
      in merkle_branch tree 0 (length leaves) nIndex)"

fun fold_branch :: "pair_hash \<Rightarrow> base_uint \<Rightarrow> base_uint list \<Rightarrow> int \<Rightarrow> base_uint" where
  "fold_branch H h [] nIndex = h"
| "fold_branch H h (b # bs) nIndex =
     fold_branch H (if nIndex AND 1 \<noteq> 0 then H b h else H h b) bs (drop_bit 1 nIndex)"

definition CheckMerkleBranch :: "pair_hash \<Rightarrow> base_uint \<Rightarrow> base_uint list \<Rightarrow> int \<Rightarrow> base_uint" where
  "CheckMerkleBranch H h vMerkleBranch nIndex =
     (if nIndex = - 1 then bn_zero 8 else fold_branch H h vMerkleBranch nIndex)"

section \<open>The levels of a tree\<close>

fun next_level :: "pair_hash \<Rightarrow> base_uint list \<Rightarrow> base_uint list" where
  "next_level H [] = []"
| "next_level H [a] = [H a a]"
| "next_level H (a # b # xs) = H a b # next_level H xs"

lemma length_next_level [simp]: "length (next_level H xs) = (length xs + 1) div 2"
  by (induction H xs rule: next_level.induct) auto

lemma nth_next_level: "i < (length xs + 1) div 2 \<Longrightarrow> next_level H xs ! i = H (xs ! (2 * i)) (xs ! min (2 * i + 1) (length xs - 1))"
proof (induction H xs arbitrary: i rule: next_level.induct)
  case (3 H a b xs)
  show ?case
  proof (cases i)
    case (Suc k)
    have "k < (length xs + 1) div 2" using 3(2) Suc by simp
    moreover have "min (2 * Suc k + 1) (length (a # b # xs) - 1) = Suc (Suc (min (2 * k + 1) (length xs - 1)))"
      using calculation by auto
    ultimately show ?thesis using 3(1) Suc by simp
  qed simp
qed simp_all

function merkle_levels :: "pair_hash \<Rightarrow> base_uint list \<Rightarrow> base_uint list list" where
  "merkle_levels H xs = (if length xs > 1 then xs # merkle_levels H (next_level H xs) else [xs])"
  by pat_completeness auto
termination by (relation "measure (\<lambda>(H, xs). length xs)") auto

declare merkle_levels.simps [simp del]

text \<open>The reference definitions: the root, and whether a level of even size ends in two equal hashes.\<close>

function merkle_root :: "pair_hash \<Rightarrow> base_uint list \<Rightarrow> base_uint" where
  "merkle_root H xs = (if length xs > 1 then merkle_root H (next_level H xs) else if xs = [] then bn_zero 8 else hd xs)"
  by pat_completeness auto
termination by (relation "measure (\<lambda>(H, xs). length xs)") auto

declare merkle_root.simps [simp del]

definition doubled_end :: "base_uint list \<Rightarrow> bool" where
  "doubled_end xs \<longleftrightarrow> length xs > 1 \<and> even (length xs) \<and> xs ! (length xs - 2) = xs ! (length xs - 1)"

lemma merkle_row_level:
  assumes "even i" "i < length lvl + 2" "done = take (i div 2) (next_level H lvl)" "i \<ge> length lvl \<longrightarrow> m = (m0 \<or> doubled_end lvl)" "i < length lvl \<longrightarrow> m = m0"
  shows "merkle_row H (length pre) (length lvl) i (pre @ lvl @ done) m = (pre @ lvl @ next_level H lvl, m0 \<or> doubled_end lvl)"
  using assms
proof (induction "length lvl - i" arbitrary: i "done" m rule: less_induct)
  case less
  show ?case
  proof (cases "i < length lvl")
    case False
    then have "(length lvl + 1) div 2 \<le> i div 2" using less.prems(1) by (auto elim!: evenE)
    then show ?thesis using False less.prems by (subst merkle_row.simps) simp
  next
    case True
    let ?i2 = "min (i + 1) (length lvl - 1)"
    let ?m = "m \<or> ?i2 = i + 1 \<and> ?i2 + 1 = length lvl \<and> lvl ! i = lvl ! ?i2"
    have k: "i div 2 < (length lvl + 1) div 2" using True less.prems(1) by (auto elim!: evenE)
    have "?i2 < length lvl" using True by auto
    then have at: "(pre @ lvl @ done) ! (length pre + i) = lvl ! i" "(pre @ lvl @ done) ! (length pre + ?i2) = lvl ! ?i2"
      using True by (simp_all add: nth_append)
    have "2 * (i div 2) = i" using less.prems(1) by simp
    then have nx: "H (lvl ! i) (lvl ! ?i2) = next_level H lvl ! (i div 2)" using nth_next_level [OF k, of H] by simp
    have tk: "done @ [H (lvl ! i) (lvl ! ?i2)] = take ((i + 2) div 2) (next_level H lvl)"
      using less.prems(3) k nx by (simp add: take_Suc_conv_app_nth)
    have m: "i + 2 \<ge> length lvl \<longrightarrow> ?m = (m0 \<or> doubled_end lvl)" "i + 2 < length lvl \<longrightarrow> ?m = m0"
    proof -
      consider "length lvl = i + 1" | "length lvl = i + 2" | "i + 2 < length lvl" using True by linarith
      then show "i + 2 \<ge> length lvl \<longrightarrow> ?m = (m0 \<or> doubled_end lvl)" "i + 2 < length lvl \<longrightarrow> ?m = m0"
        by (cases; use less.prems(1,5) True in \<open>auto simp: doubled_end_def\<close>)+
    qed
    have "merkle_row H (length pre) (length lvl) i (pre @ lvl @ done) m
        = merkle_row H (length pre) (length lvl) (i + 2) (pre @ lvl @ take ((i + 2) div 2) (next_level H lvl)) ?m"
      unfolding tk [symmetric] using True at by (subst merkle_row.simps) (simp add: Let_def)
    also have "\<dots> = (pre @ lvl @ next_level H lvl, m0 \<or> doubled_end lvl)"
      using True less.prems(1) m by (intro less.hyps) auto
    finally show ?thesis .
  qed
qed

lemma merkle_rows_levels:
  "merkle_rows H (length pre) (length lvl) (pre @ lvl, m) = (pre @ concat (merkle_levels H lvl), m \<or> (\<exists>l \<in> set (merkle_levels H lvl). doubled_end l))"
proof (induction "length lvl" arbitrary: lvl pre m rule: less_induct)
  case less
  show ?case
  proof (cases "length lvl > 1")
    case False
    then show ?thesis by (subst merkle_rows.simps, subst (1 2) merkle_levels.simps) (auto simp: doubled_end_def)
  next
    case True
    let ?n = "next_level H lvl"
    have row: "merkle_row H (length pre) (length lvl) 0 (pre @ lvl) m = ((pre @ lvl) @ ?n, m \<or> doubled_end lvl)"
      using merkle_row_level [of 0 lvl "[]" H m m pre] True by (cases lvl) simp_all
    have "merkle_rows H (length (pre @ lvl)) (length ?n) ((pre @ lvl) @ ?n, m \<or> doubled_end lvl) =
        ((pre @ lvl) @ concat (merkle_levels H ?n), (m \<or> doubled_end lvl) \<or> (\<exists>l \<in> set (merkle_levels H ?n). doubled_end l))"
      using True by (intro less.hyps) simp
    then show ?thesis using True row
      by (subst merkle_rows.simps, subst (1 2) merkle_levels.simps) auto
  qed
qed

lemma merkle_levels_last: "concat (merkle_levels H xs) \<noteq> [] \<longleftrightarrow> xs \<noteq> []"
  "xs \<noteq> [] \<Longrightarrow> last (concat (merkle_levels H xs)) = merkle_root H xs"
proof (induction H xs rule: merkle_root.induct)
  case (1 H xs)
  have nx: "next_level H xs \<noteq> []" if "length xs > 1" using that by (cases "(H, xs)" rule: next_level.cases) auto
  {
    case 1
    show ?case by (subst merkle_levels.simps) auto
  next
    case 2
    show ?case
    proof (cases "length xs > 1")
      case True
      then show ?thesis using 1 [OF True] nx [OF True]
        by (subst merkle_levels.simps, subst merkle_root.simps) simp
    next
      case False
      then obtain x where "xs = [x]" using 2 by (cases xs) auto
      then show ?thesis by (subst merkle_levels.simps, subst merkle_root.simps) simp
    qed
  }
qed

lemma BuildMerkleTree_levels:
  "BuildMerkleTree H leaves = (concat (merkle_levels H leaves), \<exists>l \<in> set (merkle_levels H leaves). doubled_end l, merkle_root H leaves)"
proof -
  have e: "concat (merkle_levels H []) = []" "merkle_root H [] = bn_zero 8" by (subst merkle_levels.simps merkle_root.simps, simp)+
  show ?thesis
    using merkle_rows_levels [of H "[]" leaves False] merkle_levels_last [where H = H and xs = leaves] e
    by (cases "leaves = []") (auto simp: BuildMerkleTree_def)
qed

section \<open>Branches lead to the root\<close>

lemma merkle_branch_root:
  assumes "i < length lvl"
  shows "\<exists>br. merkle_branch (pre @ concat (merkle_levels H lvl)) (length pre) (length lvl) (int i) = Inr br
    \<and> fold_branch H (lvl ! i) br (int i) = merkle_root H lvl"
  using assms
proof (induction "length lvl" arbitrary: lvl pre i rule: less_induct)
  case less
  show ?case
  proof (cases "length lvl > 1")
    case False
    then have "lvl = [lvl ! i]" "i = 0" using less.prems by (cases lvl; auto)+
    then show ?thesis using False by (subst merkle_branch.simps, subst merkle_root.simps) (auto simp: hd_conv_nth)
  next
    case True
    let ?n = "next_level H lvl" and ?tree = "pre @ concat (merkle_levels H lvl)"
    define s where "s = (if even i then min (i + 1) (length lvl - 1) else i - 1)"
    have tree: "?tree = (pre @ lvl) @ concat (merkle_levels H ?n)" using True by (subst merkle_levels.simps) simp
    have s: "s < length lvl" using less.prems by (auto simp: s_def)
    have k: "int (length pre) + min (int i XOR 1) (int (length lvl) - 1) = int (length pre + s)"
      using True less.prems by (auto simp: xor_one_eq min_def s_def elim!: oddE)
    have at: "?tree ! (length pre + s) = lvl ! s" "length pre + s < length ?tree"
      using s unfolding tree by (simp_all add: nth_append)
    have d: "drop_bit 1 (int i) = int (i div 2)" by (simp add: drop_bit_eq_div zdiv_int)
    have i2: "i div 2 < length ?n" using less.prems by auto
    obtain br where br: "merkle_branch ?tree (length (pre @ lvl)) (length ?n) (int (i div 2)) = Inr br"
      "fold_branch H (?n ! (i div 2)) br (int (i div 2)) = merkle_root H ?n"
    proof -
      have "length ?n < length lvl" using True by simp
      from less.hyps [OF this i2, of "pre @ lvl"] show ?thesis using that unfolding tree by blast
    qed
    have "merkle_branch ?tree (length pre) (length lvl) (int i) = Inr (lvl ! s # br)"
      using True br(1) at d by (subst merkle_branch.simps) (simp add: Let_def k nat_int_add)
    moreover have "(if int i AND 1 \<noteq> 0 then H (lvl ! s) (lvl ! i) else H (lvl ! i) (lvl ! s)) = ?n ! (i div 2)"
    proof -
      have "i div 2 < (length lvl + 1) div 2" using i2 by simp
      note n = nth_next_level [OF this, of H]
      show ?thesis
      proof (cases "even i")
        case True
        then show ?thesis using n by (simp add: and_one_eq s_def)
      next
        case False
        then have "2 * (i div 2) = i - 1" "min (2 * (i div 2) + 1) (length lvl - 1) = i" using less.prems by (auto elim!: oddE)
        moreover have "int i mod 2 = 1" using False by (simp flip: odd_iff_mod_2_eq_one)
        ultimately show ?thesis using n False by (simp add: and_one_eq s_def)
      qed
    qed
    moreover have "merkle_root H lvl = merkle_root H ?n" using True by (subst merkle_root.simps) simp
    ultimately show ?thesis using br(2) d by (intro exI [of _ "lvl ! s # br"]) simp
  qed
qed

text \<open>
  C12. The branch of the transaction at any position of a block leads from its hash to the root that
  \<open>BuildMerkleTree\<close> returns, and no access leaves the array.
\<close>

theorem GetMerkleBranch_root:
  assumes "i < length leaves" "BuildMerkleTree H leaves = (tree, mutated, root)" "vMerkleTree = [] \<or> vMerkleTree = tree"
  shows "\<exists>br. GetMerkleBranch H leaves vMerkleTree (int i) = Inr br \<and> CheckMerkleBranch H (leaves ! i) br (int i) = root"
proof -
  have t: "tree = concat (merkle_levels H leaves)" "root = merkle_root H leaves" using assms(2) by (simp_all add: BuildMerkleTree_levels)
  then have "(if vMerkleTree = [] then fst (BuildMerkleTree H leaves) else vMerkleTree) = [] @ concat (merkle_levels H leaves)"
    using assms(3) by (auto simp: BuildMerkleTree_levels)
  then show ?thesis
    using merkle_branch_root [OF assms(1), of "[]" H] t(2) by (simp add: GetMerkleBranch_def CheckMerkleBranch_def)
qed

theorem GetMerkleBranch_root_witness:
  "\<exists>br. GetMerkleBranch (\<lambda>a b. a @ b) [[1], [2], [3]] [] 2 = Inr br \<and> CheckMerkleBranch (\<lambda>a b. a @ b) [3] br 2 = [1, 2, 3, 3]"
proof -
  have b: "BuildMerkleTree (\<lambda>a b. a @ b) [[1], [2], [3]] = ([[1], [2], [3], [1, 2], [3, 3], [1, 2, 3, 3]], False, [1, 2, 3, 3])"
    by code_simp
  show ?thesis using GetMerkleBranch_root [OF _ b, of 2 "[]"] by simp
qed

section \<open>Duplicated transactions\<close>

fun level_pairs :: "base_uint list \<Rightarrow> (base_uint \<times> base_uint) list" where
  "level_pairs [] = []"
| "level_pairs [a] = [(a, a)]"
| "level_pairs (a # b # xs) = (a, b) # level_pairs xs"

text \<open>The pairs that are hashed to build a tree.\<close>

definition hashed_pairs :: "pair_hash \<Rightarrow> base_uint list \<Rightarrow> (base_uint \<times> base_uint) list" where
  "hashed_pairs H xs = concat (map level_pairs (filter (\<lambda>l. length l > 1) (merkle_levels H xs)))"

lemma next_level_pairs: "next_level H xs = map (\<lambda>(a, b). H a b) (level_pairs xs)"
  by (induction H xs rule: next_level.induct) simp_all

lemma doubled_end_Cons2: "doubled_end xs \<Longrightarrow> doubled_end (a # b # xs)"
  using numeral_2_eq_2 by (auto simp: doubled_end_def nth_Cons')

lemma level_pairs_inj: "level_pairs xs = level_pairs ys \<Longrightarrow> \<not> doubled_end xs \<Longrightarrow> \<not> doubled_end ys \<Longrightarrow> xs = ys"
proof (induction xs arbitrary: ys rule: level_pairs.induct)
  case 1
  then show ?case by (cases ys rule: level_pairs.cases) simp_all
next
  case (2 a)
  then show ?case by (cases ys rule: level_pairs.cases; cases "tl (tl ys)" rule: level_pairs.cases) (auto simp: doubled_end_def)
next
  case (3 a b xs)
  show ?case
  proof (cases ys rule: level_pairs.cases)
    case (2 y)
    then have "level_pairs xs = []" "a = b" using 3(2) by auto
    then have "xs = []" by (cases xs rule: level_pairs.cases) auto
    then show ?thesis using \<open>a = b\<close> 3(3) by (simp add: doubled_end_def)
  next
    case (3 c d zs)
    then show ?thesis using "3.IH" [of zs] "3.prems" doubled_end_Cons2 by auto
  qed (use 3(2) in simp)
qed

lemma merkle_levels_nonempty: "merkle_levels H xs \<noteq> []"
  by (subst merkle_levels.simps) simp

lemma merkle_root_inj:
  assumes "xs \<noteq> []" "ys \<noteq> []" "length (merkle_levels H xs) = length (merkle_levels H ys)" "merkle_root H xs = merkle_root H ys"
    and "\<forall>l \<in> set (merkle_levels H xs). \<not> doubled_end l" "\<forall>l \<in> set (merkle_levels H ys). \<not> doubled_end l"
    and "inj_on (\<lambda>(a, b). H a b) (set (hashed_pairs H xs) \<union> set (hashed_pairs H ys))"
  shows "xs = ys"
  using assms
proof (induction H xs arbitrary: ys rule: merkle_root.induct)
  case (1 H xs)
  have lv: "merkle_levels H zs = (if length zs > 1 then zs # merkle_levels H (next_level H zs) else [zs])" for zs
    by (rule merkle_levels.simps)
  have rt: "merkle_root H zs = (if length zs > 1 then merkle_root H (next_level H zs) else if zs = [] then bn_zero 8 else hd zs)" for zs
    by (rule merkle_root.simps)
  have iff: "length xs > 1 \<longleftrightarrow> length ys > 1"
    using "1.prems"(3) lv [of xs] lv [of ys] merkle_levels_nonempty [of H] by (cases "length xs > 1"; cases "length ys > 1") auto
  show ?case
  proof (cases "length xs > 1")
    case False
    then obtain x y where "xs = [x]" "ys = [y]" using iff "1.prems"(1,2) by (cases xs; cases ys) auto
    then show ?thesis using "1.prems"(4) rt [of xs] rt [of ys] by simp
  next
    case True
    have hp: "set (hashed_pairs H zs) = set (level_pairs zs) \<union> set (hashed_pairs H (next_level H zs))" if "length zs > 1" for zs
      unfolding hashed_pairs_def using that by (subst lv) simp
    have inj: "inj_on (\<lambda>(a, b). H a b) (set (level_pairs xs) \<union> set (level_pairs ys))"
      "inj_on (\<lambda>(a, b). H a b) (set (hashed_pairs H (next_level H xs)) \<union> set (hashed_pairs H (next_level H ys)))"
      by (rule inj_on_subset [OF "1.prems"(7)], use hp [of xs] hp [of ys] True iff in auto)+
    have ne: "next_level H zs \<noteq> []" if "length zs > 1" for zs using that by (cases "(H, zs)" rule: next_level.cases) auto
    have "next_level H xs = next_level H ys"
      using "1.prems" True iff lv [of xs] lv [of ys] rt [of xs] rt [of ys] inj(2) ne by (intro "1.IH") auto
    then have "map (\<lambda>(a, b). H a b) (level_pairs xs) = map (\<lambda>(a, b). H a b) (level_pairs ys)" by (simp add: next_level_pairs)
    then have "level_pairs xs = level_pairs ys" by (rule map_inj_on [OF _ inj(1)])
    then show ?thesis using "1.prems"(5,6) True iff lv [of xs] lv [of ys] by (intro level_pairs_inj) auto
  qed
qed

text \<open>
  C15. The claim of the comment in \<open>BuildMerkleTree\<close>: if no two pairs that are hashed collide, two
  different lists of transactions whose trees have the same number of levels and the same root are
  noticed, because one of them sets the mutated flag.
\<close>

theorem BuildMerkleTree_detects:
  assumes "xs \<noteq> []" "ys \<noteq> []" "xs \<noteq> ys" "length (merkle_levels H xs) = length (merkle_levels H ys)"
    and "BuildMerkleTree H xs = (t1, m1, root)" "BuildMerkleTree H ys = (t2, m2, root)"
    and "inj_on (\<lambda>(a, b). H a b) (set (hashed_pairs H xs) \<union> set (hashed_pairs H ys))"
  shows "m1 \<or> m2"
  using merkle_root_inj [OF assms(1,2,4) _ _ _ assms(7)] assms(3,5,6) by (auto simp: BuildMerkleTree_levels)

text \<open>The two lists of transactions in the comment.\<close>

theorem BuildMerkleTree_detects_witness:
  "let H = \<lambda>a b. a @ b; xs = [[1], [2], [3], [4], [5], [6]]; ys = xs @ [[5], [6]] in
   snd (snd (BuildMerkleTree H xs)) = snd (snd (BuildMerkleTree H ys)) \<and> \<not> fst (snd (BuildMerkleTree H xs)) \<and> fst (snd (BuildMerkleTree H ys))"
proof -
  let ?H = "\<lambda>a b :: base_uint. a @ b" and ?xs = "[[1], [2], [3], [4], [5], [6]] :: base_uint list"
  let ?ys = "?xs @ [[5], [6]]"
  obtain t1 m1 t2 m2 where b: "BuildMerkleTree ?H ?xs = (t1, m1, [1, 2, 3, 4, 5, 6, 5, 6])" "BuildMerkleTree ?H ?ys = (t2, m2, [1, 2, 3, 4, 5, 6, 5, 6])" "\<not> m1"
  proof -
    have "snd (BuildMerkleTree ?H ?xs) = (False, [1, 2, 3, 4, 5, 6, 5, 6])" "snd (snd (BuildMerkleTree ?H ?ys)) = [1, 2, 3, 4, 5, 6, 5, 6]" by code_simp+
    then show ?thesis using that by (cases "BuildMerkleTree ?H ?xs"; cases "BuildMerkleTree ?H ?ys") auto
  qed
  have "set (hashed_pairs ?H ?xs) \<union> set (hashed_pairs ?H ?ys) = {([1], [2]), ([3], [4]), ([5], [6]), ([1, 2], [3, 4]), ([5, 6], [5, 6]), ([1, 2, 3, 4], [5, 6, 5, 6])}"
    by code_simp
  then have "inj_on (\<lambda>(a, b). ?H a b) (set (hashed_pairs ?H ?xs) \<union> set (hashed_pairs ?H ?ys))" by simp
  moreover have "length (merkle_levels ?H ?xs) = length (merkle_levels ?H ?ys)" by code_simp
  ultimately have "m1 \<or> m2" using b by (intro BuildMerkleTree_detects) simp_all
  then show ?thesis using b by simp
qed

end
