(* ===== verification/PartialMerkle.thy ===== *)
theory PartialMerkle
  imports Merkle
begin

text \<open>
  Partial Merkle trees (\<^verbatim>\<open>chain/merkleblock.h\<close>, \<^verbatim>\<open>merkleblock.cpp\<close>): the constructor writes a bit per
  visited node and the hashes that are needed, \<open>ExtractMatches\<close> reads them back and checks them.
  The number of transactions is a 32-bit word as in the code. Positions in the tree are natural
  numbers, because they stay below the width of the tree. \<open>MAX_BLOCK_SIZE\<close> and the hash of two
  concatenated hashes are arguments.
\<close>

unbundle bit_operations_syntax

record CPartialMerkleTree =
  nTransactions :: u32
  vBits :: "bool list"
  vHash :: "base_uint list"
  fBad :: bool

definition CalcTreeWidth :: "u32 \<Rightarrow> nat \<Rightarrow> nat" where
  "CalcTreeWidth n height = unat (drop_bit height (n + push_bit height 1 - 1))"

lemma CalcTreeWidth_high: "32 \<le> h \<Longrightarrow> CalcTreeWidth n h = 0"
proof -
  assume "32 \<le> h"
  then have "(4294967296 :: nat) \<le> 2 ^ h" using power_increasing [of 32 h "2 :: nat"] by simp
  then have "unat w < 2 ^ h" for w :: u32 using unat_lt_32 [of w] by linarith
  then show ?thesis unfolding CalcTreeWidth_def unat_drop_bit drop_bit_eq_div [where 'a = nat] by (simp only: div_less)
qed

function tree_height :: "u32 \<Rightarrow> nat \<Rightarrow> nat" where
  "tree_height n h = (if CalcTreeWidth n h > 1 then tree_height n (Suc h) else h)"
  by pat_completeness auto
termination
proof (relation "measure (\<lambda>(n, h). 32 - h)", goal_cases)
  case (2 n h)
  then have "h < 32" using CalcTreeWidth_high [of h n] by (cases "32 \<le> h") simp_all
  then show ?case by simp
qed simp

declare tree_height.simps [simp del]

fun CalcHash :: "pair_hash \<Rightarrow> u32 \<Rightarrow> nat \<Rightarrow> nat \<Rightarrow> base_uint list \<Rightarrow> base_uint" where
  "CalcHash H n 0 pos vTxid = vTxid ! pos"
| "CalcHash H n (Suc height) pos vTxid =
     (let left = CalcHash H n height (pos * 2) vTxid;
          right = (if pos * 2 + 1 < CalcTreeWidth n height then CalcHash H n height (pos * 2 + 1) vTxid else left)
      in H left right)"

definition parent_of_match :: "u32 \<Rightarrow> nat \<Rightarrow> nat \<Rightarrow> bool list \<Rightarrow> bool" where
  "parent_of_match n height pos vMatch = list_ex (\<lambda>p. vMatch ! p) [pos * 2 ^ height..<min ((pos + 1) * 2 ^ height) (unat n)]"

fun TraverseAndBuild ::
    "pair_hash \<Rightarrow> nat \<Rightarrow> nat \<Rightarrow> base_uint list \<Rightarrow> bool list \<Rightarrow> CPartialMerkleTree \<Rightarrow> CPartialMerkleTree" where
  "TraverseAndBuild H 0 pos vTxid vMatch t =
     t\<lparr>vBits := vBits t @ [parent_of_match (nTransactions t) 0 pos vMatch], vHash := vHash t @ [CalcHash H (nTransactions t) 0 pos vTxid]\<rparr>"
| "TraverseAndBuild H (Suc height) pos vTxid vMatch t =
     (let fParentOfMatch = parent_of_match (nTransactions t) (Suc height) pos vMatch;
          t = t\<lparr>vBits := vBits t @ [fParentOfMatch]\<rparr>
      in if \<not> fParentOfMatch then t\<lparr>vHash := vHash t @ [CalcHash H (nTransactions t) (Suc height) pos vTxid]\<rparr>
         else
           (let t = TraverseAndBuild H height (pos * 2) vTxid vMatch t
            in if pos * 2 + 1 < CalcTreeWidth (nTransactions t) height
               then TraverseAndBuild H height (pos * 2 + 1) vTxid vMatch t else t))"

text \<open>The values that \<open>TraverseAndExtract\<close> updates through its reference arguments and \<open>fBad\<close>.\<close>

record extract_state =
  nBitsUsed :: nat
  nHashUsed :: nat
  vMatched :: "base_uint list"
  x_fBad :: bool

definition take_hash :: "CPartialMerkleTree \<Rightarrow> bool \<Rightarrow> extract_state \<Rightarrow> base_uint \<times> extract_state" where
  "take_hash t f s =
     (if nHashUsed s \<ge> length (vHash t) then (bn_zero 8, s\<lparr>x_fBad := True\<rparr>)
      else
        (let h = vHash t ! nHashUsed s; s = s\<lparr>nHashUsed := nHashUsed s + 1\<rparr>
         in (h, if f then s\<lparr>vMatched := vMatched s @ [h]\<rparr> else s)))"

fun TraverseAndExtract :: "pair_hash \<Rightarrow> CPartialMerkleTree \<Rightarrow> nat \<Rightarrow> nat \<Rightarrow> extract_state \<Rightarrow> base_uint \<times> extract_state" where
  "TraverseAndExtract H t 0 pos s =
     (if nBitsUsed s \<ge> length (vBits t) then (bn_zero 8, s\<lparr>x_fBad := True\<rparr>)
      else take_hash t (vBits t ! nBitsUsed s) (s\<lparr>nBitsUsed := nBitsUsed s + 1\<rparr>))"
| "TraverseAndExtract H t (Suc height) pos s =
     (if nBitsUsed s \<ge> length (vBits t) then (bn_zero 8, s\<lparr>x_fBad := True\<rparr>)
      else
        (let fParentOfMatch = vBits t ! nBitsUsed s; s = s\<lparr>nBitsUsed := nBitsUsed s + 1\<rparr>
         in if \<not> fParentOfMatch then take_hash t False s
            else
              (case TraverseAndExtract H t height (pos * 2) s of
                 (left, s) \<Rightarrow>
                   if pos * 2 + 1 < CalcTreeWidth (nTransactions t) height then
                     (case TraverseAndExtract H t height (pos * 2 + 1) s of
                        (right, s) \<Rightarrow> (H left right, if right = left then s\<lparr>x_fBad := True\<rparr> else s))
                   else (H left left, s))))"

definition CPartialMerkleTree_of :: "pair_hash \<Rightarrow> base_uint list \<Rightarrow> bool list \<Rightarrow> CPartialMerkleTree" where
  "CPartialMerkleTree_of H vTxid vMatch =
     (let n = of_nat (length vTxid)
      in TraverseAndBuild H (tree_height n 0) 0 vTxid vMatch \<lparr>nTransactions = n, vBits = [], vHash = [], fBad = False\<rparr>)"

definition ExtractMatches :: "pair_hash \<Rightarrow> nat \<Rightarrow> CPartialMerkleTree \<Rightarrow> base_uint \<times> base_uint list" where
  "ExtractMatches H MAX_BLOCK_SIZE t =
     (let n = unat (nTransactions t) in
      if n = 0 \<or> n > MAX_BLOCK_SIZE div 60 \<or> length (vHash t) > n \<or> length (vBits t) < length (vHash t) then (bn_zero 8, [])
      else
        (case TraverseAndExtract H t (tree_height (nTransactions t) 0) 0 \<lparr>nBitsUsed = 0, nHashUsed = 0, vMatched = [], x_fBad = fBad t\<rparr> of
           (hashMerkleRoot, s) \<Rightarrow>
             (if x_fBad s \<or> (nBitsUsed s + 7) div 8 \<noteq> (length (vBits t) + 7) div 8 \<or> nHashUsed s \<noteq> length (vHash t)
              then bn_zero 8 else hashMerkleRoot, vMatched s)))"

section \<open>Serialization\<close>

fun pack_bits :: "nat \<Rightarrow> bool list \<Rightarrow> bytes \<Rightarrow> bytes" where
  "pack_bits p [] vBytes = vBytes"
| "pack_bits p (b # bs) vBytes =
     pack_bits (Suc p) bs (vBytes[p div 8 := vBytes ! (p div 8) OR push_bit (p mod 8) (if b then 1 else 0)])"

definition unpack_bits :: "bytes \<Rightarrow> bool list" where
  "unpack_bits vBytes = map (\<lambda>p. vBytes ! (p div 8) AND push_bit (p mod 8) 1 \<noteq> 0) [0..<length vBytes * 8]"

definition ser_partial :: "CPartialMerkleTree \<Rightarrow> bytes" where
  "ser_partial t = ser_u32 (nTransactions t) @ ser_vector ser_uint256 (vHash t)
     @ ser_bytes (pack_bits 0 (vBits t) (replicate ((length (vBits t) + 7) div 8) 0))"

definition unser_partial :: "nat \<Rightarrow> bytes \<Rightarrow> (CPartialMerkleTree \<times> bytes) option" where
  "unser_partial MAX_SIZE bs =
     Option.bind (unser_u32 bs) (\<lambda>(n, bs).
     Option.bind (unser_vector MAX_SIZE (decode_many unser_u32 8) bs) (\<lambda>(hs, bs).
     Option.bind (unser_bytes MAX_SIZE bs) (\<lambda>(vBytes, bs).
       Some (\<lparr>nTransactions = n, vBits = unpack_bits vBytes, vHash = hs, fBad = False\<rparr>, bs))))"

section \<open>The width and the height of a tree\<close>

lemma CalcTreeWidth_val:
  assumes "unat n < 2 ^ 31" "h \<le> 31"
  shows "CalcTreeWidth n h = (unat n + 2 ^ h - 1) div 2 ^ h"
proof -
  have p: "unat (push_bit h 1 :: u32) = 2 ^ h"
  proof -
    have "(2 :: nat) ^ h < 2 ^ 32" using assms(2) by (intro power_strict_increasing) simp_all
    then have "unat (of_nat (2 ^ h) :: u32) = 2 ^ h" by (subst unat_of_nat) (simp add: take_bit_nat_eq_self)
    then show ?thesis by simp
  qed
  have le: "(2 :: nat) ^ h \<le> 2 ^ 31" using assms(2) by (rule power_increasing) simp
  have s: "unat (n + push_bit h 1) = unat n + 2 ^ h" using assms(1) le p by (subst unat_add_lem [THEN iffD1]) (simp_all add: p)
  moreover have "n + push_bit h 1 \<noteq> 0" using s by auto
  ultimately have "unat (n + push_bit h 1 - 1) = unat n + 2 ^ h - 1" by (simp add: unat_minus_one)
  then show ?thesis unfolding CalcTreeWidth_def unat_drop_bit drop_bit_eq_div [where 'a = nat] by simp
qed

abbreviation levels_up :: "pair_hash \<Rightarrow> base_uint list \<Rightarrow> nat \<Rightarrow> base_uint list" where
  "levels_up H xs h \<equiv> (next_level H ^^ h) xs"

lemma ceil_half: "((n + 2 ^ h - 1) div 2 ^ h + 1) div 2 = (n + 2 ^ Suc h - 1) div (2 ^ Suc h :: nat)"
proof -
  have "(n + 2 ^ h - 1) div 2 ^ h + 1 = (n + 2 ^ h - 1 + 2 ^ h) div 2 ^ h" by (subst div_add_self2) simp_all
  also have "n + 2 ^ h - 1 + 2 ^ h = n + 2 ^ Suc h - 1" by simp
  finally show ?thesis by (simp only: div_mult2_eq [symmetric] power_Suc mult.commute)
qed

lemma length_levels_up: "length (levels_up H xs h) = (length xs + 2 ^ h - 1) div 2 ^ h"
  by (induction h) (simp_all only: funpow.simps o_apply id_apply length_next_level ceil_half, simp)

lemma width_levels:
  assumes "length xs < 2 ^ 31" "h \<le> 31"
  shows "CalcTreeWidth (of_nat (length xs)) h = length (levels_up H xs h)"
proof -
  have "unat (of_nat (length xs) :: u32) = length xs" using assms(1) by (simp add: unat_of_nat)
  then show ?thesis using CalcTreeWidth_val [of "of_nat (length xs)" h] assms by (simp add: length_levels_up)
qed

lemma tree_height_ok:
  assumes n: "length xs < 2 ^ 31" "xs \<noteq> []" and h: "h \<le> 31"
  shows "tree_height (of_nat (length xs)) h \<le> 31 \<and> length (levels_up H xs (tree_height (of_nat (length xs)) h)) = 1
    \<and> (\<forall>k. h \<le> k \<longrightarrow> k < tree_height (of_nat (length xs)) h \<longrightarrow> length (levels_up H xs k) > 1)"
  using h
proof (induction "31 - h" arbitrary: h rule: less_induct)
  case less
  note w = width_levels [OF n(1) less.prems, of H]
  show ?case
  proof (cases "length (levels_up H xs h) > 1")
    case True
    have "h \<noteq> 31"
    proof
      assume "h = 31"
      moreover have "(length xs + 2 ^ 31 - 1) div 2 ^ 31 \<le> (2 * 2 ^ 31 - 1) div (2 ^ 31 :: nat)" using n(1) by (intro div_le_mono) simp
      ultimately show False using True by (simp add: length_levels_up)
    qed
    then have IH: "tree_height (of_nat (length xs)) (Suc h) \<le> 31 \<and> length (levels_up H xs (tree_height (of_nat (length xs)) (Suc h))) = 1
        \<and> (\<forall>k. Suc h \<le> k \<longrightarrow> k < tree_height (of_nat (length xs)) (Suc h) \<longrightarrow> length (levels_up H xs k) > 1)"
      using less.prems by (intro less.hyps) simp_all
    have "tree_height (of_nat (length xs)) h = tree_height (of_nat (length xs)) (Suc h)" using True w by (subst tree_height.simps) simp
    then show ?thesis using IH True by (metis Suc_leI le_neq_implies_less)
  next
    case False
    have "1 * 2 ^ h \<le> length xs + 2 ^ h - 1" using n(2) by (cases xs) simp_all
    then have "0 < length (levels_up H xs h)" unfolding length_levels_up by (simp add: div_greater_zero_iff)
    then have "length (levels_up H xs h) = 1" using False by linarith
    then show ?thesis using w less.prems by (subst (1 2 3) tree_height.simps) simp
  qed
qed

section \<open>Round trip\<close>

text \<open>
  The hash of a node is the entry of its level, and the root is the one of the whole tree.
\<close>

lemma nth_level_up:
  assumes "pos < length (levels_up H xs (Suc h))"
  shows "pos * 2 < length (levels_up H xs h)"
    "levels_up H xs (Suc h) ! pos = H (levels_up H xs h ! (pos * 2))
       (if pos * 2 + 1 < length (levels_up H xs h) then levels_up H xs h ! (pos * 2 + 1) else levels_up H xs h ! (pos * 2))"
proof -
  let ?l = "levels_up H xs h"
  have p: "pos < (length ?l + 1) div 2" using assms by simp
  then show "pos * 2 < length ?l" by simp
  show "levels_up H xs (Suc h) ! pos = H (?l ! (pos * 2)) (if pos * 2 + 1 < length ?l then ?l ! (pos * 2 + 1) else ?l ! (pos * 2))"
  proof (cases "pos * 2 + 1 < length ?l")
    case False
    then have "length ?l - 1 = 2 * pos" using p by auto
    then show ?thesis using False nth_next_level [OF p, of H] by (simp add: mult.commute)
  qed (use nth_next_level [OF p, of H] in \<open>simp add: mult.commute\<close>)
qed

lemma CalcHash_level:
  assumes "length xs < 2 ^ 31" "h \<le> 31" "pos < length (levels_up H xs h)"
  shows "CalcHash H (of_nat (length xs)) h pos xs = levels_up H xs h ! pos"
  using assms(2,3)
proof (induction h arbitrary: pos)
  case (Suc h)
  note n = nth_level_up [OF Suc.prems(2)]
  have "CalcTreeWidth (of_nat (length xs)) h = length (levels_up H xs h)" using Suc.prems(1) by (intro width_levels [OF assms(1)]) simp
  then show ?case using Suc.IH [of "pos * 2"] Suc.IH [of "pos * 2 + 1"] Suc.prems(1) n by (simp add: Let_def del: funpow.simps)
qed simp

lemma merkle_root_up: "merkle_root H (levels_up H xs h) = merkle_root H xs" if "\<forall>k < h. length (levels_up H xs k) > 1"
  using that
proof (induction h)
  case (Suc h)
  then show ?case using merkle_root.simps [of H "levels_up H xs h"] by simp
qed simp

lemma merkle_root_top:
  assumes "length xs < 2 ^ 31" "xs \<noteq> []"
  shows "merkle_root H xs = levels_up H xs (tree_height (of_nat (length xs)) 0) ! 0"
proof -
  note h = tree_height_ok [OF assms, of 0 H]
  let ?l = "levels_up H xs (tree_height (of_nat (length xs)) 0)"
  have "merkle_root H xs = merkle_root H ?l" using h by (intro merkle_root_up [symmetric]) simp
  also have "\<dots> = ?l ! 0" using h merkle_root.simps [of H ?l] by (cases ?l) simp_all
  finally show ?thesis .
qed

text \<open>The matched leaves below a node.\<close>

abbreviation leaves_below :: "nat \<Rightarrow> nat \<Rightarrow> nat \<Rightarrow> nat list" where
  "leaves_below n h pos \<equiv> [pos * 2 ^ h..<min ((pos + 1) * 2 ^ h) n]"

definition matched_below :: "base_uint list \<Rightarrow> bool list \<Rightarrow> nat \<Rightarrow> nat \<Rightarrow> base_uint list" where
  "matched_below xs ms h pos = map ((!) xs) (filter ((!) ms) (leaves_below (length xs) h pos))"

lemma upt_split: "i \<le> j \<Longrightarrow> j \<le> k \<Longrightarrow> [i..<k] = [i..<j] @ [j..<k]"
  using upt_add_eq_append [of i j "k - j"] by simp

lemma leaves_below_Suc:
  "leaves_below n (Suc h) pos = leaves_below n h (pos * 2) @ (if (pos * 2 + 1) * 2 ^ h < n then leaves_below n h (pos * 2 + 1) else [])"
proof -
  let ?a = "pos * 2 ^ Suc h" and ?m = "(pos * 2 + 1) * 2 ^ h" and ?b = "(pos + 1) * 2 ^ Suc h"
  have "?a \<le> ?m" "?m \<le> ?b" by (simp_all add: algebra_simps)
  then have "[?a..<min ?b n] = [?a..<min ?m n] @ [min ?m n..<min ?b n]" 
    by (cases "?a \<le> n") (auto simp: min_def intro!: upt_split)
  then show ?thesis by (auto simp: algebra_simps min_def)
qed

lemma matched_below_Suc:
  "matched_below xs ms (Suc h) pos =
   matched_below xs ms h (pos * 2) @ (if (pos * 2 + 1) * 2 ^ h < length xs then matched_below xs ms h (pos * 2 + 1) else [])"
  unfolding matched_below_def leaves_below_Suc by simp

lemma level_right:
  assumes "length xs < 2 ^ 31"
  shows "pos < length (levels_up H xs h) \<longleftrightarrow> pos * 2 ^ h < length xs"
proof -
  have "pos < (length xs + 2 ^ h - 1) div 2 ^ h \<longleftrightarrow> (pos + 1) * 2 ^ h \<le> length xs + 2 ^ h - 1"
    using less_eq_div_iff_mult_less_eq [of "2 ^ h" "pos + 1" "length xs + 2 ^ h - 1"] by (simp add: Suc_le_eq)
  also have "\<dots> \<longleftrightarrow> pos * 2 ^ h < length xs" unfolding add_mult_distrib mult_1 using zero_less_power [of "2 :: nat" h] by linarith
  finally show ?thesis by (simp only: length_levels_up)
qed

lemma build_frame: "nTransactions (TraverseAndBuild H h pos xs ms t) = nTransactions t \<and> fBad (TraverseAndBuild H h pos xs ms t) = fBad t"
  by (induction H h pos xs ms t rule: TraverseAndBuild.induct) (simp_all add: Let_def)

text \<open>What a node adds: bits and hashes, at most one hash for each leaf below it.\<close>

lemma build_adds:
  assumes n: "length xs < 2 ^ 31" and t: "nTransactions t = of_nat (length xs)" and p: "h \<le> 31" "pos * 2 ^ h < length xs"
  shows "\<exists>bits hashes. TraverseAndBuild H h pos xs ms t = t\<lparr>vBits := vBits t @ bits, vHash := vHash t @ hashes\<rparr>
    \<and> length hashes \<le> length bits \<and> length hashes \<le> length (leaves_below (length xs) h pos)
    \<and> (\<forall>x \<in> set hashes. \<exists>k. x \<in> set (levels_up H xs k))
    \<and> (\<forall>t' s bpre bpost hpre hpost. (\<forall>k. distinct (levels_up H xs k)) \<longrightarrow>
         nTransactions t' = of_nat (length xs) \<longrightarrow> vBits t' = bpre @ bits @ bpost \<longrightarrow> vHash t' = hpre @ hashes @ hpost \<longrightarrow>
         nBitsUsed s = length bpre \<longrightarrow> nHashUsed s = length hpre \<longrightarrow>
         TraverseAndExtract H t' h pos s = (levels_up H xs h ! pos,
           s\<lparr>nBitsUsed := length bpre + length bits, nHashUsed := length hpre + length hashes, vMatched := vMatched s @ matched_below xs ms h pos\<rparr>))"
  using t p
proof (induction h arbitrary: pos t)
  case 0
  have u: "unat (of_nat (length xs) :: u32) = length xs" using n by (simp add: unat_of_nat)
  have lv: "leaves_below (length xs) 0 pos = [pos]" using 0(3) by (simp add: min_def)
  have m: "parent_of_match (of_nat (length xs)) 0 pos ms = ms ! pos" using lv u by (simp add: parent_of_match_def)
  let ?bits = "[ms ! pos]" and ?hashes = "[xs ! pos]"
  have "TraverseAndBuild H 0 pos xs ms t = t\<lparr>vBits := vBits t @ ?bits, vHash := vHash t @ ?hashes\<rparr>" using 0(1) m by simp
  moreover have "TraverseAndExtract H t' 0 pos s = (xs ! pos,
      s\<lparr>nBitsUsed := length bpre + 1, nHashUsed := length hpre + 1, vMatched := vMatched s @ matched_below xs ms 0 pos\<rparr>)"
    if "vBits t' = bpre @ ?bits @ bpost" "vHash t' = hpre @ ?hashes @ hpost" "nBitsUsed s = length bpre" "nHashUsed s = length hpre"
    for t' s bpre bpost hpre hpost
    using that lv by (simp add: take_hash_def Let_def matched_below_def)
  moreover have "\<exists>k. xs ! pos \<in> set (levels_up H xs k)" using 0(3) by (intro exI [of _ 0]) simp
  ultimately show ?case using lv by (intro exI [of _ ?bits] exI [of _ ?hashes]) simp
next
  case (Suc h)
  let ?n = "of_nat (length xs) :: u32"
  have u: "unat ?n = length xs" using n by (simp add: unat_of_nat)
  note lvS = leaves_below_Suc [where n = "length xs" and h = h and pos = pos] and mS = matched_below_Suc [where xs = xs and ms = ms and h = h and pos = pos]
  have w: "pos * 2 + 1 < CalcTreeWidth ?n h \<longleftrightarrow> (pos * 2 + 1) * 2 ^ h < length xs"
    using width_levels [OF n, of h H] level_right [OF n, where pos = "pos * 2 + 1" and H = H and h = h] Suc.prems(2) by simp
  have lp: "pos < length (levels_up H xs (Suc h))" unfolding level_right [OF n] by (rule Suc.prems(3))
  have left: "h \<le> 31" "pos * 2 * 2 ^ h < length xs" using Suc.prems(2,3) by (simp_all add: mult.assoc)
  have ne: "leaves_below (length xs) (Suc h) pos \<noteq> []" using Suc.prems(3) by (auto simp: min_def)
  show ?case
  proof (cases "parent_of_match ?n (Suc h) pos ms")
    case False
    let ?hash = "levels_up H xs (Suc h) ! pos"
    have "TraverseAndBuild H (Suc h) pos xs ms t = t\<lparr>vBits := vBits t @ [False], vHash := vHash t @ [?hash]\<rparr>"
      using False Suc.prems(1) CalcHash_level [OF n Suc.prems(2) lp] by (simp add: Let_def del: funpow.simps CalcHash.simps)
    moreover have "matched_below xs ms (Suc h) pos = []" using False u by (simp add: matched_below_def parent_of_match_def list_ex_iff)
    then have "TraverseAndExtract H t' (Suc h) pos s = (?hash,
        s\<lparr>nBitsUsed := length bpre + 1, nHashUsed := length hpre + 1, vMatched := vMatched s @ matched_below xs ms (Suc h) pos\<rparr>)"
      if "vBits t' = bpre @ [False] @ bpost" "vHash t' = hpre @ [?hash] @ hpost" "nBitsUsed s = length bpre" "nHashUsed s = length hpre"
      for t' s bpre bpost hpre hpost
      using that by (simp add: take_hash_def Let_def del: funpow.simps)
    moreover have "1 \<le> length (leaves_below (length xs) (Suc h) pos)" using ne unfolding length_0_conv [symmetric] by linarith
    moreover have "\<exists>k. ?hash \<in> set (levels_up H xs k)" using nth_mem [OF lp] by blast
    ultimately show ?thesis by (intro exI [of _ "[False]"] exI [of _ "[?hash]"]) (simp del: funpow.simps)
  next
    case True
    let ?t1 = "t\<lparr>vBits := vBits t @ [True]\<rparr>"
    obtain b1 h1 where B1: "TraverseAndBuild H h (pos * 2) xs ms ?t1 = ?t1\<lparr>vBits := vBits ?t1 @ b1, vHash := vHash ?t1 @ h1\<rparr>"
      and l1: "length h1 \<le> length b1" "length h1 \<le> length (leaves_below (length xs) h (pos * 2))" "\<forall>x \<in> set h1. \<exists>k. x \<in> set (levels_up H xs k)"
      and X1: "\<And>t' s bpre bpost hpre hpost. (\<forall>k. distinct (levels_up H xs k)) \<Longrightarrow>
         nTransactions t' = ?n \<Longrightarrow> vBits t' = bpre @ b1 @ bpost \<Longrightarrow> vHash t' = hpre @ h1 @ hpost \<Longrightarrow>
         nBitsUsed s = length bpre \<Longrightarrow> nHashUsed s = length hpre \<Longrightarrow>
         TraverseAndExtract H t' h (pos * 2) s = (levels_up H xs h ! (pos * 2),
           s\<lparr>nBitsUsed := length bpre + length b1, nHashUsed := length hpre + length h1, vMatched := vMatched s @ matched_below xs ms h (pos * 2)\<rparr>)"
      using Suc.IH [of ?t1 "pos * 2", OF _ left] Suc.prems(1) by auto
    let ?t2 = "t\<lparr>vBits := vBits t @ True # b1, vHash := vHash t @ h1\<rparr>"
    have B1': "TraverseAndBuild H h (pos * 2) xs ms ?t1 = ?t2" unfolding B1 by simp
    show ?thesis
    proof (cases "(pos * 2 + 1) * 2 ^ h < length xs")
      case R: False
      have "TraverseAndBuild H (Suc h) pos xs ms t = t\<lparr>vBits := vBits t @ True # b1, vHash := vHash t @ h1\<rparr>"
        using True Suc.prems(1) B1' w R by (simp add: Let_def)
      moreover have "TraverseAndExtract H t' (Suc h) pos s = (levels_up H xs (Suc h) ! pos,
          s\<lparr>nBitsUsed := length bpre + length (True # b1), nHashUsed := length hpre + length h1, vMatched := vMatched s @ matched_below xs ms (Suc h) pos\<rparr>)"
        if d: "\<forall>k. distinct (levels_up H xs k)" and t': "nTransactions t' = ?n" "vBits t' = bpre @ (True # b1) @ bpost" "vHash t' = hpre @ h1 @ hpost"
          "nBitsUsed s = length bpre" "nHashUsed s = length hpre"
        for t' s bpre bpost hpre hpost
        using X1 [OF d t'(1), of "bpre @ [True]" bpost hpre hpost "s\<lparr>nBitsUsed := nBitsUsed s + 1\<rparr>"] t' w R nth_level_up(2) [OF lp] mS
          level_right [OF n, where pos = "pos * 2 + 1" and H = H and h = h]
        by (simp add: Let_def del: funpow.simps)
      ultimately show ?thesis using l1 lvS R by (intro exI [of _ "True # b1"] exI [of _ h1]) (simp del: funpow.simps)
    next
      case R: True
      obtain b2 h2 where B2: "TraverseAndBuild H h (pos * 2 + 1) xs ms ?t2 = ?t2\<lparr>vBits := vBits ?t2 @ b2, vHash := vHash ?t2 @ h2\<rparr>"
        and l2: "length h2 \<le> length b2" "length h2 \<le> length (leaves_below (length xs) h (pos * 2 + 1))" "\<forall>x \<in> set h2. \<exists>k. x \<in> set (levels_up H xs k)"
        and X2: "\<And>t' s bpre bpost hpre hpost. (\<forall>k. distinct (levels_up H xs k)) \<Longrightarrow>
           nTransactions t' = ?n \<Longrightarrow> vBits t' = bpre @ b2 @ bpost \<Longrightarrow> vHash t' = hpre @ h2 @ hpost \<Longrightarrow>
           nBitsUsed s = length bpre \<Longrightarrow> nHashUsed s = length hpre \<Longrightarrow>
           TraverseAndExtract H t' h (pos * 2 + 1) s = (levels_up H xs h ! (pos * 2 + 1),
             s\<lparr>nBitsUsed := length bpre + length b2, nHashUsed := length hpre + length h2, vMatched := vMatched s @ matched_below xs ms h (pos * 2 + 1)\<rparr>)"
        using Suc.IH [of ?t2 "pos * 2 + 1", OF _ left(1) R] Suc.prems(1) by auto
      have r: "pos * 2 + 1 < length (levels_up H xs h)" using R level_right [OF n] by blast
      have "TraverseAndBuild H (Suc h) pos xs ms t = t\<lparr>vBits := vBits t @ (True # b1 @ b2), vHash := vHash t @ (h1 @ h2)\<rparr>"
        using True Suc.prems(1) B1' B2 w R by (simp add: Let_def)
      moreover have "TraverseAndExtract H t' (Suc h) pos s = (levels_up H xs (Suc h) ! pos,
          s\<lparr>nBitsUsed := length bpre + length (True # b1 @ b2), nHashUsed := length hpre + length (h1 @ h2), vMatched := vMatched s @ matched_below xs ms (Suc h) pos\<rparr>)"
        if d: "\<forall>k. distinct (levels_up H xs k)" and t': "nTransactions t' = ?n" "vBits t' = bpre @ (True # b1 @ b2) @ bpost" "vHash t' = hpre @ (h1 @ h2) @ hpost"
          "nBitsUsed s = length bpre" "nHashUsed s = length hpre"
        for t' s bpre bpost hpre hpost
      proof -
        have ne: "levels_up H xs h ! (pos * 2 + 1) \<noteq> levels_up H xs h ! (pos * 2)" using d r by (simp add: nth_eq_iff_index_eq)
        note x1 = X1 [OF d t'(1), of "bpre @ [True]" "b2 @ bpost" hpre "h2 @ hpost" "s\<lparr>nBitsUsed := nBitsUsed s + 1\<rparr>"]
        note x2 = X2 [OF d t'(1), of "bpre @ True # b1" bpost "hpre @ h1" hpost "s\<lparr>nBitsUsed := length bpre + 1 + length b1,
          nHashUsed := length hpre + length h1, vMatched := vMatched s @ matched_below xs ms h (pos * 2)\<rparr>"]
        show ?thesis using x1 x2 t' w R nth_level_up(2) [OF lp] mS r ne
          by (simp add: Let_def del: funpow.simps)
      qed
      moreover have "length (h1 @ h2) \<le> length (leaves_below (length xs) (Suc h) pos)" unfolding lvS length_append using l1(2) l2(2) R by simp
      moreover have "\<forall>x \<in> set (h1 @ h2). \<exists>k. x \<in> set (levels_up H xs k)" using l1(3) l2(3) unfolding set_append by blast
      moreover have "length (h1 @ h2) \<le> length (True # b1 @ b2)" using l1(1) l2(1) by simp
      ultimately show ?thesis by (intro exI [of _ "True # b1 @ b2"] exI [of _ "h1 @ h2"] conjI allI impI) assumption+
    qed
  qed
qed

text \<open>Without collisions all hashes of a level of a tree over distinct transactions differ.\<close>

lemma level_in_tree: "length (levels_up H xs k) > 1 \<Longrightarrow> levels_up H xs k \<in> set (merkle_levels H xs)"
proof (induction k arbitrary: xs)
  case 0
  then show ?case by (subst merkle_levels.simps) simp
next
  case (Suc k)
  have sw: "levels_up H xs (Suc k) = levels_up H (next_level H xs) k" by (simp add: funpow_swap1)
  have short: "length ys \<le> 1 \<Longrightarrow> length (levels_up H ys j) \<le> 1" for ys j by (induction j) auto
  have "length xs > 1"
  proof (rule ccontr)
    assume "\<not> length xs > 1"
    then have "length (levels_up H xs (Suc k)) \<le> 1" by (intro short) simp
    then show False using Suc.prems by simp
  qed
  then show ?case using Suc.IH [of "next_level H xs"] Suc.prems unfolding sw by (subst merkle_levels.simps) simp
qed

lemma distinct_level_pairs: "distinct xs \<Longrightarrow> distinct (level_pairs xs) \<and> fst ` set (level_pairs xs) \<subseteq> set xs"
  by (induction xs rule: level_pairs.induct) (auto simp: image_subset_iff)

lemma distinct_levels:
  assumes "distinct xs" "inj_on (\<lambda>(a, b). H a b) (set (hashed_pairs H xs))"
  shows "distinct (levels_up H xs k)"
proof (induction k)
  case (Suc k)
  let ?l = "levels_up H xs k"
  show ?case
  proof (cases "length ?l > 1")
    case True
    have "set (level_pairs ?l) \<subseteq> set (hashed_pairs H xs)" using level_in_tree [OF True] True by (auto simp: hashed_pairs_def)
    then have "inj_on (\<lambda>(a, b). H a b) (set (level_pairs ?l))" using assms(2) by (rule inj_on_subset [rotated])
    then show ?thesis using distinct_level_pairs [OF Suc] by (simp add: next_level_pairs [of H ?l] distinct_map)
  next
    case False
    then show ?thesis by (cases "(H, ?l)" rule: next_level.cases) auto
  qed
qed (simp add: assms(1))

subsection \<open>Flag bits\<close>

lemma length_pack_bits [simp]: "length (pack_bits p bs v) = length v"
  by (induction p bs v rule: pack_bits.induct) simp_all

lemma bit_pack_bits:
  assumes "p + length bs \<le> length v * 8" "k < length v" "i < 8"
  shows "bit (pack_bits p bs v ! k) i \<longleftrightarrow> bit (v ! k) i \<or> (p \<le> 8 * k + i \<and> 8 * k + i < p + length bs \<and> bs ! (8 * k + i - p))"
  using assms(1,2)
proof (induction bs arbitrary: p v)
  case (Cons b bs)
  let ?v = "v[p div 8 := v ! (p div 8) OR push_bit (p mod 8) (if b then 1 else 0)]"
  have p: "p div 8 < length v" using Cons.prems(1) by auto
  have v: "bit (?v ! k) i \<longleftrightarrow> bit (v ! k) i \<or> (p = 8 * k + i \<and> b)"
  proof (cases "p div 8 = k")
    case True
    have "bit (push_bit (p mod 8) (if b then 1 else 0) :: byte) i \<longleftrightarrow> p mod 8 = i \<and> b" using assms(3) by (auto simp: bit_simps)
    moreover have "p = 8 * k + i \<longleftrightarrow> p mod 8 = i" using True mult_div_mod_eq [of 8 p] by (intro iffI) linarith+
    ultimately show ?thesis using True p by (simp add: bit_or_iff)
  next
    case False
    then have "p \<noteq> 8 * k + i" using assms(3) by auto
    then show ?thesis using False by simp
  qed
  have "bit (pack_bits (Suc p) bs ?v ! k) i \<longleftrightarrow> bit (?v ! k) i \<or> (Suc p \<le> 8 * k + i \<and> 8 * k + i < Suc p + length bs \<and> bs ! (8 * k + i - Suc p))"
    using Cons.prems by (intro Cons.IH) simp_all
  then show ?case unfolding v by (auto simp: nth_Cons' Suc_diff_Suc le_less)
qed auto

lemma unpack_pack:
  "unpack_bits (pack_bits 0 bs (replicate ((length bs + 7) div 8) 0)) = bs @ replicate ((length bs + 7) div 8 * 8 - length bs) False"
proof (rule nth_equalityI)
  let ?n = "(length bs + 7) div 8" and ?v = "pack_bits 0 bs (replicate ((length bs + 7) div 8) 0) :: bytes"
  have le: "length bs \<le> ?n * 8" by auto
  show "length (unpack_bits ?v) = length (bs @ replicate (?n * 8 - length bs) False)" using le by (simp add: unpack_bits_def)
  fix q assume "q < length (unpack_bits ?v)"
  then have q: "q < ?n * 8" by (simp add: unpack_bits_def)
  then have k: "q div 8 < ?n" by auto
  have "unpack_bits ?v ! q \<longleftrightarrow> bit (?v ! (q div 8)) (q mod 8)" using q by (simp add: unpack_bits_def and_exp_eq_0_iff_not_bit)
  also have "\<dots> \<longleftrightarrow> q < length bs \<and> bs ! q" using bit_pack_bits [of 0 bs "replicate ?n 0" "q div 8" "q mod 8"] le k by simp
  finally show "unpack_bits ?v ! q = (bs @ replicate (?n * 8 - length bs) False) ! q" using q by (auto simp: nth_append)
qed

subsection \<open>Extraction\<close>

lemma zip_nth_matches: "length ms = length xs \<Longrightarrow> map ((!) xs) (filter ((!) ms) [0..<length xs]) = map fst (filter snd (zip xs ms))"
proof -
  assume l: "length ms = length xs"
  have "zip xs ms = map (\<lambda>i. (xs ! i, ms ! i)) [0..<length xs]" using l by (intro nth_equalityI) simp_all
  then show ?thesis by (simp add: filter_map o_def)
qed

lemma tree_of_extract:
  assumes xs: "xs \<noteq> []" "length xs < 2 ^ 31" "length ms = length xs" "distinct xs" "inj_on (\<lambda>(a, b). H a b) (set (hashed_pairs H xs))"
    and max: "length xs \<le> MAX_BLOCK_SIZE div 60"
  obtains bits hashes where "CPartialMerkleTree_of H xs ms = \<lparr>nTransactions = of_nat (length xs), vBits = bits, vHash = hashes, fBad = False\<rparr>"
    "ExtractMatches H MAX_BLOCK_SIZE \<lparr>nTransactions = of_nat (length xs), vBits = bits @ replicate ((length bits + 7) div 8 * 8 - length bits) False, vHash = hashes, fBad = False\<rparr>
      = (merkle_root H xs, map fst (filter snd (zip xs ms)))"
    "\<forall>x \<in> set hashes. \<exists>k. x \<in> set (levels_up H xs k)"
proof -
  let ?n = "of_nat (length xs) :: u32" and ?h = "tree_height (of_nat (length xs)) 0"
  have u: "unat ?n = length xs" using xs(2) by (simp add: unat_of_nat)
  note th = tree_height_ok [OF xs(2,1), of 0 H]
  have le: "length xs \<le> 2 ^ ?h"
  proof -
    have "(length xs + 2 ^ ?h - 1) div 2 ^ ?h = 1" using th by (simp add: length_levels_up)
    then have "length xs + 2 ^ ?h - 1 < 2 * 2 ^ ?h" using div_less_iff_less_mult [of "2 ^ ?h" "length xs + 2 ^ ?h - 1" 2] by simp
    then show ?thesis by linarith
  qed
  let ?t0 = "\<lparr>nTransactions = ?n, vBits = [], vHash = [], fBad = False\<rparr>"
  have "nTransactions ?t0 = ?n" "?h \<le> 31" "0 * 2 ^ ?h < length xs" using th xs(1) by simp_all
  note BA = build_adds [OF xs(2) this, of H ms]
  have dl: "\<forall>k. distinct (levels_up H xs k)" using distinct_levels [OF xs(4,5)] by blast
  obtain bits hashes where b: "TraverseAndBuild H ?h 0 xs ms ?t0 = ?t0\<lparr>vBits := vBits ?t0 @ bits, vHash := vHash ?t0 @ hashes\<rparr>"
    and l: "length hashes \<le> length bits" "length hashes \<le> length (leaves_below (length xs) ?h 0)" and lu: "\<forall>x \<in> set hashes. \<exists>k. x \<in> set (levels_up H xs k)"
    and X0: "\<And>t' s bpre bpost hpre hpost. nTransactions t' = ?n \<Longrightarrow> vBits t' = bpre @ bits @ bpost \<Longrightarrow> vHash t' = hpre @ hashes @ hpost \<Longrightarrow>
         nBitsUsed s = length bpre \<Longrightarrow> nHashUsed s = length hpre \<Longrightarrow>
         TraverseAndExtract H t' ?h 0 s = (levels_up H xs ?h ! 0,
           s\<lparr>nBitsUsed := length bpre + length bits, nHashUsed := length hpre + length hashes, vMatched := vMatched s @ matched_below xs ms ?h 0\<rparr>)"
    using BA dl by blast
  have X: "TraverseAndExtract H t' ?h 0 s = (levels_up H xs ?h ! 0,
       s\<lparr>nBitsUsed := length bits, nHashUsed := length hashes, vMatched := vMatched s @ matched_below xs ms ?h 0\<rparr>)"
    if "nTransactions t' = ?n" "vBits t' = bits @ bpost" "vHash t' = hashes" "nBitsUsed s = 0" "nHashUsed s = 0" for t' s bpost
    using X0 [of t' "[]" bpost "[]" "[]" s] that by simp
  have lv: "leaves_below (length xs) ?h 0 = [0..<length xs]" using le by simp
  have m: "matched_below xs ms ?h 0 = map fst (filter snd (zip xs ms))" unfolding matched_below_def lv by (rule zip_nth_matches [OF xs(3)])
  have T: "CPartialMerkleTree_of H xs ms = \<lparr>nTransactions = ?n, vBits = bits, vHash = hashes, fBad = False\<rparr>"
    using b by (simp add: CPartialMerkleTree_of_def Let_def)
  have E: "ExtractMatches H MAX_BLOCK_SIZE \<lparr>nTransactions = ?n, vBits = bits @ bpost, vHash = hashes, fBad = False\<rparr> = (merkle_root H xs, map fst (filter snd (zip xs ms)))"
    if "(length bits + 7) div 8 = (length (bits @ bpost) + 7) div 8" for bpost
    using X [of "\<lparr>nTransactions = ?n, vBits = bits @ bpost, vHash = hashes, fBad = False\<rparr>" bpost] that u xs(1) max l lv
      merkle_root_top [OF xs(2,1), of H] m by (simp add: ExtractMatches_def Let_def)
  have "(length bits + 7) div 8 = (length (bits @ replicate ((length bits + 7) div 8 * 8 - length bits) False) + 7) div 8" by simp
  then show ?thesis using that [OF T _ lu] E [of "replicate ((length bits + 7) div 8 * 8 - length bits) False"] by simp
qed

interpretation uint256_codec: prefix_codec "\<lambda>h. length h = 8" ser_uint256 "decode_many unser_u32 8"
proof
  fix x :: base_uint and rest :: bytes assume x: "length x = 8" "length (ser_uint256 x @ rest) < 4294967296"
  show "decode_many unser_u32 8 (ser_uint256 x @ rest) = Some (x, rest)"
    using u32_codec.decode_many_enc [of x rest] x by (simp add: ser_uint256_def list_all_iff)
next
  fix x :: base_uint assume "length x = 8"
  then show "ser_uint256 x \<noteq> []" using ser_nonempty(1) by (cases x) (simp_all add: ser_uint256_def)
qed

lemma unser_ser_partial:
  assumes "list_all (\<lambda>h. length h = 8) (vHash t)" "length (ser_partial t @ rest) \<le> MAX_SIZE" "MAX_SIZE < 2 ^ 32"
  shows "unser_partial MAX_SIZE (ser_partial t @ rest) =
    Some (\<lparr>nTransactions = nTransactions t, vBits = vBits t @ replicate ((length (vBits t) + 7) div 8 * 8 - length (vBits t)) False,
      vHash = vHash t, fBad = False\<rparr>, rest)"
proof -
  let ?b = "pack_bits 0 (vBits t) (replicate ((length (vBits t) + 7) div 8) 0)"
  have l: "length (ser_u32 (nTransactions t)) + length (ser_vector ser_uint256 (vHash t)) + length (ser_bytes ?b) + length rest \<le> MAX_SIZE"
    using assms(2) by (simp add: ser_partial_def)
  have "unser_u32 (ser_u32 (nTransactions t) @ ser_vector ser_uint256 (vHash t) @ ser_bytes ?b @ rest)
      = Some (nTransactions t, ser_vector ser_uint256 (vHash t) @ ser_bytes ?b @ rest)"
    using l assms(3) by (intro u32_codec.dec_enc) simp_all
  moreover have "length (vHash t) \<le> MAX_SIZE"
    using uint256_codec.length_encode_many [OF assms(1)] l by (simp add: ser_vector_def)
  then have "unser_vector MAX_SIZE (decode_many unser_u32 8) (ser_vector ser_uint256 (vHash t) @ ser_bytes ?b @ rest) = Some (vHash t, ser_bytes ?b @ rest)"
    using l assms(1,3) by (intro uint256_codec.unser_ser_vector) simp_all
  moreover have "length ?b \<le> length (ser_bytes ?b)" by (simp add: ser_bytes_def)
  then have "unser_bytes MAX_SIZE (ser_bytes ?b @ rest) = Some (?b, rest)"
    using l assms(3) by (intro unser_ser_bytes) simp_all
  ultimately show ?thesis unfolding unser_partial_def ser_partial_def append.assoc by (simp add: unpack_pack)
qed

lemma levels_up_length8:
  assumes "\<forall>x \<in> set xs. length x = 8" "\<forall>a b. length (H a b) = 8"
  shows "x \<in> set (levels_up H xs k) \<Longrightarrow> length x = 8"
proof (induction k arbitrary: x)
  case (Suc k)
  then show ?case using assms(2) by (auto simp: next_level_pairs)
qed (simp add: assms(1))

text \<open>
  C22. A partial Merkle tree carries a subset of the transactions of a block: what a peer reads from
  the bytes of the tree that is built for a block, followed by any other bytes, extracts the root of
  the block's Merkle tree and exactly the selected transaction ids in their order, provided the ids
  are distinct and no two hashed pairs collide.
\<close>

theorem partial_tree_roundtrip:
  assumes "xs \<noteq> []" "length ms = length xs" "distinct xs" "\<forall>x \<in> set xs. length x = 8" "\<forall>a b. length (H a b) = 8"
    and "inj_on (\<lambda>(a, b). H a b) (set (hashed_pairs H xs))"
    and "length xs \<le> MAX_BLOCK_SIZE div 60" "MAX_BLOCK_SIZE < 2 ^ 32" "MAX_SIZE < 2 ^ 32"
    and "length (ser_partial (CPartialMerkleTree_of H xs ms) @ rest) \<le> MAX_SIZE"
  shows "\<exists>t. unser_partial MAX_SIZE (ser_partial (CPartialMerkleTree_of H xs ms) @ rest) = Some (t, rest)
    \<and> ExtractMatches H MAX_BLOCK_SIZE t = (snd (snd (BuildMerkleTree H xs)), map fst (filter snd (zip xs ms)))"
proof -
  have n: "length xs < 2 ^ 31" using assms(7,8) by simp
  obtain bits hashes where T: "CPartialMerkleTree_of H xs ms = \<lparr>nTransactions = of_nat (length xs), vBits = bits, vHash = hashes, fBad = False\<rparr>"
    and E: "ExtractMatches H MAX_BLOCK_SIZE \<lparr>nTransactions = of_nat (length xs), vBits = bits @ replicate ((length bits + 7) div 8 * 8 - length bits) False, vHash = hashes, fBad = False\<rparr>
      = (merkle_root H xs, map fst (filter snd (zip xs ms)))" and hs: "\<forall>x \<in> set hashes. \<exists>k. x \<in> set (levels_up H xs k)"
    by (rule tree_of_extract [OF assms(1) n assms(2,3,6,7)])
  have "list_all (\<lambda>h. length h = 8) hashes" using hs levels_up_length8 [OF assms(4,5)] by (auto simp: list_all_iff)
  then have "unser_partial MAX_SIZE (ser_partial (CPartialMerkleTree_of H xs ms) @ rest) =
      Some (\<lparr>nTransactions = of_nat (length xs), vBits = bits @ replicate ((length bits + 7) div 8 * 8 - length bits) False, vHash = hashes, fBad = False\<rparr>, rest)"
    using unser_ser_partial [OF _ assms(10,9)] T by simp
  then show ?thesis using E by (simp add: BuildMerkleTree_levels)
qed

definition example_hash :: pair_hash where
  "example_hash a b = [hd a * 3 + hd b + 7, 0, 0, 0, 0, 0, 0, 0]"

definition example_txids :: "base_uint list" where
  "example_txids = [[1, 0, 0, 0, 0, 0, 0, 0], [2, 0, 0, 0, 0, 0, 0, 0], [3, 0, 0, 0, 0, 0, 0, 0]]"

theorem partial_tree_roundtrip_witness:
  "\<exists>t. unser_partial 1000 (ser_partial (CPartialMerkleTree_of example_hash example_txids [False, True, False]) @ [9]) = Some (t, [9])
    \<and> ExtractMatches example_hash 1000 t = ([62, 0, 0, 0, 0, 0, 0, 0], [example_txids ! 1])"
proof -
  let ?ms = "[False, True, False]"
  have "set (hashed_pairs example_hash example_txids) = {([1, 0, 0, 0, 0, 0, 0, 0], [2, 0, 0, 0, 0, 0, 0, 0]),
      ([3, 0, 0, 0, 0, 0, 0, 0], [3, 0, 0, 0, 0, 0, 0, 0]), ([12, 0, 0, 0, 0, 0, 0, 0], [19, 0, 0, 0, 0, 0, 0, 0])}" by code_simp
  then have inj: "inj_on (\<lambda>(a, b). example_hash a b) (set (hashed_pairs example_hash example_txids))" by (simp add: example_hash_def)
  have len: "length (ser_partial (CPartialMerkleTree_of example_hash example_txids ?ms) @ [9]) \<le> 1000" by code_simp
  have root: "snd (snd (BuildMerkleTree example_hash example_txids)) = [62, 0, 0, 0, 0, 0, 0, 0]" by code_simp
  have "\<exists>t. unser_partial 1000 (ser_partial (CPartialMerkleTree_of example_hash example_txids ?ms) @ [9]) = Some (t, [9])
    \<and> ExtractMatches example_hash 1000 t = (snd (snd (BuildMerkleTree example_hash example_txids)), map fst (filter snd (zip example_txids ?ms)))"
    using inj len by (intro partial_tree_roundtrip) (simp_all add: example_txids_def example_hash_def)
  then show ?thesis unfolding root by (simp add: example_txids_def)
qed

section \<open>Trees from an untrusted peer\<close>

text \<open>The pairs that \<open>TraverseAndExtract\<close> hashes.\<close>

fun extracted_pairs :: "pair_hash \<Rightarrow> CPartialMerkleTree \<Rightarrow> nat \<Rightarrow> nat \<Rightarrow> extract_state \<Rightarrow> (base_uint \<times> base_uint) list" where
  "extracted_pairs H t 0 pos s = []"
| "extracted_pairs H t (Suc height) pos s =
     (if nBitsUsed s \<ge> length (vBits t) \<or> \<not> vBits t ! nBitsUsed s then []
      else
        (case TraverseAndExtract H t height (pos * 2) (s\<lparr>nBitsUsed := nBitsUsed s + 1\<rparr>) of
           (left, s1) \<Rightarrow>
             extracted_pairs H t height (pos * 2) (s\<lparr>nBitsUsed := nBitsUsed s + 1\<rparr>)
             @ (if pos * 2 + 1 < CalcTreeWidth (nTransactions t) height then
                  extracted_pairs H t height (pos * 2 + 1) s1 @ [(left, fst (TraverseAndExtract H t height (pos * 2 + 1) s1))]
                else [(left, left)])))"

definition extract_start :: "CPartialMerkleTree \<Rightarrow> extract_state" where
  "extract_start t = \<lparr>nBitsUsed = 0, nHashUsed = 0, vMatched = [], x_fBad = fBad t\<rparr>"

text \<open>
  Among the pairs that are hashed, those of the block's tree and those of the extraction, no other pair has
  the hash of a pair of the block's tree.
\<close>

definition no_second_preimage :: "pair_hash \<Rightarrow> (base_uint \<times> base_uint) list \<Rightarrow> (base_uint \<times> base_uint) list \<Rightarrow> bool" where
  "no_second_preimage H ps qs \<longleftrightarrow> (\<forall>(a, b) \<in> set ps. \<forall>(c, d) \<in> set qs. H c d = H a b \<longrightarrow> c = a \<and> d = b)"

lemma level_pair_hashed:
  assumes "pos < length (levels_up H xs (Suc h))" "length (levels_up H xs h) > 1"
  shows "(levels_up H xs h ! (pos * 2), if pos * 2 + 1 < length (levels_up H xs h) then levels_up H xs h ! (pos * 2 + 1) else levels_up H xs h ! (pos * 2))
    \<in> set (hashed_pairs H xs)"
proof -
  have nth: "i < (length l + 1) div 2 \<Longrightarrow> level_pairs l ! i = (l ! (i * 2), if i * 2 + 1 < length l then l ! (i * 2 + 1) else l ! (i * 2)) \<and> i < length (level_pairs l)" for l i
  proof (induction l arbitrary: i rule: level_pairs.induct)
    case (3 a b l)
    then show ?case by (cases i) auto
  qed auto
  let ?l = "levels_up H xs h"
  have "pos < (length ?l + 1) div 2" using assms(1) by simp
  from nth [OF this] have "(?l ! (pos * 2), if pos * 2 + 1 < length ?l then ?l ! (pos * 2 + 1) else ?l ! (pos * 2)) \<in> set (level_pairs ?l)"
    by (metis nth_mem)
  then show ?thesis using level_in_tree [OF assms(2)] assms(2) by (auto simp: hashed_pairs_def)
qed

lemma extract_bad: "x_fBad s \<Longrightarrow> x_fBad (snd (TraverseAndExtract H t h pos s))"
  by (induction H t h pos s rule: TraverseAndExtract.induct) (auto simp: take_hash_def Let_def split: prod.splits if_splits)

lemma extract_sound:
  assumes n: "length xs < 2 ^ 31" "nTransactions t = of_nat (length xs)"
    and "no_second_preimage H (hashed_pairs H xs) (extracted_pairs H t h pos s)" "h \<le> 31" "\<forall>k < h. length (levels_up H xs k) > 1" "pos < length (levels_up H xs h)"
    and "TraverseAndExtract H t h pos s = (levels_up H xs h ! pos, s')" "\<not> x_fBad s'"
  shows "\<exists>new. vMatched s' = vMatched s @ new \<and> set new \<subseteq> set xs"
  using assms(3-)
proof (induction h arbitrary: pos s s')
  case 0
  then show ?case by (auto simp: take_hash_def Let_def split: if_splits)
next
  case (Suc h)
  let ?l = "levels_up H xs h" and ?s = "s\<lparr>nBitsUsed := nBitsUsed s + 1\<rparr>"
  have w: "CalcTreeWidth (nTransactions t) h = length ?l" unfolding n(2) using Suc.prems(2) by (intro width_levels [OF n(1)]) simp
  have bits: "\<not> nBitsUsed s \<ge> length (vBits t)" using Suc.prems(5,6) by (auto simp del: funpow.simps)
  show ?case
  proof (cases "vBits t ! nBitsUsed s")
    case False
    then have "take_hash t False ?s = (levels_up H xs (Suc h) ! pos, s')" using Suc.prems(5) bits by (simp add: Let_def del: funpow.simps)
    then show ?thesis by (auto simp: take_hash_def Let_def simp del: funpow.simps split: if_splits)
  next
    case True
    obtain left s1 where L: "TraverseAndExtract H t h (pos * 2) ?s = (left, s1)" by fastforce
    note hp = level_pair_hashed [OF Suc.prems(4)] and up = nth_level_up [OF Suc.prems(4)]
    have long: "length ?l > 1" "\<forall>k < h. length (levels_up H xs k) > 1" using Suc.prems(3) by simp_all
    have E: "extracted_pairs H t (Suc h) pos s = extracted_pairs H t h (pos * 2) ?s
        @ (if pos * 2 + 1 < length ?l then extracted_pairs H t h (pos * 2 + 1) s1 @ [(left, fst (TraverseAndExtract H t h (pos * 2 + 1) s1))]
           else [(left, left)])"
      using bits True L by (simp add: w)
    note nc = Suc.prems(1) [unfolded E no_second_preimage_def]
    have pre: "c = a \<and> d = b" if "(a, b) \<in> set (hashed_pairs H xs)" "H c d = H a b"
        "(c, d) \<in> set (if pos * 2 + 1 < length ?l then [(left, fst (TraverseAndExtract H t h (pos * 2 + 1) s1))] else [(left, left)])" for a b c d
      using bspec [OF bspec [OF nc that(1), unfolded prod.case], of "(c, d)"] that(2,3) by (auto split: if_splits)
    have ncL: "no_second_preimage H (hashed_pairs H xs) (extracted_pairs H t h (pos * 2) ?s)"
      using nc unfolding no_second_preimage_def by fastforce
    show ?thesis
    proof (cases "pos * 2 + 1 < length ?l")
      case R: False
      then have "H left left = H (?l ! (pos * 2)) (?l ! (pos * 2))" "s' = s1"
        using Suc.prems(5) bits True L w up(2) by (simp_all add: Let_def del: funpow.simps)
      then have "left = ?l ! (pos * 2)" using pre [OF _ \<open>H left left = _\<close>] hp [OF long(1)] R by simp
      then show ?thesis using Suc.IH [OF ncL, of s1] L Suc.prems(2,6) long(2) up(1) \<open>s' = s1\<close> by auto
    next
      case R: True
      obtain right s2 where R2: "TraverseAndExtract H t h (pos * 2 + 1) s1 = (right, s2)" by fastforce
      have e: "H left right = H (?l ! (pos * 2)) (?l ! (pos * 2 + 1))" "s' = (if right = left then s2\<lparr>x_fBad := True\<rparr> else s2)"
        using Suc.prems(5) bits True L R2 w up(2) R by (simp_all add: Let_def del: funpow.simps)
      then have lr: "left = ?l ! (pos * 2)" "right = ?l ! (pos * 2 + 1)" using pre [OF _ e(1)] hp [OF long(1)] R R2 by simp_all
      have ncR: "no_second_preimage H (hashed_pairs H xs) (extracted_pairs H t h (pos * 2 + 1) s1)"
        using nc R unfolding no_second_preimage_def by fastforce
      have s2: "s' = s2" "\<not> x_fBad s2" using e(2) Suc.prems(6) by (auto split: if_splits)
      then have "\<not> x_fBad s1" using extract_bad [of s1 H t h "pos * 2 + 1"] R2 by auto
      then obtain new1 where "vMatched s1 = vMatched ?s @ new1" "set new1 \<subseteq> set xs"
        using Suc.IH [OF ncL, of s1] L lr(1) Suc.prems(2) long(2) up(1) by auto
      moreover obtain new2 where "vMatched s2 = vMatched s1 @ new2" "set new2 \<subseteq> set xs"
        using Suc.IH [OF ncR, of s2] R2 lr(2) s2(2) Suc.prems(2) long(2) R by auto
      ultimately show ?thesis using s2(1) by auto
    qed
  qed
qed

text \<open>
  C21. What \<open>ExtractMatches\<close> accepts is authentic: whatever bits and hashes a peer sends for a block with the
  right number of transactions, if the extraction succeeds with the Merkle root of the block, every
  extracted id is the id of a transaction of the block, provided that among the pairs which are hashed
  for the block's tree and in the extraction, no other pair has the hash of a pair of the block's tree.
\<close>

theorem ExtractMatches_authentic:
  assumes "xs \<noteq> []" "length xs < 2 ^ 31" "nTransactions t = of_nat (length xs)"
    and "no_second_preimage H (hashed_pairs H xs) (extracted_pairs H t (tree_height (nTransactions t) 0) 0 (extract_start t))"
    and "ExtractMatches H MAX_BLOCK_SIZE t = (snd (snd (BuildMerkleTree H xs)), ms)" "snd (snd (BuildMerkleTree H xs)) \<noteq> bn_zero 8"
  shows "set ms \<subseteq> set xs"
proof -
  let ?h = "tree_height (of_nat (length xs)) 0"
  note th = tree_height_ok [OF assms(2,1), of 0 H]
  obtain r s where T: "TraverseAndExtract H t ?h 0 (extract_start t) = (r, s)" by fastforce
  have "r = merkle_root H xs" "ms = vMatched s" "\<not> x_fBad s"
    using assms(3,5,6) T by (auto simp: ExtractMatches_def extract_start_def Let_def BuildMerkleTree_levels split: if_splits)
  moreover have "merkle_root H xs = levels_up H xs ?h ! 0" by (rule merkle_root_top [OF assms(2,1)])
  ultimately have "TraverseAndExtract H t ?h 0 (extract_start t) = (levels_up H xs ?h ! 0, s)"
    "\<not> x_fBad s" "ms = vMatched s" using T by simp_all
  moreover from extract_sound [OF assms(2,3) assms(4) [unfolded assms(3)] _ _ _ this(1,2)] th
  obtain new where "vMatched s = vMatched (extract_start t) @ new" "set new \<subseteq> set xs" by auto
  ultimately show ?thesis by (simp add: extract_start_def)
qed

text \<open>A peer's tree for the second of the three transactions, with a hash of eight words.\<close>

definition example_partial :: CPartialMerkleTree where
  "example_partial = \<lparr>nTransactions = 3, vBits = [True, True, False, True, False],
     vHash = [example_txids ! 0, example_txids ! 1, [19, 0, 0, 0, 0, 0, 0, 0]], fBad = False\<rparr>"

theorem ExtractMatches_authentic_witness:
  "ExtractMatches example_hash 1000 example_partial = (snd (snd (BuildMerkleTree example_hash example_txids)), [example_txids ! 1])
   \<and> set [example_txids ! 1] \<subseteq> set example_txids"
proof -
  have E: "ExtractMatches example_hash 1000 example_partial = (snd (snd (BuildMerkleTree example_hash example_txids)), [example_txids ! 1])"
    "snd (snd (BuildMerkleTree example_hash example_txids)) \<noteq> bn_zero 8" by code_simp+
  have P: "set (hashed_pairs example_hash example_txids) = {([1, 0, 0, 0, 0, 0, 0, 0], [2, 0, 0, 0, 0, 0, 0, 0]),
      ([3, 0, 0, 0, 0, 0, 0, 0], [3, 0, 0, 0, 0, 0, 0, 0]), ([12, 0, 0, 0, 0, 0, 0, 0], [19, 0, 0, 0, 0, 0, 0, 0])}" by code_simp
  have Q: "extracted_pairs example_hash example_partial (tree_height (nTransactions example_partial) 0) 0 (extract_start example_partial)
    = [([1, 0, 0, 0, 0, 0, 0, 0], [2, 0, 0, 0, 0, 0, 0, 0]), ([12, 0, 0, 0, 0, 0, 0, 0], [19, 0, 0, 0, 0, 0, 0, 0])]" by code_simp
  have "no_second_preimage example_hash (hashed_pairs example_hash example_txids)
      (extracted_pairs example_hash example_partial (tree_height (nTransactions example_partial) 0) 0 (extract_start example_partial))"
    unfolding no_second_preimage_def P Q by (simp add: example_hash_def)
  moreover have "nTransactions example_partial = of_nat (length example_txids)" by code_simp
  ultimately have "set [example_txids ! 1] \<subseteq> set example_txids"
    by (intro ExtractMatches_authentic [OF _ _ _ _ E]) (simp_all add: example_txids_def)
  then show ?thesis using E(1) by blast
qed

end
