(* ===== verification/Blocks.thy ===== *)
theory Blocks
  imports PartialMerkle BlockTree
begin

text \<open>
  Block headers and blocks (\<^verbatim>\<open>primitives/block.h\<close>, \<^verbatim>\<open>block.cpp\<close>): their serialization, the hash that
  names a block, the hash that proves its work, and the Merkle root of its transactions. The three
  hash functions over byte strings are the fields of \<open>hash_functions\<close>. A header in memory is the byte
  string that it is serialized to, from \<open>BEGIN(nVersion)\<close> to \<open>END(nNonce)\<close>. The cache \<open>vMerkleTree\<close> is
  not a field: \<open>BuildMerkleTree\<close> starts by clearing it.
\<close>

section \<open>Headers and blocks\<close>

record CBlock = CBlockHeader +
  vtx :: "CTransaction list"
  nSigHashType :: u32
  nMerkleTreeType :: nat
  vSigner :: bytes

abbreviation (input) "BLOCKSIGHASH_UNKNOWN \<equiv> (0xff :: u32)"
abbreviation (input) "MERKLETREE_UNKNOWN \<equiv> (0xff :: nat)"

definition header_SetNull :: CBlockHeader where
  "header_SetNull = \<lparr>h_nVersion = 4, hashPrevBlock = bn_zero 8, h_hashMerkleRoot = bn_zero 8, h_nTime = 0, h_nBits = 0, h_nNonce = 0\<rparr>"

definition header_IsNull :: "'a CBlockHeader_scheme \<Rightarrow> bool" where
  "header_IsNull b \<longleftrightarrow> h_nBits b = 0"

text \<open>\<open>SetNull\<close> leaves the signer as it is.\<close>

definition CBlock_of :: "bytes \<Rightarrow> CBlockHeader \<Rightarrow> CBlock" where
  "CBlock_of signer h = CBlockHeader.extend h \<lparr>vtx = [], nSigHashType = BLOCKSIGHASH_UNKNOWN, nMerkleTreeType = MERKLETREE_UNKNOWN, vSigner = signer\<rparr>"

definition GetBlockHeader :: "CBlock \<Rightarrow> CBlockHeader" where
  "GetBlockHeader b = \<lparr>h_nVersion = h_nVersion b, hashPrevBlock = hashPrevBlock b, h_hashMerkleRoot = h_hashMerkleRoot b,
     h_nTime = h_nTime b, h_nBits = h_nBits b, h_nNonce = h_nNonce b\<rparr>"

definition header_GetBlockTime :: "'a CBlockHeader_scheme \<Rightarrow> int" where
  "header_GetBlockTime b = uint (h_nTime b)"

subsection \<open>Serialization\<close>

definition ser_header :: "'a CBlockHeader_scheme \<Rightarrow> bytes" where
  "ser_header b = ser_int 4 (h_nVersion b) @ ser_uint256 (hashPrevBlock b) @ ser_uint256 (h_hashMerkleRoot b)
     @ ser_u32 (h_nTime b) @ ser_u32 (h_nBits b) @ ser_u32 (h_nNonce b)"

definition unser_header :: "bytes \<Rightarrow> (CBlockHeader \<times> bytes) option" where
  "unser_header bs =
     Option.bind (unser_int 4 bs) (\<lambda>(ver, bs).
     Option.bind (decode_many unser_u32 8 bs) (\<lambda>(prev, bs).
     Option.bind (decode_many unser_u32 8 bs) (\<lambda>(root, bs).
     Option.bind (unser_u32 bs) (\<lambda>(time, bs).
     Option.bind (unser_u32 bs) (\<lambda>(bits, bs).
     Option.bind (unser_u32 bs) (\<lambda>(nonce, bs).
       Some (\<lparr>h_nVersion = ver, hashPrevBlock = prev, h_hashMerkleRoot = root, h_nTime = time, h_nBits = bits, h_nNonce = nonce\<rparr>, bs)))))))"

definition ser_block :: "CBlock \<Rightarrow> bytes" where
  "ser_block b = ser_header b @ ser_vector ser_tx (vtx b)"

text \<open>Reading fills the header and the transactions of a block that is there already.\<close>

definition unser_block :: "nat \<Rightarrow> CBlock \<Rightarrow> bytes \<Rightarrow> (CBlock \<times> bytes) option" where
  "unser_block MAX_SIZE b bs =
     Option.bind (unser_header bs) (\<lambda>(h, bs).
     Option.bind (unser_vector MAX_SIZE (unser_tx MAX_SIZE) bs) (\<lambda>(txs, bs).
       Some (CBlockHeader.extend h \<lparr>vtx = txs, nSigHashType = nSigHashType b, nMerkleTreeType = nMerkleTreeType b, vSigner = vSigner b\<rparr>, bs)))"

subsection \<open>Hashes\<close>

record hash_functions =
  Hash :: "bytes \<Rightarrow> base_uint"
  SkunkHash :: "bytes \<Rightarrow> base_uint"
  lyra2re2_hash :: "bytes \<Rightarrow> base_uint"

definition tx_GetHash :: "hash_functions \<Rightarrow> CTransaction \<Rightarrow> base_uint" where
  "tx_GetHash hs tx = Hash hs (ser_tx tx)"

definition Hash2 :: "hash_functions \<Rightarrow> pair_hash" where
  "Hash2 hs a b = Hash hs (ser_uint256 a @ ser_uint256 b)"

definition GetHash :: "hash_functions \<Rightarrow> 'a CBlockHeader_scheme \<Rightarrow> base_uint" where
  "GetHash hs b = (if h_nVersion b > 3 then SkunkHash hs (ser_header b) else Hash hs (ser_header b))"

definition GetPoWHash :: "hash_functions \<Rightarrow> chain_params \<Rightarrow> 'a CBlockHeader_scheme \<Rightarrow> int \<Rightarrow> base_uint" where
  "GetPoWHash hs ps b height =
     (if height = 0 then Hash hs (ser_header b)
      else if height \<ge> StartHeightNewHashAlog ps then SkunkHash hs (ser_header b)
      else lyra2re2_hash hs (ser_header b))"

abbreviation "POW_ALG_LYRA2 \<equiv> (3 :: int)"
abbreviation "POW_ALG_SKUNK \<equiv> (4 :: int)"

text \<open>
  The label \<open>defalut\<close> is not a case of the switch: for every other version the result is whatever the
  uninitialised variable holds, the argument \<open>uninit\<close>.
\<close>

definition GetHashAlog :: "int \<Rightarrow> int \<Rightarrow> int" where
  "GetHashAlog uninit version = (if version = 3 then POW_ALG_LYRA2 else if version = 4 then POW_ALG_SKUNK else uninit)"

definition GetPoWHashWithAlg :: "hash_functions \<Rightarrow> 'a CBlockHeader_scheme \<Rightarrow> int \<Rightarrow> int \<Rightarrow> base_uint" where
  "GetPoWHashWithAlg hs b height algo =
     (if height = 0 then Hash hs (ser_header b)
      else if algo = POW_ALG_LYRA2 then lyra2re2_hash hs (ser_header b)
      else if algo = POW_ALG_SKUNK then SkunkHash hs (ser_header b)
      else Hash hs (ser_header b))"

definition block_BuildMerkleTree :: "hash_functions \<Rightarrow> CBlock \<Rightarrow> (base_uint \<times> bool) cpp option" where
  "block_BuildMerkleTree hs b =
     map_option (map_sum id (\<lambda>leaves. case BuildMerkleTree (Hash2 hs) leaves of (tree, mutated, root) \<Rightarrow> (root, mutated)))
       (merkle_leaves (tx_GetHash hs) (nMerkleTreeType b) (vtx b))"

section \<open>Round trips\<close>

definition header_ok :: "'a CBlockHeader_scheme \<Rightarrow> bool" where
  "header_ok b \<longleftrightarrow> - (2 ^ 31) \<le> h_nVersion b \<and> h_nVersion b < 2 ^ 31 \<and> length (hashPrevBlock b) = 8 \<and> length (h_hashMerkleRoot b) = 8"


interpretation header_codec: prefix_codec header_ok ser_header unser_header
proof
  fix x :: CBlockHeader and rest
  show "ser_header x \<noteq> []" by (simp add: ser_header_def ser_nonempty)
  assume ok: "header_ok x" and len: "length (ser_header x @ rest) < 4294967296"
  let ?e = "ser_u32 (h_nNonce x) @ rest"
  let ?d = "ser_u32 (h_nTime x) @ ser_u32 (h_nBits x) @ ?e"
  let ?c = "ser_uint256 (h_hashMerkleRoot x) @ ?d"
  let ?b = "ser_uint256 (hashPrevBlock x) @ ?c"
  have "unser_int 4 (ser_int 4 (h_nVersion x) @ ?b) = Some (h_nVersion x, ?b)"
    by (rule unser_ser_int) (use ok in \<open>simp_all add: header_ok_def\<close>)
  moreover have "decode_many unser_u32 8 ?b = Some (hashPrevBlock x, ?c)"
    using uint256_codec.dec_enc [of "hashPrevBlock x" ?c] ok len by (simp add: header_ok_def ser_header_def)
  moreover have "decode_many unser_u32 8 ?c = Some (h_hashMerkleRoot x, ?d)"
    using uint256_codec.dec_enc [of "h_hashMerkleRoot x" ?d] ok len by (simp add: header_ok_def ser_header_def)
  moreover have "unser_u32 (ser_u32 w @ r) = Some (w, r)" if "length (ser_u32 w @ r) < 4294967296" for w r
    using that by (intro u32_codec.dec_enc) simp_all
  ultimately show "unser_header (ser_header x @ rest) = Some (x, rest)"
    using len by (simp add: unser_header_def ser_header_def)
qed

definition block_ok :: "nat \<Rightarrow> CBlock \<Rightarrow> bool" where
  "block_ok MAX_SIZE b \<longleftrightarrow> header_ok b \<and> length (vtx b) \<le> MAX_SIZE \<and> list_all (tx_ok MAX_SIZE) (vtx b)"

lemma ser_header_truncate: "ser_header (GetBlockHeader b) = ser_header b"
  by (simp add: ser_header_def GetBlockHeader_def)

lemma unser_ser_block:
  assumes "block_ok MAX_SIZE b" "length (ser_block b @ rest) < 2 ^ 32"
    and "nSigHashType b0 = nSigHashType b" "nMerkleTreeType b0 = nMerkleTreeType b" "vSigner b0 = vSigner b"
  shows "unser_block MAX_SIZE b0 (ser_block b @ rest) = Some (b, rest)"
proof -
  let ?c = "ser_vector ser_tx (vtx b) @ rest"
  have "unser_header (ser_header b @ ?c) = Some (GetBlockHeader b, ?c)"
    by (subst ser_header_truncate [symmetric], rule header_codec.dec_enc)
      (use assms(1,2) in \<open>simp_all add: block_ok_def header_ok_def ser_block_def GetBlockHeader_def ser_header_def\<close>)
  moreover have "unser_vector MAX_SIZE (unser_tx MAX_SIZE) ?c = Some (vtx b, rest)"
    by (rule tx_codec.unser_ser_vector) (use assms(1,2) in \<open>simp_all add: block_ok_def ser_block_def\<close>)
  ultimately show ?thesis
    using assms(3-5) by (simp add: unser_block_def ser_block_def CBlockHeader.extend_def GetBlockHeader_def)
qed

section \<open>The Merkle root commits to the transactions\<close>

lemma merkle_leaves_full: "mtype \<noteq> MERKLETREE_NO_COINBASE_OP_RETURN \<Longrightarrow> merkle_leaves H mtype txs = Some (Inr (map H txs))"
  by (induction txs) (simp_all add: merkle_leaf_def)

lemma block_BuildMerkleTree_full:
  assumes "nMerkleTreeType b \<noteq> MERKLETREE_NO_COINBASE_OP_RETURN"
  shows "block_BuildMerkleTree hs b = Some (Inr (merkle_root (Hash2 hs) (map (tx_GetHash hs) (vtx b)),
    \<exists>l \<in> set (merkle_levels (Hash2 hs) (map (tx_GetHash hs) (vtx b))). doubled_end l))"
  using assms by (simp add: block_BuildMerkleTree_def merkle_leaves_full BuildMerkleTree_levels)

lemma levels_up_drop:
  assumes "k < length (merkle_levels H xs)"
  shows "merkle_levels H (levels_up H xs k) = drop k (merkle_levels H xs) \<and> merkle_root H (levels_up H xs k) = merkle_root H xs
    \<and> set (hashed_pairs H (levels_up H xs k)) \<subseteq> set (hashed_pairs H xs) \<and> (xs \<noteq> [] \<longrightarrow> levels_up H xs k \<noteq> [])"
  using assms
proof (induction k arbitrary: xs)
  case (Suc k)
  have lv: "merkle_levels H xs = (if length xs > 1 then xs # merkle_levels H (next_level H xs) else [xs])"
    by (rule merkle_levels.simps)
  have l: "length xs > 1" using Suc.prems lv by (auto split: if_splits)
  have "merkle_root H xs = merkle_root H (next_level H xs)" using l by (subst merkle_root.simps) simp
  moreover have "next_level H xs \<noteq> []" using l by (cases "(H, xs)" rule: next_level.cases) auto
  moreover have "set (hashed_pairs H (next_level H xs)) \<subseteq> set (hashed_pairs H xs)"
    unfolding hashed_pairs_def using l lv by simp
  moreover have "levels_up H xs (Suc k) = levels_up H (next_level H xs) k" by (simp add: funpow_swap1)
  moreover have "k < length (merkle_levels H (next_level H xs))" using Suc.prems lv l by simp
  ultimately show ?case using Suc.IH [of "next_level H xs"] lv l by auto
qed simp


lemma levels_up_hashes:
  assumes "0 < k" "k < length (merkle_levels H xs)" "x \<in> set (levels_up H xs k)"
  shows "\<exists>(a, b) \<in> set (hashed_pairs H xs). x = H a b"
proof -
  obtain m where k: "k = Suc m" using assms(1) by (cases k) auto
  have lv: "merkle_levels H (levels_up H xs m) = drop m (merkle_levels H xs)"
    and sub: "set (hashed_pairs H (levels_up H xs m)) \<subseteq> set (hashed_pairs H xs)"
    using levels_up_drop [of m H xs] assms(2) k by auto
  have "1 < length (merkle_levels H (levels_up H xs m))" using lv assms(2) k by simp
  then have "1 < length (levels_up H xs m)" by (subst (asm) merkle_levels.simps) (auto split: if_splits)
  then have "set (level_pairs (levels_up H xs m)) \<subseteq> set (hashed_pairs H (levels_up H xs m))"
    unfolding hashed_pairs_def by (subst merkle_levels.simps) simp
  moreover obtain a b where "(a, b) \<in> set (level_pairs (levels_up H xs m))" "x = H a b"
    using assms(3) k by (auto simp: next_level_pairs)
  ultimately show ?thesis using sub by blast
qed

lemma merkle_root_commits:
  assumes "xs \<noteq> []" "ys \<noteq> []" "merkle_root H xs = merkle_root H ys"
    and "\<forall>l \<in> set (merkle_levels H xs). \<not> doubled_end l" "\<forall>l \<in> set (merkle_levels H ys). \<not> doubled_end l"
    and "inj_on (\<lambda>(a, b). H a b) (set (hashed_pairs H xs) \<union> set (hashed_pairs H ys))"
    and "length (merkle_levels H xs) \<le> length (merkle_levels H ys)"
  shows "xs = ys \<or> (\<forall>x \<in> set xs. \<exists>(a, b) \<in> set (hashed_pairs H ys). x = H a b)"
proof -
  define k where "k = length (merkle_levels H ys) - length (merkle_levels H xs)"
  have k: "k < length (merkle_levels H ys)"
    unfolding k_def using merkle_levels_nonempty [of H xs] merkle_levels_nonempty [of H ys] by (simp add: assms(7))
  note up = levels_up_drop [OF k]
  have "xs = levels_up H ys k"
  proof (rule merkle_root_inj [of xs "levels_up H ys k" H])
    show "length (merkle_levels H xs) = length (merkle_levels H (levels_up H ys k))" using up assms(7) by (simp add: k_def)
    show "\<forall>l \<in> set (merkle_levels H (levels_up H ys k)). \<not> doubled_end l" using up assms(5) in_set_dropD by fastforce
    show "inj_on (\<lambda>(a, b). H a b) (set (hashed_pairs H xs) \<union> set (hashed_pairs H (levels_up H ys k)))"
      by (rule inj_on_subset [OF assms(6)]) (use up in blast)
  qed (use assms up in auto)
  then show ?thesis using levels_up_hashes [OF _ k] by (cases "k = 0") auto
qed

text \<open>The byte strings that are hashed to compute the Merkle root of a block.\<close>

definition hashed_strings :: "hash_functions \<Rightarrow> CTransaction list \<Rightarrow> bytes list" where
  "hashed_strings hs txs = map ser_tx txs
     @ map (\<lambda>(a, b). ser_uint256 a @ ser_uint256 b) (hashed_pairs (Hash2 hs) (map (tx_GetHash hs) txs))"

lemma length_ser_uint256: "length (ser_uint256 h) = 4 * length h"
  unfolding ser_uint256_def ser_u32_def by (induction h) simp_all

lemma ser_uint256_inj:
  assumes "length a = 8" "length c = 8" "ser_uint256 a @ ser_uint256 b = ser_uint256 c @ ser_uint256 d" "length b = 8" "length d = 8"
  shows "a = c \<and> b = d"
proof -
  have "ser_uint256 a = ser_uint256 c" "ser_uint256 b = ser_uint256 d"
    using assms(3) append_eq_append_conv [of "ser_uint256 a" "ser_uint256 c"] assms(1,2) by (simp_all add: length_ser_uint256)
  moreover have "x = y" if "ser_uint256 x = ser_uint256 y" "length x = 8" "length y = 8" for x y
    using uint256_codec.dec_enc [of x "[]"] uint256_codec.dec_enc [of y "[]"] that by (simp add: length_ser_uint256)
  ultimately show ?thesis using assms by blast
qed


lemma level_pairs_members: "(a, b) \<in> set (level_pairs xs) \<Longrightarrow> a \<in> set xs \<and> b \<in> set xs"
  by (induction xs rule: level_pairs.induct) auto

lemma hashed_pairs_members:
  assumes "\<forall>x \<in> set xs. P x" "\<forall>a b. P (H a b)" "(a, b) \<in> set (hashed_pairs H xs)"
  shows "P a \<and> P b"
  using assms
proof (induction H xs rule: merkle_levels.induct)
  case (1 H xs)
  show ?case
  proof (cases "length xs > 1")
    case True
    then have "set (hashed_pairs H xs) = set (level_pairs xs) \<union> set (hashed_pairs H (next_level H xs))"
      unfolding hashed_pairs_def by (subst merkle_levels.simps) simp
    moreover have "\<forall>x \<in> set (next_level H xs). P x" using "1.prems"(2) by (auto simp: next_level_pairs)
    ultimately show ?thesis using "1.IH" [OF True] "1.prems" level_pairs_members [of a b xs] by blast
  next
    case False
    then have "hashed_pairs H xs = []" unfolding hashed_pairs_def by (subst merkle_levels.simps) simp
    then show ?thesis using "1.prems"(3) by simp
  qed
qed

lemma ser_tx_inj_on:
  assumes "list_all (tx_ok MAX_SIZE) txs" "\<forall>tx \<in> set txs. length (ser_tx tx) < 2 ^ 32"
  shows "inj_on ser_tx (set txs)"
proof (rule inj_onI)
  fix x y
  assume "x \<in> set txs" "y \<in> set txs" "ser_tx x = ser_tx y"
  then show "x = y" using tx_codec.enc_prefix_free [of MAX_SIZE x y "[]" "[]"] assms by (simp add: list_all_iff)
qed

lemma Hash2_inj_on:
  assumes "inj_on (Hash hs) (set (hashed_strings hs txs) \<union> set (hashed_strings hs txs'))" "\<forall>s. length (Hash hs s) = 8"
  shows "inj_on (\<lambda>(a, b). Hash2 hs a b)
    (set (hashed_pairs (Hash2 hs) (map (tx_GetHash hs) txs)) \<union> set (hashed_pairs (Hash2 hs) (map (tx_GetHash hs) txs')))"
proof (rule inj_onI, clarify)
  let ?P = "\<lambda>txs. set (hashed_pairs (Hash2 hs) (map (tx_GetHash hs) txs))"
  fix a b c d
  assume m: "(a, b) \<in> ?P txs \<union> ?P txs'" "(c, d) \<in> ?P txs \<union> ?P txs'" and eq: "Hash2 hs a b = Hash2 hs c d"
  have l: "length x = 8 \<and> length y = 8" if "(x, y) \<in> ?P txs \<union> ?P txs'" for x y
    using that hashed_pairs_members [of "map (tx_GetHash hs) _" "\<lambda>x. length x = 8" "Hash2 hs" x y] assms(2)
    by (auto simp: tx_GetHash_def Hash2_def)
  have "ser_uint256 x @ ser_uint256 y \<in> set (hashed_strings hs txs) \<union> set (hashed_strings hs txs')"
    if "(x, y) \<in> ?P txs \<union> ?P txs'" for x y
    using that by (force simp: hashed_strings_def)
  then have "ser_uint256 a @ ser_uint256 b = ser_uint256 c @ ser_uint256 d"
    using inj_onD [OF assms(1)] eq m unfolding Hash2_def by blast
  then show "a = c \<and> b = d" using ser_uint256_inj l [OF m(1)] l [OF m(2)] by blast
qed

lemma merkle_root_transactions:
  assumes ne: "txs \<noteq> []" "txs' \<noteq> []" and ok: "list_all (tx_ok MAX_SIZE) (txs @ txs')"
    and size: "\<forall>tx \<in> set (txs @ txs'). length (ser_tx tx) < 2 ^ 32 \<and> length (ser_tx tx) \<noteq> 64"
    and len: "\<forall>s. length (Hash hs s) = 8"
    and inj: "inj_on (Hash hs) (set (hashed_strings hs txs) \<union> set (hashed_strings hs txs'))"
    and eq: "merkle_root (Hash2 hs) (map (tx_GetHash hs) txs) = merkle_root (Hash2 hs) (map (tx_GetHash hs) txs')"
    and nd: "\<forall>l \<in> set (merkle_levels (Hash2 hs) (map (tx_GetHash hs) txs)). \<not> doubled_end l"
      "\<forall>l \<in> set (merkle_levels (Hash2 hs) (map (tx_GetHash hs) txs')). \<not> doubled_end l"
    and le: "length (merkle_levels (Hash2 hs) (map (tx_GetHash hs) txs)) \<le> length (merkle_levels (Hash2 hs) (map (tx_GetHash hs) txs'))"
  shows "txs = txs'"
proof -
  let ?S = "set (hashed_strings hs txs) \<union> set (hashed_strings hs txs')"
  have "map (tx_GetHash hs) txs = map (tx_GetHash hs) txs'"
  proof (rule ccontr)
    assume "map (tx_GetHash hs) txs \<noteq> map (tx_GetHash hs) txs'"
    then obtain a b where ab: "(a, b) \<in> set (hashed_pairs (Hash2 hs) (map (tx_GetHash hs) txs'))" "tx_GetHash hs (hd txs) = Hash2 hs a b"
      using merkle_root_commits [OF _ _ eq nd Hash2_inj_on [OF inj len] le] ne by (auto simp: neq_Nil_conv)
    have "ser_tx (hd txs) \<in> ?S" using ne(1) by (auto simp: hashed_strings_def)
    moreover have "ser_uint256 a @ ser_uint256 b \<in> ?S" using ab(1) by (force simp: hashed_strings_def)
    ultimately have "ser_tx (hd txs) = ser_uint256 a @ ser_uint256 b" using inj_onD [OF inj] ab(2) by (simp add: tx_GetHash_def Hash2_def)
    moreover have "length a = 8 \<and> length b = 8"
      by (rule hashed_pairs_members [OF _ _ ab(1)]) (use len in \<open>auto simp: tx_GetHash_def Hash2_def\<close>)
    ultimately have "length (ser_tx (hd txs)) = 64" by (simp add: length_ser_uint256)
    then show False using size ne(1) by simp
  qed
  then have "map (Hash hs) (map ser_tx txs) = map (Hash hs) (map ser_tx txs')" by (simp add: tx_GetHash_def [abs_def] comp_def)
  then have "map ser_tx txs = map ser_tx txs'"
    by (rule map_inj_on) (rule inj_on_subset [OF inj], auto simp: hashed_strings_def)
  then show ?thesis by (rule map_inj_on) (use ser_tx_inj_on [OF ok] size in auto)
qed

end
