(* ===== verification/MostWork.thy ===== *)
theory MostWork
  imports BlockTree
begin

text \<open>
  The choice of the chain to follow in \<^verbatim>\<open>core/main.cpp\<close>: \<open>FindMostWorkChain\<close>, \<open>PruneBlockIndexCandidates\<close>
  and \<open>CheckBranchForInvalidBlocks\<close>. \<open>VerifyBlockMiner\<close>, which replays permission records, is an
  argument: it gets the index and a block and returns the index, in which it may have set
  \<open>fPassedMinerPrecheck\<close> of blocks, and its result. The blocks that \<open>FindMostWorkChain\<close> counts for its
  log messages only are left out.
\<close>

unbundle bit_operations_syntax

type_synonym miner_check = "index_store \<Rightarrow> ptr \<Rightarrow> index_store \<times> bool"

abbreviation bind_oc :: "'a cpp option \<Rightarrow> ('a \<Rightarrow> 'b cpp option) \<Rightarrow> 'b cpp option" where
  "bind_oc r f \<equiv> Option.bind r (\<lambda>x. case x of Inl e \<Rightarrow> Some (Inl e) | Inr y \<Rightarrow> f y)"

section \<open>Candidates and their checks\<close>

definition locked_candidate :: "index_store \<Rightarrow> ptr option \<Rightarrow> ptr \<Rightarrow> ptr cpp option" where
  "locked_candidate mem pindexLockedBlock c =
     (case pindexLockedBlock of
        None \<Rightarrow> Some (Inr c)
      | Some l \<Rightarrow> bind_oc (LastCommonAncestor mem c l) (\<lambda>a.
          if a \<noteq> Some l then (case a of None \<Rightarrow> Some (Inl NullPointer) | Some q \<Rightarrow> Some (Inr q)) else Some (Inr c)))"

definition miner_precheck :: "miner_check \<Rightarrow> ptr \<Rightarrow> block_tree \<Rightarrow> block_tree" where
  "miner_precheck verify p t =
     (if fPassedMinerPrecheck (t_mem t p) then t
      else
        (case verify (t_mem t) p of
           (mem, True) \<Rightarrow> t\<lparr>t_mem := mem\<rparr>
         | (mem, False) \<Rightarrow> t\<lparr>t_mem := mem(p := (mem p)\<lparr>nStatus := nStatus (mem p) OR BLOCK_FAILED_VALID\<rparr>),
                            setDirtyBlockIndex := insert p (setDirtyBlockIndex t)\<rparr>))"

fun collect_candidates ::
    "miner_check \<Rightarrow> ptr option \<Rightarrow> ptr list \<Rightarrow> ptr list \<Rightarrow> block_tree \<Rightarrow> (ptr list \<times> block_tree) cpp option" where
  "collect_candidates verify locked [] temp t = Some (Inr (temp, t))"
| "collect_candidates verify locked (c # cs) temp t =
     bind_oc (locked_candidate (t_mem t) locked c) (\<lambda>c.
       let t = miner_precheck verify c t
       in collect_candidates verify locked cs
            (if fPassedMinerPrecheck (t_mem t c) then set_insert (WorkComparator (t_mem t)) c temp else temp) t)"

definition invalid_block :: "index_store \<Rightarrow> base_uint list \<Rightarrow> ptr \<Rightarrow> bool" where
  "invalid_block mem banned p \<longleftrightarrow>
     nStatus (mem p) AND BLOCK_FAILED_MASK \<noteq> 0 \<or> (\<exists>h \<in> set_option (phashBlock (mem p)). h \<in> set banned)"

partial_function (option) find_invalid ::
    "ptr option \<Rightarrow> index_store \<Rightarrow> vchain \<Rightarrow> base_uint list \<Rightarrow> ptr option cpp option" where
  "find_invalid pindexTest mem v banned =
     (case pindexTest of
        None \<Rightarrow> Some (Inr None)
      | Some p \<Rightarrow>
          if Contains mem v p then Some (Inr None)
          else if nStatus (mem p) AND BLOCK_HAVE_DATA = 0 then Some (Inl AssertionFailed)
          else if nChainTx (mem p) = 0 \<and> nHeight (mem p) \<noteq> 0 then Some (Inl AssertionFailed)
          else if nStatus (mem p) AND BLOCK_FAILED_MASK = 0 \<and> phashBlock (mem p) = None then Some (Inl NullPointer)
          else if invalid_block mem banned p then Some (Inr (Some p))
          else find_invalid (pprev (mem p)) mem v banned)"

partial_function (option) mark_failed :: "ptr \<Rightarrow> ptr option \<Rightarrow> block_tree \<Rightarrow> block_tree cpp option" where
  "mark_failed test pindexFailed t =
     (if pindexFailed = Some test then Some (Inr t)
      else case pindexFailed of
             None \<Rightarrow> Some (Inl NullPointer)
           | Some p \<Rightarrow>
               (let mem = (t_mem t)(p := (t_mem t p)\<lparr>nStatus := nStatus (t_mem t p) OR BLOCK_FAILED_CHILD\<rparr>)
                in mark_failed test (pprev (mem p))
                     (t\<lparr>t_mem := mem, setBlockIndexCandidates := set_erase p (setBlockIndexCandidates t)\<rparr>)))"

definition note_invalid :: "ptr \<Rightarrow> block_tree \<Rightarrow> block_tree" where
  "note_invalid p t =
     (case pindexBestInvalid t of
        None \<Rightarrow> t\<lparr>pindexBestInvalid := Some p\<rparr>
      | Some b \<Rightarrow>
          if CompareTo (nChainWork (t_mem t p)) (nChainWork (t_mem t b)) > 0 then t\<lparr>pindexBestInvalid := Some p\<rparr> else t)"

partial_function (option) FindMostWorkChain ::
    "miner_check \<Rightarrow> ptr option \<Rightarrow> base_uint list \<Rightarrow> vchain \<Rightarrow> block_tree \<Rightarrow> (ptr option \<times> block_tree) cpp option" where
  "FindMostWorkChain verify locked banned v t =
     bind_oc (collect_candidates verify locked (setBlockIndexCandidates t) [] t) (\<lambda>(temp, t).
       if temp = [] then Some (Inr (None, t))
       else bind_oc (find_invalid (Some (last temp)) (t_mem t) v banned) (\<lambda>bad.
              case bad of
                None \<Rightarrow> Some (Inr (Some (last temp), t))
              | Some test \<Rightarrow>
                  bind_oc (mark_failed test (Some (last temp)) (note_invalid (last temp) t)) (\<lambda>t.
                    FindMostWorkChain verify locked banned v
                      (t\<lparr>setBlockIndexCandidates := set_erase test (setBlockIndexCandidates t)\<rparr>))))"

section \<open>Pruning\<close>

definition PruneBlockIndexCandidates :: "ptr \<Rightarrow> block_tree \<Rightarrow> block_tree cpp" where
  "PruneBlockIndexCandidates tip t =
     (let cands = dropWhile (\<lambda>c. WorkComparator (t_mem t) c tip) (setBlockIndexCandidates t)
      in bind_cpp (assert_cpp (cands \<noteq> [])) (\<lambda>_. Inr (t\<lparr>setBlockIndexCandidates := cands\<rparr>)))"

partial_function (option) branch_loop :: "index_store \<Rightarrow> ptr option \<Rightarrow> ptr option \<Rightarrow> bool cpp option" where
  "branch_loop mem fork pindexTest =
     (if pindexTest = fork then Some (Inr True)
      else case pindexTest of
             None \<Rightarrow> Some (Inl NullPointer)
           | Some p \<Rightarrow> if nStatus (mem p) AND BLOCK_FAILED_MASK \<noteq> 0 then Some (Inr False) else branch_loop mem fork (pprev (mem p)))"

definition CheckBranchForInvalidBlocks :: "index_store \<Rightarrow> vchain \<Rightarrow> ptr option \<Rightarrow> bool cpp option" where
  "CheckBranchForInvalidBlocks mem v pindexPrev =
     (case pindexPrev of
        None \<Rightarrow> Some (Inr True)
      | Some p \<Rightarrow> bind_oc (FindFork mem v p) (\<lambda>fork. branch_loop mem fork (Some p)))"

section \<open>What the search changes\<close>

text \<open>Statuses only gain bits, and the mark of the miner precheck is never taken back.\<close>

definition status_grows :: "index_store \<Rightarrow> index_store \<Rightarrow> bool" where
  "status_grows mem mem' \<longleftrightarrow> (\<forall>p. \<exists>s f. mem' p = (mem p)\<lparr>nStatus := nStatus (mem p) OR s, fPassedMinerPrecheck := f\<rparr>
     \<and> (fPassedMinerPrecheck (mem p) \<longrightarrow> f))"

definition miner_check_ok :: "miner_check \<Rightarrow> bool" where
  "miner_check_ok verify \<longleftrightarrow>
     (\<forall>mem p. \<exists>S. fst (verify mem p) = (\<lambda>q. if q \<in> S then (mem q)\<lparr>fPassedMinerPrecheck := True\<rparr> else mem q))"

lemma status_growsE:
  assumes "status_grows mem mem'"
  obtains s f where "mem' p = (mem p)\<lparr>nStatus := nStatus (mem p) OR s, fPassedMinerPrecheck := f\<rparr>" "fPassedMinerPrecheck (mem p) \<longrightarrow> f"
  using assms unfolding status_grows_def by blast

lemma status_growsI:
  "(\<And>p. \<exists>s f. mem' p = (mem p)\<lparr>nStatus := nStatus (mem p) OR s, fPassedMinerPrecheck := f\<rparr> \<and> (fPassedMinerPrecheck (mem p) \<longrightarrow> f)) \<Longrightarrow>
   status_grows mem mem'"
  by (simp add: status_grows_def)

lemma status_grows_refl: "status_grows mem mem"
proof (rule status_growsI, intro exI conjI)
  show "mem p = (mem p)\<lparr>nStatus := nStatus (mem p) OR 0, fPassedMinerPrecheck := fPassedMinerPrecheck (mem p)\<rparr>" for p by simp
qed simp

lemma status_grows_trans:
  assumes "status_grows a b" "status_grows b c"
  shows "status_grows a c"
proof (rule status_growsI)
  fix p
  obtain s f where 1: "b p = (a p)\<lparr>nStatus := nStatus (a p) OR s, fPassedMinerPrecheck := f\<rparr>" "fPassedMinerPrecheck (a p) \<longrightarrow> f"
    by (rule status_growsE [OF assms(1)])
  obtain s' f' where 2: "c p = (b p)\<lparr>nStatus := nStatus (b p) OR s', fPassedMinerPrecheck := f'\<rparr>" "fPassedMinerPrecheck (b p) \<longrightarrow> f'"
    by (rule status_growsE [OF assms(2)])
  show "\<exists>s f. c p = (a p)\<lparr>nStatus := nStatus (a p) OR s, fPassedMinerPrecheck := f\<rparr> \<and> (fPassedMinerPrecheck (a p) \<longrightarrow> f)"
    using 1 2 by (intro exI [of _ "s OR s'"] exI [of _ f']) (simp add: or.assoc)
qed

lemma status_grows_same:
  assumes "status_grows mem mem'"
  shows "pprev (mem' p) = pprev (mem p)" "pskip (mem' p) = pskip (mem p)" "nHeight (mem' p) = nHeight (mem p)"
    "nChainWork (mem' p) = nChainWork (mem p)" "nChainTx (mem' p) = nChainTx (mem p)" "phashBlock (mem' p) = phashBlock (mem p)"
    "nCanMine (mem' p) = nCanMine (mem p)" "nHeightMinedByMe (mem' p) = nHeightMinedByMe (mem p)" "nSequenceId (mem' p) = nSequenceId (mem p)"
    "fPassedMinerPrecheck (mem p) \<Longrightarrow> fPassedMinerPrecheck (mem' p)"
  by (rule status_growsE [OF assms, of p], simp)+

lemma status_grows_status:
  assumes "status_grows mem mem'" "nStatus (mem p) AND m \<noteq> 0"
  shows "nStatus (mem' p) AND m \<noteq> 0"
proof -
  obtain s where s: "nStatus (mem' p) = nStatus (mem p) OR s" by (rule status_growsE [OF assms(1), of p]) simp
  show ?thesis unfolding s bit.conj_disj_distrib2 using assms(2) by (simp add: or_eq_0_iff)
qed

lemma status_grows_walk: "status_grows mem mem' \<Longrightarrow> walk mem' n p = walk mem n p"
  by (induction n arbitrary: p) (auto simp: status_grows_same split: option.split)

lemma status_grows_ancestor: "status_grows mem mem' \<Longrightarrow> is_ancestor mem' q p = is_ancestor mem q p"
  by (simp add: is_ancestor_def status_grows_walk)

lemma status_grows_order: "status_grows mem mem' \<Longrightarrow> WorkComparator mem' = WorkComparator mem"
  by (intro ext WorkComparator_frame) (simp_all add: status_grows_same)

lemma status_grows_Contains: "status_grows mem mem' \<Longrightarrow> Contains mem' v p = Contains mem v p"
  by (simp add: Contains_def status_grows_same)

lemma status_grows_invalid: "status_grows mem mem' \<Longrightarrow> invalid_block mem banned p \<Longrightarrow> invalid_block mem' banned p"
  using status_grows_status by (auto simp: invalid_block_def status_grows_same)

text \<open>There is an invalid block on the way from a block to the active chain.\<close>

definition bad_path :: "index_store \<Rightarrow> vchain \<Rightarrow> base_uint list \<Rightarrow> ptr \<Rightarrow> bool" where
  "bad_path mem v banned p \<longleftrightarrow>
     (\<exists>n q. walk mem n p = Some q \<and> invalid_block mem banned q \<and> (\<forall>m \<le> n. \<forall>r. walk mem m p = Some r \<longrightarrow> \<not> Contains mem v r))"

lemma bad_path_grows: "status_grows mem mem' \<Longrightarrow> bad_path mem v banned p \<Longrightarrow> bad_path mem' v banned p"
  unfolding bad_path_def status_grows_walk status_grows_Contains using status_grows_invalid by blast

text \<open>The state a search starts in: the data of the candidates and their ancestors is there.\<close>

definition search_inv :: "ptr set \<Rightarrow> block_tree \<Rightarrow> bool" where
  "search_inv D t \<longleftrightarrow> index_wf (t_mem t) D \<and> works_ok (t_mem t) D \<and> set (setBlockIndexCandidates t) \<subseteq> D
     \<and> sorted_wrt (WorkComparator (t_mem t)) (setBlockIndexCandidates t)
     \<and> (\<forall>c \<in> set (setBlockIndexCandidates t). \<forall>q. is_ancestor (t_mem t) q c \<longrightarrow>
          nStatus (t_mem t q) AND BLOCK_HAVE_DATA \<noteq> 0 \<and> nChainTx (t_mem t q) \<noteq> 0 \<and> phashBlock (t_mem t q) \<noteq> None)"

lemma search_inv_grows:
  assumes "search_inv D t" "status_grows (t_mem t) (t_mem t')" "set (setBlockIndexCandidates t') \<subseteq> set (setBlockIndexCandidates t)"
    and "sorted_wrt (WorkComparator (t_mem t)) (setBlockIndexCandidates t')"
  shows "search_inv D t'"
proof -
  note s = status_grows_same [OF assms(2)]
  have i: "index_wf (t_mem t) D" "works_ok (t_mem t) D" "set (setBlockIndexCandidates t) \<subseteq> D"
    and d: "\<And>c q. c \<in> set (setBlockIndexCandidates t) \<Longrightarrow> is_ancestor (t_mem t) q c \<Longrightarrow>
      nStatus (t_mem t q) AND BLOCK_HAVE_DATA \<noteq> 0 \<and> nChainTx (t_mem t q) \<noteq> 0 \<and> phashBlock (t_mem t q) \<noteq> None"
    using assms(1) unfolding search_inv_def by blast+
  have "index_wf (t_mem t') D" using i(1) by (rule index_wf_frame) (simp add: s)
  moreover have "works_ok (t_mem t') D" using i(2) by (simp add: works_ok_def s)
  moreover have "nStatus (t_mem t' q) AND BLOCK_HAVE_DATA \<noteq> 0 \<and> nChainTx (t_mem t' q) \<noteq> 0 \<and> phashBlock (t_mem t' q) \<noteq> None"
    if "c \<in> set (setBlockIndexCandidates t')" "is_ancestor (t_mem t') q c" for c q
  proof -
    have "nStatus (t_mem t q) AND BLOCK_HAVE_DATA \<noteq> 0 \<and> nChainTx (t_mem t q) \<noteq> 0 \<and> phashBlock (t_mem t q) \<noteq> None"
      using that assms(3) by (intro d [of c]) (auto simp: status_grows_ancestor [OF assms(2)])
    then show ?thesis using status_grows_status [OF assms(2)] s(5,6) by simp
  qed
  ultimately show ?thesis
    unfolding search_inv_def status_grows_order [OF assms(2)] using i(3) assms(3,4) by blast
qed

section \<open>The parts of the search\<close>

lemma miner_precheck_ok:
  assumes "miner_check_ok verify"
  shows "\<exists>mem d. miner_precheck verify p t = t\<lparr>t_mem := mem, setDirtyBlockIndex := d\<rparr> \<and> status_grows (t_mem t) mem"
proof -
  obtain mem ok where v: "verify (t_mem t) p = (mem, ok)" by fastforce
  obtain S where "mem = (\<lambda>q. if q \<in> S then (t_mem t q)\<lparr>fPassedMinerPrecheck := True\<rparr> else t_mem t q)"
    using assms v unfolding miner_check_ok_def by (metis fst_conv)
  then have m: "mem q = (t_mem t q)\<lparr>nStatus := nStatus (t_mem t q) OR 0, fPassedMinerPrecheck := q \<in> S \<or> fPassedMinerPrecheck (t_mem t q)\<rparr>" for q
    by simp
  have g: "status_grows (t_mem t) mem" by (rule status_growsI) (use m in blast)
  have "status_grows mem (mem(p := (mem p)\<lparr>nStatus := nStatus (mem p) OR BLOCK_FAILED_VALID\<rparr>))" (is "status_grows mem ?mem")
  proof (rule status_growsI)
    fix q
    have "?mem q = (mem q)\<lparr>nStatus := nStatus (mem q) OR (if q = p then BLOCK_FAILED_VALID else 0), fPassedMinerPrecheck := fPassedMinerPrecheck (mem q)\<rparr>"
      by simp
    then show "\<exists>s f. ?mem q = (mem q)\<lparr>nStatus := nStatus (mem q) OR s, fPassedMinerPrecheck := f\<rparr> \<and> (fPassedMinerPrecheck (mem q) \<longrightarrow> f)" by blast
  qed
  then have g': "status_grows (t_mem t) ?mem" using g status_grows_trans by blast
  have same: "t\<lparr>t_mem := m\<rparr> = t\<lparr>t_mem := m, setDirtyBlockIndex := setDirtyBlockIndex t\<rparr>" for m by simp
  show ?thesis
  proof (cases "fPassedMinerPrecheck (t_mem t p)")
    case True
    then have "miner_precheck verify p t = t\<lparr>t_mem := t_mem t, setDirtyBlockIndex := setDirtyBlockIndex t\<rparr>" by (simp add: miner_precheck_def)
    then show ?thesis using status_grows_refl by blast
  next
    case False
    show ?thesis
    proof (cases ok)
      case True
      then have "miner_precheck verify p t = t\<lparr>t_mem := mem, setDirtyBlockIndex := setDirtyBlockIndex t\<rparr>" using False by (simp add: miner_precheck_def v)
      then show ?thesis using g by blast
    next
      case False
      then have "miner_precheck verify p t = t\<lparr>t_mem := ?mem, setDirtyBlockIndex := insert p (setDirtyBlockIndex t)\<rparr>"
        using \<open>\<not> fPassedMinerPrecheck (t_mem t p)\<close> by (simp add: miner_precheck_def v)
      then show ?thesis using g' by blast
    qed
  qed
qed

lemma collect_candidates_ok:
  assumes "miner_check_ok verify" "works_ok (t_mem t) (set temp \<union> set cs)" "sorted_wrt (WorkComparator (t_mem t)) temp"
    and "\<forall>c \<in> set temp. fPassedMinerPrecheck (t_mem t c)"
  shows "\<exists>temp' mem d. collect_candidates verify None cs temp t = Some (Inr (temp', t\<lparr>t_mem := mem, setDirtyBlockIndex := d\<rparr>))
    \<and> status_grows (t_mem t) mem \<and> sorted_wrt (WorkComparator mem) temp' \<and> set temp \<subseteq> set temp' \<and> set temp' \<subseteq> set temp \<union> set cs
    \<and> (\<forall>c \<in> set temp'. fPassedMinerPrecheck (mem c)) \<and> (\<forall>c \<in> set cs. fPassedMinerPrecheck (t_mem t c) \<longrightarrow> c \<in> set temp')"
  using assms(2-)
proof (induction cs arbitrary: temp t)
  case Nil
  then show ?case
    by (intro exI [of _ temp] exI [of _ "t_mem t"] exI [of _ "setDirtyBlockIndex t"]) (simp add: status_grows_refl)
next
  case (Cons c cs)
  obtain mem d where p: "miner_precheck verify c t = t\<lparr>t_mem := mem, setDirtyBlockIndex := d\<rparr>" and g: "status_grows (t_mem t) mem"
    using miner_precheck_ok [OF assms(1)] by blast
  let ?t = "t\<lparr>t_mem := mem, setDirtyBlockIndex := d\<rparr>"
  define temp1 where "temp1 = (if fPassedMinerPrecheck (mem c) then set_insert (WorkComparator mem) c temp else temp)"
  have w: "works_ok mem (set temp \<union> set (c # cs))" using Cons.prems(1) by (simp add: works_ok_def status_grows_same [OF g])
  have srt: "sorted_wrt (WorkComparator mem) temp" using Cons.prems(2) by (simp add: status_grows_order [OF g])
  have ins: "set (set_insert (WorkComparator mem) c temp) = insert c (set temp)
      \<and> sorted_wrt (WorkComparator mem) (set_insert (WorkComparator mem) c temp)"
    using w srt by (intro work.set_insert_ok) (auto simp: works_ok_def)
  have t1: "sorted_wrt (WorkComparator mem) temp1" "set temp \<subseteq> set temp1" "set temp1 \<subseteq> insert c (set temp)"
      "fPassedMinerPrecheck (mem c) \<longrightarrow> c \<in> set temp1" "\<forall>x \<in> set temp1. fPassedMinerPrecheck (mem x)"
    using ins srt Cons.prems(3) status_grows_same(10) [OF g] by (auto simp: temp1_def)
  have "works_ok mem (set temp1 \<union> set cs)" using w t1(3) by (auto simp: works_ok_def)
  with Cons.IH [of ?t temp1] t1 obtain temp' mem' d'
    where r: "collect_candidates verify None cs temp1 ?t = Some (Inr (temp', ?t\<lparr>t_mem := mem', setDirtyBlockIndex := d'\<rparr>))" "status_grows mem mem'"
      "sorted_wrt (WorkComparator mem') temp'" "set temp1 \<subseteq> set temp'" "set temp' \<subseteq> set temp1 \<union> set cs" "\<forall>c \<in> set temp'. fPassedMinerPrecheck (mem' c)"
      "\<forall>c \<in> set cs. fPassedMinerPrecheck (mem c) \<longrightarrow> c \<in> set temp'" by auto
  have "collect_candidates verify None (c # cs) temp t = Some (Inr (temp', t\<lparr>t_mem := mem', setDirtyBlockIndex := d'\<rparr>))"
    using r(1) p by (simp add: locked_candidate_def temp1_def Let_def split: if_splits)
  moreover have "status_grows (t_mem t) mem'" using g r(2) by (rule status_grows_trans)
  moreover have "\<forall>x \<in> set (c # cs). fPassedMinerPrecheck (t_mem t x) \<longrightarrow> x \<in> set temp'"
    using r(4,7) t1(4) status_grows_same(10) [OF g] by auto
  moreover have "set temp \<subseteq> set temp'" "set temp' \<subseteq> set temp \<union> set (c # cs)" using r(4,5) t1(2,3) by auto
  ultimately show ?case using r(3,6) by blast
qed

lemma find_invalid_ok:
  assumes wf: "index_wf mem D" and "p \<in> D"
    and "\<And>q. is_ancestor mem q p \<Longrightarrow> nStatus (mem q) AND BLOCK_HAVE_DATA \<noteq> 0 \<and> nChainTx (mem q) \<noteq> 0 \<and> phashBlock (mem q) \<noteq> None"
  shows "\<exists>r. find_invalid (Some p) mem v banned = Some (Inr r) \<and>
    (case r of None \<Rightarrow> \<not> bad_path mem v banned p
     | Some q \<Rightarrow> \<exists>n. walk mem n p = Some q \<and> invalid_block mem banned q \<and> (\<forall>m \<le> n. \<forall>r. walk mem m p = Some r \<longrightarrow> \<not> Contains mem v r))"
  using assms(2,3)
proof (induction "nat (nHeight (mem p))" arbitrary: p rule: less_induct)
  case less
  note f = find_invalid.simps [of "Some p" mem v banned]
  have a: "nStatus (mem p) AND BLOCK_HAVE_DATA \<noteq> 0 \<and> nChainTx (mem p) \<noteq> 0 \<and> phashBlock (mem p) \<noteq> None" using less.prems(2) [OF ancestor_refl] .
  consider "Contains mem v p" | "\<not> Contains mem v p" "invalid_block mem banned p"
    | "\<not> Contains mem v p" "\<not> invalid_block mem banned p" by blast
  then show ?case
  proof cases
    case 1
    then have "\<not> bad_path mem v banned p" unfolding bad_path_def by (metis le0 walk.simps(1))
    then show ?thesis using f 1 by simp
  next
    case 2
    then show ?thesis using f a by (auto intro!: exI [of _ 0])
  next
    case 3
    have step: "find_invalid (Some p) mem v banned = find_invalid (pprev (mem p)) mem v banned" using f 3 a by simp
    show ?thesis
    proof (cases "pprev (mem p)")
      case None
      have "\<not> bad_path mem v banned p"
      proof
        assume "bad_path mem v banned p"
        then obtain n q where "walk mem n p = Some q" "invalid_block mem banned q" by (auto simp: bad_path_def)
        then show False using None 3(2) by (cases n) auto
      qed
      then show ?thesis unfolding step None by (subst find_invalid.simps) simp
    next
      case (Some p')
      have h: "p' \<in> D" "nHeight (mem p) = nHeight (mem p') + 1" "0 \<le> nHeight (mem p')"
        using index_wfD(1,3) [OF wf] less.prems(1) Some by auto
      have "\<exists>r. find_invalid (Some p') mem v banned = Some (Inr r) \<and>
        (case r of None \<Rightarrow> \<not> bad_path mem v banned p'
         | Some q \<Rightarrow> \<exists>n. walk mem n p' = Some q \<and> invalid_block mem banned q \<and> (\<forall>m \<le> n. \<forall>r. walk mem m p' = Some r \<longrightarrow> \<not> Contains mem v r))"
        using h less.prems(2) ancestor_prev [of mem p p', OF Some] by (intro less.hyps) auto
      then obtain r where r: "find_invalid (Some p') mem v banned = Some (Inr r)"
        and c: "case r of None \<Rightarrow> \<not> bad_path mem v banned p'
         | Some q \<Rightarrow> \<exists>n. walk mem n p' = Some q \<and> invalid_block mem banned q \<and> (\<forall>m \<le> n. \<forall>r. walk mem m p' = Some r \<longrightarrow> \<not> Contains mem v r)"
        by blast
      have up: "(\<forall>m \<le> Suc n. \<forall>r. walk mem m p = Some r \<longrightarrow> \<not> Contains mem v r) \<longleftrightarrow>
          (\<forall>m \<le> n. \<forall>r. walk mem m p' = Some r \<longrightarrow> \<not> Contains mem v r)" for n
        unfolding less_Suc_eq_le [symmetric] All_less_Suc2 using 3(1) Some by simp
      have "\<not> bad_path mem v banned p" if "\<not> bad_path mem v banned p'"
      proof
        assume "bad_path mem v banned p"
        then obtain n q where n: "walk mem n p = Some q" "invalid_block mem banned q" "\<forall>m \<le> n. \<forall>r. walk mem m p = Some r \<longrightarrow> \<not> Contains mem v r"
          unfolding bad_path_def by blast
        then obtain n' where n': "n = Suc n'" using 3(2) by (cases n) auto
        have "walk mem n' p' = Some q" using n(1) n' Some by simp
        moreover have "\<forall>m \<le> n'. \<forall>r. walk mem m p' = Some r \<longrightarrow> \<not> Contains mem v r" using n(3) up [of n'] n' by blast
        ultimately show False using that n(2) unfolding bad_path_def by blast
      qed
      moreover have "\<exists>n. walk mem n p = Some q \<and> invalid_block mem banned q \<and> (\<forall>m \<le> n. \<forall>r. walk mem m p = Some r \<longrightarrow> \<not> Contains mem v r)"
        if rq: "r = Some q" for q
      proof -
        obtain n where n: "walk mem n p' = Some q" "invalid_block mem banned q" "\<forall>m \<le> n. \<forall>r. walk mem m p' = Some r \<longrightarrow> \<not> Contains mem v r"
          using c unfolding rq option.case by blast
        have "walk mem (Suc n) p = Some q" using n(1) Some by simp
        then show ?thesis using n(2,3) up [of n] by blast
      qed
      ultimately show ?thesis unfolding step Some r using c by (auto split: option.splits)
    qed
  qed
qed

lemma mark_failed_ok:
  assumes wf: "index_wf (t_mem t) D" "p \<in> D" and n: "walk (t_mem t) n p = Some test"
  shows "\<exists>mem E. mark_failed test (Some p) t = Some (Inr (t\<lparr>t_mem := mem, setBlockIndexCandidates := filter (\<lambda>c. c \<notin> E) (setBlockIndexCandidates t)\<rparr>))
    \<and> status_grows (t_mem t) mem \<and> (\<forall>x \<in> E. \<exists>m \<le> n. walk (t_mem t) m p = Some x) \<and> p \<in> insert test E"
  using assms
proof (induction n arbitrary: p t)
  case 0
  then have p: "p = test" by simp
  have "mark_failed test (Some p) t = Some (Inr (t\<lparr>t_mem := t_mem t, setBlockIndexCandidates := filter (\<lambda>c. c \<notin> {}) (setBlockIndexCandidates t)\<rparr>))"
    by (subst mark_failed.simps) (simp add: p)
  then show ?case using status_grows_refl p by blast
next
  case (Suc n)
  let ?mem = "t_mem t"
  define mem1 where "mem1 = ?mem(p := (?mem p)\<lparr>nStatus := nStatus (?mem p) OR BLOCK_FAILED_CHILD\<rparr>)"
  let ?t1 = "t\<lparr>t_mem := mem1, setBlockIndexCandidates := set_erase p (setBlockIndexCandidates t)\<rparr>"
  obtain q where q: "pprev (?mem p) = Some q" "walk ?mem n q = Some test" using Suc.prems(3) by (auto split: option.splits)
  have h: "q \<in> D" using index_wfD(3) [OF Suc.prems(1,2) q(1)] by simp
  have "p \<noteq> test" using bi.up_height [OF Suc.prems(1,2,3)] by auto
  then have step: "mark_failed test (Some p) t = mark_failed test (Some q) ?t1"
    by (subst mark_failed.simps) (simp add: Let_def q(1) mem1_def)
  have g1: "status_grows ?mem mem1"
  proof (rule status_growsI)
    fix r
    have "mem1 r = (?mem r)\<lparr>nStatus := nStatus (?mem r) OR (if r = p then BLOCK_FAILED_CHILD else 0), fPassedMinerPrecheck := fPassedMinerPrecheck (?mem r)\<rparr>"
      by (simp add: mem1_def)
    then show "\<exists>s f. mem1 r = (?mem r)\<lparr>nStatus := nStatus (?mem r) OR s, fPassedMinerPrecheck := f\<rparr> \<and> (fPassedMinerPrecheck (?mem r) \<longrightarrow> f)" by blast
  qed
  note w1 = status_grows_walk [OF g1]
  have "index_wf mem1 D" using Suc.prems(1) by (rule index_wf_frame) (simp add: status_grows_same [OF g1])
  moreover have "walk mem1 n q = Some test" using q(2) by (simp add: w1)
  ultimately obtain mem E where r: "mark_failed test (Some q) ?t1 =
      Some (Inr (?t1\<lparr>t_mem := mem, setBlockIndexCandidates := filter (\<lambda>c. c \<notin> E) (setBlockIndexCandidates ?t1)\<rparr>))"
    and g: "status_grows mem1 mem" and E: "\<forall>x \<in> E. \<exists>m \<le> n. walk mem1 m q = Some x"
    using Suc.IH [of ?t1 q] h by auto
  have "mark_failed test (Some p) t = Some (Inr (t\<lparr>t_mem := mem, setBlockIndexCandidates := filter (\<lambda>c. c \<notin> insert p E) (setBlockIndexCandidates t)\<rparr>))"
    unfolding step r by (simp add: set_erase_def conj_commute)
  moreover have "status_grows ?mem mem" using g1 g by (rule status_grows_trans)
  moreover have "\<exists>m \<le> Suc n. walk ?mem m p = Some x" if "x \<in> insert p E" for x
  proof (cases "x = p")
    case False
    then have "x \<in> E" using that by simp
    from bspec [OF E this] obtain m where "m \<le> n" "walk mem1 m q = Some x" by (elim exE conjE)
    then have "Suc m \<le> Suc n" "walk ?mem (Suc m) p = Some x" using q(1) by (simp_all add: w1)
    then show ?thesis by blast
  qed (intro exI [of _ 0], simp)
  ultimately show ?case by blast
qed

lemma bad_path_down:
  assumes "walk mem n p = Some q" "invalid_block mem banned q" "\<forall>m \<le> n. \<forall>r. walk mem m p = Some r \<longrightarrow> \<not> Contains mem v r"
    and "m \<le> n" "walk mem m p = Some x"
  shows "bad_path mem v banned x"
  unfolding bad_path_def
proof (intro exI conjI allI impI)
  have add: "walk mem (m + k) p = walk mem k x" for k using assms(5) by (simp add: walk_add)
  show "walk mem (n - m) x = Some q" using add [of "n - m"] assms(1,4) by simp
  show "invalid_block mem banned q" by (rule assms(2))
  show "\<not> Contains mem v r" if "k \<le> n - m" "walk mem k x = Some r" for k r
    using assms(3,4) that add [of k] by (metis add.commute le_diff_conv2)
qed

section \<open>The chain with the most work\<close>

definition chosen :: "index_store \<Rightarrow> block_tree \<Rightarrow> vchain \<Rightarrow> base_uint list \<Rightarrow> ptr option \<Rightarrow> bool" where
  "chosen mem0 t v banned r \<longleftrightarrow>
     (case r of
        None \<Rightarrow> \<forall>c \<in> set (setBlockIndexCandidates t). \<not> fPassedMinerPrecheck (mem0 c)
      | Some p \<Rightarrow> p \<in> set (setBlockIndexCandidates t) \<and> fPassedMinerPrecheck (t_mem t p) \<and> \<not> bad_path (t_mem t) v banned p
          \<and> (\<forall>c \<in> set (setBlockIndexCandidates t). fPassedMinerPrecheck (mem0 c) \<longrightarrow> c = p \<or> WorkComparator (t_mem t) c p))"

lemma find_most_work_round:
  assumes t: "search_inv D t" and v: "miner_check_ok verify"
  shows "(\<exists>r t'. FindMostWorkChain verify None banned v t = Some (Inr (r, t')) \<and> status_grows (t_mem t) (t_mem t')
      \<and> setBlockIndexCandidates t' = setBlockIndexCandidates t \<and> chosen (t_mem t) t' v banned r)
    \<or> (\<exists>t'. FindMostWorkChain verify None banned v t = FindMostWorkChain verify None banned v t' \<and> status_grows (t_mem t) (t_mem t')
        \<and> (\<exists>E. setBlockIndexCandidates t' = filter (\<lambda>c. c \<notin> E) (setBlockIndexCandidates t) \<and> (\<forall>x \<in> E. bad_path (t_mem t') v banned x)
             \<and> E \<inter> set (setBlockIndexCandidates t) \<noteq> {}))"
proof -
  let ?C = "setBlockIndexCandidates t"
  have i: "index_wf (t_mem t) D" "works_ok (t_mem t) D" "set ?C \<subseteq> D"
    and anc: "\<And>c q. c \<in> set ?C \<Longrightarrow> is_ancestor (t_mem t) q c \<Longrightarrow> nStatus (t_mem t q) AND BLOCK_HAVE_DATA \<noteq> 0 \<and> nChainTx (t_mem t q) \<noteq> 0 \<and> phashBlock (t_mem t q) \<noteq> None"
    using t unfolding search_inv_def by blast+
  obtain temp mem d where col: "collect_candidates verify None ?C [] t = Some (Inr (temp, t\<lparr>t_mem := mem, setDirtyBlockIndex := d\<rparr>))"
    and g: "status_grows (t_mem t) mem" and srt: "sorted_wrt (WorkComparator mem) temp" and sub: "set temp \<subseteq> set ?C"
    and pass: "\<forall>c \<in> set temp. fPassedMinerPrecheck (mem c)" "\<forall>c \<in> set ?C. fPassedMinerPrecheck (t_mem t c) \<longrightarrow> c \<in> set temp"
  proof -
    have "works_ok (t_mem t) (set [] \<union> set ?C)" using i(2,3) by (auto simp: works_ok_def)
    from collect_candidates_ok [OF v this] show ?thesis using that by auto
  qed
  let ?t1 = "t\<lparr>t_mem := mem, setDirtyBlockIndex := d\<rparr>"
  note F = FindMostWorkChain.simps [of verify None banned v t]
  show ?thesis
  proof (cases "temp = []")
    case True
    have "FindMostWorkChain verify None banned v t = Some (Inr (None, ?t1))" by (simp add: F col True)
    moreover have "chosen (t_mem t) ?t1 v banned None" using pass(2) True by (auto simp: chosen_def)
    ultimately have "\<exists>r t'. FindMostWorkChain verify None banned v t = Some (Inr (r, t')) \<and> status_grows (t_mem t) (t_mem t')
      \<and> setBlockIndexCandidates t' = ?C \<and> chosen (t_mem t) t' v banned r"
      using g by (intro exI [of _ None] exI [of _ ?t1]) simp
    then show ?thesis ..
  next
    case False
    let ?p = "last temp"
    have p: "?p \<in> set temp" using False by simp
    then have p: "?p \<in> set temp" "?p \<in> set ?C" "?p \<in> D" using sub i(3) by blast+
    have wf1: "index_wf mem D" using i(1) by (rule index_wf_frame) (simp add: status_grows_same [OF g])
    have anc1: "nStatus (mem q) AND BLOCK_HAVE_DATA \<noteq> 0 \<and> nChainTx (mem q) \<noteq> 0 \<and> phashBlock (mem q) \<noteq> None" if "is_ancestor mem q ?p" for q
      using anc [OF p(2), of q] that status_grows_status [OF g] by (simp add: status_grows_ancestor [OF g] status_grows_same [OF g])
    obtain bad where bad: "find_invalid (Some ?p) mem v banned = Some (Inr bad)" and badc:
      "case bad of None \<Rightarrow> \<not> bad_path mem v banned ?p
       | Some q \<Rightarrow> \<exists>n. walk mem n ?p = Some q \<and> invalid_block mem banned q \<and> (\<forall>m \<le> n. \<forall>r. walk mem m ?p = Some r \<longrightarrow> \<not> Contains mem v r)"
      using find_invalid_ok [OF wf1 p(3), of v banned] anc1 by blast
    show ?thesis
    proof (cases bad)
      case None
      have "FindMostWorkChain verify None banned v t = Some (Inr (Some ?p, ?t1))" by (simp add: F col False bad None)
      moreover have "c = ?p \<or> WorkComparator mem c ?p" if "c \<in> set ?C" "fPassedMinerPrecheck (t_mem t c)" for c
        using that pass(2) work.last_greatest [of temp mem c] srt sub i(2,3)
        by (auto simp: works_ok_def status_grows_same [OF g])
      then have "chosen (t_mem t) ?t1 v banned (Some ?p)" using p pass(1) badc None by (simp add: chosen_def)
      ultimately have "\<exists>r t'. FindMostWorkChain verify None banned v t = Some (Inr (r, t')) \<and> status_grows (t_mem t) (t_mem t')
        \<and> setBlockIndexCandidates t' = ?C \<and> chosen (t_mem t) t' v banned r"
        using g by (intro exI [of _ "Some ?p"] exI [of _ ?t1]) simp
      then show ?thesis ..
    next
      case (Some test)
      let ?t2 = "note_invalid ?p ?t1"
      have t2: "t_mem ?t2 = mem" "setBlockIndexCandidates ?t2 = ?C" by (auto simp: note_invalid_def split: option.split)
      obtain n where n: "walk mem n ?p = Some test" "invalid_block mem banned test" "\<forall>m \<le> n. \<forall>r. walk mem m ?p = Some r \<longrightarrow> \<not> Contains mem v r"
        using badc unfolding Some option.case by blast
      obtain mem3 E where m: "mark_failed test (Some ?p) ?t2 = Some (Inr (?t2\<lparr>t_mem := mem3, setBlockIndexCandidates := filter (\<lambda>c. c \<notin> E) ?C\<rparr>))"
        and g3: "status_grows mem mem3" and E: "\<forall>x \<in> E. \<exists>m \<le> n. walk mem m ?p = Some x" and pE: "?p \<in> insert test E"
        using mark_failed_ok [of ?t2 D ?p n test] wf1 p(3) n(1) unfolding t2 by blast
      let ?t3 = "?t2\<lparr>t_mem := mem3, setBlockIndexCandidates := filter (\<lambda>c. c \<notin> insert test E) ?C\<rparr>"
      have "FindMostWorkChain verify None banned v t = FindMostWorkChain verify None banned v ?t3"
        by (simp add: F col False bad Some m set_erase_def conj_commute)
      moreover have "status_grows (t_mem t) mem3" using g g3 by (rule status_grows_trans)
      moreover have "bad_path mem3 v banned x" if x: "x \<in> insert test E" for x
      proof (rule bad_path_grows [OF g3])
        obtain m where "m \<le> n" "walk mem m ?p = Some x" using x E n(1) by blast
        then show "bad_path mem v banned x" by (rule bad_path_down [OF n])
      qed
      moreover have "insert test E \<inter> set ?C \<noteq> {}" using pE p(2) by blast
      ultimately show ?thesis by (intro disjI2 exI [of _ ?t3] exI [of _ "insert test E"] conjI) simp_all
    qed
  qed
qed

lemma chosen_grows: "status_grows mem0 mem1 \<Longrightarrow> chosen mem1 t v banned r \<Longrightarrow> chosen mem0 t v banned r"
  using status_grows_same(10) by (auto simp: chosen_def split: option.splits)

text \<open>
  C6. When no block is locked, the search ends with no assertion failing. It drops from the candidates only blocks
  with an invalid block on the way to the active chain, and returns the greatest candidate in the
  work order: every candidate left that had passed the miner precheck is the returned one or comes
  before it, and no block between the returned one and the active chain is invalid. It returns
  \<open>NULL\<close> only when no candidate left had passed the precheck.
\<close>

theorem FindMostWorkChain_chooses:
  assumes "search_inv D t" "miner_check_ok verify"
  shows "\<exists>r t'. FindMostWorkChain verify None banned v t = Some (Inr (r, t')) \<and> status_grows (t_mem t) (t_mem t')
    \<and> set (setBlockIndexCandidates t') \<subseteq> set (setBlockIndexCandidates t)
    \<and> (\<forall>c \<in> set (setBlockIndexCandidates t) - set (setBlockIndexCandidates t'). bad_path (t_mem t') v banned c)
    \<and> chosen (t_mem t) t' v banned r"
  using assms(1)
proof (induction "length (setBlockIndexCandidates t)" arbitrary: t rule: less_induct)
  case less
  let ?C = "setBlockIndexCandidates t"
  from find_most_work_round [OF less.prems assms(2), of banned v] show ?case
  proof (elim disjE exE conjE)
    fix r t' assume "FindMostWorkChain verify None banned v t = Some (Inr (r, t'))" "status_grows (t_mem t) (t_mem t')"
      "setBlockIndexCandidates t' = ?C" "chosen (t_mem t) t' v banned r"
    then show ?case by (intro exI [of _ r] exI [of _ t']) simp
  next
    fix t1 E assume e: "FindMostWorkChain verify None banned v t = FindMostWorkChain verify None banned v t1" and g: "status_grows (t_mem t) (t_mem t1)"
      and C: "setBlockIndexCandidates t1 = filter (\<lambda>c. c \<notin> E) ?C" and E: "\<forall>x \<in> E. bad_path (t_mem t1) v banned x" "E \<inter> set ?C \<noteq> {}"
    have "length (setBlockIndexCandidates t1) < length ?C"
      unfolding C using E(2) length_filter_less [of _ ?C "\<lambda>c. c \<notin> E"] by blast
    moreover have "sorted_wrt (WorkComparator (t_mem t)) (setBlockIndexCandidates t1)" unfolding C using less.prems by (simp add: search_inv_def sorted_wrt_filter)
    then have "search_inv D t1" by (intro search_inv_grows [OF less.prems g]) (auto simp: C)
    ultimately obtain r t' where r: "FindMostWorkChain verify None banned v t1 = Some (Inr (r, t'))" "status_grows (t_mem t1) (t_mem t')"
      "set (setBlockIndexCandidates t') \<subseteq> set (setBlockIndexCandidates t1)"
      "\<forall>c \<in> set (setBlockIndexCandidates t1) - set (setBlockIndexCandidates t'). bad_path (t_mem t') v banned c" "chosen (t_mem t1) t' v banned r"
      using less.hyps [of t1] by blast
    have "bad_path (t_mem t') v banned c" if "c \<in> set ?C - set (setBlockIndexCandidates t')" for c
      using that r(4) E(1) bad_path_grows [OF r(2)] by (cases "c \<in> E") (auto simp: C)
    moreover have "set (setBlockIndexCandidates t') \<subseteq> set ?C" using r(3) by (auto simp: C)
    ultimately show ?case
      using e r(1) status_grows_trans [OF g r(2)] chosen_grows [OF g r(5)] by (intro exI [of _ r] exI [of _ t']) simp
  qed
qed

section \<open>A locked block can keep the search from ending\<close>

text \<open>
  When a block is locked, a candidate on another branch stands for its common ancestor with the
  locked block. If that ancestor is invalid and is no candidate itself, nothing is erased and the
  next round finds the same block.
\<close>

lemma note_invalid_frame: "\<exists>b. note_invalid p t = t\<lparr>pindexBestInvalid := b\<rparr>"
proof -
  have "note_invalid p t = t\<lparr>pindexBestInvalid := pindexBestInvalid (note_invalid p t)\<rparr>"
    by (simp add: note_invalid_def split: option.split)
  then show ?thesis by blast
qed

lemma FindMostWorkChain_diverges:
  assumes c: "\<And>b. collect_candidates verify locked (setBlockIndexCandidates t) [] (t\<lparr>pindexBestInvalid := b\<rparr>) = Some (Inr (temp, t\<lparr>pindexBestInvalid := b\<rparr>))"
    and p: "temp \<noteq> []" "last temp \<notin> set (setBlockIndexCandidates t)" "find_invalid (Some (last temp)) (t_mem t) v banned = Some (Inr (Some (last temp)))"
  shows "FindMostWorkChain verify locked banned v (t\<lparr>pindexBestInvalid := b\<rparr>) = None"
proof (rule ccontr)
  define P where "P verify' locked' banned' v' t' y \<longleftrightarrow> \<not> (verify' = verify \<and> locked' = locked \<and> banned' = banned \<and> v' = v \<and> (\<exists>b. t' = t\<lparr>pindexBestInvalid := b\<rparr>))"
    for verify' :: miner_check and locked' banned' v' t' and y :: "(ptr option \<times> block_tree) cpp"
  assume "FindMostWorkChain verify locked banned v (t\<lparr>pindexBestInvalid := b\<rparr>) \<noteq> None"
  then obtain y where "FindMostWorkChain verify locked banned v (t\<lparr>pindexBestInvalid := b\<rparr>) = Some y" by blast
  then have "P verify locked banned v (t\<lparr>pindexBestInvalid := b\<rparr>) y"
  proof (rule FindMostWorkChain.raw_induct [rotated])
    fix F verify' locked' banned' v' t' y
    assume IH: "\<And>verify' locked' banned' v' t' y. F verify' locked' banned' v' t' = Some y \<Longrightarrow> P verify' locked' banned' v' t' y"
      and run: "bind_oc (collect_candidates verify' locked' (setBlockIndexCandidates t') [] t') (\<lambda>(temp, t).
       if temp = [] then Some (Inr (None, t))
       else bind_oc (find_invalid (Some (last temp)) (t_mem t) v' banned') (\<lambda>bad.
              case bad of
                None \<Rightarrow> Some (Inr (Some (last temp), t))
              | Some test \<Rightarrow>
                  bind_oc (mark_failed test (Some (last temp)) (note_invalid (last temp) t)) (\<lambda>t.
                    F verify' locked' banned' v' (t\<lparr>setBlockIndexCandidates := set_erase test (setBlockIndexCandidates t)\<rparr>)))) = Some y"
    show "P verify' locked' banned' v' t' y"
    proof (rule ccontr)
      assume "\<not> P verify' locked' banned' v' t' y"
      then obtain b where s: "verify' = verify" "locked' = locked" "banned' = banned" "v' = v" "t' = t\<lparr>pindexBestInvalid := b\<rparr>" by (auto simp: P_def)
      obtain b' where b': "note_invalid (last temp) (t\<lparr>pindexBestInvalid := b\<rparr>) = t\<lparr>pindexBestInvalid := b'\<rparr>"
        using note_invalid_frame [of "last temp" "t\<lparr>pindexBestInvalid := b\<rparr>"] by auto
      have same: "set_erase (last temp) (setBlockIndexCandidates t) = setBlockIndexCandidates t"
        using p(2) by (auto simp: set_erase_def filter_id_conv)
      have m: "mark_failed (last temp) (Some (last temp)) u = Some (Inr u)" for u by (subst mark_failed.simps) simp
      have "t\<lparr>pindexBestInvalid := b'\<rparr>\<lparr>setBlockIndexCandidates := set_erase (last temp) (setBlockIndexCandidates (t\<lparr>pindexBestInvalid := b'\<rparr>))\<rparr>
          = t\<lparr>pindexBestInvalid := b'\<rparr>" by (simp add: same)
      then have "F verify locked banned v (t\<lparr>pindexBestInvalid := b'\<rparr>) = Some y"
        using run by (simp add: s c p(1,3) b' m)
      then have "P verify locked banned v (t\<lparr>pindexBestInvalid := b'\<rparr>) y" by (rule IH)
      then show False by (auto simp: P_def)
    qed
  qed
  then show False by (auto simp: P_def)
qed

text \<open>
  The active chain is 0, 1. Block 2 after block 0 turned out to be invalid when it was connected and
  left the candidates then. Block 3 after block 2 has its data and is a candidate. The header of
  block 4 after block 2 is known.
\<close>

definition example_entry :: "int \<Rightarrow> ptr option \<Rightarrow> nat \<Rightarrow> u32 \<Rightarrow> CBlockIndex" where
  "example_entry h prev w st = SetNull\<lparr>nHeight := h, pprev := prev, pskip := (if h = 0 then None else Some 0), nChainWork := bn_of_u64 8 (of_nat w),
     nTx := 1, nChainTx := of_nat w, nStatus := st, fPassedMinerPrecheck := True,
     phashBlock := Some (bn_of_u64 8 (ucast st * 16 + of_nat w))\<rparr>"

definition stuck_tree :: block_tree where
  "stuck_tree = empty_tree\<lparr>t_mem := (\<lambda>_. SetNull)
     (0 := example_entry 0 None 1 13, 1 := example_entry 1 (Some 0) 2 13, 2 := example_entry 1 (Some 0) 2 (11 OR BLOCK_FAILED_VALID),
      3 := example_entry 2 (Some 2) 3 11, 4 := (example_entry 2 (Some 2) 3 2)\<lparr>nTx := 0, nChainTx := 0\<rparr>),
     t_alloc := 5, setBlockIndexCandidates := [1, 3]\<rparr>"

definition stuck_chain :: vchain where
  "stuck_chain = [Some 0, Some 1]"

abbreviation accept_all :: miner_check where
  "accept_all \<equiv> \<lambda>mem p. (mem, True)"

lemma stuck_mem:
  "t_mem stuck_tree 0 = example_entry 0 None 1 13" "t_mem stuck_tree 1 = example_entry 1 (Some 0) 2 13"
  "t_mem stuck_tree (Suc 0) = example_entry 1 (Some 0) 2 13"
  "t_mem stuck_tree 2 = example_entry 1 (Some 0) 2 43" "t_mem stuck_tree 3 = example_entry 2 (Some 2) 3 11"
  "t_mem stuck_tree 4 = (example_entry 2 (Some 2) 3 2)\<lparr>nTx := 0, nChainTx := 0\<rparr>" "setBlockIndexCandidates stuck_tree = [1, 3]"
  by (simp_all add: stuck_tree_def)

lemma stuck_wf: "index_wf (t_mem stuck_tree) {0, 1, 2, 3, 4}"
  by (simp add: index_wf_def entry_wf_def stuck_tree_def example_entry_def SetNull_def GetSkipHeight_def InvertLowestOne_def eval_nat_numeral)

lemma stuck_works:
  "nChainWork (t_mem stuck_tree 0) = bn_of_u64 8 1" "nChainWork (t_mem stuck_tree 1) = bn_of_u64 8 2"
  "nChainWork (t_mem stuck_tree 2) = bn_of_u64 8 2" "nChainWork (t_mem stuck_tree 3) = bn_of_u64 8 3"
  by (simp_all add: stuck_mem example_entry_def del: One_nat_def)

lemma stuck_order: "WorkComparator (t_mem stuck_tree) 0 2" "WorkComparator (t_mem stuck_tree) 1 3" "\<not> WorkComparator (t_mem stuck_tree) 2 0"
  by (simp_all add: WorkComparator_key stuck_works work_key_def bn_val_of_u64 del: One_nat_def)

lemma stuck_lca: "LastCommonAncestor (t_mem stuck_tree) 1 4 = Some (Inr (Some 0))" "LastCommonAncestor (t_mem stuck_tree) 3 4 = Some (Inr (Some 2))"
proof -
  have h: "nHeight (t_mem stuck_tree 1) = 1" "nHeight (t_mem stuck_tree 4) = 2" "nHeight (t_mem stuck_tree 3) = 2"
    "pprev (t_mem stuck_tree 1) = Some 0" "pprev (t_mem stuck_tree 2) = Some 0" "pprev (t_mem stuck_tree 3) = Some 2" "pprev (t_mem stuck_tree 4) = Some 2"
    by (simp_all add: stuck_mem example_entry_def del: One_nat_def)
  have a: "GetAncestor (t_mem stuck_tree) 4 1 = Inr (Some 2)"
    using GetAncestor_walk [OF stuck_wf, of 4 1] h by simp
  have "lca_loop (t_mem stuck_tree) (Some 1) (Some 2) = Some (Some 0, Some 0)" "lca_loop (t_mem stuck_tree) (Some 3) (Some 4) = Some (Some 2, Some 2)"
    by (subst lca_loop.simps, subst lca_loop.simps, simp add: h del: One_nat_def)+
  then show "LastCommonAncestor (t_mem stuck_tree) 1 4 = Some (Inr (Some 0))" "LastCommonAncestor (t_mem stuck_tree) 3 4 = Some (Inr (Some 2))"
    by (simp_all add: LastCommonAncestor_def h a del: One_nat_def)
qed

lemma stuck_search: "search_inv {0, 1, 2, 3, 4} stuck_tree"
proof -
  have p: "pprev (t_mem stuck_tree 0) = None" "pprev (t_mem stuck_tree 1) = Some 0" "pprev (t_mem stuck_tree 2) = Some 0" "pprev (t_mem stuck_tree 3) = Some 2"
    by (simp_all add: stuck_mem example_entry_def del: One_nat_def)
  have anc: "is_ancestor (t_mem stuck_tree) q 1 \<longleftrightarrow> q \<in> {1, 0}" "is_ancestor (t_mem stuck_tree) q 3 \<longleftrightarrow> q \<in> {3, 2, 0}" for q
    by (simp_all add: ancestor_prev [of "t_mem stuck_tree" 1 0, OF p(2)] ancestor_prev [of "t_mem stuck_tree" 2 0, OF p(3)] ancestor_prev [of "t_mem stuck_tree" 3 2, OF p(4)] ancestor_root [of "t_mem stuck_tree" 0, OF p(1)] del: One_nat_def)
  have ok: "nStatus (t_mem stuck_tree q) AND BLOCK_HAVE_DATA \<noteq> 0 \<and> nChainTx (t_mem stuck_tree q) \<noteq> 0 \<and> phashBlock (t_mem stuck_tree q) \<noteq> None" if "q \<in> {0, 1, 2, 3}" for q
    using that by (elim insertE emptyE) (simp_all add: stuck_mem example_entry_def del: One_nat_def)
  have w: "works_ok (t_mem stuck_tree) {0, 1, 2, 3, 4}" by (simp add: works_ok_def stuck_mem example_entry_def del: One_nat_def)
  show ?thesis
    unfolding search_inv_def using stuck_wf w stuck_order(2) anc ok by (simp add: stuck_mem(7) del: One_nat_def)
qed

lemma stuck_collect:
  "collect_candidates accept_all (Some 4) [1, 3] [] (stuck_tree\<lparr>pindexBestInvalid := b\<rparr>) = Some (Inr ([0, 2], stuck_tree\<lparr>pindexBestInvalid := b\<rparr>))"
proof -
  have f: "fPassedMinerPrecheck (t_mem stuck_tree 0)" "fPassedMinerPrecheck (t_mem stuck_tree 2)" by (simp_all add: stuck_mem example_entry_def)
  show ?thesis by (simp add: locked_candidate_def stuck_lca miner_precheck_def f stuck_order Let_def del: One_nat_def)
qed

text \<open>
  C31. With a locked block the search may run for ever: the candidates of this tree have their data and
  are in order, but the lock turns the candidate 3 into the invalid block 2, which is no candidate
  and so cannot be dropped.
\<close>

theorem FindMostWorkChain_locked_stuck:
  "search_inv {0, 1, 2, 3, 4} stuck_tree \<and> FindMostWorkChain accept_all (Some 4) [] stuck_chain stuck_tree = None"
proof -
  have f: "find_invalid (Some 2) (t_mem stuck_tree) stuck_chain [] = Some (Inr (Some 2))"
    by (subst find_invalid.simps) (simp add: Contains_def chain_at_def stuck_chain_def invalid_block_def stuck_mem example_entry_def)
  have "FindMostWorkChain accept_all (Some 4) [] stuck_chain (stuck_tree\<lparr>pindexBestInvalid := pindexBestInvalid stuck_tree\<rparr>) = None"
    by (rule FindMostWorkChain_diverges [where temp = "[0, 2]"]) (use stuck_collect f in \<open>simp_all add: stuck_mem(7)\<close>)
  then show ?thesis using stuck_search by simp
qed

theorem FindMostWorkChain_chooses_witness:
  "\<exists>t. FindMostWorkChain accept_all None [] stuck_chain stuck_tree = Some (Inr (Some 1, t)) \<and> 1 \<in> set (setBlockIndexCandidates t)"
proof -
  let ?v = stuck_chain and ?m = "t_mem stuck_tree"
  have "miner_check_ok accept_all" by (simp add: miner_check_ok_def) (rule allI, rule exI [of _ "{}"], simp)
  from FindMostWorkChain_chooses [OF stuck_search this, of "[]" ?v] obtain r t where
    r: "FindMostWorkChain accept_all None [] ?v stuck_tree = Some (Inr (r, t))" and g: "status_grows ?m (t_mem t)"
    and c: "set (setBlockIndexCandidates t) \<subseteq> {1, 3}" "\<forall>c \<in> {1, 3} - set (setBlockIndexCandidates t). bad_path (t_mem t) ?v [] c"
    and ch: "chosen ?m t ?v [] r" unfolding stuck_mem(7) list.set by blast
  have con: "Contains ?m ?v 1" "\<not> Contains ?m ?v 2" "\<not> Contains ?m ?v 3"
    by (simp_all add: Contains_def chain_at_def stuck_chain_def stuck_mem example_entry_def)
  have "bad_path ?m ?v [] 3" unfolding bad_path_def
  proof (intro exI conjI allI impI)
    have p: "pprev (?m 3) = Some 2" by (simp add: stuck_mem example_entry_def)
    show "walk ?m 1 3 = Some 2" by (simp add: p)
    show "invalid_block ?m [] 2" by (simp add: invalid_block_def stuck_mem example_entry_def)
    show "\<not> Contains ?m ?v q" if "k \<le> 1" "walk ?m k 3 = Some q" for k q
      using that con p by (cases k) auto
  qed
  then have b3: "bad_path (t_mem t) ?v [] 3" by (rule bad_path_grows [OF g])
  have b1: "\<not> bad_path (t_mem t) ?v [] 1"
    using con(1) status_grows_Contains [OF g] unfolding bad_path_def by (metis le0 walk.simps(1))
  then have "1 \<in> set (setBlockIndexCandidates t)" using c(2) by blast
  moreover have "fPassedMinerPrecheck (?m 1)" by (simp add: stuck_mem example_entry_def)
  ultimately have "r = Some 1" using ch c(1) b3 by (auto simp: chosen_def split: option.splits)
  then show ?thesis using r \<open>1 \<in> set (setBlockIndexCandidates t)\<close> by blast
qed

section \<open>Pruning and branches\<close>

text \<open>
  Pruning keeps exactly the candidates that are not worse than the tip, so that its assertion
  holds whenever the tip is a candidate: the loop over the sorted set equals a filter.
\<close>

theorem PruneBlockIndexCandidates_filter:
  assumes "works_ok (t_mem t) (set (setBlockIndexCandidates t))" "sorted_wrt (WorkComparator (t_mem t)) (setBlockIndexCandidates t)"
    and "tip \<in> set (setBlockIndexCandidates t)"
  shows "PruneBlockIndexCandidates tip t = Inr (t\<lparr>setBlockIndexCandidates := filter (\<lambda>c. \<not> WorkComparator (t_mem t) c tip) (setBlockIndexCandidates t)\<rparr>)
    \<and> tip \<in> set (filter (\<lambda>c. \<not> WorkComparator (t_mem t) c tip) (setBlockIndexCandidates t))"
proof -
  have D: "set (setBlockIndexCandidates t) \<subseteq> {p. length (nChainWork (t_mem t p)) = 8}" using assms(1) by (auto simp: works_ok_def)
  have tip: "tip \<in> {p. length (nChainWork (t_mem t p)) = 8}" using D assms(3) by blast
  have f: "tip \<in> set (filter (\<lambda>c. \<not> WorkComparator (t_mem t) c tip) (setBlockIndexCandidates t))"
    using assms(3) work.irrefl [OF tip] by simp
  then have "filter (\<lambda>c. \<not> WorkComparator (t_mem t) c tip) (setBlockIndexCandidates t) \<noteq> []" by (metis empty_iff empty_set)
  then show ?thesis
    using f unfolding PruneBlockIndexCandidates_def work.dropWhile_filter [OF D assms(2) tip] by (simp add: Let_def)
qed

theorem PruneBlockIndexCandidates_filter_witness:
  "PruneBlockIndexCandidates 3 stuck_tree = Inr (stuck_tree\<lparr>setBlockIndexCandidates := [3]\<rparr>)"
proof -
  have "works_ok (t_mem stuck_tree) (set (setBlockIndexCandidates stuck_tree))"
    by (simp add: works_ok_def stuck_mem example_entry_def)
  moreover have "\<not> WorkComparator (t_mem stuck_tree) 3 3" by (simp add: WorkComparator_key)
  ultimately show ?thesis using PruneBlockIndexCandidates_filter [of stuck_tree 3] stuck_order(2) by (simp add: stuck_mem(7))
qed

lemma branch_loop_ok:
  assumes wf: "index_wf mem D" "p \<in> D" and fork: "fork_point mem v p fork" and v: "chain_wf mem D v"
  shows "branch_loop mem fork (Some p) = Some (Inr (\<forall>q. is_ancestor mem q p \<and> \<not> Contains mem v q \<longrightarrow> nStatus (mem q) AND BLOCK_FAILED_MASK = 0))"
  using wf(2) fork
proof (induction "nat (nHeight (mem p))" arbitrary: p rule: less_induct)
  case less
  note b = branch_loop.simps [of mem fork "Some p"]
  show ?case
  proof (cases "Some p = fork")
    case True
    then have "Contains mem v q" if "is_ancestor mem q p" for q
      using less.prems Contains_down [OF wf(1) v less.prems(1) _ that] by (auto simp: fork_point_def)
    then show ?thesis using b True by auto
  next
    case False
    have nc: "\<not> Contains mem v p"
    proof
      assume c: "Contains mem v p"
      then obtain f where f: "fork = Some f" "is_ancestor mem f p" "is_ancestor mem p f"
        using less.prems(2) ancestor_refl by (auto simp: fork_point_def split: option.splits)
      have "nHeight (mem f) = nHeight (mem p)"
        using ancestor_height [OF wf(1) less.prems(1) f(2)] ancestor_height [OF wf(1) _ f(3)] by auto
      then have "f = p" using f(2) bi.up_height [OF wf(1) less.prems(1)] by (fastforce simp: is_ancestor_def)
      then show False using False f(1) by simp
    qed
    show ?thesis
    proof (cases "nStatus (mem p) AND BLOCK_FAILED_MASK = 0")
      case False
      then have "branch_loop mem fork (Some p) = Some (Inr False)" using b \<open>Some p \<noteq> fork\<close> by simp
      then show ?thesis using False nc ancestor_refl by auto
    next
      case ok: True
      then have step: "branch_loop mem fork (Some p) = branch_loop mem fork (pprev (mem p))" using b \<open>Some p \<noteq> fork\<close> by simp
      show ?thesis
      proof (cases "pprev (mem p)")
        case None
        have "fork = None" using less.prems(2) nc by (auto simp: fork_point_def ancestor_root [of mem p, OF None] split: option.splits)
        then show ?thesis unfolding step None using ok by (subst branch_loop.simps) (auto simp: ancestor_root [of mem p, OF None])
      next
        case (Some r)
        note anc = ancestor_prev [of mem p r, OF Some]
        have h: "r \<in> D" "nat (nHeight (mem r)) < nat (nHeight (mem p))"
          using index_wfD(3) [OF wf(1) less.prems(1) Some] index_wfD(1) [OF wf(1)] by auto
        have f: "fork_point mem v r fork" using less.prems(2) nc by (auto simp: fork_point_def anc split: option.splits)
        show ?thesis unfolding step Some less.hyps [OF h(2,1) f] using nc ok by (auto simp: anc)
      qed
    qed
  qed
qed

text \<open>
  C27. \<open>CheckBranchForInvalidBlocks\<close> ends without a null pointer access and tells whether a block of the branch, that is the
  block and its ancestors outside the active chain, is marked as failed.
\<close>

theorem CheckBranchForInvalidBlocks_correct:
  assumes "index_wf mem D" "chain_wf mem D v" "p \<in> D"
  shows "CheckBranchForInvalidBlocks mem v (Some p) =
    Some (Inr (\<forall>q. is_ancestor mem q p \<and> \<not> Contains mem v q \<longrightarrow> nStatus (mem q) AND BLOCK_FAILED_MASK = 0))"
proof -
  obtain r where "FindFork mem v p = Some (Inr r)" "fork_point mem v p r" using FindFork_point [OF assms] by blast
  then show ?thesis using branch_loop_ok [OF assms(1,3) _ assms(2)] by (simp add: CheckBranchForInvalidBlocks_def)
qed

theorem CheckBranchForInvalidBlocks_correct_witness:
  "CheckBranchForInvalidBlocks example_chain [Some 0] (Some 2) = Some (Inr True)"
proof -
  have "chain_wf example_chain {0, 1, 2, 3} [Some 0]"
    by (auto simp: chain_wf_def chain_of_def example_chain_def SetNull_def intro!: bexI [of _ 0])
  moreover have "nStatus (example_chain q) = 0" for q by (simp add: example_chain_def SetNull_def)
  ultimately show ?thesis using CheckBranchForInvalidBlocks_correct [OF example_chain_wf, of "[Some 0]" 2] by simp
qed

end
