(* ===== verification/CoinsView.thy ===== *)
theory CoinsView
  imports Coins
begin

text \<open>
  The stack of views on the unspent outputs (\<^verbatim>\<open>storage/coins.cpp\<close>, \<^verbatim>\<open>storage/txdb.cpp\<close>): the database
  \<open>CCoinsViewDB\<close> and caches \<open>CCoinsViewCache\<close> on top of it and of each other. The state of a cache
  is the cache with the state of its base; the base's \<open>GetCoins\<close> and \<open>BatchWrite\<close>, virtual in the
  source, are arguments. The hash map of a cache is an association list in its iteration order,
  which is arbitrary. \<open>coins_view\<close> is the contract of a view: it promises a map from transaction
  ids to live coins (\<open>utxo\<close>); a cache over a view is a view again, whose map the caches only
  represent differently.
\<close>

type_synonym txid = base_uint

record CCoinsCacheEntry =
  e_coins :: CCoins
  DIRTY :: bool
  FRESH :: bool

type_synonym CCoinsMap = "(txid \<times> CCoinsCacheEntry) list"

record CCoinsViewCache =
  hasModifier :: bool
  hashBlock :: base_uint
  cacheCoins :: CCoinsMap

type_synonym 's cached = "CCoinsViewCache \<times> 's"

definition map_erase :: "txid \<Rightarrow> CCoinsMap \<Rightarrow> CCoinsMap" where
  "map_erase t m = filter (\<lambda>x. fst x \<noteq> t) m"

definition map_set :: "txid \<Rightarrow> CCoinsCacheEntry \<Rightarrow> CCoinsMap \<Rightarrow> CCoinsMap" where
  "map_set t e m = (if map_of m t = None then (t, e) # m else map (\<lambda>(x, y). if x = t then (x, e) else (x, y)) m)"

subsection \<open>The database\<close>

record CCoinsViewDB =
  db_coins :: "txid \<Rightarrow> CCoins option"
  db_best :: "base_uint option"

definition db_GetCoins :: "CCoinsViewDB \<Rightarrow> txid \<Rightarrow> CCoins option \<times> CCoinsViewDB" where
  "db_GetCoins db t = (db_coins db t, db)"

definition db_GetBestBlock :: "CCoinsViewDB \<Rightarrow> base_uint" where
  "db_GetBestBlock db = (case db_best db of None \<Rightarrow> bn_zero 8 | Some h \<Rightarrow> h)"

definition BatchWriteCoins :: "CCoinsViewDB \<Rightarrow> txid \<Rightarrow> CCoins \<Rightarrow> CCoinsViewDB" where
  "BatchWriteCoins db t coins =
     db\<lparr>db_coins := (db_coins db)(t := if IsPruned coins then None else Some coins)\<rparr>"

definition db_BatchWrite :: "CCoinsViewDB \<Rightarrow> CCoinsMap \<Rightarrow> base_uint \<Rightarrow> CCoinsViewDB cpp" where
  "db_BatchWrite db mapCoins hash =
     (let db = foldl (\<lambda>db (t, e). if DIRTY e then BatchWriteCoins db t (e_coins e) else db) db mapCoins
      in Inr (if hash \<noteq> bn_zero 8 then db\<lparr>db_best := Some hash\<rparr> else db))"

subsection \<open>A cache over a base\<close>

definition FetchCoins ::
    "('s \<Rightarrow> txid \<Rightarrow> CCoins option \<times> 's) \<Rightarrow> 's cached \<Rightarrow> txid \<Rightarrow> CCoinsCacheEntry option \<times> 's cached" where
  "FetchCoins base_GetCoins st t =
     (case st of (v, s) \<Rightarrow>
        case map_of (cacheCoins v) t of
          Some e \<Rightarrow> (Some e, (v, s))
        | None \<Rightarrow>
            (case base_GetCoins s t of
               (None, s) \<Rightarrow> (None, (v, s))
             | (Some tmp, s) \<Rightarrow>
                 (let e = \<lparr>e_coins = tmp, DIRTY = False, FRESH = IsPruned tmp\<rparr>
                  in (Some e, (v\<lparr>cacheCoins := map_set t e (cacheCoins v)\<rparr>, s)))))"

definition GetCoins ::
    "('s \<Rightarrow> txid \<Rightarrow> CCoins option \<times> 's) \<Rightarrow> 's cached \<Rightarrow> txid \<Rightarrow> CCoins option \<times> 's cached" where
  "GetCoins base_GetCoins st t =
     (case FetchCoins base_GetCoins st t of (it, st) \<Rightarrow> (map_option e_coins it, st))"

definition HaveCoins ::
    "('s \<Rightarrow> txid \<Rightarrow> CCoins option \<times> 's) \<Rightarrow> 's cached \<Rightarrow> txid \<Rightarrow> bool \<times> 's cached" where
  "HaveCoins base_GetCoins st t =
     (case FetchCoins base_GetCoins st t of (it, st) \<Rightarrow>
        (case it of None \<Rightarrow> False | Some e \<Rightarrow> c_vout (e_coins e) \<noteq> [], st))"

text \<open>\<open>ModifyCoins\<close> opens a modifier on an entry; its destructor closes it.\<close>

definition ModifyCoins ::
    "('s \<Rightarrow> txid \<Rightarrow> CCoins option \<times> 's) \<Rightarrow> 's cached \<Rightarrow> txid \<Rightarrow> (CCoins \<times> 's cached) cpp" where
  "ModifyCoins base_GetCoins st t =
     (case st of (v, s) \<Rightarrow>
        bind_cpp (assert_cpp (\<not> hasModifier v)) (\<lambda>_.
          let (e, s) =
                (case map_of (cacheCoins v) t of
                   Some e \<Rightarrow> (e, s)
                 | None \<Rightarrow>
                     (case base_GetCoins s t of
                        (None, s) \<Rightarrow> (\<lparr>e_coins = CCoins_Clear, DIRTY = False, FRESH = True\<rparr>, s)
                      | (Some c, s) \<Rightarrow> (\<lparr>e_coins = c, DIRTY = False, FRESH = IsPruned c\<rparr>, s)));
              e = e\<lparr>DIRTY := True\<rparr>
          in Inr (e_coins e, (v\<lparr>hasModifier := True, cacheCoins := map_set t e (cacheCoins v)\<rparr>, s))))"

definition close_modifier :: "'s cached \<Rightarrow> txid \<Rightarrow> CCoins \<Rightarrow> 's cached cpp" where
  "close_modifier st t coins =
     (case st of (v, s) \<Rightarrow>
        bind_cpp (assert_cpp (hasModifier v)) (\<lambda>_.
          case map_of (cacheCoins v) t of
            None \<Rightarrow> Inl OutOfRange
          | Some e \<Rightarrow>
              (let v = v\<lparr>hasModifier := False\<rparr>; e = e\<lparr>e_coins := Cleanup coins\<rparr>
               in Inr (v\<lparr>cacheCoins := (if FRESH e \<and> IsPruned (e_coins e) then map_erase t (cacheCoins v)
                                         else map_set t e (cacheCoins v))\<rparr>, s))))"

text \<open>A modifier that lives for one change \<open>f\<close> of the coins.\<close>

definition modify ::
    "('s \<Rightarrow> txid \<Rightarrow> CCoins option \<times> 's) \<Rightarrow> 's cached \<Rightarrow> txid \<Rightarrow> (CCoins \<Rightarrow> ('a \<times> CCoins) cpp option)
       \<Rightarrow> ('a \<times> 's cached) cpp option" where
  "modify base_GetCoins st t f =
     (case ModifyCoins base_GetCoins st t of
        Inl e \<Rightarrow> Some (Inl e)
      | Inr (coins, st) \<Rightarrow>
          (case f coins of
             None \<Rightarrow> None
           | Some (Inl e) \<Rightarrow> Some (Inl e)
           | Some (Inr (x, coins)) \<Rightarrow> Some (map_sum id (\<lambda>st. (x, st)) (close_modifier st t coins))))"

definition SetBestBlock :: "'s cached \<Rightarrow> base_uint \<Rightarrow> 's cached" where
  "SetBestBlock st h = (case st of (v, s) \<Rightarrow> (v\<lparr>hashBlock := h\<rparr>, s))"

definition GetBestBlock :: "('s \<Rightarrow> base_uint) \<Rightarrow> 's cached \<Rightarrow> base_uint \<times> 's cached" where
  "GetBestBlock base_GetBestBlock st =
     (case st of (v, s) \<Rightarrow>
        let v = (if hashBlock v = bn_zero 8 then v\<lparr>hashBlock := base_GetBestBlock s\<rparr> else v)
        in (hashBlock v, (v, s)))"

definition batch_entry :: "CCoinsMap \<Rightarrow> txid \<Rightarrow> CCoinsCacheEntry \<Rightarrow> CCoinsMap cpp" where
  "batch_entry cache t e =
     (if DIRTY e then
        (case map_of cache t of
           None \<Rightarrow>
             if \<not> IsPruned (e_coins e) then
               bind_cpp (assert_cpp (FRESH e)) (\<lambda>_.
                 Inr (map_set t \<lparr>e_coins = e_coins e, DIRTY = True, FRESH = True\<rparr> cache))
             else Inr cache
         | Some u \<Rightarrow>
             if FRESH u \<and> IsPruned (e_coins e) then Inr (map_erase t cache)
             else Inr (map_set t (u\<lparr>e_coins := e_coins e, DIRTY := True\<rparr>) cache))
      else Inr cache)"

fun batch_loop :: "CCoinsMap \<Rightarrow> CCoinsMap \<Rightarrow> CCoinsMap cpp" where
  "batch_loop cache [] = Inr cache"
| "batch_loop cache ((t, e) # mapCoins) = bind_cpp (batch_entry cache t e) (\<lambda>cache. batch_loop cache mapCoins)"

definition BatchWrite :: "'s cached \<Rightarrow> CCoinsMap \<Rightarrow> base_uint \<Rightarrow> 's cached cpp" where
  "BatchWrite st mapCoins hash =
     (case st of (v, s) \<Rightarrow>
        bind_cpp (assert_cpp (\<not> hasModifier v)) (\<lambda>_.
        bind_cpp (batch_loop (cacheCoins v) mapCoins) (\<lambda>cache.
          Inr (v\<lparr>cacheCoins := cache, hashBlock := hash\<rparr>, s))))"

definition Flush :: "('s \<Rightarrow> CCoinsMap \<Rightarrow> base_uint \<Rightarrow> 's cpp) \<Rightarrow> 's cached \<Rightarrow> 's cached cpp" where
  "Flush base_BatchWrite st =
     (case st of (v, s) \<Rightarrow>
        bind_cpp (base_BatchWrite s (cacheCoins v) (hashBlock v)) (\<lambda>s. Inr (v\<lparr>cacheCoins := []\<rparr>, s)))"

subsection \<open>Inputs of transactions\<close>

definition GetOutputFor ::
    "('s \<Rightarrow> txid \<Rightarrow> CCoins option \<times> 's) \<Rightarrow> 's cached \<Rightarrow> CTxIn \<Rightarrow> (CTxOut \<times> 's cached) cpp" where
  "GetOutputFor base_GetCoins st txin =
     (case GetCoins base_GetCoins st (out_hash (prevout txin)) of
        (Some coins, st) \<Rightarrow>
          bind_cpp (assert_cpp (IsAvailable coins (unat (out_n (prevout txin))))) (\<lambda>_.
            Inr (c_vout coins ! unat (out_n (prevout txin)), st))
      | (None, st) \<Rightarrow> Inl AssertionFailed)"

fun value_in_loop ::
    "('s \<Rightarrow> txid \<Rightarrow> CCoins option \<times> 's) \<Rightarrow> 's cached \<Rightarrow> CTxIn list \<Rightarrow> int \<Rightarrow> (int \<times> 's cached) cpp" where
  "value_in_loop base_GetCoins st [] nResult = Inr (nResult, st)"
| "value_in_loop base_GetCoins st (txin # ins) nResult =
     bind_cpp (GetOutputFor base_GetCoins st txin) (\<lambda>(txout, st).
       value_in_loop base_GetCoins st ins (nResult + nValue txout))"

definition GetValueIn ::
    "('s \<Rightarrow> txid \<Rightarrow> CCoins option \<times> 's) \<Rightarrow> bool \<Rightarrow> 's cached \<Rightarrow> CTransaction \<Rightarrow> (int \<times> 's cached) cpp" where
  "GetValueIn base_GetCoins MCP_WITH_NATIVE_CURRENCY st tx =
     (if \<not> MCP_WITH_NATIVE_CURRENCY then Inr (0, st)
      else if IsCoinBase tx then Inr (0, st)
      else value_in_loop base_GetCoins st (vin tx) 0)"

fun have_inputs_loop ::
    "('s \<Rightarrow> txid \<Rightarrow> CCoins option \<times> 's) \<Rightarrow> 's cached \<Rightarrow> CTxIn list \<Rightarrow> bool \<times> 's cached" where
  "have_inputs_loop base_GetCoins st [] = (True, st)"
| "have_inputs_loop base_GetCoins st (txin # ins) =
     (case GetCoins base_GetCoins st (out_hash (prevout txin)) of
        (None, st) \<Rightarrow> (False, st)
      | (Some coins, st) \<Rightarrow>
          if \<not> IsAvailable coins (unat (out_n (prevout txin))) then (False, st)
          else have_inputs_loop base_GetCoins st ins)"

definition HaveInputs ::
    "('s \<Rightarrow> txid \<Rightarrow> CCoins option \<times> 's) \<Rightarrow> 's cached \<Rightarrow> CTransaction \<Rightarrow> bool \<times> 's cached" where
  "HaveInputs base_GetCoins st tx =
     (if IsCoinBase tx then (True, st) else have_inputs_loop base_GetCoins st (vin tx))"

section \<open>The contract of a view\<close>

definition live :: "CCoins option \<Rightarrow> CCoins option" where
  "live r = (case r of Some c \<Rightarrow> if IsPruned c then None else Some c | None \<Rightarrow> None)"

text \<open>Coins as they are stored: no trailing spent output, and spent outputs cleared.\<close>

definition clean :: "CCoins \<Rightarrow> bool" where
  "clean c \<longleftrightarrow> (c_vout c = [] \<or> \<not> txout_IsNull (last (c_vout c)))
     \<and> (\<forall>o' \<in> set (c_vout c). txout_IsNull o' \<longrightarrow> o' = CTxOut_null)"

definition nulls_clear :: "CCoins \<Rightarrow> bool" where
  "nulls_clear c \<longleftrightarrow> (\<forall>o' \<in> set (c_vout c). txout_IsNull o' \<longrightarrow> o' = CTxOut_null)"

definition batch_ok :: "('s \<Rightarrow> txid \<Rightarrow> CCoins option) \<Rightarrow> ('s \<Rightarrow> txid \<Rightarrow> bool) \<Rightarrow> 's \<Rightarrow> CCoinsMap \<Rightarrow> bool" where
  "batch_ok utxo held s m \<longleftrightarrow> distinct (map fst m) \<and>
     (\<forall>(t, e) \<in> set m. clean (e_coins e) \<and> (FRESH e \<longrightarrow> utxo s t = None) \<and> (\<not> FRESH e \<longrightarrow> held s t))"

definition apply_batch :: "CCoinsMap \<Rightarrow> (txid \<Rightarrow> CCoins option) \<Rightarrow> txid \<Rightarrow> CCoins option" where
  "apply_batch m U t =
     (case map_of m t of None \<Rightarrow> U t | Some e \<Rightarrow> if DIRTY e then live (Some (e_coins e)) else U t)"

locale coins_view =
  fixes getc :: "'s \<Rightarrow> txid \<Rightarrow> CCoins option \<times> 's"
    and batch :: "'s \<Rightarrow> CCoinsMap \<Rightarrow> base_uint \<Rightarrow> 's cpp"
    and vinv :: "'s \<Rightarrow> bool" and utxo :: "'s \<Rightarrow> txid \<Rightarrow> CCoins option" and held :: "'s \<Rightarrow> txid \<Rightarrow> bool"
  assumes get_coins: "vinv s \<Longrightarrow> getc s t = (r, s') \<Longrightarrow>
      live r = utxo s t \<and> (\<forall>c. r = Some c \<longrightarrow> clean c) \<and> vinv s' \<and> utxo s' = utxo s
      \<and> (\<forall>x. held s x \<longrightarrow> held s' x) \<and> (utxo s t \<noteq> None \<longrightarrow> held s' t)"
    and batch_write: "vinv s \<Longrightarrow> batch_ok utxo held s m \<Longrightarrow>
      \<exists>s'. batch s m h = Inr s' \<and> vinv s' \<and> utxo s' = apply_batch m (utxo s)"

text \<open>What a cache makes of its base.\<close>

definition overlay :: "CCoinsMap \<Rightarrow> (txid \<Rightarrow> CCoins option) \<Rightarrow> txid \<Rightarrow> CCoins option" where
  "overlay m U t = (case map_of m t of None \<Rightarrow> U t | Some e \<Rightarrow> live (Some (e_coins e)))"

definition cache_utxo :: "('s \<Rightarrow> txid \<Rightarrow> CCoins option) \<Rightarrow> 's cached \<Rightarrow> txid \<Rightarrow> CCoins option" where
  "cache_utxo utxo st = overlay (cacheCoins (fst st)) (utxo (snd st))"

definition cache_held :: "'s cached \<Rightarrow> txid \<Rightarrow> bool" where
  "cache_held st t \<longleftrightarrow> map_of (cacheCoins (fst st)) t \<noteq> None"

definition entry_ok :: "('s \<Rightarrow> txid \<Rightarrow> CCoins option) \<Rightarrow> ('s \<Rightarrow> txid \<Rightarrow> bool) \<Rightarrow> 's \<Rightarrow> txid \<Rightarrow> CCoinsCacheEntry \<Rightarrow> bool" where
  "entry_ok utxo held s t e \<longleftrightarrow> clean (e_coins e) \<and> (FRESH e \<longrightarrow> utxo s t = None) \<and> (\<not> FRESH e \<longrightarrow> held s t)
     \<and> (\<not> DIRTY e \<longrightarrow> live (Some (e_coins e)) = utxo s t)"

definition map_ok :: "('s \<Rightarrow> txid \<Rightarrow> CCoins option) \<Rightarrow> ('s \<Rightarrow> txid \<Rightarrow> bool) \<Rightarrow> 's \<Rightarrow> CCoinsMap \<Rightarrow> bool" where
  "map_ok utxo held s m \<longleftrightarrow> distinct (map fst m) \<and> (\<forall>t e. map_of m t = Some e \<longrightarrow> entry_ok utxo held s t e)"

definition cache_inv ::
    "('s \<Rightarrow> bool) \<Rightarrow> ('s \<Rightarrow> txid \<Rightarrow> CCoins option) \<Rightarrow> ('s \<Rightarrow> txid \<Rightarrow> bool) \<Rightarrow> 's cached \<Rightarrow> bool" where
  "cache_inv vinv utxo held st \<longleftrightarrow>
     vinv (snd st) \<and> \<not> hasModifier (fst st) \<and> map_ok utxo held (snd st) (cacheCoins (fst st))"

subsection \<open>Maps\<close>

lemma map_of_map_set: "map_of (map_set t e m) = (map_of m)(t \<mapsto> e)"
proof -
  have "map_of (map (\<lambda>(x, y). if x = t then (x, e) else (x, y)) m) = (map_of m)(t := map_option (\<lambda>_. e) (map_of m t))"
    by (induction m) (auto simp: fun_eq_iff)
  then show ?thesis by (auto simp: map_set_def fun_eq_iff)
qed

lemma map_of_map_erase: "map_of (map_erase t m) = (map_of m)(t := None)"
  by (induction m) (auto simp: map_erase_def fun_eq_iff)

lemma fst_map_set: "map fst (map_set t e m) = (if map_of m t = None then t # map fst m else map fst m)"
  by (auto simp: map_set_def comp_def case_prod_unfold)

lemma distinct_map_set [simp]: "distinct (map fst m) \<Longrightarrow> distinct (map fst (map_set t e m))"
  unfolding fst_map_set by (auto simp: map_of_eq_None_iff)

lemma distinct_map_erase [simp]: "distinct (map fst m) \<Longrightarrow> distinct (map fst (map_erase t m))"
  by (simp add: map_erase_def distinct_map_filter)

lemma map_ok_set:
  "map_ok utxo held s m \<Longrightarrow> entry_ok utxo held s t e \<Longrightarrow> map_ok utxo held s (map_set t e m)"
  by (auto simp: map_ok_def map_of_map_set)

lemma map_ok_erase: "map_ok utxo held s m \<Longrightarrow> map_ok utxo held s (map_erase t m)"
  by (auto simp: map_ok_def map_of_map_erase split: if_splits)

lemma map_ok_mono:
  assumes "map_ok utxo held s m" "utxo s' = utxo s" "\<forall>x. held s x \<longrightarrow> held s' x"
  shows "map_ok utxo held s' m"
  using assms by (auto simp: map_ok_def entry_ok_def)

subsection \<open>Coins\<close>

lemma IsPruned_Cleanup [simp]: "IsPruned (Cleanup c) = IsPruned c"
proof -
  have "list_all P (dropWhile P ys) = list_all P ys" for P and ys :: "CTxOut list"
    by (induction ys) auto
  then show ?thesis by (simp add: IsPruned_def Cleanup_def)
qed

lemma clean_Cleanup: "nulls_clear c \<Longrightarrow> clean (Cleanup c)"
proof -
  assume n: "nulls_clear c"
  let ?d = "dropWhile txout_IsNull (rev (c_vout c))"
  have "set ?d \<subseteq> set (c_vout c)" using set_dropWhileD by fastforce
  moreover have "?d = [] \<or> \<not> txout_IsNull (hd ?d)" by (metis hd_dropWhile)
  ultimately show ?thesis using n by (auto simp: clean_def Cleanup_def nulls_clear_def last_rev)
qed

lemma Cleanup_clean: "clean c \<Longrightarrow> Cleanup c = c"
  using drop_trailing_nulls [of "c_vout c" 0] by (simp add: clean_def Cleanup_def)

lemma clean_pruned: "clean c \<Longrightarrow> IsPruned c \<longleftrightarrow> c_vout c = []"
  by (cases "c_vout c = []") (auto simp: clean_def IsPruned_def list_all_iff dest: last_in_set)

lemma clean_Clear [simp]: "clean CCoins_Clear" "IsPruned CCoins_Clear"
  by (simp_all add: clean_def CCoins_Clear_def IsPruned_def)

lemma live_simps [simp]: "live None = None" "IsPruned c \<Longrightarrow> live (Some c) = None" "\<not> IsPruned c \<Longrightarrow> live (Some c) = Some c"
  by (simp_all add: live_def)


subsection \<open>The database is a view\<close>

abbreviation db_inv :: "CCoinsViewDB \<Rightarrow> bool" where
  "db_inv db \<equiv> \<forall>t c. db_coins db t = Some c \<longrightarrow> clean c \<and> \<not> IsPruned c"

lemma db_coins_BatchWriteCoins [simp]: "db_coins (BatchWriteCoins db t c) = (db_coins db)(t := live (Some c))"
  by (simp add: BatchWriteCoins_def live_def)

lemma db_fold:
  "distinct (map fst m) \<Longrightarrow>
   db_coins (foldl (\<lambda>db (t, e). if DIRTY e then BatchWriteCoins db t (e_coins e) else db) db m)
     = apply_batch m (db_coins db)"
proof (induction m arbitrary: db)
  case (Cons x m)
  obtain t e where x: "x = (t, e)" by (cases x)
  have "t \<notin> fst ` set m" using Cons.prems x by simp
  then have "map_of m t = None" by (simp add: map_of_eq_None_iff)
  then show ?case using Cons x by (auto simp: fun_eq_iff apply_batch_def split: option.split)
qed (simp add: apply_batch_def fun_eq_iff)

interpretation db: coins_view db_GetCoins db_BatchWrite db_inv db_coins "\<lambda>db t. True"
proof
  fix s t r s' assume "db_inv s" "db_GetCoins s t = (r, s')"
  then show "live r = db_coins s t \<and> (\<forall>c. r = Some c \<longrightarrow> clean c) \<and> db_inv s' \<and> db_coins s' = db_coins s
      \<and> (\<forall>x. True \<longrightarrow> True) \<and> (db_coins s t \<noteq> None \<longrightarrow> True)"
    by (auto simp: db_GetCoins_def live_def split: option.split)
next
  fix s m h assume s: "db_inv s" and m: "batch_ok db_coins (\<lambda>db t. True) s m"
  let ?s = "foldl (\<lambda>db (t, e). if DIRTY e then BatchWriteCoins db t (e_coins e) else db) s m"
  have u: "db_coins ?s = apply_batch m (db_coins s)" using m by (intro db_fold) (simp add: batch_ok_def)
  have "db_inv ?s" unfolding u using s m
    by (auto simp: apply_batch_def batch_ok_def live_def dest!: map_of_SomeD split: option.splits if_splits)
  then show "\<exists>s'. db_BatchWrite s m h = Inr s' \<and> db_inv s' \<and> db_coins s' = apply_batch m (db_coins s)"
    using u by (simp add: db_BatchWrite_def Let_def)
qed


subsection \<open>A cache over a view is a view\<close>

lemma overlay_set: "overlay (map_set t e m) U = (overlay m U)(t := live (Some (e_coins e)))"
  by (auto simp: overlay_def map_of_map_set fun_eq_iff)

lemma overlay_erase: "overlay (map_erase t m) U = (overlay m U)(t := U t)"
  by (auto simp: overlay_def map_of_map_erase fun_eq_iff)

lemma overlay_Nil [simp]: "overlay [] U = U"
  by (simp add: overlay_def fun_eq_iff)

lemma apply_batch_Cons:
  "t \<notin> fst ` set m \<Longrightarrow>
   apply_batch ((t, e) # m) U = apply_batch m (if DIRTY e then U(t := live (Some (e_coins e))) else U)"
proof -
  assume "t \<notin> fst ` set m"
  then have "map_of m t = None" by (simp add: map_of_eq_None_iff)
  then show ?thesis by (auto simp: apply_batch_def fun_eq_iff split: option.split)
qed

lemma map_ok_batch: "map_ok utxo held s m \<Longrightarrow> batch_ok utxo held s m"
  by (auto simp: map_ok_def batch_ok_def entry_ok_def)

lemma map_ok_overlay: "map_ok utxo held s m \<Longrightarrow> apply_batch m (utxo s) = overlay m (utxo s)"
  by (auto simp: map_ok_def apply_batch_def overlay_def entry_ok_def fun_eq_iff split: option.split)

text \<open>One entry of a batch: the assertion holds, and the cache takes over the entry's coins.\<close>

lemma batch_entry_ok:
  assumes m: "map_ok utxo held s cache" and c: "clean (e_coins e)"
    and f: "FRESH e \<Longrightarrow> overlay cache (utxo s) t = None" and h: "\<not> FRESH e \<Longrightarrow> map_of cache t \<noteq> None"
  shows "\<exists>cache'. batch_entry cache t e = Inr cache' \<and> map_ok utxo held s cache'
    \<and> overlay cache' (utxo s) = (if DIRTY e then (overlay cache (utxo s))(t := live (Some (e_coins e))) else overlay cache (utxo s))
    \<and> (\<forall>x. x \<noteq> t \<longrightarrow> map_of cache' x = map_of cache x)"
proof (cases "DIRTY e")
  case d: True
  show ?thesis
  proof (cases "map_of cache t")
    case None
    then have fr: "FRESH e" and u: "utxo s t = None" using f h by (auto simp: overlay_def)
    show ?thesis
    proof (cases "IsPruned (e_coins e)")
      case True
      then have "(overlay cache (utxo s))(t := live (Some (e_coins e))) = overlay cache (utxo s)"
        using None u by (auto simp: overlay_def fun_eq_iff)
      then show ?thesis using d None True m by (simp add: batch_entry_def)
    next
      case False
      let ?e = "\<lparr>e_coins = e_coins e, DIRTY = True, FRESH = True\<rparr>"
      have "entry_ok utxo held s t ?e" using c u by (simp add: entry_ok_def)
      from map_ok_set [OF m this] show ?thesis
        using d None False fr by (simp add: batch_entry_def overlay_set map_of_map_set)
    qed
  next
    case (Some u)
    then have eo: "entry_ok utxo held s t u" using m by (simp add: map_ok_def)
    show ?thesis
    proof (cases "FRESH u \<and> IsPruned (e_coins e)")
      case True
      then show ?thesis using d Some map_ok_erase [OF m] eo
        by (simp add: batch_entry_def overlay_erase map_of_map_erase entry_ok_def)
    next
      case False
      have "entry_ok utxo held s t (u\<lparr>e_coins := e_coins e, DIRTY := True\<rparr>)" using c eo by (simp add: entry_ok_def)
      from map_ok_set [OF m this] show ?thesis
        using d Some False by (auto simp: batch_entry_def overlay_set map_of_map_set)
    qed
  qed
qed (use m in \<open>simp add: batch_entry_def\<close>)

lemma batch_loop_ok:
  assumes "map_ok utxo held s cache" "distinct (map fst m)"
    and "\<And>t e. (t, e) \<in> set m \<Longrightarrow> clean (e_coins e) \<and> (FRESH e \<longrightarrow> overlay cache (utxo s) t = None)
           \<and> (\<not> FRESH e \<longrightarrow> map_of cache t \<noteq> None)"
  shows "\<exists>cache'. batch_loop cache m = Inr cache' \<and> map_ok utxo held s cache'
    \<and> overlay cache' (utxo s) = apply_batch m (overlay cache (utxo s))"
  using assms
proof (induction m arbitrary: cache)
  case Nil
  then show ?case by (simp add: apply_batch_def fun_eq_iff)
next
  case (Cons x m)
  obtain t e where x: "x = (t, e)" by (cases x)
  have t: "t \<notin> fst ` set m" and d: "distinct (map fst m)" using Cons.prems(2) x by simp_all
  obtain cache1 where b: "batch_entry cache t e = Inr cache1" and m1: "map_ok utxo held s cache1"
    and u1: "overlay cache1 (utxo s)
      = (if DIRTY e then (overlay cache (utxo s))(t := live (Some (e_coins e))) else overlay cache (utxo s))"
    and o1: "\<forall>x. x \<noteq> t \<longrightarrow> map_of cache1 x = map_of cache x"
    using batch_entry_ok [OF Cons.prems(1), of e t] Cons.prems(3) [of t e] x by auto
  have "clean (e_coins e') \<and> (FRESH e' \<longrightarrow> overlay cache1 (utxo s) t' = None) \<and> (\<not> FRESH e' \<longrightarrow> map_of cache1 t' \<noteq> None)"
    if "(t', e') \<in> set m" for t' e'
  proof -
    have "t' \<noteq> t" using that t by force
    then have "map_of cache1 t' = map_of cache t'" using o1 by simp
    then show ?thesis using Cons.prems(3) [of t' e'] that by (simp add: overlay_def)
  qed
  from Cons.IH [OF m1 d this] show ?case using b u1 by (simp add: x apply_batch_Cons [OF t])
qed

context coins_view
begin

text \<open>The base is asked for an entry that the cache does not hold.\<close>

lemma fetch_base:
  assumes i: "cache_inv vinv utxo held (v, s)" and g: "getc s t = (r, s')"
  shows "cache_inv vinv utxo held (v, s')" "cache_utxo utxo (v, s') = cache_utxo utxo (v, s)" "live r = utxo s' t"
    and "r = Some c \<Longrightarrow> entry_ok utxo held s' t \<lparr>e_coins = c, DIRTY = False, FRESH = IsPruned c\<rparr>"
proof -
  have "vinv s" and m: "map_ok utxo held s (cacheCoins v)" using i by (simp_all add: cache_inv_def)
  note get = get_coins [OF this(1) g]
  show "cache_inv vinv utxo held (v, s')" using i get map_ok_mono [OF m, of s'] by (simp add: cache_inv_def)
  show "cache_utxo utxo (v, s') = cache_utxo utxo (v, s)" "live r = utxo s' t" using get by (simp_all add: cache_utxo_def)
  show "entry_ok utxo held s' t \<lparr>e_coins = c, DIRTY = False, FRESH = IsPruned c\<rparr>" if "r = Some c"
  proof -
    have u: "utxo s' t = live (Some c)" "clean c" "utxo s' t \<noteq> None \<longrightarrow> held s' t" using get that by simp_all
    show ?thesis using u(2,3) unfolding u(1) entry_ok_def by (cases "IsPruned c") simp_all
  qed
qed

lemma cache_set:
  assumes "cache_inv vinv utxo held (v, s)" "entry_ok utxo held s t e"
  shows "cache_inv vinv utxo held (v\<lparr>cacheCoins := map_set t e (cacheCoins v)\<rparr>, s)"
    and "cache_utxo utxo (v\<lparr>cacheCoins := map_set t e (cacheCoins v)\<rparr>, s) = (cache_utxo utxo (v, s))(t := live (Some (e_coins e)))"
  using assms map_ok_set [of utxo held s "cacheCoins v" t e] by (simp_all add: cache_inv_def cache_utxo_def overlay_set)

lemma FetchCoins_ok:
  assumes i: "cache_inv vinv utxo held st" and f: "FetchCoins getc st t = (it, st')"
  shows "live (map_option e_coins it) = cache_utxo utxo st t" "cache_inv vinv utxo held st'"
    "cache_utxo utxo st' = cache_utxo utxo st" "\<forall>e. it = Some e \<longrightarrow> clean (e_coins e)"
    "\<forall>x. cache_held st x \<longrightarrow> cache_held st' x" "cache_utxo utxo st t \<noteq> None \<longrightarrow> cache_held st' t"
proof -
  obtain v s where st: "st = (v, s)" by (cases st)
  have "live (map_option e_coins it) = cache_utxo utxo st t \<and> cache_inv vinv utxo held st'
    \<and> cache_utxo utxo st' = cache_utxo utxo st \<and> (\<forall>e. it = Some e \<longrightarrow> clean (e_coins e))
    \<and> (\<forall>x. cache_held st x \<longrightarrow> cache_held st' x) \<and> (cache_utxo utxo st t \<noteq> None \<longrightarrow> cache_held st' t)"
  proof (cases "map_of (cacheCoins v) t")
    case (Some e)
    then have "entry_ok utxo held s t e" using i by (simp add: st cache_inv_def map_ok_def)
    moreover have "it = Some e" "st' = st" using f Some by (simp_all add: FetchCoins_def st)
    ultimately show ?thesis using i Some
      by (simp add: st cache_utxo_def overlay_def cache_held_def entry_ok_def)
  next
    case None
    obtain r s' where g: "getc s t = (r, s')" by (cases "getc s t")
    note b = fetch_base [OF i [unfolded st] g]
    have u: "cache_utxo utxo st t = utxo s' t"
      using b(2) None by (simp add: st cache_utxo_def overlay_def fun_eq_iff) (metis None option.simps(4))
    show ?thesis
    proof (cases r)
      case None': None
      then show ?thesis using f b None g u by (auto simp: FetchCoins_def st cache_held_def)
    next
      case (Some c)
      let ?e = "\<lparr>e_coins = c, DIRTY = False, FRESH = IsPruned c\<rparr>"
      note n = cache_set [OF b(1) b(4) [OF Some]]
      have "it = Some ?e" "st' = (v\<lparr>cacheCoins := map_set t ?e (cacheCoins v)\<rparr>, s')"
        using f None g Some by (auto simp: FetchCoins_def st Let_def)
      then show ?thesis using n b u Some b(4) [OF Some]
        by (auto simp: cache_held_def map_of_map_set entry_ok_def st)
    qed
  qed
  then show "live (map_option e_coins it) = cache_utxo utxo st t" "cache_inv vinv utxo held st'"
    "cache_utxo utxo st' = cache_utxo utxo st" "\<forall>e. it = Some e \<longrightarrow> clean (e_coins e)"
    "\<forall>x. cache_held st x \<longrightarrow> cache_held st' x" "cache_utxo utxo st t \<noteq> None \<longrightarrow> cache_held st' t" by blast+
qed

lemma GetCoins_ok:
  assumes "cache_inv vinv utxo held st" and "GetCoins getc st t = (r, st')"
  shows "live r = cache_utxo utxo st t \<and> (\<forall>c. r = Some c \<longrightarrow> clean c) \<and> cache_inv vinv utxo held st'
    \<and> cache_utxo utxo st' = cache_utxo utxo st \<and> (\<forall>x. cache_held st x \<longrightarrow> cache_held st' x)
    \<and> (cache_utxo utxo st t \<noteq> None \<longrightarrow> cache_held st' t)"
proof -
  obtain it st1 where f: "FetchCoins getc st t = (it, st1)" by (cases "FetchCoins getc st t")
  then have "r = map_option e_coins it" "st' = st1" using assms(2) by (auto simp: GetCoins_def)
  then show ?thesis using FetchCoins_ok [OF assms(1) f] by auto
qed

lemma BatchWrite_ok:
  assumes "cache_inv vinv utxo held st" "batch_ok (cache_utxo utxo) cache_held st m"
  shows "\<exists>st'. BatchWrite st m h = Inr st' \<and> cache_inv vinv utxo held st'
    \<and> cache_utxo utxo st' = apply_batch m (cache_utxo utxo st)"
proof -
  obtain v s where st: "st = (v, s)" by (cases st)
  have "map_ok utxo held s (cacheCoins v)" using assms(1) by (simp add: st cache_inv_def)
  note b = batch_loop_ok [OF this, of m]
  obtain cache' where "batch_loop (cacheCoins v) m = Inr cache'" "map_ok utxo held s cache'"
    "overlay cache' (utxo s) = apply_batch m (overlay (cacheCoins v) (utxo s))"
    using b assms(2) unfolding batch_ok_def st cache_utxo_def cache_held_def by force
  then show ?thesis using assms(1) by (simp add: BatchWrite_def st cache_inv_def cache_utxo_def)
qed

lemma cache_view: "coins_view (GetCoins getc) BatchWrite (cache_inv vinv utxo held) (cache_utxo utxo) cache_held"
  by unfold_locales (use GetCoins_ok BatchWrite_ok in blast)+

lemma Flush_ok:
  assumes "cache_inv vinv utxo held st"
  shows "\<exists>st'. Flush batch st = Inr st' \<and> cache_inv vinv utxo held st' \<and> cache_utxo utxo st' = cache_utxo utxo st
    \<and> utxo (snd st') = cache_utxo utxo st"
proof -
  obtain v s where st: "st = (v, s)" by (cases st)
  have v: "vinv s" and m: "map_ok utxo held s (cacheCoins v)" using assms by (simp_all add: st cache_inv_def)
  obtain s' where "batch s (cacheCoins v) (hashBlock v) = Inr s'" "vinv s'" "utxo s' = apply_batch (cacheCoins v) (utxo s)"
    using batch_write [OF v map_ok_batch [OF m]] by blast
  then show ?thesis using assms map_ok_overlay [OF m] by (simp add: Flush_def st cache_inv_def cache_utxo_def map_ok_def)
qed

text \<open>A modifier: the coins it opens are those of the view, and closing it stores the changed ones.\<close>

lemma ModifyCoins_ok:
  assumes i: "cache_inv vinv utxo held st"
  obtains c v s e where "ModifyCoins getc st t = Inr (c, (v\<lparr>hasModifier := True, cacheCoins := map_set t e (cacheCoins v)\<rparr>, s))"
    "clean c" "live (Some c) = cache_utxo utxo st t" "e_coins e = c" "DIRTY e" "entry_ok utxo held s t e"
    "cache_inv vinv utxo held (v, s)" "cache_utxo utxo (v, s) = cache_utxo utxo st"
proof -
  obtain v s where st: "st = (v, s)" by (cases st)
  have nm: "\<not> hasModifier v" using i by (simp add: st cache_inv_def)
  show ?thesis
  proof (cases "map_of (cacheCoins v) t")
    case (Some e)
    then have "entry_ok utxo held s t e" using i by (simp add: st cache_inv_def map_ok_def)
    then show ?thesis using nm i Some
      by (intro that [of "e_coins e" "e\<lparr>DIRTY := True\<rparr>" v s])
         (auto simp: ModifyCoins_def st cache_utxo_def overlay_def entry_ok_def)
  next
    case None
    obtain r s' where g: "getc s t = (r, s')" by (cases "getc s t")
    note b = fetch_base [OF i [unfolded st] g]
    have u: "cache_utxo utxo st t = utxo s' t"
      using b(2) None by (simp add: st cache_utxo_def overlay_def fun_eq_iff) (metis None option.simps(4))
    show ?thesis
    proof (cases r)
      case None': None
      then show ?thesis using nm None g b u
        by (intro that [of CCoins_Clear "\<lparr>e_coins = CCoins_Clear, DIRTY = True, FRESH = True\<rparr>" v s'])
           (auto simp: ModifyCoins_def st entry_ok_def)
    next
      case (Some c)
      then show ?thesis using nm None g b(1-3) b(4) [OF Some] u
        by (intro that [of c "\<lparr>e_coins = c, DIRTY = True, FRESH = IsPruned c\<rparr>" v s'])
           (auto simp: ModifyCoins_def st entry_ok_def)
    qed
  qed
qed

lemma modify_ok:
  assumes i: "cache_inv vinv utxo held st"
  obtains c where "clean c" "live (Some c) = cache_utxo utxo st t"
    "\<And>x c'. f c = Some (Inr (x, c')) \<Longrightarrow> nulls_clear c' \<Longrightarrow>
       \<exists>st'. modify getc st t f = Some (Inr (x, st')) \<and> cache_inv vinv utxo held st'
         \<and> cache_utxo utxo st' = (cache_utxo utxo st)(t := live (Some (Cleanup c')))"
proof -
  obtain c v s e where m: "ModifyCoins getc st t = Inr (c, (v\<lparr>hasModifier := True, cacheCoins := map_set t e (cacheCoins v)\<rparr>, s))"
    and c: "clean c" "live (Some c) = cache_utxo utxo st t" and e: "e_coins e = c" "DIRTY e" "entry_ok utxo held s t e"
    and vs: "cache_inv vinv utxo held (v, s)" "cache_utxo utxo (v, s) = cache_utxo utxo st"
    using ModifyCoins_ok [OF i, of t] by metis
  show ?thesis
  proof (rule that [OF c])
    fix x c' assume f: "f c = Some (Inr (x, c'))" and n: "nulls_clear c'"
    define e' where "e' = e\<lparr>e_coins := Cleanup c'\<rparr>"
    have e': "entry_ok utxo held s t e'" using e clean_Cleanup [OF n] by (simp add: e'_def entry_ok_def)
    have nm: "\<not> hasModifier v" using vs by (simp add: cache_inv_def)
    let ?m = "map_set t e (cacheCoins v)"
    have mm: "map_of ?m t = Some e" by (simp add: map_of_map_set)
    have mok: "map_ok utxo held s ?m" using vs e map_ok_set by (auto simp: cache_inv_def)
    have ov: "overlay (map_set t e' ?m) (utxo s) = (cache_utxo utxo st)(t := live (Some (Cleanup c')))"
      "overlay (map_erase t ?m) (utxo s) = (cache_utxo utxo st)(t := utxo s t)"
      using vs(2) by (auto simp: overlay_set overlay_erase cache_utxo_def e'_def)
    let ?m' = "if FRESH e' \<and> IsPruned (e_coins e') then map_erase t ?m else map_set t e' ?m"
    have "map_ok utxo held s ?m'" using map_ok_erase [OF mok] map_ok_set [OF mok e'] by simp
    moreover have "overlay ?m' (utxo s) = (cache_utxo utxo st)(t := live (Some (Cleanup c')))"
      using ov e' by (auto simp: entry_ok_def e'_def)
    moreover have "modify getc st t f = Some (Inr (x, (v\<lparr>cacheCoins := ?m'\<rparr>, s)))"
      using m f mm nm by (simp add: modify_def close_modifier_def e'_def Let_def)
    ultimately show "\<exists>st'. modify getc st t f = Some (Inr (x, st')) \<and> cache_inv vinv utxo held st'
         \<and> cache_utxo utxo st' = (cache_utxo utxo st)(t := live (Some (Cleanup c')))"
      using vs(1) by (intro exI [of _ "(v\<lparr>cacheCoins := ?m'\<rparr>, s)"]) (simp add: cache_inv_def cache_utxo_def)
  qed
qed

lemma modify_result:
  assumes i: "cache_inv vinv utxo held st" and n: "nulls_clear c'"
    and f: "\<And>d. clean d \<Longrightarrow> live (Some d) = cache_utxo utxo st t \<Longrightarrow> f d = Some (Inr (x, c'))"
  shows "\<exists>st'. modify getc st t f = Some (Inr (x, st')) \<and> cache_inv vinv utxo held st'
    \<and> cache_utxo utxo st' = (cache_utxo utxo st)(t := live (Some (Cleanup c')))"
  using modify_ok [OF i, of t f] f n by metis

end

section \<open>The node's views\<close>

text \<open>
  \<open>pcoinsTip\<close> is a cache over the database, and a block is connected or disconnected on a cache over
  \<open>pcoinsTip\<close>.
\<close>

type_synonym coins_tip = "CCoinsViewDB cached"

abbreviation tip_inv :: "coins_tip \<Rightarrow> bool" where
  "tip_inv \<equiv> cache_inv db_inv db_coins (\<lambda>db t. True)"

abbreviation tip_utxo :: "coins_tip \<Rightarrow> txid \<Rightarrow> CCoins option" where
  "tip_utxo \<equiv> cache_utxo db_coins"

abbreviation view_inv :: "coins_tip cached \<Rightarrow> bool" where
  "view_inv \<equiv> cache_inv tip_inv tip_utxo cache_held"

abbreviation view_utxo :: "coins_tip cached \<Rightarrow> txid \<Rightarrow> CCoins option" where
  "view_utxo \<equiv> cache_utxo tip_utxo"

interpretation tip: coins_view "GetCoins db_GetCoins" BatchWrite tip_inv tip_utxo cache_held
  by (rule db.cache_view)

interpretation view: coins_view "GetCoins (GetCoins db_GetCoins)" BatchWrite view_inv view_utxo cache_held
  by (rule tip.cache_view)


definition example_db :: CCoinsViewDB where
  "example_db = \<lparr>db_coins = [replicate 8 7 \<mapsto> \<lparr>fCoinBase = False,
       c_vout = [\<lparr>nValue = 100, scriptPubKey = [0x51]\<rparr>, \<lparr>nValue = 50, scriptPubKey = [0x51]\<rparr>], c_nHeight = 3, c_nVersion = 1\<rparr>],
     db_best = None\<rparr>"

definition empty_cache :: CCoinsViewCache where
  "empty_cache = \<lparr>hasModifier = False, hashBlock = bn_zero 8, cacheCoins = []\<rparr>"

abbreviation example_view :: "coins_tip cached" where
  "example_view \<equiv> (empty_cache, (empty_cache, example_db))"

lemma example_view_inv: "view_inv example_view"
  by (auto simp: cache_inv_def map_ok_def empty_cache_def example_db_def clean_def IsPruned_def txout_IsNull_def)

text \<open>A block's cache that has a new entry and one for an entry that the caches below do not hold live.\<close>

definition example_dirty :: "coins_tip cached" where
  "example_dirty = (empty_cache\<lparr>cacheCoins := [(replicate 8 1,
       \<lparr>e_coins = \<lparr>fCoinBase = False, c_vout = [\<lparr>nValue = 9, scriptPubKey = [0x51]\<rparr>], c_nHeight = 4, c_nVersion = 1\<rparr>,
        DIRTY = True, FRESH = True\<rparr>)]\<rparr>, (empty_cache, example_db))"


text \<open>
  A read through the views gives the coins of the map when there are any, and otherwise nothing
  or coins with no output left; it changes no coins and keeps the invariant.
\<close>

lemma GetCoins_views:
  assumes "view_inv st" "GetCoins (GetCoins db_GetCoins) st t = (r, st')"
  shows "view_inv st'" "view_utxo st' = view_utxo st"
    "case view_utxo st t of Some c \<Rightarrow> r = Some c | None \<Rightarrow> (case r of None \<Rightarrow> True | Some c \<Rightarrow> c_vout c = [])"
proof -
  have g: "view_utxo st t = live r" "\<forall>c. r = Some c \<longrightarrow> clean c" and k: "view_inv st'" "view_utxo st' = view_utxo st"
    using tip.GetCoins_ok [OF assms] by simp_all
  from k show "view_inv st'" "view_utxo st' = view_utxo st" .
  show "case view_utxo st t of Some c \<Rightarrow> r = Some c | None \<Rightarrow> (case r of None \<Rightarrow> True | Some c \<Rightarrow> c_vout c = [])"
    unfolding g(1) using g(2) clean_pruned by (auto simp: live_def split: option.splits)
qed

end
