(* ===== verification/BlockCoins.thy ===== *)
theory BlockCoins
  imports CoinsView
begin

text \<open>
  What a block does to the unspent outputs (\<^verbatim>\<open>core/main.cpp\<close>): \<open>UpdateCoins\<close> spends the inputs of a
  transaction and adds its outputs, and \<open>DisconnectBlock\<close> takes a block's transactions back, last
  first, from the undo data that \<open>UpdateCoins\<close> wrote. The transaction hash is an argument, as are
  the block's hashes and height and the undo data as read from disk; the entries for the address
  and spent indexes are collected as the code collects them, and the database writes that follow
  are not part of the model.
\<close>

type_synonym 'a run = "'a cpp option"

definition bind_run :: "'a run \<Rightarrow> ('a \<Rightarrow> 'b run) \<Rightarrow> 'b run" where
  "bind_run r f = (case r of None \<Rightarrow> None | Some (Inl e) \<Rightarrow> Some (Inl e) | Some (Inr x) \<Rightarrow> f x)"

lemma bind_run_simps [simp]: "bind_run (Some (Inr x)) f = f x" "bind_run (Some (Inl e)) f = Some (Inl e)" "bind_run None f = None"
  by (simp_all add: bind_run_def)

lemma map_sum_Inr: "map_sum id f z = Inr y \<longleftrightarrow> (\<exists>x. z = Inr x \<and> y = f x)"
  by (cases z) auto

section \<open>Applying a transaction\<close>

fun spend_inputs ::
    "('s \<Rightarrow> txid \<Rightarrow> CCoins option \<times> 's) \<Rightarrow> 's cached \<Rightarrow> CTxIn list \<Rightarrow> (CTxInUndo list \<times> 's cached) run" where
  "spend_inputs base_GetCoins st [] = Some (Inr ([], st))"
| "spend_inputs base_GetCoins st (txin # ins) =
     bind_run (modify base_GetCoins st (out_hash (prevout txin)) (\<lambda>coins. Some
         (case Spend coins (unat (out_n (prevout txin))) of
            None \<Rightarrow> Inl AssertionFailed
          | Some (coins, undo) \<Rightarrow> Inr (undo, coins)))) (\<lambda>(undo, st).
     bind_run (spend_inputs base_GetCoins st ins) (\<lambda>(vprevout, st). Some (Inr (undo # vprevout, st))))"

definition add_outputs ::
    "('s \<Rightarrow> txid \<Rightarrow> CCoins option \<times> 's) \<Rightarrow> (CTransaction \<Rightarrow> txid) \<Rightarrow> 's cached \<Rightarrow> CTransaction \<Rightarrow> int \<Rightarrow> 's cached run" where
  "add_outputs base_GetCoins GetHash st tx nHeight =
     bind_run (modify base_GetCoins st (GetHash tx) (\<lambda>coins.
         bind_run (FromTx tx nHeight) (\<lambda>coins. Some (Inr ((), coins))))) (\<lambda>(_, st). Some (Inr st))"

definition UpdateCoins ::
    "('s \<Rightarrow> txid \<Rightarrow> CCoins option \<times> 's) \<Rightarrow> (CTransaction \<Rightarrow> txid) \<Rightarrow> CTransaction \<Rightarrow> 's cached \<Rightarrow> int
       \<Rightarrow> (CTxInUndo list \<times> 's cached) run" where
  "UpdateCoins base_GetCoins GetHash tx inputs nHeight =
     bind_run (if \<not> IsCoinBase tx then spend_inputs base_GetCoins inputs (vin tx) else Some (Inr ([], inputs)))
       (\<lambda>(vprevout, st). bind_run (add_outputs base_GetCoins GetHash st tx nHeight) (\<lambda>st. Some (Inr (vprevout, st))))"

text \<open>The calls of \<open>UpdateCoins\<close> in \<open>ConnectBlock\<close>; the undo data of the first transaction is dropped.\<close>

fun update_loop ::
    "('s \<Rightarrow> txid \<Rightarrow> CCoins option \<times> 's) \<Rightarrow> (CTransaction \<Rightarrow> txid) \<Rightarrow> CTransaction list \<Rightarrow> 's cached \<Rightarrow> int
       \<Rightarrow> (CTxInUndo list list \<times> 's cached) run" where
  "update_loop base_GetCoins GetHash [] st nHeight = Some (Inr ([], st))"
| "update_loop base_GetCoins GetHash (tx # txs) st nHeight =
     bind_run (UpdateCoins base_GetCoins GetHash tx st nHeight) (\<lambda>(undo, st).
     bind_run (update_loop base_GetCoins GetHash txs st nHeight) (\<lambda>(vtxundo, st). Some (Inr (undo # vtxundo, st))))"

definition update_block ::
    "('s \<Rightarrow> txid \<Rightarrow> CCoins option \<times> 's) \<Rightarrow> (CTransaction \<Rightarrow> txid) \<Rightarrow> CTransaction list \<Rightarrow> 's cached \<Rightarrow> int
       \<Rightarrow> (CTxInUndo list list \<times> 's cached) run" where
  "update_block base_GetCoins GetHash vtx st nHeight =
     bind_run (update_loop base_GetCoins GetHash vtx st nHeight) (\<lambda>(vtxundo, st). Some (Inr (tl vtxundo, st)))"

section \<open>Index entries\<close>

record CAddressIndexKey =
  ak_type :: nat
  ak_hashBytes :: bytes
  ak_blockHeight :: int
  ak_txindex :: nat
  ak_txhash :: txid
  ak_index :: nat
  ak_spending :: bool

record CAddressUnspentKey =
  uk_type :: nat
  uk_hashBytes :: bytes
  uk_txhash :: txid
  uk_index :: nat

record CAddressUnspentValue =
  satoshis :: int
  uv_script :: bytes
  uv_blockHeight :: int

definition CAddressUnspentValue_null :: CAddressUnspentValue where
  "CAddressUnspentValue_null = \<lparr>satoshis = - 1, uv_script = [], uv_blockHeight = 0\<rparr>"

record index_updates =
  addressIndex :: "(CAddressIndexKey \<times> int) list"
  addressUnspentIndex :: "(CAddressUnspentKey \<times> CAddressUnspentValue) list"
  spentIndex :: "(txid \<times> nat) list"

record index_flags =
  fAddressIndex :: bool
  fSpentIndex :: bool

definition address_of_script :: "bytes \<Rightarrow> (nat \<times> bytes) option" where
  "address_of_script s =
     (if IsPayToScriptHash s then Some (2, take 20 (drop 2 s))
      else if IsPayToPublicKeyHash s then Some (1, take 20 (drop 3 s)) else None)"

text \<open>Receiving activity of output \<open>k\<close> of transaction \<open>i\<close>, undone.\<close>

definition undo_output_index :: "int \<Rightarrow> nat \<Rightarrow> txid \<Rightarrow> nat \<Rightarrow> CTxOut \<Rightarrow> index_updates \<Rightarrow> index_updates" where
  "undo_output_index height i hash k out idx =
     (case address_of_script (scriptPubKey out) of
        None \<Rightarrow> idx
      | Some (ty, hashBytes) \<Rightarrow>
          idx\<lparr>addressIndex := addressIndex idx @
                [(\<lparr>ak_type = ty, ak_hashBytes = hashBytes, ak_blockHeight = height, ak_txindex = i, ak_txhash = hash,
                   ak_index = k, ak_spending = False\<rparr>, nValue out)],
              addressUnspentIndex := addressUnspentIndex idx @
                [(\<lparr>uk_type = ty, uk_hashBytes = hashBytes, uk_txhash = hash, uk_index = k\<rparr>, CAddressUnspentValue_null)]\<rparr>)"

definition undo_input_index :: "int \<Rightarrow> nat \<Rightarrow> txid \<Rightarrow> nat \<Rightarrow> COutPoint \<Rightarrow> CTxInUndo \<Rightarrow> index_updates \<Rightarrow> index_updates" where
  "undo_input_index height i hash j out undo idx =
     (let prevout = u_txout undo in
      case address_of_script (scriptPubKey prevout) of
        None \<Rightarrow> idx
      | Some (ty, hashBytes) \<Rightarrow>
          idx\<lparr>addressIndex := addressIndex idx @
                [(\<lparr>ak_type = ty, ak_hashBytes = hashBytes, ak_blockHeight = height, ak_txindex = i, ak_txhash = hash,
                   ak_index = j, ak_spending = True\<rparr>, nValue prevout * - 1)],
              addressUnspentIndex := addressUnspentIndex idx @
                [(\<lparr>uk_type = ty, uk_hashBytes = hashBytes, uk_txhash = out_hash out, uk_index = unat (out_n out)\<rparr>,
                  \<lparr>satoshis = nValue prevout, uv_script = scriptPubKey prevout, uv_blockHeight = sint (u_nHeight undo)\<rparr>)]\<rparr>)"

section \<open>Disconnecting a block\<close>

text \<open>The outputs: the flag says that they match the block.\<close>

definition remove_outputs :: "CTransaction \<Rightarrow> int \<Rightarrow> CCoins \<Rightarrow> (bool \<times> CCoins) run" where
  "remove_outputs tx nHeight outs =
     bind_run (ClearUnspendable outs) (\<lambda>outs.
     bind_run (FromTx tx nHeight) (\<lambda>outsBlock.
       let outs = (if c_nVersion outsBlock < 0 then outs\<lparr>c_nVersion := c_nVersion outsBlock\<rparr> else outs)
       in Some (Inr (coins_eq outs outsBlock, CCoins_Clear))))"

text \<open>
  One input. \<open>out.n+1\<close> is computed in 32 bits. With the address index the code reads the output
  back through the view while the modifier is open: it is the one just written, and the
  assertion in \<open>GetOutputFor\<close> says that it is not null.
\<close>

definition restore_input :: "CTxInUndo \<Rightarrow> u32 \<Rightarrow> CCoins \<Rightarrow> (bool \<times> CCoins) cpp" where
  "restore_input undo n coins =
     (let (ok1, coins) =
            (if u_nHeight undo \<noteq> 0
             then (IsPruned coins, \<lparr>fCoinBase = u_fCoinBase undo, c_vout = [], c_nHeight = sint (u_nHeight undo),
                                   c_nVersion = u_nVersion undo\<rparr>)
             else (\<not> IsPruned coins, coins));
          ok2 = (\<not> IsAvailable coins (unat n));
          outs = c_vout coins;
          outs = (if length outs < unat (n + 1) then outs @ replicate (unat (n + 1) - length outs) CTxOut_null else outs)
      in if unat n < length outs
         then Inr (ok1 \<and> ok2, coins\<lparr>c_vout := outs[unat n := u_txout undo]\<rparr>)
         else Inl OutOfRange)"

definition undo_input ::
    "('s \<Rightarrow> txid \<Rightarrow> CCoins option \<times> 's) \<Rightarrow> index_flags \<Rightarrow> int \<Rightarrow> nat \<Rightarrow> txid \<Rightarrow> nat \<times> CTxIn \<times> CTxInUndo
       \<Rightarrow> bool \<times> index_updates \<times> 's cached \<Rightarrow> (bool \<times> index_updates \<times> 's cached) run" where
  "undo_input base_GetCoins flags height i hash x acc =
     (case x of (j, txin, undo) \<Rightarrow>
      case acc of (fClean, idx, st) \<Rightarrow>
        bind_run (modify base_GetCoins st (out_hash (prevout txin)) (\<lambda>coins.
            Some (bind_cpp (restore_input undo (out_n (prevout txin)) coins) (\<lambda>(ok, coins).
                  bind_cpp (assert_cpp (fAddressIndex flags \<longrightarrow> \<not> txout_IsNull (u_txout undo))) (\<lambda>_.
                  Inr (ok, coins)))))) (\<lambda>(ok, st).
          let idx = (if fSpentIndex flags
                     then idx\<lparr>spentIndex := spentIndex idx @ [(out_hash (prevout txin), unat (out_n (prevout txin)))]\<rparr>
                     else idx);
              idx = (if fAddressIndex flags then undo_input_index height i hash j (prevout txin) undo idx else idx)
          in Some (Inr (fClean \<and> ok, idx, st))))"

fun undo_inputs ::
    "('s \<Rightarrow> txid \<Rightarrow> CCoins option \<times> 's) \<Rightarrow> index_flags \<Rightarrow> int \<Rightarrow> nat \<Rightarrow> txid \<Rightarrow> (nat \<times> CTxIn \<times> CTxInUndo) list
       \<Rightarrow> bool \<times> index_updates \<times> 's cached \<Rightarrow> (bool \<times> index_updates \<times> 's cached) run" where
  "undo_inputs base_GetCoins flags height i hash [] acc = Some (Inr acc)"
| "undo_inputs base_GetCoins flags height i hash (x # xs) acc =
     bind_run (undo_input base_GetCoins flags height i hash x acc) (undo_inputs base_GetCoins flags height i hash xs)"

text \<open>\<open>Inl\<close> is an early \<open>return error(...)\<close>, with the view as it is then.\<close>

definition disconnect_tx ::
    "('s \<Rightarrow> txid \<Rightarrow> CCoins option \<times> 's) \<Rightarrow> (CTransaction \<Rightarrow> txid) \<Rightarrow> index_flags \<Rightarrow> int
       \<Rightarrow> nat \<Rightarrow> CTransaction \<Rightarrow> CTxInUndo list \<Rightarrow> bool \<times> index_updates \<times> 's cached
       \<Rightarrow> ('s cached + bool \<times> index_updates \<times> 's cached) run" where
  "disconnect_tx base_GetCoins GetHash flags height i tx vprevout acc =
     (case acc of (fClean, idx, st) \<Rightarrow>
        let hash = GetHash tx;
            idx = (if fAddressIndex flags
                   then foldl (\<lambda>idx (k, out). undo_output_index height i hash k out idx) idx (rev (enumerate 0 (vout tx)))
                   else idx)
        in bind_run (modify base_GetCoins st hash (remove_outputs tx height)) (\<lambda>(ok, st).
             let acc = (fClean \<and> ok, idx, st)
             in if i > 0 then
                  (if length vprevout \<noteq> length (vin tx) then Some (Inr (Inl st))
                   else bind_run (undo_inputs base_GetCoins flags height i hash
                                    (rev (enumerate 0 (zip (vin tx) vprevout))) acc) (\<lambda>acc. Some (Inr (Inr acc))))
                else Some (Inr (Inr acc))))"

fun disconnect_loop ::
    "('s \<Rightarrow> txid \<Rightarrow> CCoins option \<times> 's) \<Rightarrow> (CTransaction \<Rightarrow> txid) \<Rightarrow> index_flags \<Rightarrow> int
       \<Rightarrow> (nat \<times> CTransaction \<times> CTxInUndo list) list \<Rightarrow> bool \<times> index_updates \<times> 's cached
       \<Rightarrow> ('s cached + bool \<times> index_updates \<times> 's cached) run" where
  "disconnect_loop base_GetCoins GetHash flags height [] acc = Some (Inr (Inr acc))"
| "disconnect_loop base_GetCoins GetHash flags height ((i, tx, vprevout) # xs) acc =
     bind_run (disconnect_tx base_GetCoins GetHash flags height i tx vprevout acc) (\<lambda>r.
       case r of
         Inl st \<Rightarrow> Some (Inr (Inl st))
       | Inr acc \<Rightarrow> disconnect_loop base_GetCoins GetHash flags height xs acc)"

text \<open>
  The result: the returned value, the flag \<open>*pfClean\<close> when the caller asks for it, the entries for
  the address index that are handed to the database, and the view. \<open>undo\<close> is \<open>None\<close> when there is
  no undo data or it cannot be read.
\<close>

record 's disconnected =
  d_return :: bool
  d_pfClean :: bool
  d_written :: "index_updates option"
  d_view :: "'s cached"

definition DisconnectBlock ::
    "('s \<Rightarrow> txid \<Rightarrow> CCoins option \<times> 's) \<Rightarrow> ('s \<Rightarrow> base_uint) \<Rightarrow> (CTransaction \<Rightarrow> txid) \<Rightarrow> index_flags
       \<Rightarrow> CTransaction list \<Rightarrow> base_uint \<Rightarrow> base_uint \<Rightarrow> int \<Rightarrow> CTxInUndo list list option \<Rightarrow> bool \<Rightarrow> 's cached
       \<Rightarrow> 's disconnected run" where
  "DisconnectBlock base_GetCoins base_GetBestBlock GetHash flags vtx block_hash prev_hash height undo pfClean view =
     (case GetBestBlock base_GetBestBlock view of (best, view) \<Rightarrow>
        if block_hash \<noteq> best then Some (Inl AssertionFailed)
        else
          (let failed = (\<lambda>view. Some (Inr \<lparr>d_return = False, d_pfClean = False, d_written = None, d_view = view\<rparr>)) in
           case undo of
             None \<Rightarrow> failed view
           | Some vtxundo \<Rightarrow>
               if length vtxundo + 1 \<noteq> length vtx then failed view
               else
                 bind_run (disconnect_loop base_GetCoins GetHash flags height
                             (rev (enumerate 0 (zip vtx ([] # vtxundo))))
                             (True, \<lparr>addressIndex = [], addressUnspentIndex = [], spentIndex = []\<rparr>, view)) (\<lambda>r.
                   case r of
                     Inl view \<Rightarrow> failed view
                   | Inr (fClean, idx, view) \<Rightarrow>
                       (let view = SetBestBlock view prev_hash
                        in if pfClean
                           then Some (Inr \<lparr>d_return = True, d_pfClean = fClean, d_written = None, d_view = view\<rparr>)
                           else Some (Inr \<lparr>d_return = fClean, d_pfClean = False,
                                          d_written = (if fAddressIndex flags then Some idx else None), d_view = view\<rparr>)))))"

section \<open>What a block does to the map of live coins\<close>

type_synonym utxo_map = "txid \<Rightarrow> CCoins option"

definition spend_map :: "COutPoint \<Rightarrow> utxo_map \<Rightarrow> (CTxInUndo \<times> utxo_map) option" where
  "spend_map out U =
     (case U (out_hash out) of
        None \<Rightarrow> None
      | Some c \<Rightarrow> map_option (\<lambda>(c', undo). (undo, U(out_hash out := live (Some c')))) (Spend c (unat (out_n out))))"

fun spend_maps :: "COutPoint list \<Rightarrow> utxo_map \<Rightarrow> (CTxInUndo list \<times> utxo_map) option" where
  "spend_maps [] U = Some ([], U)"
| "spend_maps (out # outs) U =
     (case spend_map out U of
        None \<Rightarrow> None
      | Some (u, U) \<Rightarrow> map_option (\<lambda>(us, U). (u # us, U)) (spend_maps outs U))"

definition apply_tx :: "(CTransaction \<Rightarrow> txid) \<Rightarrow> int \<Rightarrow> CTransaction \<Rightarrow> utxo_map \<Rightarrow> (CTxInUndo list \<times> utxo_map) option" where
  "apply_tx GetHash h tx U =
     (case (if IsCoinBase tx then Some ([], U) else spend_maps (map prevout (vin tx)) U) of
        None \<Rightarrow> None
      | Some (us, U) \<Rightarrow>
          (case FromTx tx h of Some (Inr c) \<Rightarrow> Some (us, U(GetHash tx := live (Some c))) | _ \<Rightarrow> None))"

fun apply_txs :: "(CTransaction \<Rightarrow> txid) \<Rightarrow> int \<Rightarrow> CTransaction list \<Rightarrow> utxo_map \<Rightarrow> (CTxInUndo list list \<times> utxo_map) option" where
  "apply_txs GetHash h [] U = Some ([], U)"
| "apply_txs GetHash h (tx # txs) U =
     (case apply_tx GetHash h tx U of
        None \<Rightarrow> None
      | Some (us, U) \<Rightarrow> map_option (\<lambda>(uss, U). (us # uss, U)) (apply_txs GetHash h txs U))"

text \<open>Outputs that are null are cleared, and there are fewer than \<open>2 ^ 32\<close>.\<close>

definition tx_outs_ok :: "CTransaction \<Rightarrow> bool" where
  "tx_outs_ok tx \<longleftrightarrow> (\<forall>o' \<in> set (vout tx). txout_IsNull o' \<longrightarrow> o' = CTxOut_null) \<and> length (vout tx) < 2 ^ 32"

definition utxo_ok :: "utxo_map \<Rightarrow> bool" where
  "utxo_ok U \<longleftrightarrow> (\<forall>t c. U t = Some c \<longrightarrow>
     clean c \<and> \<not> IsPruned c \<and> 0 < c_nHeight c \<and> c_nHeight c < 2 ^ 31 \<and> length (c_vout c) < 2 ^ 32)"

subsection \<open>Spending and restoring one output\<close>

lemma length_Cleanup: "length (c_vout (Cleanup c)) \<le> length (c_vout c)"
  by (simp add: Cleanup_def length_dropWhile_le [of _ "rev (c_vout c)", simplified])

lemma Cleanup_fields [simp]:
  "fCoinBase (Cleanup c) = fCoinBase c" "c_nHeight (Cleanup c) = c_nHeight c" "c_nVersion (Cleanup c) = c_nVersion c"
  by (simp_all add: Cleanup_def)

lemma Cleanup_pad:
  obtains m where "c_vout c = c_vout (Cleanup c) @ m" "\<forall>o' \<in> set m. txout_IsNull o'"
proof
  let ?r = "rev (c_vout c)"
  have "rev (takeWhile txout_IsNull ?r @ dropWhile txout_IsNull ?r) = c_vout c" by simp
  then show "c_vout c = c_vout (Cleanup c) @ rev (takeWhile txout_IsNull ?r)" by (simp add: Cleanup_def flip: rev_append)
  show "\<forall>o' \<in> set (rev (takeWhile txout_IsNull ?r)). txout_IsNull o'" by (auto dest: set_takeWhileD)
qed

lemma nulls_clear_update: "clean c \<Longrightarrow> nulls_clear (c\<lparr>c_vout := (c_vout c)[n := CTxOut_null]\<rparr>)"
  by (auto simp: clean_def nulls_clear_def dest!: set_update_subset_insert [THEN subsetD])

lemma Spend_cases:
  assumes "Spend c n = Some (c', undo)"
  shows "IsAvailable c n" "c' = Cleanup (c\<lparr>c_vout := (c_vout c)[n := CTxOut_null]\<rparr>)" "u_txout undo = c_vout c ! n"
    "u_nHeight undo = (if c_vout c' = [] then of_int (c_nHeight c) else 0)"
    "c_vout c' = [] \<Longrightarrow> u_fCoinBase undo = fCoinBase c \<and> u_nVersion undo = c_nVersion c"
  using assms by (auto simp: Spend_def IsAvailable_def Let_def split: if_splits)

lemma Spend_clean: "clean c \<Longrightarrow> Spend c n = Some (c', undo) \<Longrightarrow> clean c'"
  using clean_Cleanup [OF nulls_clear_update] Spend_cases(2) by metis

lemma Spend_available: "IsAvailable c n \<Longrightarrow> \<exists>c' undo. Spend c n = Some (c', undo)"
  by (auto simp: Spend_def IsAvailable_def Let_def)

text \<open>The outputs that are left, padded to the restored position and with the output put back.\<close>

lemma restore_outs:
  assumes c: "clean c" and a: "IsAvailable c n"
    and d: "d = c_vout (Cleanup (c\<lparr>c_vout := (c_vout c)[n := CTxOut_null]\<rparr>))"
  shows "(if length d < n + 1 then d @ replicate (n + 1 - length d) CTxOut_null else d)[n := c_vout c ! n] = c_vout c"
    and "n < length (if length d < n + 1 then d @ replicate (n + 1 - length d) CTxOut_null else d)"
    and "\<not> (n < length d \<and> \<not> txout_IsNull (d ! n))"
proof -
  let ?c = "c\<lparr>c_vout := (c_vout c)[n := CTxOut_null]\<rparr>"
  have n: "n < length (c_vout c)" using a by (simp add: IsAvailable_def)
  obtain m where m: "(c_vout c)[n := CTxOut_null] = d @ m" and mn: "\<forall>o' \<in> set m. txout_IsNull o'"
    using Cleanup_pad [of ?c] unfolding d by auto
  have "nulls_clear ?c" by (rule nulls_clear_update [OF c])
  then have "\<forall>o' \<in> set m. o' = CTxOut_null" using m mn by (simp add: nulls_clear_def)
  then have m_null: "m = replicate (length m) CTxOut_null" by (simp add: replicate_eqI)
  have restored: "(d @ m)[n := c_vout c ! n] = c_vout c" using n by (simp add: m [symmetric])
  have len: "length (c_vout c) = length d + length m" by (metis m length_append length_list_update)
  have null: "(d @ m) ! n = CTxOut_null" using n by (simp add: m [symmetric])
  show "\<not> (n < length d \<and> \<not> txout_IsNull (d ! n))" using null by (auto simp: nth_append)
  show "n < length (if length d < n + 1 then d @ replicate (n + 1 - length d) CTxOut_null else d)" by auto
  show "(if length d < n + 1 then d @ replicate (n + 1 - length d) CTxOut_null else d)[n := c_vout c ! n] = c_vout c"
  proof (cases "length d < n + 1")
    case True
    have "length (c_vout c) = n + 1"
    proof (rule ccontr)
      assume "length (c_vout c) \<noteq> n + 1"
      then have l: "n < length (c_vout c) - 1" using n by linarith
      have "last (c_vout c) = (c_vout c)[n := CTxOut_null] ! (length (c_vout c) - 1)"
        using l by (simp add: last_conv_nth length_greater_0_conv [symmetric] del: length_greater_0_conv)
      also have "\<dots> = CTxOut_null" unfolding m using True l len by (subst m_null) (simp add: nth_append)
      finally show False using c l by (auto simp: clean_def)
    qed
    then have "length m = n + 1 - length d" using len by simp
    then have "m = replicate (n + 1 - length d) CTxOut_null" using m_null by metis
    then show ?thesis using True restored by simp
  next
    case False
    then have "m = []"
    proof -
      have "last (c_vout c) = last (d @ m)" if "m \<noteq> []"
      proof -
        have "length (c_vout c) - 1 \<noteq> n" using False len that by (cases m) auto
        then show ?thesis using n m by (metis last_list_update list.size(3) not_less_zero)
      qed
      moreover have "txout_IsNull (last (d @ m))" if "m \<noteq> []" using that mn by simp
      moreover have "\<not> txout_IsNull (last (c_vout c))" using c n by (auto simp: clean_def)
      ultimately show ?thesis by metis
    qed
    then show ?thesis using False restored by simp
  qed
qed

lemma restore_spent:
  assumes c: "clean c" and h: "0 < c_nHeight c" "c_nHeight c < 2 ^ 31" and l: "length (c_vout c) < 2 ^ 32"
    and s: "Spend c (unat n) = Some (c', undo)"
    and c'': "clean c''" "live (Some c'') = live (Some c')"
  shows "restore_input undo n c'' = Inr (True, c)"
proof -
  note sp = Spend_cases [OF s]
  have cl: "clean c'" by (rule Spend_clean [OF c s])
  have pr: "IsPruned c'' = IsPruned c'" using c''(2) by (auto simp: live_def split: if_splits)
  note ro = restore_outs [OF c sp(1) refl, folded sp(2)]
  have "unat n < 2 ^ 32 - 1" using sp(1) l by (simp add: IsAvailable_def)
  then have n1: "unat (n + 1) = unat n + 1" by (simp add: unat_word_ariths mod_less)
  show ?thesis
  proof (cases "IsPruned c'")
    case True
    then have e: "c_vout c' = []" using clean_pruned [OF cl] by simp
    have "(of_int (c_nHeight c) :: u32) \<noteq> 0" "sint (of_int (c_nHeight c) :: u32) = c_nHeight c"
      using h by (auto simp: word_of_int_eq_0_iff sint_sbintrunc' signed_take_bit_int_eq_self_iff dest: zdvd_imp_le)
    then show ?thesis
      using sp(3-5) e True pr ro n1 by (simp add: restore_input_def Let_def IsAvailable_def)
  next
    case False
    then have "c_vout c' \<noteq> []" "c'' = c'" using clean_pruned [OF cl] c''(2) pr by simp_all
    moreover have "c'\<lparr>c_vout := c_vout c\<rparr> = c" using sp(2) by (simp add: Cleanup_def)
    ultimately show ?thesis using sp(3-5) False ro n1 by (auto simp: restore_input_def Let_def IsAvailable_def)
  qed
qed

lemma clean_nulls: "clean c \<Longrightarrow> nulls_clear c"
  by (simp add: clean_def nulls_clear_def)

subsection \<open>New outputs\<close>

definition settled :: "CTxOut \<Rightarrow> bool" where
  "settled o' \<longleftrightarrow> (\<exists>b. IsUnspendable (scriptPubKey o') = Some (Inr b) \<and> (b \<longrightarrow> o' = CTxOut_null))"

lemma settled_null: "settled CTxOut_null"
proof -
  have "IsUnspendable [] = Some (Inr False)"
    by (simp add: IsUnspendable_def mc_ParseOpDropOpReturnScript_def op_drop_loop.simps op_return_loop.simps)
  then show ?thesis unfolding settled_def CTxOut_null_def by (intro exI [of _ False]) simp
qed

lemma clear_loop_settles:
  assumes "clear_unspendable_loop outs = Some (Inr outs')"
  shows "length outs' = length outs" "\<forall>o' \<in> set outs'. settled o' \<and> (o' \<in> set outs \<or> o' = CTxOut_null)"
proof -
  have "length outs' = length outs \<and> (\<forall>o' \<in> set outs'. settled o' \<and> (o' \<in> set outs \<or> o' = CTxOut_null))"
    using assms
  proof (induction outs arbitrary: outs')
    case (Cons o' outs)
    from Cons.prems obtain b where b: "IsUnspendable (scriptPubKey o') = Some (Inr b)"
      by (auto split: option.splits sum.splits)
    with Cons.prems obtain r where r: "clear_unspendable_loop outs = Some (Inr r)"
      and outs': "outs' = (if b then CTxOut_null else o') # r"
      by (auto simp: map_sum_Inr)
    from b have "\<not> b \<Longrightarrow> settled o'" by (auto simp: settled_def)
    then show ?case using Cons.IH [OF r] outs' settled_null by auto
  qed simp
  then show "length outs' = length outs" "\<forall>o' \<in> set outs'. settled o' \<and> (o' \<in> set outs \<or> o' = CTxOut_null)" by blast+
qed

lemma clear_loop_settled: "\<forall>o' \<in> set outs. settled o' \<Longrightarrow> clear_unspendable_loop outs = Some (Inr outs)"
  by (induction outs) (auto simp: settled_def)

lemma ClearUnspendable_settled:
  "clean c \<Longrightarrow> \<forall>o' \<in> set (c_vout c). settled o' \<Longrightarrow> ClearUnspendable c = Some (Inr c)"
  using Cleanup_clean by (simp add: ClearUnspendable_def clear_loop_settled)

lemma FromTx_ok:
  assumes "FromTx tx h = Some (Inr c)" "tx_outs_ok tx"
  shows "clean c" "ClearUnspendable c = Some (Inr c)" "length (c_vout c) < 2 ^ 32" "c_nHeight c = h"
proof -
  let ?c = "\<lparr>fCoinBase = IsCoinBase tx, c_vout = vout tx, c_nHeight = h, c_nVersion = tx_nVersion tx\<rparr>"
  obtain outs where o: "clear_unspendable_loop (vout tx) = Some (Inr outs)" and c: "c = Cleanup (?c\<lparr>c_vout := outs\<rparr>)"
    using assms(1) by (auto simp: FromTx_def ClearUnspendable_def map_sum_Inr)
  note s = clear_loop_settles [OF o]
  have "nulls_clear (?c\<lparr>c_vout := outs\<rparr>)" using s(2) assms(2) by (auto simp: nulls_clear_def tx_outs_ok_def)
  then show cl: "clean c" unfolding c by (rule clean_Cleanup)
  have "set (c_vout c) \<subseteq> set outs" unfolding c by (auto simp: Cleanup_def dest: set_dropWhileD)
  then show "ClearUnspendable c = Some (Inr c)" using ClearUnspendable_settled [OF cl] s(2) by blast
  have "length (c_vout c) \<le> length outs" using length_Cleanup [of "?c\<lparr>c_vout := outs\<rparr>"] by (simp add: c)
  then show "length (c_vout c) < 2 ^ 32" using s(1) assms(2) by (simp add: tx_outs_ok_def)
  show "c_nHeight c = h" by (simp add: c)
qed

text \<open>Taking the outputs of a transaction back finds them as they were added.\<close>

lemma remove_added:
  assumes f: "FromTx tx h = Some (Inr c)" and ok: "tx_outs_ok tx"
    and c': "clean c'" "live (Some c') = live (Some c)"
  shows "remove_outputs tx h c' = Some (Inr (True, CCoins_Clear))"
proof (cases "IsPruned c")
  case True
  then have p: "IsPruned c'" using c'(2) by (auto simp: live_def split: if_splits)
  then have "ClearUnspendable c' = Some (Inr c')" using clean_pruned [OF c'(1)] by (intro ClearUnspendable_settled c') simp
  moreover have "IsPruned (c'\<lparr>c_nVersion := v\<rparr>)" for v using p by (simp add: IsPruned_def)
  ultimately show ?thesis using f True p by (simp add: remove_outputs_def Let_def coins_eq_def)
next
  case False
  then have "c' = c" using c'(2) by (auto simp: live_def split: if_splits)
  then show ?thesis using f FromTx_ok [OF f ok] by (simp add: remove_outputs_def Let_def coins_eq_def)
qed

subsection \<open>The maps\<close>

lemma spend_map_None: "spend_map out U = Some (u, U') \<Longrightarrow> U t = None \<Longrightarrow> U' t = None"
  by (auto simp: spend_map_def split: option.splits)

lemma spend_maps_None: "spend_maps outs U = Some (us, U') \<Longrightarrow> U t = None \<Longrightarrow> U' t = None"
  by (induction outs arbitrary: U us) (auto split: option.splits dest: spend_map_None)

lemma spend_maps_length: "spend_maps outs U = Some (us, U') \<Longrightarrow> length us = length outs"
  by (induction outs arbitrary: U us) (auto split: option.splits)

lemma spend_map_ok:
  assumes "spend_map out U = Some (u, U')" "utxo_ok U"
  obtains c c' where "U (out_hash out) = Some c" "Spend c (unat (out_n out)) = Some (c', u)"
    "U' = U(out_hash out := live (Some c'))" "clean c" "utxo_ok U'"
proof -
  from assms(1) obtain c c' where c: "U (out_hash out) = Some c" "Spend c (unat (out_n out)) = Some (c', u)"
    and U': "U' = U(out_hash out := live (Some c'))" by (auto simp: spend_map_def split: option.splits)
  have ok: "clean c" "0 < c_nHeight c" "c_nHeight c < 2 ^ 31" "length (c_vout c) < 2 ^ 32"
    using assms(2) c(1) unfolding utxo_ok_def by blast+
  have "length (c_vout c') \<le> length (c_vout c)" "c_nHeight c' = c_nHeight c"
    using Spend_cases(2) [OF c(2)] length_Cleanup [of "c\<lparr>c_vout := (c_vout c)[unat (out_n out) := CTxOut_null]\<rparr>"] by simp_all
  then have "utxo_ok U'" using assms(2) ok Spend_clean [OF ok(1) c(2)] unfolding U' utxo_ok_def
    by (auto simp: live_def split: if_splits)
  then show ?thesis using that c U' ok(1) by blast
qed

lemma spend_maps_ok: "spend_maps outs U = Some (us, U') \<Longrightarrow> utxo_ok U \<Longrightarrow> utxo_ok U'"
  by (induction outs arbitrary: U us) (auto split: option.splits elim!: spend_map_ok)

lemma apply_tx_cases:
  assumes "apply_tx GetHash h tx U = Some (us, U')"
  obtains c U1 where "FromTx tx h = Some (Inr c)" "U' = U1(GetHash tx := live (Some c))"
    "IsCoinBase tx \<Longrightarrow> us = [] \<and> U1 = U" "\<not> IsCoinBase tx \<Longrightarrow> spend_maps (map prevout (vin tx)) U = Some (us, U1)"
  using assms by (auto simp: apply_tx_def split: option.splits sum.splits if_splits)

lemma apply_tx_ok:
  assumes a: "apply_tx GetHash h tx U = Some (us, U')" and U: "utxo_ok U" and tx: "tx_outs_ok tx" and h: "0 < h" "h < 2 ^ 31"
  shows "utxo_ok U'" "t \<noteq> GetHash tx \<Longrightarrow> U t = None \<Longrightarrow> U' t = None"
proof -
  obtain c U1 where c: "FromTx tx h = Some (Inr c)" "U' = U1(GetHash tx := live (Some c))"
    and cb: "IsCoinBase tx \<Longrightarrow> us = [] \<and> U1 = U" and sp: "\<not> IsCoinBase tx \<Longrightarrow> spend_maps (map prevout (vin tx)) U = Some (us, U1)"
    using apply_tx_cases [OF a] by metis
  have "utxo_ok U1" using U cb spend_maps_ok [OF sp] by blast
  then show "utxo_ok U'" using FromTx_ok [OF c(1) tx] h unfolding c(2) utxo_ok_def by (auto simp: live_def split: if_splits)
  show "U' t = None" if "t \<noteq> GetHash tx" "U t = None"
    using that cb spend_maps_None [OF sp] unfolding c(2) by (cases "IsCoinBase tx") auto
qed

section \<open>The views implement the maps\<close>

lemma bind_cpp_Inr: "bind_cpp r f = Inr y \<longleftrightarrow> (\<exists>x. r = Inr x \<and> f x = Inr y)"
  by (cases r) (auto simp: bind_cpp_def)

lemma undo_inputs_append:
  "undo_inputs getc flags height i hash (xs @ ys) acc
    = bind_run (undo_inputs getc flags height i hash xs acc) (undo_inputs getc flags height i hash ys)"
proof (induction xs arbitrary: acc)
  case (Cons x xs)
  then show ?case by (cases "undo_input getc flags height i hash x acc"; cases "the (undo_input getc flags height i hash x acc)") auto
qed simp

context coins_view
begin

lemma spend_inputs_ok:
  assumes "cache_inv vinv utxo held st" "utxo_ok (cache_utxo utxo st)"
    and "spend_maps (map prevout ins) (cache_utxo utxo st) = Some (us, U')"
  shows "\<exists>st'. spend_inputs getc st ins = Some (Inr (us, st')) \<and> cache_inv vinv utxo held st' \<and> cache_utxo utxo st' = U'"
  using assms
proof (induction ins arbitrary: st us)
  case (Cons txin ins)
  let ?t = "out_hash (prevout txin)" and ?n = "unat (out_n (prevout txin))"
  from Cons.prems(3) obtain u U1 us' where m: "spend_map (prevout txin) (cache_utxo utxo st) = Some (u, U1)"
    and rest: "spend_maps (map prevout ins) U1 = Some (us', U')" and us: "us = u # us'" by (auto split: option.splits)
  obtain c c' where c: "cache_utxo utxo st ?t = Some c" "Spend c ?n = Some (c', u)"
    and U1: "U1 = (cache_utxo utxo st)(?t := live (Some c'))" and cl: "clean c" and ok1: "utxo_ok U1"
    using spend_map_ok [OF m Cons.prems(2)] by metis
  let ?f = "\<lambda>coins. Some (case Spend coins ?n of None \<Rightarrow> Inl AssertionFailed | Some (coins, undo) \<Rightarrow> Inr (undo, coins))"
  have cc: "clean c'" by (rule Spend_clean [OF cl c(2)])
  have "?f d = Some (Inr (u, c'))" if "live (Some d) = cache_utxo utxo st ?t" for d
    using that c by (auto simp: live_def split: if_splits)
  with modify_result [OF Cons.prems(1), of c' ?t ?f u]
  obtain st1 where st1: "modify getc st ?t ?f = Some (Inr (u, st1))" "cache_inv vinv utxo held st1" "cache_utxo utxo st1 = U1"
    unfolding U1 Cleanup_clean [OF cc] using clean_nulls [OF cc] by blast
  from Cons.IH [OF st1(2)] rest ok1 st1(3)
  obtain st' where "spend_inputs getc st1 ins = Some (Inr (us', st'))" "cache_inv vinv utxo held st'" "cache_utxo utxo st' = U'"
    by auto
  then show ?case using st1(1) us by simp
qed simp

lemma add_outputs_ok:
  assumes i: "cache_inv vinv utxo held st" and f: "FromTx tx h = Some (Inr c)" and tx: "tx_outs_ok tx"
  shows "\<exists>st'. add_outputs getc GetHash st tx h = Some (Inr st') \<and> cache_inv vinv utxo held st'
    \<and> cache_utxo utxo st' = (cache_utxo utxo st)(GetHash tx := live (Some c))"
proof -
  let ?f = "\<lambda>coins :: CCoins. bind_run (FromTx tx h) (\<lambda>coins. Some (Inr ((), coins)))"
  have c: "clean c" by (rule FromTx_ok(1) [OF f tx])
  have "?f d = Some (Inr ((), c))" for d using f by simp
  with modify_result [OF i clean_nulls [OF c], of "GetHash tx" ?f "()"]
  obtain st' where "modify getc st (GetHash tx) ?f = Some (Inr ((), st'))" "cache_inv vinv utxo held st'"
    "cache_utxo utxo st' = (cache_utxo utxo st)(GetHash tx := live (Some c))"
    unfolding Cleanup_clean [OF c] by blast
  then show ?thesis by (simp add: add_outputs_def)
qed

lemma UpdateCoins_ok:
  assumes i: "cache_inv vinv utxo held st" and U: "utxo_ok (cache_utxo utxo st)" and tx: "tx_outs_ok tx"
    and a: "apply_tx GetHash h tx (cache_utxo utxo st) = Some (us, U')"
  shows "\<exists>st'. UpdateCoins getc GetHash tx st h = Some (Inr (us, st')) \<and> cache_inv vinv utxo held st' \<and> cache_utxo utxo st' = U'"
proof -
  obtain c U1 where c: "FromTx tx h = Some (Inr c)" "U' = U1(GetHash tx := live (Some c))"
    and cb: "IsCoinBase tx \<Longrightarrow> us = [] \<and> U1 = cache_utxo utxo st"
    and sp: "\<not> IsCoinBase tx \<Longrightarrow> spend_maps (map prevout (vin tx)) (cache_utxo utxo st) = Some (us, U1)"
    using apply_tx_cases [OF a] by metis
  obtain st1 where st1: "(if \<not> IsCoinBase tx then spend_inputs getc st (vin tx) else Some (Inr ([], st))) = Some (Inr (us, st1))"
    "cache_inv vinv utxo held st1" "cache_utxo utxo st1 = U1"
    using spend_inputs_ok [OF i U sp] cb i by (cases "IsCoinBase tx") auto
  obtain st' where "add_outputs getc GetHash st1 tx h = Some (Inr st')" "cache_inv vinv utxo held st'" "cache_utxo utxo st' = U'"
    using add_outputs_ok [OF st1(2) c(1) tx, of GetHash] st1(3) c(2) by auto
  then show ?thesis using st1(1) by (simp add: UpdateCoins_def)
qed

lemma update_loop_ok:
  assumes "cache_inv vinv utxo held st" "utxo_ok (cache_utxo utxo st)" "\<forall>tx \<in> set txs. tx_outs_ok tx"
    and h: "0 < h" "h < 2 ^ 31" and "apply_txs GetHash h txs (cache_utxo utxo st) = Some (uss, U')"
  shows "\<exists>st'. update_loop getc GetHash txs st h = Some (Inr (uss, st')) \<and> cache_inv vinv utxo held st' \<and> cache_utxo utxo st' = U'"
  using assms(1-3,6)
proof (induction txs arbitrary: st uss)
  case (Cons tx txs)
  from Cons.prems(4) obtain us U1 uss' where a: "apply_tx GetHash h tx (cache_utxo utxo st) = Some (us, U1)"
    and rest: "apply_txs GetHash h txs U1 = Some (uss', U')" and uss: "uss = us # uss'" by (auto split: option.splits)
  have tx: "tx_outs_ok tx" using Cons.prems(3) by simp
  obtain st1 where st1: "UpdateCoins getc GetHash tx st h = Some (Inr (us, st1))" "cache_inv vinv utxo held st1"
    "cache_utxo utxo st1 = U1"
    using UpdateCoins_ok [OF Cons.prems(1,2) tx a] by blast
  have "utxo_ok (cache_utxo utxo st1)" using apply_tx_ok(1) [OF a Cons.prems(2) tx h] st1(3) by simp
  from Cons.IH [OF st1(2) this] rest Cons.prems(3) st1(3)
  obtain st' where "update_loop getc GetHash txs st1 h = Some (Inr (uss', st'))" "cache_inv vinv utxo held st'"
    "cache_utxo utxo st' = U'" by auto
  then show ?case using st1(1) uss by simp
qed simp

subsection \<open>Undoing\<close>

lemma undo_input_ok:
  assumes i: "cache_inv vinv utxo held st" and m: "spend_map (prevout txin) U = Some (u, cache_utxo utxo st)" and U: "utxo_ok U"
  shows "\<exists>idx' st'. undo_input getc flags height i' hash (j, txin, u) (fc, idx, st) = Some (Inr (fc, idx', st'))
    \<and> cache_inv vinv utxo held st' \<and> cache_utxo utxo st' = U"
proof -
  let ?t = "out_hash (prevout txin)" and ?n = "out_n (prevout txin)"
  obtain c c' where c: "U ?t = Some c" "Spend c (unat ?n) = Some (c', u)" and U1: "cache_utxo utxo st = U(?t := live (Some c'))"
    and cl: "clean c"
    using spend_map_ok [OF m U] by metis
  have b: "\<not> IsPruned c" "0 < c_nHeight c" "c_nHeight c < 2 ^ 31" "length (c_vout c) < 2 ^ 32"
    using U c(1) unfolding utxo_ok_def by blast+
  have nn: "\<not> txout_IsNull (u_txout u)" using Spend_cases(1,3) [OF c(2)] by (simp add: IsAvailable_def)
  let ?f = "\<lambda>coins. Some (bind_cpp (restore_input u ?n coins) (\<lambda>(ok, coins).
      bind_cpp (assert_cpp (fAddressIndex flags \<longrightarrow> \<not> txout_IsNull (u_txout u))) (\<lambda>_. Inr (ok, coins))))"
  have "?f d = Some (Inr (True, c))" if "clean d" "live (Some d) = cache_utxo utxo st ?t" for d
    using restore_spent [OF cl b(2-4) c(2) that(1)] that(2) nn by (simp add: U1)
  with modify_result [OF i clean_nulls [OF cl], of ?t ?f True]
  obtain st' where "modify getc st ?t ?f = Some (Inr (True, st'))" "cache_inv vinv utxo held st'"
    "cache_utxo utxo st' = (cache_utxo utxo st)(?t := live (Some c))"
    unfolding Cleanup_clean [OF cl] by blast
  moreover have "(cache_utxo utxo st)(?t := live (Some c)) = U" using U1 c(1) b(1) by (simp add: fun_upd_idem)
  ultimately show ?thesis by (simp add: undo_input_def Let_def)
qed

lemma undo_inputs_ok:
  assumes "cache_inv vinv utxo held st" "spend_maps (map prevout ins) U = Some (us, cache_utxo utxo st)" "utxo_ok U"
  shows "\<exists>idx' st'. undo_inputs getc flags height i hash (rev (enumerate k (zip ins us))) (fc, idx, st) = Some (Inr (fc, idx', st'))
    \<and> cache_inv vinv utxo held st' \<and> cache_utxo utxo st' = U"
  using assms(2,3)
proof (induction ins arbitrary: U us k)
  case Nil
  then show ?case using assms(1) by simp
next
  case (Cons txin ins)
  from Cons.prems(1) obtain u U1 us' where m: "spend_map (prevout txin) U = Some (u, U1)"
    and rest: "spend_maps (map prevout ins) U1 = Some (us', cache_utxo utxo st)" and us: "us = u # us'"
    by (auto split: option.splits)
  have "utxo_ok U1" using spend_map_ok [OF m Cons.prems(2)] by metis
  from Cons.IH [OF rest this, of "Suc k"]
  obtain idx1 st1 where st1: "undo_inputs getc flags height i hash (rev (enumerate (Suc k) (zip ins us'))) (fc, idx, st)
      = Some (Inr (fc, idx1, st1))" "cache_inv vinv utxo held st1" "cache_utxo utxo st1 = U1" by blast
  obtain idx' st' where "undo_input getc flags height i hash (k, txin, u) (fc, idx1, st1) = Some (Inr (fc, idx', st'))"
    "cache_inv vinv utxo held st'" "cache_utxo utxo st' = U"
    using undo_input_ok [OF st1(2) _ Cons.prems(2), of txin u] m st1(3) by blast
  then show ?case using st1(1) by (simp add: us undo_inputs_append)
qed

lemma disconnect_tx_ok:
  assumes i: "cache_inv vinv utxo held st" and a: "apply_tx GetHash h tx U = Some (us, cache_utxo utxo st)" and U: "utxo_ok U"
    and tx: "tx_outs_ok tx" and new: "U (GetHash tx) = None" and first: "k = 0 \<longleftrightarrow> IsCoinBase tx"
  shows "\<exists>idx' st'. disconnect_tx getc GetHash flags h k tx us (fc, idx, st) = Some (Inr (Inr (fc, idx', st')))
    \<and> cache_inv vinv utxo held st' \<and> cache_utxo utxo st' = U"
proof -
  obtain c U1 where c: "FromTx tx h = Some (Inr c)" "cache_utxo utxo st = U1(GetHash tx := live (Some c))"
    and cb: "IsCoinBase tx \<Longrightarrow> us = [] \<and> U1 = U" and sp: "\<not> IsCoinBase tx \<Longrightarrow> spend_maps (map prevout (vin tx)) U = Some (us, U1)"
    using apply_tx_cases [OF a] by metis
  have new1: "U1 (GetHash tx) = None" using cb spend_maps_None [OF sp] new by (cases "IsCoinBase tx") auto
  have "remove_outputs tx h d = Some (Inr (True, CCoins_Clear))" if "clean d" "live (Some d) = cache_utxo utxo st (GetHash tx)" for d
    using remove_added [OF c(1) tx that(1)] that(2) by (simp add: c(2))
  with modify_result [OF i clean_nulls [OF clean_Clear(1)], of "GetHash tx" "remove_outputs tx h" True]
  obtain st1 where st1: "modify getc st (GetHash tx) (remove_outputs tx h) = Some (Inr (True, st1))" "cache_inv vinv utxo held st1"
    "cache_utxo utxo st1 = U1"
    unfolding Cleanup_clean [OF clean_Clear(1)] using new1 by (auto simp: c(2) fun_upd_idem)
  show ?thesis
  proof (cases "k = 0")
    case True
    then show ?thesis using st1 cb first by (simp add: disconnect_tx_def Let_def)
  next
    case False
    then have s: "spend_maps (map prevout (vin tx)) U = Some (us, cache_utxo utxo st1)" using sp first st1(3) by simp
    then have "length us = length (vin tx)" using spend_maps_length by fastforce
    moreover define idx1 where "idx1 = (if fAddressIndex flags
        then foldl (\<lambda>idx (k', out). undo_output_index h k (GetHash tx) k' out idx) idx (rev (enumerate 0 (vout tx))) else idx)"
    moreover obtain idx' st' where "undo_inputs getc flags h k (GetHash tx) (rev (enumerate 0 (zip (vin tx) us))) (fc, idx1, st1)
        = Some (Inr (fc, idx', st'))" "cache_inv vinv utxo held st'" "cache_utxo utxo st' = U"
      using undo_inputs_ok [OF st1(2) s U, of flags h k "GetHash tx" 0 fc idx1] by blast
    ultimately show ?thesis using False st1(1) unfolding disconnect_tx_def Let_def prod.case idx1_def [symmetric] by simp
  qed
qed

end

lemma disconnect_loop_append:
  "disconnect_loop getc GetHash flags height (xs @ ys) acc
    = bind_run (disconnect_loop getc GetHash flags height xs acc)
        (\<lambda>r. case r of Inl st \<Rightarrow> Some (Inr (Inl st)) | Inr acc \<Rightarrow> disconnect_loop getc GetHash flags height ys acc)"
proof (induction xs arbitrary: acc)
  case (Cons x xs)
  obtain i tx us where x: "x = (i, tx, us)" by (cases x)
  show ?case using Cons unfolding x
    by (auto simp: bind_run_def split: option.split sum.split)
qed simp

context coins_view
begin

lemma disconnect_loop_ok:
  assumes "cache_inv vinv utxo held st" "apply_txs GetHash h txs U = Some (uss, cache_utxo utxo st)" "utxo_ok U"
    and h: "0 < h" "h < 2 ^ 31" and "\<forall>tx \<in> set txs. tx_outs_ok tx" "distinct (map GetHash txs)"
    and "\<forall>tx \<in> set txs. U (GetHash tx) = None" "\<forall>(i, tx) \<in> set (enumerate k txs). i = 0 \<longleftrightarrow> IsCoinBase tx"
  shows "\<exists>idx' st'. disconnect_loop getc GetHash flags h (rev (enumerate k (zip txs uss))) (fc, idx, st) = Some (Inr (Inr (fc, idx', st')))
    \<and> cache_inv vinv utxo held st' \<and> cache_utxo utxo st' = U"
  using assms(2,3,6-9)
proof (induction txs arbitrary: U uss k)
  case Nil
  then show ?case using assms(1) by simp
next
  case (Cons tx txs)
  from Cons.prems(1) obtain us U1 uss' where a: "apply_tx GetHash h tx U = Some (us, U1)"
    and rest: "apply_txs GetHash h txs U1 = Some (uss', cache_utxo utxo st)" and uss: "uss = us # uss'"
    by (auto split: option.splits)
  have tx: "tx_outs_ok tx" "U (GetHash tx) = None" "k = 0 \<longleftrightarrow> IsCoinBase tx" using Cons.prems(3,5,6) by auto
  have "\<forall>x \<in> set txs. U1 (GetHash x) = None"
  proof
    fix x assume x: "x \<in> set txs"
    then have "GetHash x \<in> GetHash ` set txs" by (rule imageI)
    moreover have "GetHash tx \<notin> GetHash ` set txs" using Cons.prems(4) by simp
    ultimately have "GetHash x \<noteq> GetHash tx" by metis
    moreover have "U (GetHash x) = None" using Cons.prems(5) x by simp
    ultimately show "U1 (GetHash x) = None" by (rule apply_tx_ok(2) [OF a Cons.prems(2) tx(1) h])
  qed
  with Cons.IH [OF rest apply_tx_ok(1) [OF a Cons.prems(2) tx(1) h], of "Suc k"] Cons.prems(3,4,6)
  obtain idx1 st1 where st1: "disconnect_loop getc GetHash flags h (rev (enumerate (Suc k) (zip txs uss'))) (fc, idx, st)
      = Some (Inr (Inr (fc, idx1, st1)))" "cache_inv vinv utxo held st1" "cache_utxo utxo st1 = U1" by auto
  obtain idx' st' where "disconnect_tx getc GetHash flags h k tx us (fc, idx1, st1) = Some (Inr (Inr (fc, idx', st')))"
    "cache_inv vinv utxo held st'" "cache_utxo utxo st' = U"
    using disconnect_tx_ok [OF st1(2) a [folded st1(3)] Cons.prems(2) tx] by blast
  then show ?case using st1(1) by (simp add: uss disconnect_loop_append)
qed

end

section \<open>Blocks over the node's views\<close>

text \<open>
  C2. \<open>UpdateCoins\<close> implements its specification on the map of live coins: when every input is
  unspent (each one after the earlier ones of the transaction) and the new outputs' scripts can
  be scanned, the call on the cache over \<open>pcoinsTip\<close> over the database fails no assertion, gives
  the undo records of the specification, keeps the invariant of the views, and the map they
  represent afterwards is the specified one.
\<close>

theorem UpdateCoins_refines:
  assumes "view_inv st" "utxo_ok (view_utxo st)" "tx_outs_ok tx"
    and "apply_tx GetHash h tx (view_utxo st) = Some (us, U')"
  shows "\<exists>st'. UpdateCoins (GetCoins db_GetCoins) GetHash tx st h = Some (Inr (us, st')) \<and> view_inv st' \<and> view_utxo st' = U'"
  by (rule tip.UpdateCoins_ok [OF assms])

lemma SetBestBlock_view:
  "cache_inv i u g (SetBestBlock st h) = cache_inv i u g st" "cache_utxo u (SetBestBlock st h) = cache_utxo u st"
  "hashBlock (fst (SetBestBlock st h)) = h"
  by (cases st; simp add: SetBestBlock_def cache_inv_def cache_utxo_def)+

lemma GetBestBlock_SetBestBlock:
  "h \<noteq> bn_zero 8 \<Longrightarrow> GetBestBlock b (SetBestBlock st h) = (h, SetBestBlock st h)"
  by (cases st) (simp add: GetBestBlock_def SetBestBlock_def)

lemma apply_txs_length: "apply_txs GetHash h txs U = Some (uss, U') \<Longrightarrow> length uss = length txs"
  by (induction txs arbitrary: U uss) (auto split: option.splits)

text \<open>
  C1. A block that is connected can be disconnected: for a block whose first transaction alone is a
  coinbase, whose transaction ids are distinct and not those of live coins and whose inputs are
  unspent in turn, \<open>UpdateCoins\<close> over the block and then \<open>DisconnectBlock\<close> with the undo data it
  produced return clean, whatever the index flags, and leave the views with the map of live
  coins they had and the previous block as the best one.
\<close>

theorem DisconnectBlock_undoes:
  assumes st: "view_inv st" "utxo_ok (view_utxo st)" and h: "0 < h" "h < 2 ^ 31"
    and vtx: "IsCoinBase tx0" "\<forall>tx \<in> set txs. \<not> IsCoinBase tx" "\<forall>tx \<in> set (tx0 # txs). tx_outs_ok tx"
      "distinct (map GetHash (tx0 # txs))" "\<forall>tx \<in> set (tx0 # txs). view_utxo st (GetHash tx) = None"
    and a: "apply_txs GetHash h (tx0 # txs) (view_utxo st) = Some (uss, U')"
    and hash: "block_hash \<noteq> bn_zero 8"
  shows "\<exists>vtxundo st' d. update_block (GetCoins db_GetCoins) GetHash (tx0 # txs) st h = Some (Inr (vtxundo, st'))
    \<and> view_utxo st' = U'
    \<and> DisconnectBlock (GetCoins db_GetCoins) base_best GetHash flags (tx0 # txs) block_hash prev_hash h (Some vtxundo) pfClean
        (SetBestBlock st' block_hash) = Some (Inr d)
    \<and> d_return d \<and> d_pfClean d = pfClean \<and> view_inv (d_view d) \<and> view_utxo (d_view d) = view_utxo st
    \<and> hashBlock (fst (d_view d)) = prev_hash"
proof -
  obtain st' where st': "update_loop (GetCoins db_GetCoins) GetHash (tx0 # txs) st h = Some (Inr (uss, st'))"
    "view_inv st'" "view_utxo st' = U'"
    using tip.update_loop_ok [OF st vtx(3) h a] by blast
  have u: "update_block (GetCoins db_GetCoins) GetHash (tx0 # txs) st h = Some (Inr (tl uss, st'))"
    unfolding update_block_def st'(1) by simp
  have len: "length uss = Suc (length txs)" using apply_txs_length [OF a] by simp
  have "hd uss = []" using a vtx(1) by (auto simp: apply_tx_def split: option.splits sum.splits)
  then have uss: "[] # tl uss = uss" using len by (cases uss) auto
  let ?st = "SetBestBlock st' block_hash"
  have "\<forall>(i, tx) \<in> set (enumerate 0 (tx0 # txs)). i = 0 \<longleftrightarrow> IsCoinBase tx"
    using vtx(1,2) by (auto simp: in_set_enumerate_eq nth_Cons split: nat.splits)
  from tip.disconnect_loop_ok [OF _ _ st(2) h vtx(3-5) this, of ?st uss flags True
      "\<lparr>addressIndex = [], addressUnspentIndex = [], spentIndex = []\<rparr>"] a st'
  obtain idx d where "disconnect_loop (GetCoins db_GetCoins) GetHash flags h (rev (enumerate 0 (zip (tx0 # txs) uss)))
        (True, \<lparr>addressIndex = [], addressUnspentIndex = [], spentIndex = []\<rparr>, ?st) = Some (Inr (Inr (True, idx, d)))"
    "view_inv d" "view_utxo d = view_utxo st"
    unfolding SetBestBlock_view by blast
  then obtain w where "DisconnectBlock (GetCoins db_GetCoins) base_best GetHash flags (tx0 # txs) block_hash prev_hash h (Some (tl uss))
      pfClean ?st = Some (Inr \<lparr>d_return = True, d_pfClean = pfClean, d_written = w, d_view = SetBestBlock d prev_hash\<rparr>)"
    unfolding DisconnectBlock_def GetBestBlock_SetBestBlock [OF hash] Let_def using len
    by (cases pfClean) (simp_all add: uss del: zip_Cons_Cons enumerate_simps)
  then show ?thesis using u st'(3) \<open>view_inv d\<close> \<open>view_utxo d = view_utxo st\<close>
    by (intro exI [of _ "tl uss"] exI [of _ st']) (simp add: SetBestBlock_view)
qed

subsection \<open>Examples\<close>

definition example_cb :: CTransaction where
  "example_cb = \<lparr>tx_nVersion = 1, vin = [\<lparr>prevout = \<lparr>out_hash = bn_zero 8, out_n = - 1\<rparr>, scriptSig = [1], nSequence = 0\<rparr>],
     vout = [\<lparr>nValue = 5, scriptPubKey = [0x51]\<rparr>], nLockTime = 1\<rparr>"

definition example_spend :: CTransaction where
  "example_spend = \<lparr>tx_nVersion = 1, vin = [\<lparr>prevout = \<lparr>out_hash = replicate 8 7, out_n = 1\<rparr>, scriptSig = [1], nSequence = 0\<rparr>],
     vout = [\<lparr>nValue = 40, scriptPubKey = [0x6a]\<rparr>, \<lparr>nValue = 10, scriptPubKey = [0x51]\<rparr>], nLockTime = 2\<rparr>"

definition example_txid :: "CTransaction \<Rightarrow> txid" where
  "example_txid tx = replicate 8 (nLockTime tx)"

lemma example_view_ok: "view_inv example_view" "view_utxo example_view = db_coins example_db" "utxo_ok (db_coins example_db)"
proof -
  show "view_utxo example_view = db_coins example_db" by (simp add: cache_utxo_def empty_cache_def)
  show "view_inv example_view" by (rule example_view_inv)
  show "utxo_ok (db_coins example_db)"
    by (auto simp: utxo_ok_def example_db_def clean_def IsPruned_def txout_IsNull_def)
qed

lemma example_coinbase: "IsCoinBase example_cb" "\<not> IsCoinBase example_spend"
  by code_simp+

lemma example_scripts: "IsUnspendable [0x51] = Some (Inr False)" "IsUnspendable [0x6a] = Some (Inr True)"
  by (simp_all add: IsUnspendable_def mc_ParseOpDropOpReturnScript_def op_drop_loop.simps [of _ 0 0] op_drop_loop.simps [of _ 0 1]
    op_return_loop.simps [of _ 0] op_return_loop.simps [of _ 1] deref_def from_ptr_def mc_GetPushDataElement_def)

lemma example_FromTx:
  "FromTx example_cb 9 = Some (Inr \<lparr>fCoinBase = True, c_vout = [\<lparr>nValue = 5, scriptPubKey = [0x51]\<rparr>], c_nHeight = 9, c_nVersion = 1\<rparr>)"
  "FromTx example_spend 9 = Some (Inr \<lparr>fCoinBase = False, c_vout = [CTxOut_null, \<lparr>nValue = 10, scriptPubKey = [0x51]\<rparr>], c_nHeight = 9, c_nVersion = 1\<rparr>)"
  unfolding FromTx_def ClearUnspendable_def by (simp_all add: example_coinbase)
     (simp_all add: example_cb_def example_spend_def example_scripts Cleanup_def txout_IsNull_def)


lemma example_spend_maps:
  assumes "U (replicate 8 7) = db_coins example_db (replicate 8 7)"
  shows "\<exists>us U'. spend_maps (map prevout (vin example_spend)) U = Some (us, U')"
  using assms by (simp add: example_spend_def spend_map_def example_db_def Spend_def txout_IsNull_def Let_def)

lemma example_apply: "\<exists>uss U'. apply_txs example_txid 9 [example_cb, example_spend] (db_coins example_db) = Some (uss, U')"
proof -
  obtain U1 where c: "apply_tx example_txid 9 example_cb (db_coins example_db) = Some ([], U1)"
    and U1: "U1 (replicate 8 7) = db_coins example_db (replicate 8 7)"
    by (simp add: apply_tx_def example_coinbase example_FromTx) (simp add: example_txid_def example_cb_def)
  obtain us U2 where "spend_maps (map prevout (vin example_spend)) U1 = Some (us, U2)" using example_spend_maps [of U1] U1 by blast
  then have "\<exists>U3. apply_tx example_txid 9 example_spend U1 = Some (us, U3)" by (simp add: apply_tx_def example_coinbase example_FromTx)
  then show ?thesis using c by auto
qed

theorem DisconnectBlock_undoes_witness:
  "\<exists>vtxundo st' d. update_block (GetCoins db_GetCoins) example_txid [example_cb, example_spend] example_view 9 = Some (Inr (vtxundo, st'))
    \<and> DisconnectBlock (GetCoins db_GetCoins) (\<lambda>tip. bn_zero 8) example_txid \<lparr>fAddressIndex = True, fSpentIndex = True\<rparr>
        [example_cb, example_spend] (replicate 8 4) (replicate 8 3) 9 (Some vtxundo) False (SetBestBlock st' (replicate 8 4)) = Some (Inr d)
    \<and> d_return d \<and> view_utxo (d_view d) = view_utxo example_view"
proof -
  obtain uss U' where "apply_txs example_txid 9 [example_cb, example_spend] (view_utxo example_view) = Some (uss, U')"
    using example_apply example_view_ok(2) by auto
  moreover have "\<forall>tx \<in> set [example_cb, example_spend]. tx_outs_ok tx"
    by (simp add: tx_outs_ok_def example_cb_def example_spend_def txout_IsNull_def)
  moreover have "\<forall>tx \<in> set [example_cb, example_spend]. view_utxo example_view (example_txid tx) = None"
    unfolding example_view_ok(2) by (simp add: example_db_def example_txid_def example_cb_def example_spend_def)
  moreover have "distinct (map example_txid [example_cb, example_spend])"
    by (simp add: example_txid_def example_cb_def example_spend_def)
  moreover have "replicate 8 (4 :: u32) \<noteq> bn_zero 8" by (simp add: bn_zero_def)
  ultimately show ?thesis
    using DisconnectBlock_undoes [of example_view 9 example_cb "[example_spend]" example_txid uss U' "replicate 8 4"
        "\<lambda>tip. bn_zero 8" "\<lparr>fAddressIndex = True, fSpentIndex = True\<rparr>" "replicate 8 3" False]
      example_view_ok example_coinbase by auto
qed

theorem UpdateCoins_refines_witness:
  "\<exists>st'. UpdateCoins (GetCoins db_GetCoins) example_txid example_cb example_view 9 = Some (Inr ([], st'))
    \<and> view_inv st' \<and> view_utxo st' (replicate 8 1) \<noteq> None"
proof -
  let ?c = "\<lparr>fCoinBase = True, c_vout = [\<lparr>nValue = 5, scriptPubKey = [0x51]\<rparr>], c_nHeight = 9, c_nVersion = 1\<rparr>"
  have "apply_tx example_txid 9 example_cb (view_utxo example_view) = Some ([], (view_utxo example_view)(example_txid example_cb := live (Some ?c)))"
    by (simp add: apply_tx_def example_coinbase example_FromTx)
  moreover have "live (Some ?c) = Some ?c" "example_txid example_cb = replicate 8 1"
    by (simp_all add: live_def IsPruned_def txout_IsNull_def example_txid_def example_cb_def)
  moreover have "tx_outs_ok example_cb" by (simp add: tx_outs_ok_def example_cb_def txout_IsNull_def)
  ultimately obtain st' where "UpdateCoins (GetCoins db_GetCoins) example_txid example_cb example_view 9 = Some (Inr ([], st'))"
    "view_inv st'" "view_utxo st' = (view_utxo example_view)(replicate 8 1 := Some ?c)"
    using UpdateCoins_refines [of example_view example_cb example_txid 9 "[]"] example_view_ok(1) example_view_ok(2,3) by auto
  then show ?thesis by auto
qed

end
