(* ===== verification/VerifyScript.thy ===== *)
theory VerifyScript
  imports Standard Transaction
begin

text \<open>
  Signature hashes, the transaction signature checker and \<open>VerifyScript\<close> (the end of
  \<^verbatim>\<open>script/interpreter.cpp\<close>). Two things come from outside and are parameters: \<open>verify\<close>, the
  elliptic-curve check behind \<open>CPubKey::Verify\<close> (\<open>libsecp256k1\<close>), and \<open>CanSend\<close>, the lookup of
  send permissions in the permission database for an address. Hashes are their 32 or 20 bytes.
\<close>

subsection \<open>Signature hashes\<close>

function count_separators :: "bytes \<Rightarrow> nat \<Rightarrow> nat" where
  "count_separators it n =
     (case GetOp2 it of (fRet, opcode, vch, it') \<Rightarrow>
        if fRet then count_separators it' (if opcode = OP_CODESEPARATOR then n + 1 else n) else n)"
  by pat_completeness auto
termination
  by (relation "measure (\<lambda>(it, n). length it)") (auto dest!: GetOp2_success [OF sym])

text \<open>
  The second loop: \<open>pending\<close> is what lies between \<open>itBegin\<close> and \<open>it\<close>. The last write ends where
  the failing \<open>GetOp\<close> left \<open>it\<close>.
\<close>

function script_code_loop :: "bytes \<Rightarrow> bytes \<Rightarrow> bytes \<Rightarrow> bytes" where
  "script_code_loop it pending out =
     (case GetOp2 it of (fRet, opcode, vch, it') \<Rightarrow>
        if fRet then
          (if opcode = OP_CODESEPARATOR then script_code_loop it' [] (out @ pending)
           else script_code_loop it' (pending @ take (length it - length it') it) out)
        else out @ pending @ take (length it - length it') it)"
  by pat_completeness auto
termination
  by (relation "measure (\<lambda>(it, p, out). length it)") (auto dest!: GetOp2_success [OF sym])

declare count_separators.simps [simp del] script_code_loop.simps [simp del]

definition SerializeScriptCode :: "bytes \<Rightarrow> bytes" where
  "SerializeScriptCode scriptCode =
     WriteCompactSize (length scriptCode - count_separators scriptCode 0) @
     script_code_loop scriptCode [] []"

definition fAnyoneCanPay :: "int \<Rightarrow> bool" where
  "fAnyoneCanPay nHashType \<longleftrightarrow> nHashType AND 0x80 \<noteq> 0"

definition fHashSingle :: "int \<Rightarrow> bool" where
  "fHashSingle nHashType \<longleftrightarrow> nHashType AND 0x1f = 3"

definition fHashNone :: "int \<Rightarrow> bool" where
  "fHashNone nHashType \<longleftrightarrow> nHashType AND 0x1f = 2"

definition SerializeInput :: "CTransaction \<Rightarrow> bytes \<Rightarrow> nat \<Rightarrow> int \<Rightarrow> nat \<Rightarrow> bytes" where
  "SerializeInput txTo scriptCode nIn nHashType nInput =
     (let nInput = (if fAnyoneCanPay nHashType then nIn else nInput) in
      ser_outpoint (prevout (vin txTo ! nInput)) @
      (if nInput \<noteq> nIn then ser_bytes [] else SerializeScriptCode scriptCode) @
      (if nInput \<noteq> nIn \<and> (fHashSingle nHashType \<or> fHashNone nHashType) then ser_int 4 0
       else ser_u32 (nSequence (vin txTo ! nInput))))"

definition SerializeOutput :: "CTransaction \<Rightarrow> nat \<Rightarrow> int \<Rightarrow> nat \<Rightarrow> bytes" where
  "SerializeOutput txTo nIn nHashType nOutput =
     (if fHashSingle nHashType \<and> nOutput \<noteq> nIn then ser_txout CTxOut_null
      else ser_txout (vout txTo ! nOutput))"

definition SerializeTxTmp :: "CTransaction \<Rightarrow> bytes \<Rightarrow> nat \<Rightarrow> int \<Rightarrow> bytes" where
  "SerializeTxTmp txTo scriptCode nIn nHashType =
     (let nInputs = (if fAnyoneCanPay nHashType then 1 else length (vin txTo));
          nOutputs = (if fHashNone nHashType then 0
                      else if fHashSingle nHashType then nIn + 1 else length (vout txTo))
      in ser_int 4 (tx_nVersion txTo) @
         WriteCompactSize nInputs @ concat (map (SerializeInput txTo scriptCode nIn nHashType) [0..<nInputs]) @
         WriteCompactSize nOutputs @ concat (map (SerializeOutput txTo nIn nHashType) [0..<nOutputs]) @
         ser_u32 (nLockTime txTo))"

definition SignatureHash :: "script_env \<Rightarrow> bytes \<Rightarrow> CTransaction \<Rightarrow> nat \<Rightarrow> int \<Rightarrow> bytes" where
  "SignatureHash env scriptCode txTo nIn nHashType =
     (if nIn \<ge> length (vin txTo) then 1 # replicate 31 0
      else if nHashType AND 0x1f = 3 \<and> nIn \<ge> length (vout txTo) then 1 # replicate 31 0
      else CHash256 env (SerializeTxTmp txTo scriptCode nIn nHashType @ ser_int 4 nHashType))"

subsection \<open>The checker\<close>

definition TransactionCheckSig ::
    "script_env \<Rightarrow> (bytes \<Rightarrow> bytes \<Rightarrow> bytes \<Rightarrow> bool) \<Rightarrow> (bytes \<Rightarrow> bool) \<Rightarrow> CTransaction \<Rightarrow> nat \<Rightarrow>
     bytes \<Rightarrow> bytes \<Rightarrow> bytes \<Rightarrow> bool \<Rightarrow> bool \<times> bool" where
  "TransactionCheckSig env verify CanSend txTo nIn vchSigIn vchPubKey scriptCode CheckSendPermission =
     (let pubkey = CPubKey_Set vchPubKey in
      if \<not> CPubKey_IsValid pubkey then (False, CheckSendPermission)
      else if vchSigIn = [] then (False, CheckSendPermission)
      else
        (let nHashType = uint (last vchSigIn);
             vchSig = butlast vchSigIn;
             sighash = SignatureHash env scriptCode txTo nIn nHashType
         in if \<not> verify pubkey sighash vchSig then (False, CheckSendPermission)
            else if CheckSendPermission \<and> CanSend (CHash160 env vchPubKey) then (True, False)
            else (True, CheckSendPermission)))"

definition tx_env ::
    "script_env \<Rightarrow> (bytes \<Rightarrow> bytes \<Rightarrow> bytes \<Rightarrow> bool) \<Rightarrow> (bytes \<Rightarrow> bool) \<Rightarrow> CTransaction \<Rightarrow> nat \<Rightarrow> script_env" where
  "tx_env env verify CanSend txTo nIn =
     env\<lparr>env_CheckSig := TransactionCheckSig env verify CanSend txTo nIn\<rparr>"

subsection \<open>Verification\<close>

text \<open>The evaluation of the serialized script of a script-hash output.\<close>

definition verify_p2sh ::
    "script_env \<Rightarrow> std_params \<Rightarrow> (bytes \<Rightarrow> bool) \<Rightarrow> u32 \<Rightarrow> bytes \<Rightarrow> bytes \<Rightarrow> valstack \<Rightarrow> (ScriptError + unit) cpp" where
  "verify_p2sh env ps CanSend flags script_sig script_pubkey stackCopy =
     (if \<not> IsPushOnly script_sig then Inr (Inl SCRIPT_ERR_SIG_PUSHONLY)
      else if \<not> HasSmallIntegerInTheBeginning script_sig then Inr (Inl SCRIPT_ERR_EVAL_FALSE)
      else bind_cpp (ExtractDestination env ps script_pubkey) (\<lambda>dest.
        case dest of
          None \<Rightarrow> Inr (Inl SCRIPT_ERR_VERIFY)
        | Some addressRet \<Rightarrow>
            (case (if flags AND SCRIPT_VERIFY_SKIP_SEND_PERMISSION_CHECK = 0 then
                     (case addressRet of
                        CScriptID scriptID \<Rightarrow>
                          if CanSend scriptID then Some (flags OR SCRIPT_VERIFY_SKIP_SEND_PERMISSION_CHECK)
                          else Some flags
                      | _ \<Rightarrow> None)
                   else Some flags) of
               None \<Rightarrow> Inr (Inl SCRIPT_ERR_VERIFY)
             | Some p2shflags \<Rightarrow>
                 (case stackCopy of
                    [] \<Rightarrow> Inl AssertionFailed
                  | pubKeySerialized # stackCopy \<Rightarrow>
                      (case EvalScript env p2shflags pubKeySerialized stackCopy of
                         Inl e \<Rightarrow> Inr (Inl e)
                       | Inr [] \<Rightarrow> Inr (Inl SCRIPT_ERR_EVAL_FALSE)
                       | Inr (v # _) \<Rightarrow>
                           if \<not> CastToBool v then Inr (Inl SCRIPT_ERR_EVAL_FALSE) else Inr (Inr ()))))))"

definition VerifyScript ::
    "script_env \<Rightarrow> std_params \<Rightarrow> (bytes \<Rightarrow> bool) \<Rightarrow> u32 \<Rightarrow> bytes \<Rightarrow> bytes \<Rightarrow> (ScriptError + unit) cpp" where
  "VerifyScript env ps CanSend flags script_sig script_pubkey =
     (if flags AND SCRIPT_VERIFY_SIGPUSHONLY \<noteq> 0 \<and> \<not> IsPushOnly script_sig
      then Inr (Inl SCRIPT_ERR_SIG_PUSHONLY)
      else case EvalScript env flags script_sig [] of
             Inl e \<Rightarrow> Inr (Inl e)
           | Inr stk1 \<Rightarrow>
               (let stackCopy = (if flags AND SCRIPT_VERIFY_P2SH \<noteq> 0 then stk1 else []) in
                case EvalScript env flags script_pubkey stk1 of
                  Inl e \<Rightarrow> Inr (Inl e)
                | Inr [] \<Rightarrow> Inr (Inl SCRIPT_ERR_EVAL_FALSE)
                | Inr (v # stk2) \<Rightarrow>
                    if CastToBool v = False then Inr (Inl SCRIPT_ERR_CHECKSIGVERIFY)
                    else if \<not> HasSmallIntegerInTheBeginning script_sig \<and> length (v # stk2) \<noteq> 1
                    then Inr (Inl SCRIPT_ERR_EVAL_FALSE)
                    else if flags AND SCRIPT_VERIFY_P2SH \<noteq> 0 \<and> IsPayToScriptHash script_pubkey
                    then verify_p2sh env ps CanSend flags script_sig script_pubkey stackCopy
                    else Inr (Inr ())))"

section \<open>Signed scripts\<close>

lemma count_separators_instr:
  "small_script is [] \<Longrightarrow>
   count_separators (encode_many enc_instr is) n = n + count_list is (Code OP_CODESEPARATOR)"
proof (induction "is" arbitrary: n)
  case Nil
  then show ?case by (subst count_separators.simps) (simp add: GetOp2_def)
next
  case (Cons i "is")
  have ok: "instr_ok i" using Cons.prems by (simp add: small_script_def)
  have "GetOp2 (encode_many enc_instr (i # is))
      = (True, instr_opcode i, (case i of Push d \<Rightarrow> d | Code c \<Rightarrow> []), encode_many enc_instr is)"
    using GetOp2_instr_opcode [OF Cons.prems] by simp
  moreover have "instr_opcode i = OP_CODESEPARATOR \<longleftrightarrow> i = Code OP_CODESEPARATOR"
    using instr_opcode_eq [OF ok] by simp
  ultimately show ?case using Cons.IH [OF small_script_tl [OF Cons.prems]]
    by (subst count_separators.simps) simp
qed

lemma script_code_loop_instr:
  "small_script is [] \<Longrightarrow> script_code_loop (encode_many enc_instr is) pending out
     = out @ pending @ encode_many enc_instr (filter (\<lambda>i. i \<noteq> Code OP_CODESEPARATOR) is)"
proof (induction "is" arbitrary: pending out)
  case Nil
  then show ?case by (subst script_code_loop.simps) (simp add: GetOp2_def)
next
  case (Cons i "is")
  have ok: "instr_ok i" using Cons.prems by (simp add: small_script_def)
  have "GetOp2 (encode_many enc_instr (i # is))
      = (True, instr_opcode i, (case i of Push d \<Rightarrow> d | Code c \<Rightarrow> []), encode_many enc_instr is)"
    using GetOp2_instr_opcode [OF Cons.prems] by simp
  moreover have "instr_opcode i = OP_CODESEPARATOR \<longleftrightarrow> i = Code OP_CODESEPARATOR"
    using instr_opcode_eq [OF ok] by simp
  ultimately show ?case using Cons.IH [OF small_script_tl [OF Cons.prems]]
    by (subst script_code_loop.simps) simp
qed

lemma length_without_separators:
  "length (encode_many enc_instr is) - count_list is (Code OP_CODESEPARATOR)
     = length (encode_many enc_instr (filter (\<lambda>i. i \<noteq> Code OP_CODESEPARATOR) is))"
proof -
  have "length (encode_many enc_instr is) = count_list is (Code OP_CODESEPARATOR)
      + length (encode_many enc_instr (filter (\<lambda>i. i \<noteq> Code OP_CODESEPARATOR) is))"
    by (induction "is") auto
  then show ?thesis by simp
qed

text \<open>
  What a signature commits to of the script: a well-formed script code is serialized, with
  its length prefix, exactly as the script without its code separators.
\<close>

theorem SerializeScriptCode_correct:
  assumes "list_all instr_ok is" "length (encode_many enc_instr is) < 2 ^ 32"
  shows "SerializeScriptCode (encode_many enc_instr is)
    = ser_bytes (encode_many enc_instr (filter (\<lambda>i. i \<noteq> Code OP_CODESEPARATOR) is))"
  using count_separators_instr [of "is" 0] script_code_loop_instr [of "is" "[]" "[]"] assms
  by (simp add: SerializeScriptCode_def ser_bytes_def small_script_def length_without_separators)

theorem SerializeScriptCode_correct_witness: "SerializeScriptCode [0x76, 0xab, 1, 0xab, 0xac] = [4, 0x76, 1, 0xab, 0xac]"
  using SerializeScriptCode_correct [of "[Code 0x76, Code 0xab, Push [0xab], Code 0xac]"]
  by (simp add: push_data_def ser_bytes_def WriteCompactSize_def)

section \<open>Spending a key-hash output\<close>

lemma push_opcode_medium:
  assumes "2 \<le> length d" "length d \<le> 75"
  shows "instr_opcode (Push d) = of_nat (length d)" "unat (of_nat (length d) :: byte) = length d"
    "push_data d = of_nat (length d) # d"
  using assms by (simp_all add: push_data_def unat_of_nat_byte)

lemma minimal_push_medium: "2 \<le> length d \<Longrightarrow> length d \<le> 75 \<Longrightarrow> CheckMinimalPush d (of_nat (length d))"
  by (auto simp: CheckMinimalPush_def unat_of_nat_byte)

lemma eval_push_medium:
  assumes "2 \<le> length d" "length d \<le> 75" "vfExec st = []" "length (stack st) + length (altstack st) < 1000"
  shows "eval_instr env flags (instr_opcode (Push d)) d pc st = Inr (st\<lparr>stack := d # stack st\<rparr>)"
proof -
  define c where "c = (of_nat (length d) :: byte)"
  have u: "unat c = length d" using push_opcode_medium(2) [OF assms(1,2)] by (simp add: c_def)
  have "c \<le> OP_PUSHDATA4" "\<not> OP_16 < c" "\<not> disabled_opcode c"
    using u assms(2) by (auto simp: word_le_nat_alt word_less_nat_alt disabled_opcode_def)
  then show ?thesis
    using assms minimal_push_medium [OF assms(1,2)] push_opcode_medium(1) [OF assms(1,2)]
    by (simp add: eval_instr_def c_def [symmetric] count_op_def)
qed

definition p2pkh_instrs :: "bytes \<Rightarrow> instr list" where
  "p2pkh_instrs h = [Code OP_DUP, Code OP_HASH160, Push h, Code OP_EQUALVERIFY, Code OP_CHECKSIG]"

lemma encode_p2pkh: "encode_many enc_instr (p2pkh_instrs h) = GetScriptForDestination (CKeyID h)"
  by (simp add: p2pkh_instrs_def)

definition start_state :: "bytes \<Rightarrow> valstack \<Rightarrow> eval_state" where
  "start_state script stk =
     \<lparr>stack = stk, altstack = [], vfExec = [], nOpCount = 0, pbegincodehash = script\<rparr>"

lemma EvalScript_instrs:
  assumes "list_all instr_ok is" "length (encode_many enc_instr is) \<le> 10000"
  shows "EvalScript env flags (encode_many enc_instr is) stk =
    bind_err (eval_instrs env flags is (start_state (encode_many enc_instr is) stk)) (\<lambda>st.
      if vfExec st \<noteq> [] then Inl SCRIPT_ERR_UNBALANCED_CONDITIONAL else Inr (stack st))"
  using eval_loop_instrs [of "is" env flags] assms
  by (simp add: EvalScript_def small_script_def start_state_def bind_err_def not_less)

lemma EvalScript_two_pushes:
  assumes "2 \<le> length a" "length a \<le> 75" "2 \<le> length b" "length b \<le> 75"
  shows "EvalScript env flags (push_data a @ push_data b) [] = Inr [b, a]"
  using EvalScript_instrs [of "[Push a, Push b]" env flags "[]"] assms
  by (simp add: push_opcode_medium(3) eval_push_medium start_state_def del: instr_opcode.simps)

lemma first_error_None: "first_error a b = None \<longleftrightarrow> a = None \<and> b = None"
  by (cases a) (simp_all add: first_error_def)

lemma eval_code_simple:
  assumes "OP_16 < c" "\<not> disabled_opcode c" "vfExec st = []" "nOpCount st < 201"
  shows "eval_instr env flags c vch pc st =
    bind_err (exec_opcode env flags True c pc (st\<lparr>nOpCount := nOpCount st + 1\<rparr>)) (\<lambda>st.
      if length (stack st) + length (altstack st) > 1000 then Inl SCRIPT_ERR_STACK_SIZE else Inr st)"
proof -
  have "\<not> c \<le> OP_PUSHDATA4" using assms(1) by (auto simp: word_le_nat_alt word_less_nat_alt)
  then show ?thesis using assms by (simp add: eval_instr_def count_op_def)
qed

lemma p2pkh_exec:
  "exec_opcode env flags True OP_DUP pc st =
     (case stack st of x # r \<Rightarrow> Inr (st\<lparr>stack := x # x # r\<rparr>) | [] \<Rightarrow> Inl SCRIPT_ERR_INVALID_STACK_OPERATION)"
  "exec_opcode env flags True OP_HASH160 pc st =
     (case stack st of x # r \<Rightarrow> Inr (st\<lparr>stack := CHash160 env x # r\<rparr>) | [] \<Rightarrow> Inl SCRIPT_ERR_INVALID_STACK_OPERATION)"
  "exec_opcode env flags True OP_EQUALVERIFY pc st = op_equal OP_EQUALVERIFY st"
  "exec_opcode env flags True OP_CHECKSIG pc st = op_checksig env flags OP_CHECKSIG st"
  by (simp_all add: exec_opcode_def op_stack_def stack_op.simps op_hash_def split: list.splits)

lemmas p2pkh_disabled = disabled_opcode_def

definition sig_check :: "script_env \<Rightarrow> u32 \<Rightarrow> bytes \<Rightarrow> bytes \<Rightarrow> bytes \<Rightarrow> bool" where
  "sig_check env flags sig pk code \<longleftrightarrow>
     (case env_CheckSig env sig pk code (flags AND SCRIPT_VERIFY_SKIP_SEND_PERMISSION_CHECK = 0) of
        (fOk, cannot_send) \<Rightarrow> fOk \<and> \<not> cannot_send)"

lemma EvalScript_p2pkh:
  assumes h: "length h = 20"
  shows "EvalScript env flags (GetScriptForDestination (CKeyID h)) [pk, sig] =
    (if CHash160 env pk \<noteq> h then Inl SCRIPT_ERR_EQUALVERIFY
     else case first_error (CheckSignatureEncoding env sig flags) (CheckPubKeyEncoding pk flags) of
       Some e \<Rightarrow> Inl e
     | None \<Rightarrow> Inr [vch_bool (sig_check env flags sig pk
         (snd (FindAndDelete (GetScriptForDestination (CKeyID h)) (push_data sig))))])"
proof -
  let ?spk = "GetScriptForDestination (CKeyID h)"
  have "length (encode_many enc_instr (p2pkh_instrs h)) \<le> 10000" "list_all instr_ok (p2pkh_instrs h)"
    using h by (simp_all add: p2pkh_instrs_def push_data_def)
  from EvalScript_instrs [OF this(2,1), of env flags "[pk, sig]"]
  have "EvalScript env flags ?spk [pk, sig] =
    bind_err (eval_instrs env flags (p2pkh_instrs h) (start_state ?spk [pk, sig])) (\<lambda>st.
      if vfExec st \<noteq> [] then Inl SCRIPT_ERR_UNBALANCED_CONDITIONAL else Inr (stack st))"
    by (simp only: encode_p2pkh)
  then show ?thesis unfolding p2pkh_instrs_def
    using h
    by (simp add: start_state_def eval_code_simple p2pkh_exec p2pkh_disabled op_equal_def
          eval_push_medium [simplified] op_checksig_def sig_check_def Let_def
          del: GetScriptForDestination.simps push_data_def split: option.splits prod.splits)
qed

lemma FindAndDelete_p2pkh:
  assumes "length h = 20" "sig \<noteq> h"
  shows "snd (FindAndDelete (GetScriptForDestination (CKeyID h)) (push_data sig)) = GetScriptForDestination (CKeyID h)"
proof -
  have small: "small_script (p2pkh_instrs h) []"
    using assms(1) by (simp add: small_script_def p2pkh_instrs_def push_data_def)
  have "filter (\<lambda>i. i \<noteq> Push sig) (p2pkh_instrs h) = p2pkh_instrs h"
    using assms(2) by (simp add: p2pkh_instrs_def)
  then have "delete_loop (push_data sig) (encode_many enc_instr (p2pkh_instrs h))
      = (count_list (p2pkh_instrs h) (Push sig), encode_many enc_instr (p2pkh_instrs h))"
    using delete_loop_instr [of "Push sig", OF _ small] by simp
  then show ?thesis unfolding FindAndDelete_def encode_p2pkh by simp
qed

lemma tx_env_simps [simp]:
  "CHash160 (tx_env env verify CanSend tx nIn) = CHash160 env"
  "CheckSignatureEncoding (tx_env env verify CanSend tx nIn) = CheckSignatureEncoding env"
  by (auto simp: fun_eq_iff tx_env_def CHash160_def CheckSignatureEncoding_def IsLowDERSignature_def)

lemma sig_check_tx:
  assumes "sig \<noteq> []"
  shows "sig_check (tx_env env verify CanSend tx nIn) flags sig pk code \<longleftrightarrow>
    pubkey_ok pk \<and> verify pk (SignatureHash env code tx nIn (uint (last sig))) (butlast sig)
    \<and> (flags AND SCRIPT_VERIFY_SKIP_SEND_PERMISSION_CHECK \<noteq> 0 \<or> CanSend (CHash160 env pk))"
  using assms by (auto simp: sig_check_def tx_env_def TransactionCheckSig_def CPubKey_Set_def CPubKey_IsValid_def
      pubkey_ok_def Let_def)

lemma HasSmallInteger_push:
  assumes "2 \<le> length a" "length a \<le> 75"
  shows "\<not> HasSmallIntegerInTheBeginning (push_data a @ rest)"
proof -
  have "unat (of_nat (length a) :: byte) = length a" using push_opcode_medium(2) [OF assms] .
  then have "(of_nat (length a) :: byte) \<noteq> OP_0" "\<not> OP_1 \<le> (of_nat (length a) :: byte)"
    using assms by (auto simp: word_le_nat_alt word_unat_eq_iff)
  then show ?thesis using push_opcode_medium(3) [OF assms] by (simp add: HasSmallIntegerInTheBeginning_def)
qed

text \<open>
  C40. Spending a pay-to-key-hash output: for a script signature that pushes a signature and a
  key, \<open>VerifyScript\<close> succeeds exactly when the key hashes to the address, both encodings
  satisfy the flags, the signature verifies for the signature hash of the transaction, and,
  unless the check is skipped, the address has permission to send.
\<close>

theorem VerifyScript_p2pkh:
  assumes "length h = 20" "2 \<le> length sig" "length sig \<le> 75" "2 \<le> length pk" "length pk \<le> 75" "sig \<noteq> h"
  shows "VerifyScript (tx_env env verify CanSend tx nIn) ps CanSend flags
      (push_data sig @ push_data pk) (GetScriptForDestination (CKeyID h)) = Inr (Inr ())
    \<longleftrightarrow> CHash160 env pk = h \<and> CheckSignatureEncoding env sig flags = None
      \<and> CheckPubKeyEncoding pk flags = None \<and> pubkey_ok pk
      \<and> verify pk (SignatureHash env (GetScriptForDestination (CKeyID h)) tx nIn (uint (last sig))) (butlast sig)
      \<and> (flags AND SCRIPT_VERIFY_SKIP_SEND_PERMISSION_CHECK \<noteq> 0 \<or> CanSend h)"
proof -
  let ?env = "tx_env env verify CanSend tx nIn" and ?spk = "GetScriptForDestination (CKeyID h)"
  have push: "IsPushOnly (push_data sig @ push_data pk)"
    using IsPushOnly_instr [of "[Push sig, Push pk]"] assms
    by (simp add: small_script_def push_opcode_medium(3))
  have nosmall: "\<not> HasSmallIntegerInTheBeginning (push_data sig @ push_data pk)"
    using HasSmallInteger_push assms by blast
  have not_p2sh: "\<not> IsPayToScriptHash ?spk" by (simp add: IsPayToScriptHash_def)
  have ne: "sig \<noteq> []" using assms(2) by auto
  have ev1: "EvalScript ?env flags (push_data sig @ push_data pk) [] = Inr [pk, sig]"
    using assms by (intro EvalScript_two_pushes)
  define r where "r = EvalScript ?env flags ?spk [pk, sig]"
  have r: "(\<exists>e. r = Inl e) \<or> r = Inr [vchTrue] \<or> r = Inr [vchFalse]"
    unfolding r_def EvalScript_p2pkh [OF assms(1)] by (simp del: GetScriptForDestination.simps split: option.split)
  have "VerifyScript ?env ps CanSend flags (push_data sig @ push_data pk) ?spk = Inr (Inr ()) \<longleftrightarrow>
      EvalScript ?env flags ?spk [pk, sig] = Inr [vchTrue]"
    using push nosmall not_p2sh ev1 r unfolding r_def
    by (auto simp: VerifyScript_def Let_def simp del: GetScriptForDestination.simps)
  also have "\<dots> \<longleftrightarrow> CHash160 env pk = h \<and> CheckSignatureEncoding env sig flags = None
      \<and> CheckPubKeyEncoding pk flags = None \<and> sig_check ?env flags sig pk ?spk"
    unfolding EvalScript_p2pkh [OF assms(1)] FindAndDelete_p2pkh [OF assms(1,6)]
    using first_error_None [of "CheckSignatureEncoding env sig flags" "CheckPubKeyEncoding pk flags"]
    by (auto simp del: GetScriptForDestination.simps split: option.splits)
  finally show ?thesis unfolding sig_check_tx [OF ne] by blast
qed

theorem VerifyScript_p2pkh_witness:
  "VerifyScript (tx_env example_env (\<lambda>_ _ s. s = [5]) (\<lambda>a. True) example_tx 0)
     example_params
     (\<lambda>a. True) 0
     (push_data [5, 1] @ push_data (2 # replicate 32 9))
     (GetScriptForDestination (CKeyID (2 # replicate 19 9))) = Inr (Inr ())"
proof -
  have "CHash160 example_env (2 # replicate 32 9) = 2 # replicate 19 9"
    by (simp add: CHash160_def example_env_def)
  then show ?thesis
    using VerifyScript_p2pkh [of "2 # replicate 19 9" "[5, 1]" "2 # replicate 32 9" example_env
        "\<lambda>_ _ s. s = [5]" "\<lambda>a. True" example_tx 0 _ 0]
    by (simp add: CheckSignatureEncoding_def CheckPubKeyEncoding_def pubkey_ok_def GetLen_def
        del: GetScriptForDestination.simps)
qed

end
