(* ===== verification/Rounding.thy ===== *)
theory Rounding
  imports Main "HOL-Library.Log_Nat"
begin

text \<open>
  Rounding of the binary floating-point formats: the nearest number with \<open>p\<close> significant bits, the even
  one of two. Numbers are natural multiples of a fixed power of two; \<open>p\<close> is 53 for \<open>double\<close> and 24 for
  \<open>float\<close>.
\<close>

definition round_sig :: "nat \<Rightarrow> nat \<Rightarrow> nat" where
  "round_sig p m =
     (let s = floorlog 2 m - p; q = m div 2 ^ s; r = m mod 2 ^ s
      in (if 2 * r > 2 ^ s \<or> (2 * r = 2 ^ s \<and> odd q) then q + 1 else q) * 2 ^ s)"

lemma round_sig_le: "2 * round_sig p m \<le> 2 * m + 2 ^ (floorlog 2 m - p)"
proof -
  define s q r where "s = floorlog 2 m - p" and "q = m div 2 ^ s" and "r = m mod 2 ^ s"
  have m: "m = q * 2 ^ s + r" unfolding q_def r_def by (rule div_mult_mod_eq [symmetric])
  have "round_sig p m = (if 2 * r > 2 ^ s \<or> (2 * r = 2 ^ s \<and> odd q) then q + 1 else q) * 2 ^ s"
    by (simp add: round_sig_def Let_def s_def q_def r_def)
  then show ?thesis unfolding s_def [symmetric] by (subst (2) m) (auto simp: algebra_simps)
qed

text \<open>The relative error, upwards.\<close>

lemma round_sig_err:
  assumes "0 < m" "0 < p"
  shows "2 ^ p * round_sig p m \<le> (2 ^ p + 1) * m"
proof (cases "floorlog 2 m \<le> p")
  case True
  then show ?thesis by (simp add: round_sig_def)
next
  case False
  then have e: "floorlog 2 m - 1 = (floorlog 2 m - p) + (p - 1)" using assms(2) by simp
  have "2 ^ (floorlog 2 m - 1) \<le> m" using floorlog_bounds [of m 2] assms by simp
  then have "2 ^ (p - 1) * 2 ^ (floorlog 2 m - p) \<le> m" unfolding e by (simp add: power_add mult.commute)
  then have "2 ^ p * 2 ^ (floorlog 2 m - p) \<le> 2 * m" using assms(2) by (cases p) simp_all
  moreover have "2 ^ p * (2 * round_sig p m) \<le> 2 ^ p * (2 * m + 2 ^ (floorlog 2 m - p))"
    using round_sig_le [of p m] by (rule mult_le_mono2)
  ultimately show ?thesis by (simp add: algebra_simps)
qed

text \<open>A number that is representable is a bound of the rounding of a larger one.\<close>

lemma round_sig_ge:
  assumes "k * 2 ^ (floorlog 2 m - p) \<le> m"
  shows "k * 2 ^ (floorlog 2 m - p) \<le> round_sig p m"
proof -
  have "k \<le> m div 2 ^ (floorlog 2 m - p)" using assms by (simp add: less_eq_div_iff_mult_less_eq)
  then show ?thesis unfolding round_sig_def Let_def by (auto intro: mult_le_mono1)
qed

text \<open>A number just below a representable one is rounded up to it.\<close>

lemma round_sig_up:
  assumes "m + d = k * 2 ^ (floorlog 2 m - p)" "2 * d < 2 ^ (floorlog 2 m - p)"
  shows "round_sig p m = k * 2 ^ (floorlog 2 m - p)"
proof -
  define s where "s = floorlog 2 m - p"
  have md: "m + d = k * 2 ^ s" "2 * d < 2 ^ s" using assms by (simp_all add: s_def)
  show ?thesis
  proof (cases "d = 0")
    case True
    then have "m div 2 ^ s = k" "m mod 2 ^ s = 0" using md by simp_all
    then show ?thesis by (simp add: round_sig_def Let_def s_def [symmetric])
  next
    case False
    then have k: "0 < k" using md by (cases k) auto
    then have e: "m + d = 2 ^ s + (k - 1) * 2 ^ s" using md(1) by (cases k) simp_all
    then have q: "m div 2 ^ s = k - 1" using md(2) False by (intro div_nat_eqI) (simp_all add: mult.commute)
    then have "m mod 2 ^ s = 2 ^ s - d" using e div_mult_mod_eq [of m "2 ^ s"] md(2) by simp
    note q this
    moreover have "2 * (2 ^ s - d) > 2 ^ s" using md(2) by simp
    ultimately show ?thesis using k by (simp add: round_sig_def Let_def s_def [symmetric])
  qed
qed

lemma round_sig_exact:
  assumes "m < 2 ^ p"
  shows "round_sig p m = m"
proof -
  have "floorlog 2 m \<le> p" using assms by (simp add: floorlog_le_iff)
  then show ?thesis by (simp add: round_sig_def)
qed

end
