(* ===== verification/TxChecks.thy ===== *)
theory TxChecks
  imports BlockCoins VerifyScript Pow Rounding
begin

text \<open>
  The checks of transactions in \<^verbatim>\<open>core/main.cpp\<close>: finality, signature-operation counts, the checks
  without context, the inputs of a transaction against the coins view, and the reward of a
  block. A rejection is a value: \<open>DoS\<close> with its score, or \<open>Invalid\<close>, and the reason that the code
  gives. The permission database's \<open>CanSend\<close> and the signature check of the curve library are
  arguments; the signature cache, which only remembers verified signatures, is left out.
\<close>

record money_params =
  MAX_MONEY :: int
  MAX_BLOCK_SIZE :: nat
  COINBASE_MATURITY :: int
  WITH_NATIVE_CURRENCY :: bool

datatype rejection = DoS int string | Invalid string

section \<open>Checks without context\<close>

abbreviation (input) "LOCKTIME_THRESHOLD \<equiv> (500000000 :: int)"

definition IsFinalTx :: "CTransaction \<Rightarrow> int \<Rightarrow> int \<Rightarrow> int \<Rightarrow> int \<Rightarrow> bool" where
  "IsFinalTx tx nBlockHeight nBlockTime active_height adjusted_time =
     (if nLockTime tx = 0 then True
      else
        (let nBlockHeight = (if nBlockHeight = 0 then active_height else nBlockHeight);
             nBlockTime = (if nBlockTime = 0 then adjusted_time else nBlockTime)
         in if uint (nLockTime tx) < (if uint (nLockTime tx) < LOCKTIME_THRESHOLD then nBlockHeight else nBlockTime)
            then True
            else list_all txin_IsFinal (vin tx)))"

definition GetLegacySigOpCount :: "CTransaction \<Rightarrow> u32" where
  "GetLegacySigOpCount tx =
     foldl (\<lambda>n txout. n + of_nat (GetSigOpCount (scriptPubKey txout) False))
       (foldl (\<lambda>n txin. n + of_nat (GetSigOpCount (scriptSig txin) False)) 0 (vin tx)) (vout tx)"

fun p2sh_sigops_loop ::
    "('s \<Rightarrow> txid \<Rightarrow> CCoins option \<times> 's) \<Rightarrow> 's cached \<Rightarrow> CTxIn list \<Rightarrow> u32 \<Rightarrow> (u32 \<times> 's cached) cpp" where
  "p2sh_sigops_loop base_GetCoins st [] nSigOps = Inr (nSigOps, st)"
| "p2sh_sigops_loop base_GetCoins st (txin # ins) nSigOps =
     bind_cpp (GetOutputFor base_GetCoins st txin) (\<lambda>(prevout, st).
       p2sh_sigops_loop base_GetCoins st ins
         (if IsPayToScriptHash (scriptPubKey prevout)
          then nSigOps + of_nat (GetSigOpCount_P2SH (scriptPubKey prevout) (scriptSig txin)) else nSigOps))"

definition GetP2SHSigOpCount ::
    "('s \<Rightarrow> txid \<Rightarrow> CCoins option \<times> 's) \<Rightarrow> 's cached \<Rightarrow> CTransaction \<Rightarrow> (u32 \<times> 's cached) cpp" where
  "GetP2SHSigOpCount base_GetCoins st tx =
     (if IsCoinBase tx then Inr (0, st) else p2sh_sigops_loop base_GetCoins st (vin tx) 0)"

text \<open>
  The running sum stays in range: it is at most twice \<open>MAX_MONEY\<close>, which is at most \<open>10 ^ 18\<close>.
\<close>

fun check_values :: "int \<Rightarrow> CTxOut list \<Rightarrow> int \<Rightarrow> rejection option" where
  "check_values max_money [] nValueOut = None"
| "check_values max_money (txout # outs) nValueOut =
     (if nValue txout < 0 then Some (DoS 100 ''bad-txns-vout-negative'')
      else if nValue txout > max_money then Some (DoS 100 ''bad-txns-vout-toolarge'')
      else
        (let nValueOut = nValueOut + nValue txout
         in if \<not> MoneyRange max_money nValueOut then Some (DoS 100 ''bad-txns-txouttotal-toolarge'')
            else check_values max_money outs nValueOut))"

text \<open>\<open>std::set\<close> finds an element that is neither less nor greater.\<close>

fun check_duplicates :: "CTxIn list \<Rightarrow> COutPoint list \<Rightarrow> rejection option" where
  "check_duplicates [] vInOutPoints = None"
| "check_duplicates (txin # ins) vInOutPoints =
     (if list_ex (\<lambda>p. \<not> outpoint_less p (prevout txin) \<and> \<not> outpoint_less (prevout txin) p) vInOutPoints
      then Some (DoS 100 ''bad-txns-inputs-duplicate'')
      else check_duplicates ins (prevout txin # vInOutPoints))"

definition or_else :: "rejection option \<Rightarrow> rejection option \<Rightarrow> rejection option" where
  "or_else a b = (case a of None \<Rightarrow> b | Some r \<Rightarrow> Some r)"

definition CheckTransaction :: "money_params \<Rightarrow> CTransaction \<Rightarrow> rejection option" where
  "CheckTransaction ps tx =
     (if vin tx = [] then Some (DoS 10 ''bad-txns-vin-empty'')
      else if vout tx = [] then Some (DoS 10 ''bad-txns-vout-empty'')
      else if length (ser_tx tx) > MAX_BLOCK_SIZE ps then Some (DoS 100 ''bad-txns-oversize'')
      else or_else (check_values (MAX_MONEY ps) (vout tx) 0) (or_else (check_duplicates (vin tx) [])
        (if IsCoinBase tx then
           (if length (scriptSig (vin tx ! 0)) < 2 \<or> length (scriptSig (vin tx ! 0)) > 260
            then Some (DoS 100 ''bad-cb-length'') else None)
         else if list_ex (\<lambda>txin. outpoint_IsNull (prevout txin)) (vin tx)
         then Some (DoS 10 ''bad-txns-prevout-null'') else None)))"

section \<open>Inputs\<close>

text \<open>A script check is its script, input and flags; running it is \<open>VerifyScript\<close> with the checker of the input.\<close>

record CScriptCheck =
  sc_scriptPubKey :: bytes
  sc_nIn :: nat
  sc_nFlags :: u32

record check_env =
  ce_env :: script_env
  ce_std :: std_params
  ce_verify :: "bytes \<Rightarrow> bytes \<Rightarrow> bytes \<Rightarrow> bool"
  ce_CanSend :: "bytes \<Rightarrow> bool"

definition run_check :: "check_env \<Rightarrow> CTransaction \<Rightarrow> CScriptCheck \<Rightarrow> (ScriptError + unit) cpp" where
  "run_check ce tx chk =
     VerifyScript (tx_env (ce_env ce) (ce_verify ce) (ce_CanSend ce) tx (sc_nIn chk)) (ce_std ce) (ce_CanSend ce) (sc_nFlags chk)
       (scriptSig (vin tx ! sc_nIn chk)) (sc_scriptPubKey chk)"

text \<open>The permission of the address an output pays to: \<open>Inl\<close> is a rejection, otherwise the flags for its check.\<close>

definition send_permission :: "check_env \<Rightarrow> bytes \<Rightarrow> rejection + u32" where
  "send_permission ce script =
     (case ExtractDestinationScriptValid (ce_env ce) script of
        Some (CKeyID k) \<Rightarrow>
          if \<not> ce_CanSend ce k then Inl (Invalid ''no send permission'') else Inr SCRIPT_VERIFY_SKIP_SEND_PERMISSION_CHECK
      | Some (CScriptID k) \<Rightarrow> Inr (if ce_CanSend ce k then SCRIPT_VERIFY_SKIP_SEND_PERMISSION_CHECK else 0)
      | _ \<Rightarrow> Inr 0)"

text \<open>
  The first loop: maturity, value and permission of every input. The result is the sum of the
  values and, for every input, its coins and flags.
\<close>

fun input_loop ::
    "('s \<Rightarrow> txid \<Rightarrow> CCoins option \<times> 's) \<Rightarrow> check_env \<Rightarrow> money_params \<Rightarrow> bool \<Rightarrow> int \<Rightarrow> 's cached \<Rightarrow> CTxIn list \<Rightarrow> int
       \<Rightarrow> ((rejection + int \<times> u32 list) \<times> 's cached) cpp" where
  "input_loop base_GetCoins ce ps fScriptChecks nSpendHeight st [] nValueIn = Inr (Inr (nValueIn, []), st)"
| "input_loop base_GetCoins ce ps fScriptChecks nSpendHeight st (txin # ins) nValueIn =
     (case GetCoins base_GetCoins st (out_hash (prevout txin)) of
        (None, st) \<Rightarrow> Inl AssertionFailed
      | (Some coins, st) \<Rightarrow>
          let n = unat (out_n (prevout txin)) in
          if fCoinBase coins \<and> nSpendHeight - c_nHeight coins < COINBASE_MATURITY ps
          then Inr (Inl (Invalid ''bad-txns-premature-spend-of-coinbase''), st)
          else if n \<ge> length (c_vout coins) then Inl OutOfRange
          else
            (let v = nValue (c_vout coins ! n); nValueIn = nValueIn + v
             in if \<not> MoneyRange (MAX_MONEY ps) v \<or> \<not> MoneyRange (MAX_MONEY ps) nValueIn
                then Inr (Inl (DoS 100 ''bad-txns-inputvalues-outofrange''), st)
                else
                  case (if fScriptChecks then send_permission ce (scriptPubKey (c_vout coins ! n)) else Inr 0) of
                    Inl r \<Rightarrow> Inr (Inl r, st)
                  | Inr flags \<Rightarrow>
                      bind_cpp (input_loop base_GetCoins ce ps fScriptChecks nSpendHeight st ins nValueIn) (\<lambda>(r, st).
                        Inr (map_sum id (\<lambda>(s, fs). (s, flags # fs)) r, st))))"

abbreviation (input) "STANDARD_NOT_MANDATORY_VERIFY_FLAGS \<equiv> (0xde :: u32)"

definition script_failure :: "check_env \<Rightarrow> CTransaction \<Rightarrow> bytes \<Rightarrow> nat \<Rightarrow> u32 \<Rightarrow> rejection cpp" where
  "script_failure ce tx script i flags =
     (if flags AND STANDARD_NOT_MANDATORY_VERIFY_FLAGS \<noteq> 0 then
        bind_cpp (run_check ce tx \<lparr>sc_scriptPubKey = script, sc_nIn = i,
            sc_nFlags = flags AND NOT STANDARD_NOT_MANDATORY_VERIFY_FLAGS\<rparr>) (\<lambda>r.
          Inr (case r of
                 Inr _ \<Rightarrow> Invalid ''non-mandatory-script-verify-flag''
               | Inl _ \<Rightarrow> DoS 1 ''mandatory-script-verify-flag-failed''))
      else Inr (DoS 1 ''mandatory-script-verify-flag-failed''))"

text \<open>
  The second loop. With a vector for deferred checks (\<open>defer\<close>), the checks whose permission is
  settled are returned instead of run.
\<close>

fun script_loop ::
    "('s \<Rightarrow> txid \<Rightarrow> CCoins option \<times> 's) \<Rightarrow> check_env \<Rightarrow> CTransaction \<Rightarrow> u32 \<Rightarrow> bool \<Rightarrow> 's cached
       \<Rightarrow> (nat \<times> CTxIn \<times> u32) list \<Rightarrow> ((rejection + CScriptCheck list) \<times> 's cached) cpp" where
  "script_loop base_GetCoins ce tx flags defer st [] = Inr (Inr [], st)"
| "script_loop base_GetCoins ce tx flags defer st ((i, txin, send_flags) # xs) =
     (case GetCoins base_GetCoins st (out_hash (prevout txin)) of
        (None, st) \<Rightarrow> Inl AssertionFailed
      | (Some coins, st) \<Rightarrow>
          let n = unat (out_n (prevout txin)) in
          if n \<ge> length (c_vout coins) then Inl OutOfRange
          else
            (let script = scriptPubKey (c_vout coins ! n);
                 check = \<lparr>sc_scriptPubKey = script, sc_nIn = i, sc_nFlags = flags OR send_flags\<rparr>
             in if defer \<and> send_flags \<noteq> 0 then
                  bind_cpp (script_loop base_GetCoins ce tx flags defer st xs) (\<lambda>(r, st). Inr (map_sum id (\<lambda>cs. check # cs) r, st))
                else
                  bind_cpp (run_check ce tx check) (\<lambda>r.
                    case r of
                      Inr _ \<Rightarrow> script_loop base_GetCoins ce tx flags defer st xs
                    | Inl _ \<Rightarrow> bind_cpp (script_failure ce tx script i flags) (\<lambda>rej. Inr (Inl rej, st)))))"

text \<open>
  \<open>block_height\<close> looks a block hash up in \<open>mapBlockIndex\<close>; the code uses the result without a test.
\<close>

definition CheckInputs ::
    "('s \<Rightarrow> txid \<Rightarrow> CCoins option \<times> 's) \<Rightarrow> ('s \<Rightarrow> base_uint) \<Rightarrow> (base_uint \<Rightarrow> int option) \<Rightarrow> check_env \<Rightarrow> money_params
       \<Rightarrow> CTransaction \<Rightarrow> 's cached \<Rightarrow> bool \<Rightarrow> u32 \<Rightarrow> bool \<Rightarrow> ((rejection + CScriptCheck list) \<times> 's cached) cpp" where
  "CheckInputs base_GetCoins base_GetBestBlock block_height ce ps tx inputs fScriptChecks flags defer =
     (if IsCoinBase tx then Inr (Inr [], inputs)
      else
        (case HaveInputs base_GetCoins inputs tx of
           (False, st) \<Rightarrow> Inr (Inl (Invalid ''inputs unavailable''), st)
         | (True, st) \<Rightarrow>
             (case GetBestBlock base_GetBestBlock st of (best, st) \<Rightarrow>
              case block_height best of
                None \<Rightarrow> Inl OutOfRange
              | Some h \<Rightarrow>
                  bind_cpp (input_loop base_GetCoins ce ps fScriptChecks (h + 1) st (vin tx) 0) (\<lambda>(r, st).
                    case r of
                      Inl rej \<Rightarrow> Inr (Inl rej, st)
                    | Inr (nValueIn, send_flags) \<Rightarrow>
                        bind_cpp (GetValueOut (WITH_NATIVE_CURRENCY ps) (MAX_MONEY ps) tx) (\<lambda>nValueOut.
                          if nValueIn < nValueOut then Inr (Inl (DoS 100 ''bad-txns-in-belowout''), st)
                          else if nValueIn - nValueOut < 0 then Inr (Inl (DoS 100 ''bad-txns-fee-negative''), st)
                          else if \<not> MoneyRange (MAX_MONEY ps) (nValueIn - nValueOut)
                          then Inr (Inl (DoS 100 ''bad-txns-fee-outofrange''), st)
                          else if fScriptChecks
                          then script_loop base_GetCoins ce tx flags defer st (enumerate 0 (zip (vin tx) send_flags))
                          else Inr (Inr [], st))))))"

section \<open>Rewards\<close>

text \<open>
  \<open>nSubsidy * 0.2\<close> is computed in double precision: the nearest number with 53 significant bits, the
  even one of two. The constant \<open>0.2\<close> is \<open>3602879701896397 / 2 ^ 54\<close>, so that the product of a number
  with it is a multiple of \<open>2 ^ - 54\<close>, and the conversion back cuts the fraction off.
\<close>

definition round_double :: "nat \<Rightarrow> nat" where
  "round_double m = round_sig 53 m"

definition times_0_2 :: "int \<Rightarrow> int" where
  "times_0_2 n =
     (let a = round_double (nat \<bar>n\<bar>); p = int (round_double (a * 3602879701896397) div 2 ^ 54)
      in if n < 0 then - p else p)"

record reward_params =
  MCP_INITIAL_BLOCK_REWARD :: int
  MCP_FIRST_BLOCK_REWARD :: int
  SubsidyHalvingInterval :: int

definition GetBlockValue :: "chain_params \<Rightarrow> reward_params \<Rightarrow> int \<Rightarrow> int \<Rightarrow> int cpp" where
  "GetBlockValue ps rp height nFees =
     (let nSubsidy = MCP_INITIAL_BLOCK_REWARD rp;
          nSubsidy = (if height \<ge> StartHeightBlockRewardAdj ps then nSubsidy sdiv 2 else nSubsidy);
          nSubsidy = (if height \<ge> StartHeightBlockRewardAdj2nd ps then times_0_2 nSubsidy else nSubsidy);
          nSubsidy = (if height < 16801 \<and> MCP_FIRST_BLOCK_REWARD rp \<noteq> 0 then MCP_FIRST_BLOCK_REWARD rp sdiv 16800 else nSubsidy)
      in bind_cpp (div_cpp height (SubsidyHalvingInterval rp)) (\<lambda>halvings.
           if halvings \<ge> 64 then Inr nFees
           else Inr (drop_bit (nat halvings) nSubsidy + nFees)))"

subsection \<open>The product with the double constant\<close>

lemmas round_double_err = round_sig_err [of _ 53, folded round_double_def] round_sig_ge [of _ _ 53, folded round_double_def]

lemmas round_double_exact = round_sig_exact [of _ 53, folded round_double_def]

lemma times_0_2_fifth:
  assumes "0 \<le> n" "n < 2 ^ 52"
  shows "times_0_2 n = n div 5"
proof -
  define a where "a = nat n"
  have a: "a < 2 ^ 52" using assms by (simp add: a_def nat_less_iff)
  define m k where "m = a * 3602879701896397" and "k = a div 5"
  have m5: "5 * m = a * (2 ^ 54 + 1)" by (simp add: m_def)
  have "round_double m div 2 ^ 54 = k"
  proof (cases "a = 0")
    case True
    then show ?thesis by (simp add: m_def k_def round_double_def round_sig_def)
  next
    case False
    then have m0: "0 < m" by (simp add: m_def)
    have "m < 2 ^ 105" using a m5 by simp
    then have "floorlog 2 m \<le> 105" by (simp add: floorlog_le_iff)
    then have s: "floorlog 2 m - 53 \<le> 54" by simp
    then have "2 ^ 54 = 2 ^ (54 - (floorlog 2 m - 53)) * (2 ^ (floorlog 2 m - 53) :: nat)" by (simp add: power_add [symmetric])
    then have km: "k * 2 ^ 54 = (k * 2 ^ (54 - (floorlog 2 m - 53))) * 2 ^ (floorlog 2 m - 53)" by (simp add: mult.assoc)
    have "5 * k \<le> a" by (simp add: k_def)
    then have "5 * (k * 2 ^ 54) \<le> 5 * m" unfolding m5 by simp
    then have "k * 2 ^ 54 \<le> m" by (rule mult_le_cancel1 [THEN iffD1, rule_format]) simp
    then have lo: "k * 2 ^ 54 \<le> round_double m" unfolding km by (rule round_double_err(2))
    have "a \<le> 5 * k + 4" by (simp add: k_def)
    then have "5 * m \<le> (5 * k + 4) * 2 ^ 54 + a" unfolding m5 by simp
    moreover have "5 * (2 ^ 53 * round_double m) \<le> (2 ^ 53 + 1) * (5 * m)" using round_double_err(1) [OF m0] by simp
    ultimately have "round_double m < (k + 1) * 2 ^ 54" using a \<open>5 * k \<le> a\<close> by simp
    with lo show ?thesis by (intro div_nat_eqI) (simp_all add: mult.commute)
  qed
  moreover have ex: "round_double a = a" using a by (intro round_double_exact) simp
  moreover have "times_0_2 n = int (round_double (round_double a * 3602879701896397) div 2 ^ 54)"
    unfolding times_0_2_def Let_def a_def using assms(1) by (simp only: abs_of_nonneg [OF assms(1)] not_less [symmetric] if_False)
  ultimately have "times_0_2 n = int k" unfolding ex m_def [symmetric] by (simp only:)
  also have "\<dots> = n div 5" using assms(1) by (simp add: k_def a_def zdiv_int)
  finally show ?thesis .
qed


definition base_reward :: "chain_params \<Rightarrow> reward_params \<Rightarrow> int \<Rightarrow> int" where
  "base_reward ps rp h =
     (if h < 16801 \<and> MCP_FIRST_BLOCK_REWARD rp \<noteq> 0 then max 0 (MCP_FIRST_BLOCK_REWARD rp) div 16800
      else MCP_INITIAL_BLOCK_REWARD rp div (if h \<ge> StartHeightBlockRewardAdj ps then 2 else 1)
             div (if h \<ge> StartHeightBlockRewardAdj2nd ps then 5 else 1))"

lemma sdiv_small_neg: "- c < a \<Longrightarrow> a < 0 \<Longrightarrow> a sdiv c = (0 :: int)"
  by (simp add: signed_divide_int_def)

text \<open>
  C24. The reward schedule: the reward of a block is the fees plus the base reward, halved once per
  halving interval. Up to height 16800 the base reward is a 16800th of the first reward unless that
  is zero, and nothing if the first reward is negative, as it is by default: it is neither ignored then
  nor, when it is positive, a reward for the first block only, which is what the description of the parameter
  says. Otherwise the base reward is the initial reward, divided exactly by 2 and by 5 from the two
  adjustment heights on. From the second adjustment on this holds for initial rewards below \<open>2 ^ 52\<close>:
  for them the product with \<open>0.2\<close>, made in double precision, loses nothing.
\<close>

theorem GetBlockValue_schedule:
  assumes r: "0 \<le> MCP_INITIAL_BLOCK_REWARD rp" "MCP_INITIAL_BLOCK_REWARD rp < 2 ^ 63"
      "StartHeightBlockRewardAdj2nd ps \<le> h \<Longrightarrow> MCP_INITIAL_BLOCK_REWARD rp < 2 ^ 52"
    and f: "- 16800 < MCP_FIRST_BLOCK_REWARD rp" "MCP_FIRST_BLOCK_REWARD rp < 2 ^ 63"
    and h: "0 \<le> h" "0 < SubsidyHalvingInterval rp"
  shows "GetBlockValue ps rp h fees = Inr (base_reward ps rp h div 2 ^ nat (h div SubsidyHalvingInterval rp) + fees)"
proof -
  let ?k = "h div SubsidyHalvingInterval rp" and ?b = "base_reward ps rp h"
  define S where "S = (if h < 16801 \<and> MCP_FIRST_BLOCK_REWARD rp \<noteq> 0 then MCP_FIRST_BLOCK_REWARD rp sdiv 16800
      else if h \<ge> StartHeightBlockRewardAdj2nd ps
      then times_0_2 (if h \<ge> StartHeightBlockRewardAdj ps then MCP_INITIAL_BLOCK_REWARD rp sdiv 2 else MCP_INITIAL_BLOCK_REWARD rp)
      else (if h \<ge> StartHeightBlockRewardAdj ps then MCP_INITIAL_BLOCK_REWARD rp sdiv 2 else MCP_INITIAL_BLOCK_REWARD rp))"
  have "MCP_FIRST_BLOCK_REWARD rp sdiv 16800 = max 0 (MCP_FIRST_BLOCK_REWARD rp) div 16800"
    using sdiv_small_neg [OF f(1)] by (cases "MCP_FIRST_BLOCK_REWARD rp < 0") (simp_all add: sdiv_nonneg)
  moreover have "StartHeightBlockRewardAdj2nd ps \<le> h \<Longrightarrow> MCP_INITIAL_BLOCK_REWARD rp div 2 < 2 ^ 52" using r by linarith
  ultimately have S: "S = ?b" using r by (simp add: S_def base_reward_def sdiv_nonneg times_0_2_fifth)
  have k: "div_cpp h (SubsidyHalvingInterval rp) = Inr ?k" "0 \<le> ?k"
    using h by (simp_all add: div_cpp_def sdiv_nonneg pos_imp_zdiv_nonneg_iff)
  have v: "GetBlockValue ps rp h fees = (if ?k \<ge> 64 then Inr fees else Inr (drop_bit (nat ?k) S + fees))"
    unfolding GetBlockValue_def Let_def k(1) S_def by simp
  have "?b div 2 ^ nat ?k = 0" if "?k \<ge> 64"
  proof -
    have d: "0 \<le> a div c \<and> a div c \<le> a" if "0 \<le> a" "1 \<le> c" for a c :: int
      using that zdiv_mono2 [of a 1 c] by (simp add: pos_imp_zdiv_nonneg_iff)
    define x where "x = MCP_INITIAL_BLOCK_REWARD rp div (if h \<ge> StartHeightBlockRewardAdj ps then 2 else 1)"
    have "0 \<le> x \<and> x < 2 ^ 63" using d [OF r(1)] r(2) by (auto simp: x_def)
    moreover have "?b = max 0 (MCP_FIRST_BLOCK_REWARD rp) div 16800 \<or> ?b = x div 5 \<or> ?b = x" by (auto simp: base_reward_def x_def)
    ultimately have "0 \<le> ?b \<and> ?b < 2 ^ 63" using d [of "max 0 (MCP_FIRST_BLOCK_REWARD rp)" 16800] d [of x 5] f by linarith
    moreover have "(2 :: int) ^ 63 \<le> 2 ^ nat ?k" using that by (intro power_increasing) simp_all
    ultimately show ?thesis by (intro div_pos_pos_trivial) linarith+
  qed
  then show ?thesis unfolding v S by (simp add: drop_bit_eq_div)
qed

definition example_rewards :: reward_params where
  "example_rewards = \<lparr>MCP_INITIAL_BLOCK_REWARD = 5000000007, MCP_FIRST_BLOCK_REWARD = 0, SubsidyHalvingInterval = 100000\<rparr>"

theorem GetBlockValue_schedule_witness:
  "GetBlockValue (SetHdacParams False example_pow) example_rewards 183400 9 = Inr (250000000 + 9)
   \<and> GetBlockValue (SetHdacParams False example_pow) (example_rewards\<lparr>MCP_FIRST_BLOCK_REWARD := - 1\<rparr>) 16800 9 = Inr 9"
  using GetBlockValue_schedule [of example_rewards "SetHdacParams False example_pow" 183400 9]
    GetBlockValue_schedule [of "example_rewards\<lparr>MCP_FIRST_BLOCK_REWARD := - 1\<rparr>" "SetHdacParams False example_pow" 16800 9]
  by (simp add: example_rewards_def base_reward_def SetHdacParams_def)

section \<open>Accepted transactions\<close>

lemma check_values_None:
  assumes "0 \<le> acc" "acc \<le> M"
  shows "check_values M outs acc = None \<longleftrightarrow> (\<forall>o' \<in> set outs. 0 \<le> nValue o' \<and> nValue o' \<le> M) \<and> acc + sum_list (map nValue outs) \<le> M"
  using assms
proof (induction outs arbitrary: acc)
  case (Cons o' outs)
  have "0 \<le> sum_list (map nValue outs)" if "\<forall>o' \<in> set outs. 0 \<le> nValue o' \<and> nValue o' \<le> M"
    using that by (induction outs) auto
  then show ?case using Cons by (auto simp: MoneyRange_def Let_def)
qed simp

lemma outpoint_equiv:
  assumes "length (out_hash p) = 8" "length (out_hash q) = 8"
  shows "\<not> outpoint_less p q \<and> \<not> outpoint_less q p \<longleftrightarrow> p = (q :: COutPoint)"
proof -
  have l: "outpoint_less a b \<longleftrightarrow> bn_val (out_hash a) < bn_val (out_hash b) \<or> (out_hash a = out_hash b \<and> out_n a < out_n b)"
    if "length (out_hash a) = length (out_hash b)" for a b
    using that by (simp add: outpoint_less_def CompareTo_val)
  show ?thesis
  proof (cases "out_hash p = out_hash q")
    case True
    then show ?thesis using l [of p q] l [of q p] by (cases "out_n p" "out_n q" rule: linorder_cases) auto
  next
    case False
    then have "bn_val (out_hash p) \<noteq> bn_val (out_hash q)" using assms bn_val_inj by metis
    then show ?thesis using False l [of p q] l [of q p] assms by auto
  qed
qed

lemma check_duplicates_None:
  assumes "\<forall>i \<in> set ins. length (out_hash (prevout i)) = 8" "\<forall>p \<in> set seen. length (out_hash p) = 8"
  shows "check_duplicates ins seen = None \<longleftrightarrow> distinct (map prevout ins) \<and> set (map prevout ins) \<inter> set seen = {}"
  using assms
proof (induction ins arbitrary: seen)
  case (Cons i ins)
  have "list_ex (\<lambda>p. \<not> outpoint_less p (prevout i) \<and> \<not> outpoint_less (prevout i) p) seen \<longleftrightarrow> prevout i \<in> set seen"
    unfolding list_ex_iff using outpoint_equiv [of _ "prevout i"] Cons.prems by (metis list.set_intros(1))
  then show ?case using Cons by auto
qed simp

lemma or_else_None: "or_else a b = None \<longleftrightarrow> a = None \<and> b = None"
  by (simp add: or_else_def split: option.split)

text \<open>
  C20. \<open>CheckTransaction\<close> accepts exactly the transactions with inputs and outputs, within the size
  limit, whose output values are in the money range one by one and in total, whose inputs spend
  distinct outputs, and that are a coinbase with a script of 2 to 260 bytes or have no null
  input.
\<close>

theorem CheckTransaction_accepts:
  assumes "0 \<le> MAX_MONEY ps" "\<forall>i \<in> set (vin tx). length (out_hash (prevout i)) = 8"
  shows "CheckTransaction ps tx = None \<longleftrightarrow>
    vin tx \<noteq> [] \<and> vout tx \<noteq> [] \<and> length (ser_tx tx) \<le> MAX_BLOCK_SIZE ps
    \<and> (\<forall>o' \<in> set (vout tx). 0 \<le> nValue o' \<and> nValue o' \<le> MAX_MONEY ps) \<and> sum_list (map nValue (vout tx)) \<le> MAX_MONEY ps
    \<and> distinct (map prevout (vin tx))
    \<and> (if IsCoinBase tx then 2 \<le> length (scriptSig (hd (vin tx))) \<and> length (scriptSig (hd (vin tx))) \<le> 260
       else \<forall>i \<in> set (vin tx). \<not> outpoint_IsNull (prevout i))"
  using check_values_None [of 0 "MAX_MONEY ps" "vout tx"] check_duplicates_None [OF assms(2), of "[]"] assms(1)
  by (auto simp: CheckTransaction_def or_else_None list_ex_iff hd_conv_nth)

definition example_money :: money_params where
  "example_money = \<lparr>MAX_MONEY = 1000, MAX_BLOCK_SIZE = 1000, COINBASE_MATURITY = 10, WITH_NATIVE_CURRENCY = True\<rparr>"

theorem CheckTransaction_accepts_witness: "CheckTransaction example_money example_spend = None"
proof -
  have "length (ser_tx example_spend) \<le> 1000" by code_simp
  moreover have "\<not> outpoint_IsNull \<lparr>out_hash = replicate 8 7, out_n = 1\<rparr>" by code_simp
  ultimately show ?thesis
    using CheckTransaction_accepts [of example_money example_spend] example_coinbase
    by (simp add: example_money_def) (simp add: example_spend_def)
qed

section \<open>Accepted inputs\<close>

definition prev_coins :: "utxo_map \<Rightarrow> CTxIn \<Rightarrow> CCoins" where
  "prev_coins U txin = the (U (out_hash (prevout txin)))"

definition prev_txout :: "utxo_map \<Rightarrow> CTxIn \<Rightarrow> CTxOut" where
  "prev_txout U txin = c_vout (prev_coins U txin) ! unat (out_n (prevout txin))"

definition unspent :: "utxo_map \<Rightarrow> CTxIn \<Rightarrow> bool" where
  "unspent U txin \<longleftrightarrow>
     U (out_hash (prevout txin)) \<noteq> None \<and> IsAvailable (prev_coins U txin) (unat (out_n (prevout txin)))"

lemma available_not_pruned: "IsAvailable c n \<Longrightarrow> \<not> IsPruned c"
  by (auto simp: IsAvailable_def IsPruned_def list_all_length)

text \<open>The check of input \<open>i\<close> with the flags \<open>f\<close> for its permission.\<close>

definition check_of :: "utxo_map \<Rightarrow> u32 \<Rightarrow> nat \<Rightarrow> CTxIn \<Rightarrow> u32 \<Rightarrow> CScriptCheck" where
  "check_of U flags i txin f = \<lparr>sc_scriptPubKey = scriptPubKey (prev_txout U txin), sc_nIn = i, sc_nFlags = flags OR f\<rparr>"

context coins_view
begin

lemma GetCoins_live:
  assumes i: "cache_inv vinv utxo held st" and u: "unspent (cache_utxo utxo st) txin"
  obtains st' where "GetCoins getc st (out_hash (prevout txin)) = (Some (prev_coins (cache_utxo utxo st) txin), st')"
    "cache_inv vinv utxo held st'" "cache_utxo utxo st' = cache_utxo utxo st"
proof -
  obtain r st' where g: "GetCoins getc st (out_hash (prevout txin)) = (r, st')" by (cases "GetCoins getc st (out_hash (prevout txin))")
  have k: "live r = cache_utxo utxo st (out_hash (prevout txin))" "cache_inv vinv utxo held st'" "cache_utxo utxo st' = cache_utxo utxo st"
    using GetCoins_ok [OF i g] by simp_all
  obtain c where c: "cache_utxo utxo st (out_hash (prevout txin)) = Some c" using u by (auto simp: unspent_def)
  then have "r = Some c" using k(1) by (auto simp: live_def split: option.splits if_splits)
  then show ?thesis using that g k(2,3) c by (simp add: prev_coins_def)
qed

lemma have_inputs_ok:
  assumes "cache_inv vinv utxo held st" "have_inputs_loop getc st ins = (b, st')"
  shows "cache_inv vinv utxo held st' \<and> cache_utxo utxo st' = cache_utxo utxo st \<and> (b \<longleftrightarrow> (\<forall>i \<in> set ins. unspent (cache_utxo utxo st) i))"
  using assms
proof (induction ins arbitrary: st)
  case (Cons txin ins)
  let ?t = "out_hash (prevout txin)" and ?n = "unat (out_n (prevout txin))"
  obtain r st1 where g: "GetCoins getc st ?t = (r, st1)" by (cases "GetCoins getc st ?t")
  have k: "live r = cache_utxo utxo st ?t" "cache_inv vinv utxo held st1" "cache_utxo utxo st1 = cache_utxo utxo st"
    using GetCoins_ok [OF Cons.prems(1) g] by simp_all
  have u: "unspent (cache_utxo utxo st) txin \<longleftrightarrow> (\<exists>c. r = Some c \<and> IsAvailable c ?n)"
    unfolding unspent_def prev_coins_def k(1) [symmetric] using available_not_pruned by (auto simp: live_def split: option.splits)
  show ?case
  proof (cases "unspent (cache_utxo utxo st) txin")
    case True
    then obtain c where "r = Some c" "IsAvailable c ?n" using u by auto
    then have "have_inputs_loop getc st1 ins = (b, st')" using Cons.prems(2) g by simp
    from Cons.IH [OF k(2) this] show ?thesis using k(3) True by simp
  next
    case False
    then have "b = False \<and> st' = st1" using u g Cons.prems(2) by (auto split: option.splits if_splits)
    then show ?thesis using False k by auto
  qed
qed simp

lemma input_loop_ok:
  assumes "cache_inv vinv utxo held st" "\<forall>i \<in> set ins. unspent (cache_utxo utxo st) i"
    and "input_loop getc ce ps True h st ins acc = Inr (Inr (v, fs), st')"
  shows "cache_inv vinv utxo held st' \<and> cache_utxo utxo st' = cache_utxo utxo st \<and> length fs = length ins
    \<and> v = acc + sum_list (map (\<lambda>i. nValue (prev_txout (cache_utxo utxo st) i)) ins)
    \<and> (\<forall>i \<in> set ins. MoneyRange (MAX_MONEY ps) (nValue (prev_txout (cache_utxo utxo st) i)))
    \<and> (ins = [] \<or> v \<le> MAX_MONEY ps)
    \<and> (\<forall>i \<in> set ins. fCoinBase (prev_coins (cache_utxo utxo st) i) \<longrightarrow> COINBASE_MATURITY ps \<le> h - c_nHeight (prev_coins (cache_utxo utxo st) i))
    \<and> list_all2 (\<lambda>i f. send_permission ce (scriptPubKey (prev_txout (cache_utxo utxo st) i)) = Inr f) ins fs"
  using assms
proof (induction ins arbitrary: st acc v fs)
  case (Cons txin ins)
  let ?U = "cache_utxo utxo st"
  have u: "unspent ?U txin" using Cons.prems(2) by simp
  then have n: "unat (out_n (prevout txin)) < length (c_vout (prev_coins ?U txin))" by (simp add: unspent_def IsAvailable_def)
  obtain st1 where g: "GetCoins getc st (out_hash (prevout txin)) = (Some (prev_coins ?U txin), st1)"
    and st1: "cache_inv vinv utxo held st1" "cache_utxo utxo st1 = ?U"
    using GetCoins_live [OF Cons.prems(1) u] .
  let ?v = "nValue (prev_txout ?U txin)"
  have m: "fCoinBase (prev_coins ?U txin) \<longrightarrow> COINBASE_MATURITY ps \<le> h - c_nHeight (prev_coins ?U txin)"
    using Cons.prems(3) g by (auto simp: Let_def split: if_splits)
  obtain f where f: "send_permission ce (scriptPubKey (prev_txout ?U txin)) = Inr f"
    using Cons.prems(3) g n m by (auto simp: Let_def prev_txout_def split: if_splits sum.splits)
  obtain r where r: "input_loop getc ce ps True h st1 ins (acc + ?v) = Inr (r, st')" "map_sum id (\<lambda>(s, fs). (s, f # fs)) r = Inr (v, fs)"
    using Cons.prems(3) g n m f by (auto simp: Let_def prev_txout_def bind_cpp_Inr split: if_splits)
  then obtain fs' where fs: "fs = f # fs'" "r = Inr (v, fs')" by (auto simp: map_sum_Inr)
  have "\<forall>i \<in> set ins. unspent (cache_utxo utxo st1) i" using Cons.prems(2) st1(2) by simp
  note Cons.IH [OF st1(1) this r(1) [unfolded fs(2)], unfolded st1(2)]
  moreover have range: "MoneyRange (MAX_MONEY ps) ?v" "MoneyRange (MAX_MONEY ps) (acc + ?v)"
    using Cons.prems(3) g n m by (auto simp: Let_def prev_txout_def split: if_splits)
  moreover have "v \<le> MAX_MONEY ps" if "ins = []"
    using r(1) fs(2) that range(2) by (simp add: MoneyRange_def)
  ultimately show ?case using m f by (auto simp add: fs(1))
qed simp

lemma script_loop_ok:
  assumes "cache_inv vinv utxo held st" "\<forall>(i, txin, f) \<in> set xs. unspent (cache_utxo utxo st) txin"
    and "script_loop getc ce tx flags defer st xs = Inr (Inr cs, st')"
  shows "cache_inv vinv utxo held st' \<and> cache_utxo utxo st' = cache_utxo utxo st
    \<and> (\<forall>(i, txin, f) \<in> set xs. check_of (cache_utxo utxo st) flags i txin f \<in> set cs
         \<or> run_check ce tx (check_of (cache_utxo utxo st) flags i txin f) = Inr (Inr ()))"
  using assms
proof (induction xs arbitrary: st cs)
  case (Cons x xs)
  obtain i txin f where x: "x = (i, txin, f)" by (cases x)
  let ?U = "cache_utxo utxo st"
  have u: "unspent ?U txin" using Cons.prems(2) by (simp add: x)
  then have n: "unat (out_n (prevout txin)) < length (c_vout (prev_coins ?U txin))" by (simp add: unspent_def IsAvailable_def)
  obtain st1 where g: "GetCoins getc st (out_hash (prevout txin)) = (Some (prev_coins ?U txin), st1)"
    and st1: "cache_inv vinv utxo held st1" "cache_utxo utxo st1 = ?U"
    using GetCoins_live [OF Cons.prems(1) u] .
  let ?c = "check_of ?U flags i txin f"
  have c: "\<lparr>sc_scriptPubKey = scriptPubKey (c_vout (prev_coins ?U txin) ! unat (out_n (prevout txin))), sc_nIn = i, sc_nFlags = flags OR f\<rparr> = ?c"
    by (simp add: check_of_def prev_txout_def)
  have ok: "\<forall>(i, txin, f) \<in> set xs. unspent (cache_utxo utxo st1) txin" using Cons.prems(2) st1(2) by auto
  show ?case
  proof (cases "defer \<and> f \<noteq> 0")
    case True
    then obtain cs' where "script_loop getc ce tx flags defer st1 xs = Inr (Inr cs', st')" "cs = ?c # cs'"
      using Cons.prems(3) g n by (auto simp: x Let_def c bind_cpp_Inr map_sum_Inr)
    then show ?thesis using Cons.IH [OF st1(1) ok] st1(2) by (auto simp: x)
  next
    case False
    have "bind_cpp (run_check ce tx ?c) (\<lambda>r. case r of
          Inr _ \<Rightarrow> script_loop getc ce tx flags defer st1 xs
        | Inl _ \<Rightarrow> bind_cpp (script_failure ce tx (scriptPubKey (prev_txout ?U txin)) i flags) (\<lambda>rej. Inr (Inl rej, st1)))
      = Inr (Inr cs, st')"
      using Cons.prems(3) False n unfolding x script_loop.simps g prod.case option.case Let_def check_of_def prev_txout_def [symmetric]
      by (simp only: not_le [symmetric] if_False)
    then obtain r where "run_check ce tx ?c = Inr r" and r: "(case r of
          Inr _ \<Rightarrow> script_loop getc ce tx flags defer st1 xs
        | Inl _ \<Rightarrow> bind_cpp (script_failure ce tx (scriptPubKey (prev_txout ?U txin)) i flags) (\<lambda>rej. Inr (Inl rej, st1)))
      = Inr (Inr cs, st')" unfolding bind_cpp_Inr by blast
    moreover have "r = Inr ()" using r by (cases r) (auto simp: bind_cpp_Inr)
    ultimately have "run_check ce tx ?c = Inr (Inr ())" "script_loop getc ce tx flags defer st1 xs = Inr (Inr cs, st')" by simp_all
    then show ?thesis using Cons.IH [OF st1(1) ok] st1(2) by (auto simp: x)
  qed
qed simp

end

lemma GetBestBlock_view:
  assumes "GetBestBlock b st = (h, st')"
  shows "cache_inv i u g st' = cache_inv i u g st" "cache_utxo u st' = cache_utxo u st"
  using assms by (cases st; auto simp: GetBestBlock_def Let_def cache_inv_def cache_utxo_def split: if_splits)+

text \<open>The best block of \<open>pcoinsTip\<close> and of a view over it; looking coins up does not change it.\<close>

definition tip_best :: "coins_tip \<Rightarrow> base_uint" where
  "tip_best t = fst (GetBestBlock db_GetBestBlock t)"

definition view_best :: "coins_tip cached \<Rightarrow> base_uint" where
  "view_best st = fst (GetBestBlock tip_best st)"

lemma GetCoins_best:
  assumes "\<And>s t r s'. base s t = (r, s') \<Longrightarrow> b s' = b s" "GetCoins base st t = (r, st')"
  shows "fst (GetBestBlock b st') = fst (GetBestBlock b st)"
  using assms(2) by (cases st) (auto simp: GetCoins_def FetchCoins_def GetBestBlock_def Let_def dest!: assms(1) split: option.splits prod.splits)

lemma have_inputs_best:
  "have_inputs_loop (GetCoins db_GetCoins) st ins = (r, st') \<Longrightarrow> view_best st' = view_best st"
proof (induction ins arbitrary: st)
  case (Cons txin ins)
  obtain c st1 where g: "GetCoins (GetCoins db_GetCoins) st (out_hash (prevout txin)) = (c, st1)"
    by (cases "GetCoins (GetCoins db_GetCoins) st (out_hash (prevout txin))")
  have "db_GetBestBlock s' = db_GetBestBlock s" if "db_GetCoins s t = (r, s')" for s t r s' using that by (simp add: db_GetCoins_def)
  then have "tip_best s' = tip_best s" if "GetCoins db_GetCoins s t = (r, s')" for s t r s'
    unfolding tip_best_def by (rule GetCoins_best) (use that in auto)
  then have "view_best st1 = view_best st" unfolding view_best_def by (rule GetCoins_best) (use g in auto)
  moreover have "st' = st1 \<or> have_inputs_loop (GetCoins db_GetCoins) st1 ins = (r, st')"
    using Cons.prems g by (auto split: option.splits if_splits)
  ultimately show ?case using Cons.IH [of st1] by metis
qed simp

text \<open>The flags that the send permission of the address in an output's script gives for its check.\<close>

definition permission_flags :: "check_env \<Rightarrow> bytes \<Rightarrow> u32" where
  "permission_flags ce script =
     (case ExtractDestinationScriptValid (ce_env ce) script of
        Some (CKeyID k) \<Rightarrow> SCRIPT_VERIFY_SKIP_SEND_PERMISSION_CHECK
      | Some (CScriptID k) \<Rightarrow> if ce_CanSend ce k then SCRIPT_VERIFY_SKIP_SEND_PERMISSION_CHECK else 0
      | _ \<Rightarrow> 0)"

lemma send_permission_Inr:
  "send_permission ce script = Inr f \<longleftrightarrow>
     (\<forall>k. ExtractDestinationScriptValid (ce_env ce) script = Some (CKeyID k) \<longrightarrow> ce_CanSend ce k) \<and> f = permission_flags ce script"
  by (auto simp: send_permission_def permission_flags_def split: option.splits CTxDestination.splits)

text \<open>
  C23. What \<open>CheckInputs\<close> with script checks accepts, once the checks it defers have passed too: it
  changes no coins. Every input spends an unspent output with a value in the money range, of a
  transaction that is mature at the height after the view's best block if it is a coinbase; if the address in the
  output's script is that of a key, the key may send; and the script runs
  successfully on the input's script with the given flags, which leave out the permission check of signatures
  exactly for the address of a key and for a script hash that may send (one that may not leaves the
  question to the keys that sign). If the chain has a native currency, the outputs are in range
  and bring no more than the inputs, and the fee is in range; otherwise values are not compared,
  because \<open>GetValueOut\<close> gives 0.
\<close>

theorem CheckInputs_sound:
  assumes st: "view_inv st" and tx: "\<not> IsCoinBase tx" and m: "0 \<le> MAX_MONEY ps"
    and c: "CheckInputs (GetCoins db_GetCoins) tip_best heights ce ps tx st True flags defer = Inr (Inr checks, st')"
    and d: "\<forall>chk \<in> set checks. run_check ce tx chk = Inr (Inr ())"
  shows "view_inv st' \<and> view_utxo st' = view_utxo st
    \<and> (\<exists>h. heights (view_best st) = Some h
        \<and> (\<forall>i < length (vin tx).
             let txin = vin tx ! i; coins = prev_coins (view_utxo st) txin; out = prev_txout (view_utxo st) txin in
             unspent (view_utxo st) txin \<and> (fCoinBase coins \<longrightarrow> COINBASE_MATURITY ps \<le> h + 1 - c_nHeight coins)
             \<and> 0 \<le> nValue out \<and> nValue out \<le> MAX_MONEY ps
             \<and> (\<forall>k. ExtractDestinationScriptValid (ce_env ce) (scriptPubKey out) = Some (CKeyID k) \<longrightarrow> ce_CanSend ce k)
             \<and> run_check ce tx (check_of (view_utxo st) flags i txin (permission_flags ce (scriptPubKey out))) = Inr (Inr ())))
    \<and> (let v_in = sum_list (map (\<lambda>i. nValue (prev_txout (view_utxo st) i)) (vin tx)); v_out = sum_list (map nValue (vout tx)) in
        v_in \<le> MAX_MONEY ps
        \<and> (WITH_NATIVE_CURRENCY ps \<longrightarrow> (\<forall>out \<in> set (vout tx). 0 \<le> nValue out \<and> nValue out \<le> MAX_MONEY ps) \<and> v_out \<le> v_in \<and> v_in - v_out \<le> MAX_MONEY ps))"
proof -
  let ?U = "view_utxo st" and ?get = "GetCoins db_GetCoins"
  obtain b1 st1 where h1: "have_inputs_loop ?get st (vin tx) = (b1, st1)" by (cases "have_inputs_loop ?get st (vin tx)")
  note k1 = tip.have_inputs_ok [OF st h1]
  obtain hash st2 where h2: "GetBestBlock tip_best st1 = (hash, st2)" by (cases "GetBestBlock tip_best st1")
  have hash: "hash = view_best st" using have_inputs_best [OF h1] h2 by (simp add: view_best_def)
  have k2: "view_inv st2" "view_utxo st2 = ?U" using k1 GetBestBlock_view [OF h2] by simp_all
  have b1: "b1" using c tx h1 by (cases b1) (simp_all add: CheckInputs_def HaveInputs_def)
  obtain h where h: "heights hash = Some h" using c tx h1 h2 b1 by (cases "heights hash") (simp_all add: CheckInputs_def HaveInputs_def)
  define rest where "rest = (\<lambda>(r :: rejection + int \<times> u32 list, st). case r of
      Inl rej \<Rightarrow> Inr (Inl rej, st)
    | Inr (nValueIn, send_flags) \<Rightarrow>
        bind_cpp (GetValueOut (WITH_NATIVE_CURRENCY ps) (MAX_MONEY ps) tx) (\<lambda>nValueOut.
          if nValueIn < nValueOut then Inr (Inl (DoS 100 ''bad-txns-in-belowout''), st)
          else if nValueIn - nValueOut < 0 then Inr (Inl (DoS 100 ''bad-txns-fee-negative''), st)
          else if \<not> MoneyRange (MAX_MONEY ps) (nValueIn - nValueOut) then Inr (Inl (DoS 100 ''bad-txns-fee-outofrange''), st)
          else script_loop ?get ce tx flags defer st (enumerate 0 (zip (vin tx) send_flags))))"
  have "bind_cpp (input_loop ?get ce ps True (h + 1) st2 (vin tx) 0) rest = Inr (Inr checks, st')"
    using c tx h1 h2 b1 h unfolding CheckInputs_def HaveInputs_def rest_def if_True by simp
  then obtain r st3 where i: "input_loop ?get ce ps True (h + 1) st2 (vin tx) 0 = Inr (r, st3)" and r: "rest (r, st3) = Inr (Inr checks, st')"
    by (auto simp: bind_cpp_Inr)
  obtain v fs where rv: "r = Inr (v, fs)" using r by (cases r) (auto simp: rest_def)
  have un: "\<forall>i \<in> set (vin tx). unspent (view_utxo st2) i" using k1 k2 b1 by simp
  note k3 = tip.input_loop_ok [OF k2(1) un i [unfolded rv], unfolded k2(2)]
  obtain vo where vo: "GetValueOut (WITH_NATIVE_CURRENCY ps) (MAX_MONEY ps) tx = Inr vo" "vo \<le> v" "MoneyRange (MAX_MONEY ps) (v - vo)"
    and s: "script_loop ?get ce tx flags defer st3 (enumerate 0 (zip (vin tx) fs)) = Inr (Inr checks, st')"
    using r by (auto simp: rest_def rv bind_cpp_Inr split: if_splits)
  have st3: "view_inv st3" "view_utxo st3 = ?U" and len: "length fs = length (vin tx)" using k3 by simp_all
  have "\<forall>(i, txin, f) \<in> set (enumerate 0 (zip (vin tx) fs)). unspent (view_utxo st3) txin"
    using un k2(2) st3(2) by (auto simp: in_set_enumerate_eq dest: set_zip_leftD)
  note k4 = tip.script_loop_ok [OF st3(1) this s, unfolded st3(2)]
  have perm: "list_all2 (\<lambda>i f. send_permission ce (scriptPubKey (prev_txout ?U i)) = Inr f) (vin tx) fs" using k3 by blast
  have inputs: "let txin = vin tx ! i; coins = prev_coins ?U txin; out = prev_txout ?U txin in
      unspent ?U txin \<and> (fCoinBase coins \<longrightarrow> COINBASE_MATURITY ps \<le> h + 1 - c_nHeight coins)
      \<and> 0 \<le> nValue out \<and> nValue out \<le> MAX_MONEY ps
      \<and> (\<forall>k. ExtractDestinationScriptValid (ce_env ce) (scriptPubKey out) = Some (CKeyID k) \<longrightarrow> ce_CanSend ce k)
      \<and> run_check ce tx (check_of ?U flags i txin (permission_flags ce (scriptPubKey out))) = Inr (Inr ())"
    if i: "i < length (vin tx)" for i
  proof -
    have p: "send_permission ce (scriptPubKey (prev_txout ?U (vin tx ! i))) = Inr (fs ! i)"
      using list_all2_nthD [OF perm i] .
    have "(i, vin tx ! i, fs ! i) \<in> set (enumerate 0 (zip (vin tx) fs))" using i len by (simp add: in_set_enumerate_eq)
    from bspec [OF conjunct2 [OF conjunct2 [OF k4]] this]
    have "run_check ce tx (check_of ?U flags i (vin tx ! i) (fs ! i)) = Inr (Inr ())" using d by auto
    moreover have "unspent ?U (vin tx ! i)" using un nth_mem [OF i] unfolding k2(2) by blast
    moreover have "fCoinBase (prev_coins ?U (vin tx ! i)) \<longrightarrow> COINBASE_MATURITY ps \<le> h + 1 - c_nHeight (prev_coins ?U (vin tx ! i))"
      "MoneyRange (MAX_MONEY ps) (nValue (prev_txout ?U (vin tx ! i)))"
      using k3 nth_mem [OF i] by blast+
    ultimately show ?thesis using p unfolding Let_def send_permission_Inr MoneyRange_def by simp
  qed
  have v: "v = sum_list (map (\<lambda>i. nValue (prev_txout ?U i)) (vin tx))" "v \<le> MAX_MONEY ps" using k3 m by auto
  have native: "(\<forall>out \<in> set (vout tx). 0 \<le> nValue out \<and> nValue out \<le> MAX_MONEY ps) \<and> sum_list (map nValue (vout tx)) \<le> v
      \<and> v - sum_list (map nValue (vout tx)) \<le> MAX_MONEY ps" if "WITH_NATIVE_CURRENCY ps"
    using vo that value_out_loop_sum [of 0 "MAX_MONEY ps" "vout tx"] m by (auto simp: GetValueOut_def MoneyRange_def split: if_splits)
  have "view_inv st'" "view_utxo st' = ?U" using k4 by simp_all
  moreover have "\<exists>h. heights (view_best st) = Some h \<and> (\<forall>i < length (vin tx).
      let txin = vin tx ! i; coins = prev_coins ?U txin; out = prev_txout ?U txin in
      unspent ?U txin \<and> (fCoinBase coins \<longrightarrow> COINBASE_MATURITY ps \<le> h + 1 - c_nHeight coins)
      \<and> 0 \<le> nValue out \<and> nValue out \<le> MAX_MONEY ps
      \<and> (\<forall>k. ExtractDestinationScriptValid (ce_env ce) (scriptPubKey out) = Some (CKeyID k) \<longrightarrow> ce_CanSend ce k)
      \<and> run_check ce tx (check_of ?U flags i txin (permission_flags ce (scriptPubKey out))) = Inr (Inr ()))"
    using h inputs unfolding hash by blast
  ultimately show ?thesis using v native unfolding Let_def by blast
qed

definition example_check_env :: check_env where
  "example_check_env = \<lparr>ce_env = \<lparr>env_ripemd160 = id, env_sha1 = id, env_sha256 = id, env_CheckLowS = (\<lambda>_. True), env_CheckSig = (\<lambda>_ _ _ c. (False, c))\<rparr>,
     ce_std = example_params, ce_verify = (\<lambda>_ _ _. False), ce_CanSend = (\<lambda>_. True)\<rparr>"

definition example_true :: CTransaction where
  "example_true = example_spend\<lparr>vin := [\<lparr>prevout = \<lparr>out_hash = replicate 8 7, out_n = 1\<rparr>, scriptSig = [], nSequence = 0\<rparr>]\<rparr>"

lemma example_true_accepted:
  "case CheckInputs (GetCoins db_GetCoins) tip_best (\<lambda>b. Some 8) example_check_env example_money example_true example_view True 1 True of
     Inr (Inr checks, st) \<Rightarrow> checks = [] | _ \<Rightarrow> False"
  by code_simp

theorem CheckInputs_sound_witness:
  "\<exists>st'. CheckInputs (GetCoins db_GetCoins) tip_best (\<lambda>b. Some 8) example_check_env example_money example_true
       example_view True 1 True = Inr (Inr [], st')
    \<and> view_inv st' \<and> view_utxo st' = view_utxo example_view \<and> unspent (view_utxo example_view) (vin example_true ! 0)"
proof -
  obtain st' where c: "CheckInputs (GetCoins db_GetCoins) tip_best (\<lambda>b. Some 8) example_check_env example_money
      example_true example_view True 1 True = Inr (Inr [], st')"
    using example_true_accepted by (auto split: sum.splits)
  have "\<not> IsCoinBase example_true" by code_simp
  moreover have "length (vin example_true) = 1" by (simp add: example_true_def)
  ultimately show ?thesis using CheckInputs_sound [OF example_view_ok(1) _ _ c] c by (simp add: Let_def example_money_def)
qed

end
