(* ===== verification/BlockChecks.thy ===== *)
theory BlockChecks
  imports Blocks MostWork TxChecks "HOL-Library.Sublist"
begin

text \<open>
  The checks that a header and a block pass before they enter the block index (\<^verbatim>\<open>core/main.cpp\<close>,
  \<open>CheckBlockHeader\<close> to \<open>AcceptBlockHeader\<close>, and \<open>CValidationState\<close> of \<^verbatim>\<open>core/main.h\<close>). The clock, the
  chain parameters, the checkpoints, the lock on a block and the answers of the permission database are
  fields of \<open>block_env\<close>; the hash functions are arguments.
\<close>

section \<open>Validation states\<close>

datatype mode_state = MODE_VALID | MODE_INVALID | MODE_ERROR

record CValidationState =
  mode :: mode_state
  nDoS :: int
  strRejectReason :: string
  chRejectCode :: byte
  corruptionPossible :: bool

definition state_init :: CValidationState where
  "state_init = \<lparr>mode = MODE_VALID, nDoS = 0, strRejectReason = '''', chRejectCode = 0, corruptionPossible = False\<rparr>"

definition state_DoS :: "int \<Rightarrow> byte \<Rightarrow> string \<Rightarrow> bool \<Rightarrow> CValidationState \<Rightarrow> CValidationState" where
  "state_DoS level code reason corruption st =
     (let st = st\<lparr>chRejectCode := code, strRejectReason := reason, corruptionPossible := corruption\<rparr>
      in if mode st = MODE_ERROR then st else st\<lparr>nDoS := nDoS st + level, mode := MODE_INVALID\<rparr>)"

definition state_Invalid :: "byte \<Rightarrow> string \<Rightarrow> CValidationState \<Rightarrow> CValidationState" where
  "state_Invalid code reason st = state_DoS 0 code reason False st"

definition state_Error :: "string \<Rightarrow> CValidationState \<Rightarrow> CValidationState" where
  "state_Error reason st =
     (if mode st = MODE_VALID then st\<lparr>strRejectReason := reason\<rparr> else st)\<lparr>mode := MODE_ERROR\<rparr>"

abbreviation "REJECT_INVALID \<equiv> (0x10 :: byte)"
abbreviation "REJECT_OBSOLETE \<equiv> (0x11 :: byte)"
abbreviation "REJECT_CHECKPOINT \<equiv> (0x43 :: byte)"

text \<open>Every rejection of \<open>CheckTransaction\<close> has the code \<open>REJECT_INVALID\<close>.\<close>

definition reject_tx :: "rejection \<Rightarrow> CValidationState \<Rightarrow> CValidationState" where
  "reject_tx r st = (case r of DoS level reason \<Rightarrow> state_DoS level REJECT_INVALID reason False st
     | Invalid reason \<Rightarrow> state_Invalid REJECT_INVALID reason st)"

section \<open>Environment\<close>

record block_env =
  ps :: chain_params
  money :: money_params
  MAX_BLOCK_SIGOPS :: u32
  HashGenesisBlock :: base_uint
  ToCheckBlockUpgradeMajority :: nat
  RejectBlockOutdatedMajority :: nat
  EnforceBlockUpgradeMajority :: nat
  LockAdminMineRounds :: int
  GetAdjustedTime :: int
  fEnabled :: bool
  mapCheckpoints :: "(int \<times> base_uint) list"
  hLockedBlock :: base_uint
  MCP_ANYONE_CAN_ADMIN :: bool
  MCP_ANYONE_CAN_MINE :: bool
  GetMinerCount :: int
  GetActiveMinerCount :: int
  FindGovernanceModelChange :: "int \<Rightarrow> int \<Rightarrow> bool"
  setBannedTxs :: "base_uint list"
  maxheadersfrompeer :: int

text \<open>A row of \<open>m_BlockHeaderSuccessors\<close>, and the globals that accepting a header reads and writes.\<close>

record mc_BlockHeaderInfo =
  m_Hash :: base_uint
  m_NodeId :: int
  m_Next :: int

record header_state =
  s_tree :: block_tree
  s_rows :: "mc_BlockHeaderInfo list"
  pindexLockedBlock :: "ptr option"
  chainActive :: vchain

section \<open>Checks without context\<close>

definition CheckBlockHeader ::
    "hash_functions \<Rightarrow> block_env \<Rightarrow> index_store \<Rightarrow> (base_uint \<times> ptr) list \<Rightarrow> 'a CBlockHeader_scheme \<Rightarrow> bool
     \<Rightarrow> CValidationState \<Rightarrow> bool \<times> CValidationState" where
  "CheckBlockHeader hs env mem blocks block fCheckPOW st =
     (let height = (case map_of blocks (hashPrevBlock block) of Some p \<Rightarrow> nHeight (mem p) + 1 | None \<Rightarrow> 0)
      in if fCheckPOW \<and> \<not> CheckProofOfWork_height (ps env) (GetPoWHash hs (ps env) block height) (h_nBits block)
                (of_int (h_nVersion block)) (of_int height)
         then (False, state_DoS 50 REJECT_INVALID ''high-hash'' False st)
         else if header_GetBlockTime block > GetAdjustedTime env + 2 * 6 * TargetSpacing (ps env)
         then (False, state_Invalid REJECT_INVALID ''time-too-new'' st)
         else (True, st))"

definition IsTxBanned :: "base_uint list \<Rightarrow> base_uint \<Rightarrow> bool" where
  "IsTxBanned banned txid \<longleftrightarrow> banned \<noteq> [] \<and> txid \<in> set banned"

fun check_transactions :: "money_params \<Rightarrow> CTransaction list \<Rightarrow> CValidationState \<Rightarrow> bool \<times> CValidationState" where
  "check_transactions mp [] st = (True, st)"
| "check_transactions mp (tx # txs) st =
     (case CheckTransaction mp tx of Some r \<Rightarrow> (False, reject_tx r st) | None \<Rightarrow> check_transactions mp txs st)"

text \<open>The checks that follow the Merkle root. The set \<open>setBannedTxBlocks\<close> is part of the result.\<close>

definition check_contents ::
    "hash_functions \<Rightarrow> block_env \<Rightarrow> CBlock \<Rightarrow> CValidationState \<times> base_uint list \<Rightarrow> bool \<times> CValidationState \<times> base_uint list" where
  "check_contents hs env block = (\<lambda>(st, bannedBlocks).
     if vtx block = [] \<or> length (vtx block) > MAX_BLOCK_SIZE (money env) \<or> length (ser_block block) > MAX_BLOCK_SIZE (money env)
     then (False, state_DoS 100 REJECT_INVALID ''bad-blk-length'' False st, bannedBlocks)
     else if vtx block = [] \<or> \<not> IsCoinBase (vtx block ! 0)
     then (False, state_DoS 100 REJECT_INVALID ''bad-cb-missing'' False st, bannedBlocks)
     else if list_ex IsCoinBase (tl (vtx block))
     then (False, state_DoS 100 REJECT_INVALID ''bad-cb-multiple'' False st, bannedBlocks)
     else (case check_transactions (money env) (vtx block) st of
             (False, st) \<Rightarrow> (False, st, bannedBlocks)
           | (True, st) \<Rightarrow>
               if setBannedTxs env \<noteq> [] \<and> list_ex (\<lambda>tx. IsTxBanned (setBannedTxs env) (tx_GetHash hs tx)) (vtx block)
               then (False, st, List.insert (GetHash hs block) bannedBlocks)
               else if foldl (\<lambda>n tx. n + GetLegacySigOpCount tx) 0 (vtx block) > MAX_BLOCK_SIGOPS env
               then (False, state_DoS 100 REJECT_INVALID ''bad-blk-sigops'' True st, bannedBlocks)
               else (True, st, bannedBlocks)))"

definition CheckBlock ::
    "hash_functions \<Rightarrow> block_env \<Rightarrow> index_store \<Rightarrow> (base_uint \<times> ptr) list \<Rightarrow> CBlock \<Rightarrow> bool \<Rightarrow> bool
     \<Rightarrow> CValidationState \<times> base_uint list \<Rightarrow> (bool \<times> CValidationState \<times> base_uint list) cpp option" where
  "CheckBlock hs env mem blocks block fCheckPOW fCheckMerkleRoot = (\<lambda>(st, bannedBlocks).
     case CheckBlockHeader hs env mem blocks block fCheckPOW st of
       (False, st) \<Rightarrow> Some (Inr (False, st, bannedBlocks))
     | (True, st) \<Rightarrow>
         if fCheckMerkleRoot then
           bind_oc (block_BuildMerkleTree hs block) (\<lambda>(hashMerkleRoot2, mutated). Some (Inr
             (if h_hashMerkleRoot block \<noteq> hashMerkleRoot2
              then (False, state_DoS 100 REJECT_INVALID ''bad-txnmrklroot'' True st, bannedBlocks)
              else if mutated then (False, state_DoS 100 REJECT_INVALID ''bad-txns-duplicate'' True st, bannedBlocks)
              else check_contents hs env block (st, bannedBlocks))))
         else Some (Inr (check_contents hs env block (st, bannedBlocks))))"

section \<open>Checks in the context of the previous block\<close>

definition Checkpoints_CheckBlock :: "block_env \<Rightarrow> int \<Rightarrow> base_uint \<Rightarrow> bool" where
  "Checkpoints_CheckBlock env height hash =
     (if \<not> fEnabled env then True
      else case map_of (mapCheckpoints env) height of None \<Rightarrow> True | Some h \<Rightarrow> hash = h)"

fun last_known :: "(base_uint \<times> ptr) list \<Rightarrow> (int \<times> base_uint) list \<Rightarrow> ptr option" where
  "last_known blocks [] = None"
| "last_known blocks ((height, hash) # cps) =
     (case map_of blocks hash of Some p \<Rightarrow> Some p | None \<Rightarrow> last_known blocks cps)"

text \<open>The map of checkpoints is ordered by height and searched from its end.\<close>

definition GetLastCheckpoint :: "block_env \<Rightarrow> (base_uint \<times> ptr) list \<Rightarrow> ptr option" where
  "GetLastCheckpoint env blocks = (if \<not> fEnabled env then None else last_known blocks (rev (mapCheckpoints env)))"

definition waiting_for_locked :: "block_env \<Rightarrow> header_state \<Rightarrow> bool" where
  "waiting_for_locked env s =
     (case pindexLockedBlock s of
        Some l \<Rightarrow> \<not> Contains (t_mem (s_tree s)) (chainActive s) l
      | None \<Rightarrow> \<not> EqualTo (hLockedBlock env) 0)"

text \<open>Whether a fork is refused because it goes back beyond a change of the governance model.\<close>

definition fork_too_deep :: "block_env \<Rightarrow> header_state \<Rightarrow> ptr \<Rightarrow> ptr option \<Rightarrow> bool cpp" where
  "fork_too_deep env s pindexPrev pindexFork =
     (if Interval (ps env) \<le> 0 \<and> \<not> waiting_for_locked env s \<and> Some pindexPrev \<noteq> Tip (chainActive s)
         \<and> \<not> MCP_ANYONE_CAN_ADMIN env \<and> \<not> MCP_ANYONE_CAN_MINE env then
        (let nMinerCount = GetMinerCount env - GetActiveMinerCount env + 1;
             nMaxHeight = Height (chainActive s) - LockAdminMineRounds env * nMinerCount
         in case pindexFork of
              None \<Rightarrow> Inl NullPointer
            | Some f \<Rightarrow>
                (let nMinHeight = nHeight (t_mem (s_tree s) f)
                 in Inr (nMinHeight \<le> nMaxHeight \<and> nMinHeight > 0 \<and> FindGovernanceModelChange env nMinHeight nMaxHeight)))
      else Inr False)"

definition ContextualCheckBlockHeader ::
    "hash_functions \<Rightarrow> block_env \<Rightarrow> header_state \<Rightarrow> 'a CBlockHeader_scheme \<Rightarrow> ptr option \<Rightarrow> ptr option
     \<Rightarrow> CValidationState \<Rightarrow> (bool \<times> CValidationState) cpp option" where
  "ContextualCheckBlockHeader hs env s block pindexPrev pindexChecked st =
     (let hash = GetHash hs block; mem = t_mem (s_tree s) in
      if hash = HashGenesisBlock env then Some (Inr (True, st))
      else case pindexPrev of
        None \<Rightarrow> Some (Inl AssertionFailed)
      | Some prev \<Rightarrow>
          (let height = nHeight (mem prev) + 1 in
           bind_oc (if SkipProofOfWorkCheck (ps env) then Some (Inr (h_nBits block))
                    else GetNextWorkRequired mem (ps env) pindexPrev (header_GetBlockTime block)) (\<lambda>required.
           if h_nBits block \<noteq> required then Some (Inr (False, state_DoS 100 REJECT_INVALID ''bad-diffbits'' False st))
           else if header_GetBlockTime block \<le> GetMedianTimePast mem prev
           then Some (Inr (False, state_Invalid REJECT_INVALID ''time-too-old'' st))
           else if \<not> Checkpoints_CheckBlock env height hash
           then Some (Inr (False, state_DoS 100 REJECT_CHECKPOINT ''checkpoint mismatch'' False st))
           else
             bind_oc (FindFork mem (chainActive s) prev) (\<lambda>pindexFork.
             bind_oc (Some (fork_too_deep env s prev pindexFork)) (\<lambda>deep.
             if deep then Some (Inr (False, state_Invalid REJECT_INVALID ''reorg-too-deep'' st))
             else
               bind_oc (if pindexChecked \<noteq> Some prev then CheckBranchForInvalidBlocks mem (chainActive s) (Some prev)
                        else Some (Inr True)) (\<lambda>branch_ok.
               Some (Inr
                 (if \<not> branch_ok then (False, state_Invalid REJECT_INVALID ''reorg-invalid branch'' st)
                  else if (\<exists>c \<in> set_option (GetLastCheckpoint env (mapBlockIndex (s_tree s))). height < nHeight (mem c))
                  then (False, state_DoS 100 0 [] False st)
                  else if h_nVersion block < 2 \<and> IsSuperMajority mem (ToCheckBlockUpgradeMajority env) 2 pindexPrev (RejectBlockOutdatedMajority env)
                  then (False, state_Invalid REJECT_OBSOLETE ''bad-version'' st)
                  else if h_nVersion block < 3 \<and> IsSuperMajority mem (ToCheckBlockUpgradeMajority env) 3 pindexPrev (RejectBlockOutdatedMajority env)
                  then (False, state_Invalid REJECT_OBSOLETE ''bad-version'' st)
                  else (True, st)))))))))"

definition ContextualCheckBlock ::
    "block_env \<Rightarrow> header_state \<Rightarrow> CBlock \<Rightarrow> ptr option \<Rightarrow> CValidationState \<Rightarrow> (bool \<times> CValidationState) cpp" where
  "ContextualCheckBlock env s block pindexPrev st =
     (let mem = t_mem (s_tree s);
          height = (case pindexPrev of None \<Rightarrow> 0 | Some p \<Rightarrow> nHeight (mem p) + 1)
      in if \<not> list_all (\<lambda>tx. IsFinalTx tx height (header_GetBlockTime block) (Height (chainActive s)) (GetAdjustedTime env)) (vtx block)
         then Inr (False, state_DoS 10 REJECT_INVALID ''bad-txns-nonfinal'' False st)
         else if h_nVersion block \<ge> 2 \<and> IsSuperMajority mem (ToCheckBlockUpgradeMajority env) 2 pindexPrev (EnforceBlockUpgradeMajority env) then
           (let expect = push_int64 height
            in if vtx block = [] \<or> vin (vtx block ! 0) = [] then Inl OutOfRange
               else if \<not> prefix expect (scriptSig (vin (vtx block ! 0) ! 0))
               then Inr (False, state_DoS 100 REJECT_INVALID ''bad-cb-height'' False st)
               else Inr (True, st))
         else Inr (True, st))"

section \<open>Accepting a header\<close>

text \<open>The chain of headers that follow a block: how many a node has sent, and the last row.\<close>

partial_function (option) successor_loop ::
    "int \<Rightarrow> mc_BlockHeaderInfo list \<Rightarrow> int \<Rightarrow> nat \<times> int option \<Rightarrow> (nat \<times> int option) cpp option" where
  "successor_loop successor rows node_id acc =
     (if successor = 0 then Some (Inr acc)
      else if successor < 0 \<or> successor \<ge> int (length rows) then Some (Inl OutOfRange)
      else
        (let row = rows ! nat successor
         in successor_loop (m_Next row) rows node_id
              (fst acc + (if m_NodeId row = node_id then 1 else 0), Some successor)))"

partial_function (option) height_loop ::
    "ptr option \<Rightarrow> index_store \<Rightarrow> mc_BlockHeaderInfo list \<Rightarrow> int \<Rightarrow> ptr \<Rightarrow> nat \<times> int option \<Rightarrow> (nat \<times> int option) cpp option" where
  "height_loop pindexTmp mem rows node_id prev acc =
     (case pindexTmp of
        None \<Rightarrow> Some (Inr acc)
      | Some p \<Rightarrow>
          bind_oc (successor_loop (nFirstSuccessor (mem p)) rows node_id (fst acc, None)) (\<lambda>(n, lpNext).
            height_loop (pNextOnThisHeight (mem p)) mem rows node_id prev
              (n, if p = prev \<and> lpNext \<noteq> None then lpNext else snd acc)))"

text \<open>
  \<open>m_BlockHeaderSuccessors\<close> moves its rows to a larger array when the 256 rows of the last one are
  used up; a pointer to a row from before then points to freed memory.
\<close>

abbreviation (input) "MC_DCT_BUF_ALLOC_ITEMS \<equiv> (256 :: nat)"

definition add_successor ::
    "base_uint \<Rightarrow> int \<Rightarrow> ptr \<Rightarrow> int option \<Rightarrow> header_state \<Rightarrow> header_state cpp" where
  "add_successor hash node_id prev lpNextForPrev s =
     (let successor = int (length (s_rows s));
          rows = s_rows s @ [\<lparr>m_Hash = hash, m_NodeId = node_id, m_Next = 0\<rparr>];
          t = s_tree s
      in case lpNextForPrev of
           Some r \<Rightarrow>
             if length (s_rows s) mod MC_DCT_BUF_ALLOC_ITEMS = 0 then Inl UseAfterFree
             else Inr (s\<lparr>s_rows := rows[nat r := (rows ! nat r)\<lparr>m_Next := successor\<rparr>]\<rparr>)
         | None \<Rightarrow>
             Inr (s\<lparr>s_rows := rows, s_tree := t\<lparr>t_mem := (t_mem t)(prev := (t_mem t prev)\<lparr>nFirstSuccessor := successor\<rparr>)\<rparr>\<rparr>))"

definition register_successor ::
    "block_env \<Rightarrow> base_uint \<Rightarrow> int \<Rightarrow> ptr option \<Rightarrow> header_state \<Rightarrow> (bool \<times> header_state) cpp option" where
  "register_successor env hash node_id pindexPrev s =
     (case pindexPrev of
        None \<Rightarrow> Some (Inr (True, s))
      | Some prev \<Rightarrow>
          if node_id \<le> 0 then Some (Inr (True, s))
          else
            (let t = s_tree s; h = nHeight (t_mem t prev) in
             bind_oc (if h \<ge> 0 \<and> (int (length (vFirstOnThisHeight t)) \<le> h \<or> vFirstOnThisHeight t ! nat h = None)
                      then map_option (\<lambda>(mem, firsts). Inr (t\<lparr>t_mem := mem, vFirstOnThisHeight := firsts\<rparr>))
                             (UpdateBlockByHeightList (t_mem t) (vFirstOnThisHeight t) prev)
                      else Some (Inr t)) (\<lambda>t.
             if h < 0 then Some (Inl OutOfRange)
             else
               bind_oc (height_loop (vFirstOnThisHeight t ! nat h) (t_mem t) (s_rows s) node_id prev (0, None)) (\<lambda>(n, lpNextForPrev).
               if int n \<ge> maxheadersfrompeer env then Some (Inr (False, s\<lparr>s_tree := t\<rparr>))
               else Some (map_sum id (\<lambda>s. (True, s)) (add_successor hash node_id prev lpNextForPrev (s\<lparr>s_tree := t\<rparr>)))))))"

text \<open>The last step: a header that the node is waiting for becomes the locked block, and the chain is rewound to the fork.\<close>

definition note_locked :: "block_env \<Rightarrow> (base_uint \<Rightarrow> header_state \<Rightarrow> header_state) \<Rightarrow> ptr \<Rightarrow> header_state \<Rightarrow> header_state cpp option" where
  "note_locked env SetLastBlock p s =
     (let mem = t_mem (s_tree s) in
      if pindexLockedBlock s \<noteq> None then Some (Inr s)
      else bind_oc (Some (GetBlockHash (mem p))) (\<lambda>h.
        if hLockedBlock env \<noteq> h then Some (Inr s)
        else
          (let s = s\<lparr>pindexLockedBlock := Some p\<rparr> in
           if Contains mem (chainActive s) p then Some (Inr s)
           else bind_oc (FindFork mem (chainActive s) p) (\<lambda>f.
             case f of
               None \<Rightarrow> Some (Inl NullPointer)
             | Some f \<Rightarrow> bind_oc (Some (GetBlockHash (mem f))) (\<lambda>hf. Some (Inr (SetLastBlock hf s)))))))"

type_synonym header_result = "(bool \<times> CValidationState \<times> ptr option \<times> header_state) cpp option"

text \<open>A header that is known already.\<close>

definition known_header :: "ptr option \<Rightarrow> ptr \<Rightarrow> CValidationState \<Rightarrow> header_state \<Rightarrow> header_result" where
  "known_header pindexChecked p st s =
     (let mem = t_mem (s_tree s) in
      if nStatus (mem p) AND BLOCK_FAILED_MASK \<noteq> 0 then Some (Inr (False, state_Invalid 0 ''duplicate'' st, Some p, s))
      else
        bind_oc (if pindexChecked \<noteq> pprev (mem p) then CheckBranchForInvalidBlocks mem (chainActive s) (pprev (mem p))
                 else Some (Inr True)) (\<lambda>branch_ok.
        if \<not> branch_ok then Some (Inr (False, state_Invalid REJECT_INVALID ''reorg-invalid branch'' st, Some p, s))
        else Some (Inr (True, st, Some p, s))))"

text \<open>What \<open>AcceptBlockHeader\<close> does once the previous block is found. Without an entry, \<open>*ppindex\<close> is left alone.\<close>

definition new_header ::
    "hash_functions \<Rightarrow> block_env \<Rightarrow> (base_uint \<Rightarrow> header_state \<Rightarrow> header_state) \<Rightarrow> CBlockHeader \<Rightarrow> int \<Rightarrow> ptr option \<Rightarrow> ptr option
     \<Rightarrow> ptr option \<Rightarrow> CValidationState \<Rightarrow> header_state \<Rightarrow> header_result" where
  "new_header hs env SetLastBlock block node_id pindexChecked ppindex pindexPrev st s =
     bind_oc (ContextualCheckBlockHeader hs env s block pindexPrev pindexChecked st) (\<lambda>(ok, st).
     if \<not> ok then Some (Inr (False, st, ppindex, s))
     else
       bind_oc (register_successor env (GetHash hs block) node_id pindexPrev s) (\<lambda>(ok, s).
       if \<not> ok then Some (Inr (False, state_Invalid REJECT_INVALID ''too-man-headers'' st, ppindex, s))
       else
         bind_oc (AddToBlockIndex (GetHash hs block) block (s_tree s)) (\<lambda>(p, t).
         bind_oc (note_locked env SetLastBlock p (s\<lparr>s_tree := t\<rparr>)) (\<lambda>s. Some (Inr (True, st, Some p, s))))))"

definition AcceptBlockHeader ::
    "hash_functions \<Rightarrow> block_env \<Rightarrow> (base_uint \<Rightarrow> header_state \<Rightarrow> header_state) \<Rightarrow> CBlockHeader \<Rightarrow> int \<Rightarrow> ptr option \<Rightarrow> ptr option
     \<Rightarrow> CValidationState \<Rightarrow> header_state \<Rightarrow> header_result" where
  "AcceptBlockHeader hs env SetLastBlock block node_id pindexChecked ppindex st s =
     (let hash = GetHash hs block; t = s_tree s in
      case map_of (mapBlockIndex t) hash of
        Some p \<Rightarrow> known_header pindexChecked p st s
      | None \<Rightarrow>
          (case CheckBlockHeader hs env (t_mem t) (mapBlockIndex t) block True st of
             (False, st) \<Rightarrow> Some (Inr (False, st, ppindex, s))
           | (True, st) \<Rightarrow>
               if hash = HashGenesisBlock env then new_header hs env SetLastBlock block node_id pindexChecked ppindex None st s
               else
                 (case map_of (mapBlockIndex t) (hashPrevBlock block) of
                    None \<Rightarrow> Some (Inr (False, state_DoS 10 0 ''bad-prevblk'' False st, ppindex, s))
                  | Some q \<Rightarrow>
                      if nStatus (t_mem t q) AND BLOCK_FAILED_MASK \<noteq> 0
                      then Some (Inr (False, state_DoS 10 REJECT_INVALID ''bad-prevblk'' False st, ppindex, s))
                      else new_header hs env SetLastBlock block node_id pindexChecked ppindex (Some q) st s)))"

section \<open>Accepting a block\<close>

text \<open>
  What \<open>AcceptBlock\<close> asks of the signature of the block, the block files and the permissions:
  \<open>VerifyBlockSignature\<close> sets the signer of the block, \<open>FindBlockPos\<close> finds a place, or notes the
  known one, or fails.
\<close>

record block_io =
  VerifyBlockSignature :: "CBlock \<Rightarrow> bool \<times> CBlock"
  FindBlockPos :: "(int \<times> u32) option \<Rightarrow> CBlock \<Rightarrow> CValidationState \<Rightarrow> (int \<times> u32) option \<times> CValidationState"
  WriteBlockToDisk :: "CBlock \<Rightarrow> bool"
  mining :: mining_info
  VerifyBlockMiner :: miner_check

definition fail_block :: "ptr \<Rightarrow> header_state \<Rightarrow> header_state" where
  "fail_block p s =
     (let t = s_tree s; mem = t_mem t
      in s\<lparr>s_tree := t\<lparr>t_mem := mem(p := (mem p)\<lparr>nStatus := nStatus (mem p) OR BLOCK_FAILED_VALID\<rparr>),
            setDirtyBlockIndex := insert p (setDirtyBlockIndex t)\<rparr>\<rparr>)"

definition set_miner :: "CBlock \<Rightarrow> ptr \<Rightarrow> header_state \<Rightarrow> header_state" where
  "set_miner block p s =
     (let t = s_tree s; mem = t_mem t; n = unat (vSigner block ! 0)
      in if n = 0 then s
         else s\<lparr>s_tree := t\<lparr>t_mem := mem(p := (mem p)\<lparr>kMiner := CPubKey_Set (take n (tl (vSigner block)))\<rparr>)\<rparr>\<rparr>)"

text \<open>
  The body of the \<open>try\<close> block; \<open>dbp\<close> is a position that is known already. \<open>FindBlockPos\<close> is called with it
  too and may fail, but leaves it as it is.
\<close>

definition store_block ::
    "block_io \<Rightarrow> (int \<times> u32) option \<Rightarrow> CBlock \<Rightarrow> ptr \<Rightarrow> CValidationState \<Rightarrow> header_state \<Rightarrow> (bool \<times> CValidationState \<times> header_state) cpp" where
  "store_block io dbp block p st s =
     (case FindBlockPos io dbp block st of
        (None, st) \<Rightarrow> Inr (False, st, s)
      | (Some pos, st) \<Rightarrow>
          let (posFile, posPos) = (case dbp of None \<Rightarrow> pos | Some known \<Rightarrow> known) in
          if dbp = None \<and> \<not> WriteBlockToDisk io block then Inr (False, state_Error ''Failed to write block'' st, s)
          else bind_cpp (ReceivedBlockTransactions (mining io) (length (vtx block)) posFile posPos p (s_tree s)) (\<lambda>t.
            Inr (True, st, s\<lparr>s_tree := t\<rparr>)))"

definition AcceptBlock ::
    "hash_functions \<Rightarrow> block_env \<Rightarrow> (base_uint \<Rightarrow> header_state \<Rightarrow> header_state) \<Rightarrow> block_io \<Rightarrow> (int \<times> u32) option \<Rightarrow> CBlock \<Rightarrow> int
     \<Rightarrow> ptr option \<Rightarrow> CValidationState \<Rightarrow> header_state \<Rightarrow> header_result" where
  "AcceptBlock hs env SetLastBlock io dbp block node_id ppindex st s =
     bind_oc (AcceptBlockHeader hs env SetLastBlock (GetBlockHeader block) node_id None ppindex st s) (\<lambda>(ok, st, pindex, s).
     if \<not> ok then Some (Inr (False, st, pindex, s))
     else case pindex of
       None \<Rightarrow> Some (Inl NullPointer)
     | Some p \<Rightarrow>
         if nStatus (t_mem (s_tree s) p) AND BLOCK_HAVE_DATA \<noteq> 0 then Some (Inr (True, st, pindex, s))
         else case VerifyBlockSignature io block of
           (False, block) \<Rightarrow> Some (Inr (False, st, pindex, s))
         | (True, block) \<Rightarrow>
             (let s = set_miner block p s in
              bind_oc (Some (ContextualCheckBlock env s block (pprev (t_mem (s_tree s) p)) st)) (\<lambda>(ok, st).
              if \<not> ok then
                Some (Inr (False, st, pindex, if mode st = MODE_INVALID \<and> \<not> corruptionPossible st then fail_block p s else s))
              else
                bind_oc (Some (store_block io dbp block p st s)) (\<lambda>(ok, st, s).
                if \<not> ok then Some (Inr (False, st, pindex, s))
                else
                  (case VerifyBlockMiner io (t_mem (s_tree s)) p of (mem, ok) \<Rightarrow>
                     (let s = s\<lparr>s_tree := (s_tree s)\<lparr>t_mem := mem\<rparr>\<rparr>
                      in Some (Inr (if ok then (True, st, pindex, s) else (False, st, pindex, fail_block p s)))))))))"

section \<open>What an accepted block commits to\<close>

text \<open>The transactions as the Merkle tree hashes them: without the unspendable outputs of a coinbase in one kind of tree.\<close>

fun committed :: "nat \<Rightarrow> CTransaction list \<Rightarrow> CTransaction list cpp option" where
  "committed mtype [] = Some (Inr [])"
| "committed mtype (tx # txs) =
     bind_oc (if mtype = MERKLETREE_NO_COINBASE_OP_RETURN \<and> IsCoinBase tx
              then map_option (map_sum id (\<lambda>outs. tx\<lparr>vout := outs\<rparr>)) (spendable_outputs (vout tx)) else Some (Inr tx)) (\<lambda>tx.
     bind_oc (committed mtype txs) (\<lambda>txs. Some (Inr (tx # txs))))"

lemma run_cases:
  fixes r :: "'a cpp option"
  obtains (None) "r = None" | (Fault) e where "r = Some (Inl e)" | (Value) x where "r = Some (Inr x)"
  by (cases r) (auto split: sum.splits, metis sum.exhaust)

lemma merkle_leaves_committed: "merkle_leaves H mtype txs = map_option (map_sum id (map H)) (committed mtype txs)"
proof (induction txs)
  case (Cons tx txs)
  show ?case using Cons
    by (cases "spendable_outputs (vout tx)" rule: run_cases; cases "committed mtype txs" rule: run_cases) (simp_all add: merkle_leaf_def)
qed simp

lemma committed_full: "mtype \<noteq> MERKLETREE_NO_COINBASE_OP_RETURN \<Longrightarrow> committed mtype txs = Some (Inr txs)"
  by (induction txs) simp_all

lemma committed_nonempty: "committed mtype txs = Some (Inr txs') \<Longrightarrow> txs \<noteq> [] \<Longrightarrow> txs' \<noteq> []"
  by (cases txs; cases "committed mtype (tl txs)" rule: run_cases; cases "spendable_outputs (vout (hd txs))" rule: run_cases)
    (auto split: if_splits)

lemma check_contents_accepts:
  assumes "check_contents hs env b (st, bb) = (True, st', bb')"
  shows "vtx b \<noteq> [] \<and> length (ser_block b) \<le> MAX_BLOCK_SIZE (money env)"
  using assms by (auto simp: check_contents_def split: if_splits)

lemma CheckBlock_accepts:
  assumes "CheckBlock hs env mem blocks b fCheckPOW True (st, bb) = Some (Inr (True, st', bb'))"
  shows "vtx b \<noteq> [] \<and> length (ser_block b) \<le> MAX_BLOCK_SIZE (money env)
    \<and> (\<exists>txs. committed (nMerkleTreeType b) (vtx b) = Some (Inr txs) \<and> merkle_root (Hash2 hs) (map (tx_GetHash hs) txs) = h_hashMerkleRoot b
      \<and> (\<forall>l \<in> set (merkle_levels (Hash2 hs) (map (tx_GetHash hs) txs)). \<not> doubled_end l))"
proof -
  obtain st1 where h: "CheckBlockHeader hs env mem blocks b fCheckPOW st = (True, st1)"
    using assms by (auto simp: CheckBlock_def split: prod.splits bool.splits)
  obtain root mutated where m: "block_BuildMerkleTree hs b = Some (Inr (root, mutated))" "h_hashMerkleRoot b = root" "\<not> mutated"
    and c: "check_contents hs env b (st1, bb) = (True, st', bb')"
    using assms h by (cases "block_BuildMerkleTree hs b" rule: run_cases) (auto simp: CheckBlock_def split: prod.splits if_splits)
  obtain txs where "committed (nMerkleTreeType b) (vtx b) = Some (Inr txs)" "merkle_root (Hash2 hs) (map (tx_GetHash hs) txs) = root"
    "mutated = (\<exists>l \<in> set (merkle_levels (Hash2 hs) (map (tx_GetHash hs) txs)). doubled_end l)"
    using m(1) unfolding block_BuildMerkleTree_def merkle_leaves_committed
    by (cases "committed (nMerkleTreeType b) (vtx b)"; cases "the (committed (nMerkleTreeType b) (vtx b))")
      (auto simp: BuildMerkleTree_levels)
  then show ?thesis using check_contents_accepts [OF c] m by auto
qed

text \<open>
  C10. A block that \<open>CheckBlock\<close> accepts is determined by its header: two accepted blocks with the same
  Merkle root commit to the same transactions, in the same order, provided that the hash function
  does not collide on the strings that are hashed for their trees and that no transaction is
  serialized to 64 bytes, the length of an inner node of the tree. Both kinds of Merkle trees may be used,
  with any clock, chain parameters and index.
\<close>

theorem CheckBlock_commits:
  assumes "CheckBlock hs env1 mem1 blocks1 b1 pow1 True (st1, bb1) = Some (Inr (True, r1))"
    and "CheckBlock hs env2 mem2 blocks2 b2 pow2 True (st2, bb2) = Some (Inr (True, r2))"
    and "h_hashMerkleRoot b1 = h_hashMerkleRoot b2"
    and "committed (nMerkleTreeType b1) (vtx b1) = Some (Inr txs1)" "committed (nMerkleTreeType b2) (vtx b2) = Some (Inr txs2)"
    and "list_all (tx_ok MAX_SIZE) (txs1 @ txs2)" "\<forall>tx \<in> set (txs1 @ txs2). length (ser_tx tx) < 2 ^ 32 \<and> length (ser_tx tx) \<noteq> 64"
    and "\<forall>s. length (Hash hs s) = 8" "inj_on (Hash hs) (set (hashed_strings hs txs1) \<union> set (hashed_strings hs txs2))"
  shows "txs1 = txs2"
proof -
  let ?m = "\<lambda>txs. merkle_levels (Hash2 hs) (map (tx_GetHash hs) txs)"
  let ?r = "\<lambda>txs. merkle_root (Hash2 hs) (map (tx_GetHash hs) txs)"
  have a: "vtx b1 \<noteq> []" "?r txs1 = h_hashMerkleRoot b1" "\<forall>l \<in> set (?m txs1). \<not> doubled_end l"
    using CheckBlock_accepts [of hs env1 mem1 blocks1 b1 pow1 st1 bb1 "fst r1" "snd r1"] assms(1,4) by auto
  have b: "vtx b2 \<noteq> []" "?r txs2 = h_hashMerkleRoot b2" "\<forall>l \<in> set (?m txs2). \<not> doubled_end l"
    using CheckBlock_accepts [of hs env2 mem2 blocks2 b2 pow2 st2 bb2 "fst r2" "snd r2"] assms(2,5) by auto
  have n: "txs1 \<noteq> []" "txs2 \<noteq> []" using committed_nonempty assms(4,5) a(1) b(1) by blast+
  have eq: "?r txs1 = ?r txs2" using a(2) b(2) assms(3) by simp
  show ?thesis
  proof (cases "length (?m txs1) \<le> length (?m txs2)")
    case True
    then show ?thesis using merkle_root_transactions [OF n assms(6-9) eq a(3) b(3)] by simp
  next
    case False
    have "list_all (tx_ok MAX_SIZE) (txs2 @ txs1)" "\<forall>tx \<in> set (txs2 @ txs1). length (ser_tx tx) < 2 ^ 32 \<and> length (ser_tx tx) \<noteq> 64"
      "inj_on (Hash hs) (set (hashed_strings hs txs2) \<union> set (hashed_strings hs txs1))"
      using assms(6,7,9) by (auto simp: Un_commute)
    then show ?thesis using merkle_root_transactions [OF n(2,1) _ _ assms(8) _ eq [symmetric] b(3) a(3), of MAX_SIZE] False by simp
  qed
qed

definition example_hashes :: hash_functions where
  "example_hashes = (let H = \<lambda>s. of_nat (length s) # replicate 7 0 in \<lparr>Hash = H, SkunkHash = H, lyra2re2_hash = H\<rparr>)"

definition example_params :: chain_params where
  "example_params = \<lparr>ProofOfWorkLimit = replicate 8 (- 1), AllowMinDifficultyBlocks = False, SkipProofOfWorkCheck = True,
     TargetTimespan = 86400, TargetSpacing = 180, StartHeightDiffAlg = 112400, StartHeightEpowV2 = 112400, StartHeightChBlockSigner = 138700,
     StartHeightBlockRewardAdj = 150000, StartHeightNewHashAlog = 151880, StartHeightBlockRewardAdj2nd = 183400\<rparr>"

definition example_env :: block_env where
  "example_env = \<lparr>ps = example_params, money = \<lparr>MAX_MONEY = 1000, MAX_BLOCK_SIZE = 1000, COINBASE_MATURITY = 60, WITH_NATIVE_CURRENCY = True\<rparr>,
     MAX_BLOCK_SIGOPS = 20, HashGenesisBlock = [80, 0, 0, 0, 0, 0, 0, 1], ToCheckBlockUpgradeMajority = 10, RejectBlockOutdatedMajority = 9,
     EnforceBlockUpgradeMajority = 7, LockAdminMineRounds = 10, GetAdjustedTime = 1000, fEnabled = True, mapCheckpoints = [],
     hLockedBlock = bn_zero 8, MCP_ANYONE_CAN_ADMIN = False, MCP_ANYONE_CAN_MINE = False, GetMinerCount = 3,
     GetActiveMinerCount = 2, FindGovernanceModelChange = (\<lambda>_ _. False), setBannedTxs = [], maxheadersfrompeer = 10\<rparr>"

definition example_coinbase :: CTransaction where
  "example_coinbase = \<lparr>tx_nVersion = 1, vin = [\<lparr>prevout = \<lparr>out_hash = bn_zero 8, out_n = - 1\<rparr>, scriptSig = [0x51, 0x52], nSequence = - 1\<rparr>],
     vout = [\<lparr>nValue = 50, scriptPubKey = []\<rparr>], nLockTime = 0\<rparr>"

definition example_block :: "u32 \<Rightarrow> nat \<Rightarrow> CTransaction list \<Rightarrow> CBlock" where
  "example_block nonce mtype txs = \<lparr>h_nVersion = 4, hashPrevBlock = bn_zero 8, h_hashMerkleRoot = 62 # replicate 7 0, h_nTime = 900,
     h_nBits = 0x207fffff, h_nNonce = nonce, vtx = txs, nSigHashType = 2, nMerkleTreeType = mtype, vSigner = [0]\<rparr>"

lemma example_coinbase_size: "length (ser_tx example_coinbase) = 62"
  by (simp add: example_coinbase_def ser_tx_def ser_vector_def ser_txin_def ser_txout_def ser_outpoint_def length_ser_uint256
      ser_bytes_def ser_u32_def ser_int_def WriteCompactSize_def bn_zero_def)

lemma example_IsCoinBase: "IsCoinBase example_coinbase"
  by code_simp

lemma example_coinbase_checked: "CheckTransaction (money example_env) example_coinbase = None"
proof -
  have v: "length (vin example_coinbase) = 1" "vout example_coinbase \<noteq> []" "length (scriptSig (vin example_coinbase ! 0)) = 2"
    "vin example_coinbase \<noteq> []" by (simp_all add: example_coinbase_def)
  have "check_values 1000 (vout example_coinbase) 0 = None" "check_duplicates (vin example_coinbase) [] = None"
    by (simp_all add: example_coinbase_def MoneyRange_def)
  then show ?thesis using v example_coinbase_size example_IsCoinBase
    by (simp add: CheckTransaction_def example_env_def or_else_def)
qed

lemma example_coinbase_facts:
  "GetLegacySigOpCount example_coinbase = 0" "tx_ok 100 example_coinbase"
  "spendable_outputs (vout example_coinbase) = Some (Inr (vout example_coinbase))"
  subgoal by (simp add: GetLegacySigOpCount_def GetSigOpCount_def example_coinbase_def sigop_loop.simps GetOp2_def)
  subgoal by (simp add: example_coinbase_def tx_ok_def txin_ok_def txout_ok_def bn_zero_def)
  subgoal
  proof -
    have "op_drop_loop [] 0 0 [(0, 0), (0, 0)] = Some (Inr (0, [(0, 0), (0, 0)]))" "op_return_loop [] 0 = Some (Inr 0)"
      by (subst op_drop_loop.simps, simp) (subst op_return_loop.simps, simp)
    then show ?thesis using IsUnspendable_loops by (fastforce simp: example_coinbase_def)
  qed
  done

lemmas example_coinbase_lemmas = example_coinbase_size example_IsCoinBase example_coinbase_checked example_coinbase_facts

lemma example_header_checked:
  "CheckBlockHeader example_hashes example_env mem [] (example_block nonce mtype txs) True st = (True, st)"
  by (simp add: CheckBlockHeader_def example_env_def example_params_def CheckProofOfWork_height_def example_block_def header_GetBlockTime_def)

lemma example_contents_checked:
  "check_contents example_hashes example_env (example_block nonce mtype [example_coinbase]) (st, []) = (True, st, [])"
proof -
  have "length (ser_block (example_block nonce mtype [example_coinbase])) = 143"
    by (simp add: ser_block_def ser_header_def ser_vector_def example_block_def example_coinbase_size WriteCompactSize_def ser_u32_def
        ser_int_def length_ser_uint256 bn_zero_def)
  then show ?thesis
    using example_coinbase_lemmas by (simp add: check_contents_def example_block_def example_env_def)
qed

lemma example_accepted:
  assumes "mtype \<le> 1"
  shows "CheckBlock example_hashes example_env mem [] (example_block nonce mtype [example_coinbase]) True True (st, []) = Some (Inr (True, st, []))
    \<and> committed (nMerkleTreeType (example_block nonce mtype [example_coinbase])) (vtx (example_block nonce mtype [example_coinbase])) = Some (Inr [example_coinbase])"
proof -
  let ?b = "example_block nonce mtype [example_coinbase]"
  have c: "committed (nMerkleTreeType ?b) (vtx ?b) = Some (Inr [example_coinbase])"
    using example_coinbase_facts(3) by (simp add: example_block_def)
  moreover have "tx_GetHash example_hashes example_coinbase = h_hashMerkleRoot ?b"
    by (simp add: tx_GetHash_def example_hashes_def Let_def example_coinbase_size example_block_def)
  ultimately have "block_BuildMerkleTree example_hashes ?b = Some (Inr (h_hashMerkleRoot ?b, False))"
    unfolding block_BuildMerkleTree_def merkle_leaves_committed
    by (simp add: BuildMerkleTree_levels merkle_levels.simps merkle_root.simps doubled_end_def)
  then show ?thesis using c by (simp add: CheckBlock_def example_header_checked example_contents_checked)
qed

theorem CheckBlock_commits_witness:
  "\<exists>r1 r2. CheckBlock example_hashes example_env (\<lambda>_. SetNull) [] (example_block 5 0 [example_coinbase]) True True (state_init, []) = Some (Inr (True, r1))
    \<and> CheckBlock example_hashes example_env (\<lambda>_. SetNull) [] (example_block 6 1 [example_coinbase]) True True (state_init, []) = Some (Inr (True, r2))
    \<and> [example_coinbase] = vtx (example_block 6 1 [example_coinbase])"
proof -
  have 0: "h_hashMerkleRoot (example_block 5 0 [example_coinbase]) = h_hashMerkleRoot (example_block 6 1 [example_coinbase])"
    by (simp add: example_block_def)
  have h: "\<forall>s. length (Hash example_hashes s) = 8" by (simp add: example_hashes_def Let_def)
  have i: "inj_on (Hash example_hashes) (set (hashed_strings example_hashes [example_coinbase]) \<union> set (hashed_strings example_hashes [example_coinbase]))"
    by (simp add: hashed_strings_def hashed_pairs_def merkle_levels.simps)
  note a = example_accepted [of 0 "\<lambda>_. SetNull" 5 state_init] and b = example_accepted [of 1 "\<lambda>_. SetNull" 6 state_init]
  have "[example_coinbase] = [example_coinbase]"
    by (rule CheckBlock_commits [OF _ _ 0 _ _ _ _ h i, where MAX_SIZE = 100, of example_env "\<lambda>_. SetNull" "[]" True state_init "[]" _
          example_env "\<lambda>_. SetNull" "[]" True state_init "[]"])
      (use a b example_coinbase_lemmas in auto)
  then show ?thesis using a b by (auto simp: example_block_def)
qed

end
