(* ===== verification/Epow.thy ===== *)
theory Epow
  imports Blocks TxChecks
begin

text \<open>
  The mining window of HDAC's consensus rule ePoW (\<^verbatim>\<open>chain/epow.cpp\<close>): how many different miners the last
  blocks have (the node factor), how large the window is in which a miner may not mine again, and the
  checks of a received block against it. The globals of the file are a record. Reading a block from
  disk and the address of its miner are arguments, as is the clock. The products with
  \<open>BLOCKWINDOW_NODE_FACTOR_RATE\<close> are computed in single precision, and so they are here. The variant for
  \<open>TESTNET\<close> builds, log output and the functions that print blocks are left out.
\<close>

section \<open>State\<close>

record epow_state =
  BLOCKWINDOW_TOUCHED :: bool
  BLOCKWINDOW_LAST_SZ :: int
  BW_CUR_WZ :: int
  BW_CUR_NF :: int
  BW_CUR_BH :: int

record epow_env =
  e_mem :: index_store
  e_chain :: vchain
  e_ps :: chain_params
  ReadBlockFromDisk :: "ptr \<Rightarrow> CBlock option"
  GetBlockMinerAddress :: "CBlock \<Rightarrow> string"
  MCP_TARGET_BLOCK_TIME :: int
  e_now :: int
  IsInitialBlockDownload :: bool

abbreviation (input) "BLOCK_NUM_OF_MAX_BLOCKWINDOW \<equiv> (1752000 :: int)"
abbreviation (input) "MAX_MINING_DEPTH_OF_BLOCKWINDOW \<equiv> (700 :: nat)"
abbreviation (input) "HDAC_TARGET_BLOCK_TIME_MULTIPLE \<equiv> (20 :: int)"
abbreviation (input) "NODEFACTOR_DEFAULT_DEPTH \<equiv> (480 :: int)"
abbreviation (input) "BLOCKTIME_MULTIPLE \<equiv> (2 :: int)"
abbreviation (input) "BLOCKTIME_MAX_LIMIT \<equiv> (4 :: int)"
abbreviation (input) "MINING_NF \<equiv> (10 :: int)"
abbreviation (input) "MINING_MARGIN_RATE \<equiv> (3 :: int)"
abbreviation (input) "MINING_FACTOR \<equiv> (6 :: int)"

definition IsEnabledEpowV2 :: "chain_params \<Rightarrow> int \<Rightarrow> bool" where
  "IsEnabledEpowV2 ps nheight \<longleftrightarrow> nheight \<ge> StartHeightEpowV2 ps"

section \<open>Single precision\<close>

text \<open>
  A product in single precision is rounded to 24 significant bits. \<open>BLOCKWINDOW_NODE_FACTOR_RATE\<close> is
  \<open>11744051 / 2 ^ 24\<close>; a value is its numerator over \<open>2 ^ 24\<close>. A quotient is computed with enough bits for
  the rounding, and whether a remainder is left.
\<close>

definition round_float :: "nat \<Rightarrow> nat" where
  "round_float m = round_sig 24 m"

definition floor_rate :: "nat \<Rightarrow> int" where
  "floor_rate n = int (round_float (11744051 * round_float n) div 2 ^ 24)"

definition floor_quotient :: "nat \<Rightarrow> nat \<Rightarrow> nat" where
  "floor_quotient a b =
     (if a = 0 then 0
      else
        (let k = floorlog 2 b + 24; t = a * 2 ^ k div b; sticky = a * 2 ^ k mod b \<noteq> 0;
             s = floorlog 2 t - 24; q = t div 2 ^ s; r = t mod 2 ^ s;
             q = (if 2 * r > 2 ^ s \<or> (2 * r = 2 ^ s \<and> (sticky \<or> odd q)) then q + 1 else q)
         in q * 2 ^ s div 2 ^ k))"

definition floor_window :: "nat \<Rightarrow> nat \<Rightarrow> int" where
  "floor_window x nf =
     int (floor_quotient (round_float (round_float (11744051 * round_float x) * round_float nf)) (2 ^ 24 * 1752000))"

section \<open>Scans over the last blocks\<close>

text \<open>Blocks that cannot be read and addresses of less than 32 characters are skipped by every scan.\<close>

definition miner_of :: "epow_env \<Rightarrow> ptr \<Rightarrow> string option" where
  "miner_of env p =
     (case ReadBlockFromDisk env p of
        None \<Rightarrow> None
      | Some block \<Rightarrow> (let a = GetBlockMinerAddress env block in if length a \<ge> 32 then Some a else None))"

fun node_factor_loop :: "epow_env \<Rightarrow> nat \<Rightarrow> ptr option \<Rightarrow> string list \<Rightarrow> string list" where
  "node_factor_loop env 0 pindex acc = acc"
| "node_factor_loop env (Suc n) pindex acc =
     (case pindex of
        None \<Rightarrow> acc
      | Some p \<Rightarrow>
          if pprev (e_mem env p) = None then acc
          else node_factor_loop env n (pprev (e_mem env p))
                 (case miner_of env p of None \<Rightarrow> acc | Some a \<Rightarrow> List.insert a acc))"

definition GetNodeFactor :: "epow_env \<Rightarrow> int \<Rightarrow> epow_state \<Rightarrow> int \<times> epow_state" where
  "GetNodeFactor env depth s =
     (if Tip (e_chain env) = None then (BW_CUR_NF s, s)
      else
        (let nf = int (length (node_factor_loop env (nat depth) (Tip (e_chain env)) []))
         in (nf, s\<lparr>BW_CUR_NF := nf\<rparr>)))"

fun skip_blocks :: "index_store \<Rightarrow> nat \<Rightarrow> ptr option \<Rightarrow> ptr option" where
  "skip_blocks mem 0 pindex = pindex"
| "skip_blocks mem (Suc n) pindex =
     (case pindex of
        None \<Rightarrow> None
      | Some p \<Rightarrow> if pprev (mem p) = None then Some p else skip_blocks mem n (pprev (mem p)))"

definition GetNodeFactor_from :: "epow_env \<Rightarrow> int \<Rightarrow> int \<Rightarrow> int" where
  "GetNodeFactor_from env depth nStartDepth =
     (case skip_blocks (e_mem env) (min (nat depth) (nat nStartDepth)) (Tip (e_chain env)) of
        None \<Rightarrow> - 1
      | Some p \<Rightarrow> int (length (node_factor_loop env (nat depth) (Some p) [])))"

fun depth_loop :: "epow_env \<Rightarrow> string \<Rightarrow> int \<Rightarrow> nat \<Rightarrow> ptr option \<Rightarrow> int" where
  "depth_loop env strAddr idx 0 pindex = - 1"
| "depth_loop env strAddr idx (Suc n) pindex =
     (case pindex of
        None \<Rightarrow> - 1
      | Some p \<Rightarrow>
          if pprev (e_mem env p) = None then - 1
          else if miner_of env p = Some strAddr then idx
          else depth_loop env strAddr (idx + 1) n (pprev (e_mem env p)))"

definition GetMiningDepth :: "epow_env \<Rightarrow> string \<Rightarrow> int" where
  "GetMiningDepth env strAddr = depth_loop env strAddr 0 MAX_MINING_DEPTH_OF_BLOCKWINDOW (Tip (e_chain env))"

fun continuity_loop :: "epow_env \<Rightarrow> string \<Rightarrow> nat \<Rightarrow> ptr option \<Rightarrow> int \<Rightarrow> int" where
  "continuity_loop env strAddr 0 pindex c = c"
| "continuity_loop env strAddr (Suc n) pindex c =
     (case pindex of
        None \<Rightarrow> c
      | Some p \<Rightarrow>
          if pprev (e_mem env p) = None then c
          else (case miner_of env p of
                  None \<Rightarrow> continuity_loop env strAddr n (pprev (e_mem env p)) c
                | Some a \<Rightarrow> if a = strAddr then continuity_loop env strAddr n (pprev (e_mem env p)) (c + 1) else c))"

definition GetMiningContinuity_depth :: "epow_env \<Rightarrow> string \<Rightarrow> int \<Rightarrow> int" where
  "GetMiningContinuity_depth env strAddr depth = continuity_loop env strAddr (nat depth) (Tip (e_chain env)) 0"

definition GetMiningContinuity :: "epow_env \<Rightarrow> string \<Rightarrow> int" where
  "GetMiningContinuity env strAddr = continuity_loop env strAddr MAX_MINING_DEPTH_OF_BLOCKWINDOW (Tip (e_chain env)) 0"

text \<open>The times of the blocks that a miner has mined, the last block first.\<close>

fun count_loop :: "epow_env \<Rightarrow> string \<Rightarrow> nat \<Rightarrow> ptr option \<Rightarrow> int list" where
  "count_loop env strAddr 0 pindex = []"
| "count_loop env strAddr (Suc n) pindex =
     (case pindex of
        None \<Rightarrow> []
      | Some p \<Rightarrow>
          if pprev (e_mem env p) = None then []
          else (if miner_of env p = Some strAddr then [GetBlockTime (e_mem env p)] else [])
                 @ count_loop env strAddr n (pprev (e_mem env p)))"

text \<open>The second result is \<open>*time\<close>, which only the verbose call sets.\<close>

definition GetMiningCount :: "epow_env \<Rightarrow> int \<Rightarrow> string \<Rightarrow> int \<Rightarrow> bool \<Rightarrow> int \<times> int" where
  "GetMiningCount env depth strAddr time verbose =
     (let times = count_loop env strAddr (nat depth) (Tip (e_chain env))
      in (int (length times),
          if verbose \<and> times \<noteq> [] then to_int32 ((hd times - last times) sdiv int (length times)) else time))"

section \<open>The size of the window\<close>

definition clamp_window :: "int \<Rightarrow> int \<Rightarrow> int" where
  "clamp_window blockWz nf = (if blockWz \<ge> nf then nf - 1 else blockWz)"

definition window_of :: "int \<Rightarrow> int \<Rightarrow> int" where
  "window_of x nf =
     (if x > BLOCK_NUM_OF_MAX_BLOCKWINDOW then floor_rate (nat nf) else floor_window (nat x) (nat nf))"

definition GetBlockWindowSize :: "epow_env \<Rightarrow> epow_state \<Rightarrow> int \<times> epow_state" where
  "GetBlockWindowSize env s =
     (if \<not> BLOCKWINDOW_TOUCHED s then (BLOCKWINDOW_LAST_SZ s, s)
      else
        (case GetNodeFactor env NODEFACTOR_DEFAULT_DEPTH s of
           (nf, s) \<Rightarrow>
             (case Tip (e_chain env) of
                None \<Rightarrow> (BLOCKWINDOW_LAST_SZ s, s)
              | Some tip \<Rightarrow>
                  (let x = nHeight (e_mem env tip); s = s\<lparr>BW_CUR_BH := x\<rparr>;
                       blockWz = (if IsEnabledEpowV2 (e_ps env) x then (if floor_rate (nat nf) > 1 then 1 else 0)
                                  else window_of x nf);
                       blockWz = clamp_window blockWz nf
                   in (blockWz, s\<lparr>BLOCKWINDOW_LAST_SZ := blockWz, BLOCKWINDOW_TOUCHED := False, BW_CUR_WZ := blockWz\<rparr>)))))"

definition GetBlockWindowSize_from :: "epow_env \<Rightarrow> int \<Rightarrow> int" where
  "GetBlockWindowSize_from env nStartDepth =
     (let nf = GetNodeFactor_from env NODEFACTOR_DEFAULT_DEPTH nStartDepth in
      if nf = - 1 then - 1
      else
        (case skip_blocks (e_mem env) (min (nat NODEFACTOR_DEFAULT_DEPTH) (nat nStartDepth)) (Tip (e_chain env)) of
           None \<Rightarrow> - 1
         | Some p \<Rightarrow> clamp_window (window_of (nHeight (e_mem env p)) nf) nf))"

definition ancestor_time :: "epow_env \<Rightarrow> ptr \<Rightarrow> int \<Rightarrow> int cpp" where
  "ancestor_time env tip height =
     bind_cpp (GetAncestor (e_mem env) tip height) (\<lambda>r. case r of
        None \<Rightarrow> Inl NullPointer
      | Some p \<Rightarrow> Inr (GetBlockTime (e_mem env p)))"

text \<open>The sizes between which \<open>CalculateWindowSize\<close> chooses; \<open>half\<close> is \<open>nSetRefBlock >> 1\<close>.\<close>

definition choose_window :: "int \<Rightarrow> int \<Rightarrow> int \<Rightarrow> int \<Rightarrow> int cpp \<Rightarrow> int \<Rightarrow> int cpp" where
  "choose_window nSetRefBlock nf blockWz nRefBlkTime next_time nWindowTime =
     (let half = drop_bit 1 nSetRefBlock in
      if nRefBlkTime > nWindowTime * 2 then
        bind_cpp next_time (\<lambda>nRefBlkTimenext.
          if nRefBlkTimenext > nWindowTime then Inr (if nf = half then min blockWz 0 else min blockWz 1)
          else Inr (if nf = half then min blockWz 0 else min (max blockWz 1) 1))
      else if nf < drop_bit 3 nSetRefBlock then Inr (if nf = half then min blockWz 0 else min (max blockWz 1) 2)
      else Inr (if nf = half then min blockWz 0 else min (max blockWz 1) 1))"

definition CalculateWindowSize :: "epow_env \<Rightarrow> int \<Rightarrow> epow_state \<Rightarrow> (int \<times> epow_state) cpp" where
  "CalculateWindowSize env nDepth s =
     (if \<not> BLOCKWINDOW_TOUCHED s then Inr (BLOCKWINDOW_LAST_SZ s, s)
      else
        (case Tip (e_chain env) of
           None \<Rightarrow> Inl NullPointer
         | Some tip \<Rightarrow>
             (let mem = e_mem env; h = nHeight (mem tip) in
              bind_cpp (assert_cpp (h \<ge> Interval (e_ps env) sdiv 4)) (\<lambda>_.
              bind_cpp (ancestor_time env tip (h - nDepth)) (\<lambda>refTime.
              let nRefBlkTime = to_int32 (GetBlockTime (mem tip) - refTime);
                  (nf, s) = GetNodeFactor env nDepth s;
                  nWindowTime = to_int32 (nDepth * Interval (e_ps env)) in
              if nDepth = 0 \<or> nWindowTime = 0 then Inr (- 1, s)
              else
                (let nf = (if nf < drop_bit 4 nDepth \<or> nf > drop_bit 1 nDepth then drop_bit 1 nDepth else nf) in
                 bind_cpp (div_cpp nDepth nf) (\<lambda>q.
                 let blockWz = drop_bit 1 (floor_rate (nat q)) in
                 bind_cpp (choose_window nDepth nf blockWz nRefBlkTime
                     (map_sum id (\<lambda>t. to_int32 (GetBlockTime (mem tip) - t)) (ancestor_time env tip (h - nDepth sdiv 2))) nWindowTime) (\<lambda>blockWz.
                 Inr (blockWz, s\<lparr>BLOCKWINDOW_LAST_SZ := blockWz, BLOCKWINDOW_TOUCHED := False, BW_CUR_WZ := blockWz\<rparr>)))))))))"

definition GetCurrentBlockWindowInfo :: "epow_state \<Rightarrow> int \<times> int \<times> int" where
  "GetCurrentBlockWindowInfo s = (BW_CUR_WZ s, BW_CUR_NF s, BW_CUR_BH s)"

section \<open>Checks of a miner\<close>

text \<open>The size that \<open>CheckBlockWindow\<close> uses.\<close>

definition window_size :: "epow_env \<Rightarrow> epow_state \<Rightarrow> (int \<times> epow_state) cpp" where
  "window_size env s =
     (case Tip (e_chain env) of
        None \<Rightarrow> Inl NullPointer
      | Some tip \<Rightarrow>
          if IsEnabledEpowV2 (e_ps env) (nHeight (e_mem env tip)) then CalculateWindowSize env 120 s
          else Inr (GetBlockWindowSize env s))"

definition CheckBlockWindow :: "epow_env \<Rightarrow> string \<Rightarrow> epow_state \<Rightarrow> (bool \<times> epow_state) cpp" where
  "CheckBlockWindow env strMiner s =
     (let miningDepth = GetMiningDepth env strMiner in
      bind_cpp (window_size env s) (\<lambda>(wz, s). Inr (if miningDepth < 0 then True else \<not> wz > miningDepth, s)))"

definition IsMiningBlackout :: "epow_env \<Rightarrow> epow_state \<Rightarrow> bool \<times> epow_state" where
  "IsMiningBlackout env s =
     (case Tip (e_chain env) of
        None \<Rightarrow> (False, s)
      | Some tip \<Rightarrow>
          if e_now env - GetBlockTime (e_mem env tip) > MCP_TARGET_BLOCK_TIME env * HDAC_TARGET_BLOCK_TIME_MULTIPLE then
            (case GetBlockWindowSize env s of
               (wz, s) \<Rightarrow> (case GetNodeFactor env NODEFACTOR_DEFAULT_DEPTH s of (nf, s) \<Rightarrow> (wz < nf, s)))
          else (False, s))"

definition GetEpowWindow :: "int \<Rightarrow> int \<Rightarrow> int \<Rightarrow> int" where
  "GetEpowWindow nf number factor =
     (if factor < 0 then
        (if nf \<le> MINING_MARGIN_RATE then (if number > MINING_MARGIN_RATE + 1 then 0 else 1)
         else if nf < MINING_FACTOR then (if number > MINING_MARGIN_RATE then 0 else 1)
         else 1)
      else if nf \<ge> MINING_MARGIN_RATE then 1
      else if number < MINING_FACTOR then 1
      else 0)"

definition VerifyWindowWithEpow ::
    "epow_env \<Rightarrow> int \<Rightarrow> int \<Rightarrow> int \<Rightarrow> int \<Rightarrow> string \<Rightarrow> int \<Rightarrow> int \<Rightarrow> epow_state \<Rightarrow> (bool \<times> epow_state) cpp" where
  "VerifyWindowWithEpow env time blkDifftime termTime myTime strAddr nfNew miningCountThisMiner s =
     (case Tip (e_chain env) of
        None \<Rightarrow> Inr (False, s)
      | Some tip \<Rightarrow>
          (let target = MCP_TARGET_BLOCK_TIME env in
           if blkDifftime < target then
             (if termTime < target \<and> fst (GetMiningCount env MINING_MARGIN_RATE strAddr 0 False) > 0 then Inr (False, s)
              else if termTime < target \<and> miningCountThisMiner > 1 \<and> myTime < target - 30 then Inr (False, s)
              else if GetEpowWindow nfNew miningCountThisMiner (- 1) \<noteq> 0 then CheckBlockWindow env strAddr s
              else Inr (False, s))
           else
             (let sysDiffTime = time - GetBlockTime (e_mem env tip) in
              if sysDiffTime > target * BLOCKTIME_MAX_LIMIT * BLOCKTIME_MAX_LIMIT then Inr (True, s)
              else if blkDifftime > target * BLOCKTIME_MAX_LIMIT then
                (if GetEpowWindow nfNew (GetMiningContinuity_depth env strAddr MINING_NF) miningCountThisMiner \<noteq> 0 then Inr (True, s)
                 else CheckBlockWindow env strAddr s)
              else CheckBlockWindow env strAddr s)))"

definition blackout_exempt :: "int \<Rightarrow> int \<Rightarrow> bool" where
  "blackout_exempt nf miningContinuity =
     (if nf < 3 then True
      else if nf < 20 then miningContinuity < 2
      else if nf < 40 then miningContinuity < 3
      else if nf < 80 then miningContinuity < 4
      else miningContinuity < 5)"

text \<open>\<open>from_peer\<close> says that \<open>pfrom\<close> is not \<open>NULL\<close>.\<close>

definition VerifyBlockWindow :: "epow_env \<Rightarrow> CBlock \<Rightarrow> bool \<Rightarrow> epow_state \<Rightarrow> (bool \<times> epow_state) cpp" where
  "VerifyBlockWindow env block from_peer s =
     (let s = (case Tip (e_chain env) of None \<Rightarrow> s | Some tip \<Rightarrow> s\<lparr>BW_CUR_BH := nHeight (e_mem env tip)\<rparr>);
          blockTime = header_GetBlockTime block; diffBlkTime = e_now env - blockTime in
      if from_peer \<and> diffBlkTime > MCP_TARGET_BLOCK_TIME env * HDAC_TARGET_BLOCK_TIME_MULTIPLE then Inr (True, s)
      else
        (let strMiner = GetBlockMinerAddress env block in
         if length strMiner < 32 then Inr (False, s)
         else case Tip (e_chain env) of
           None \<Rightarrow> Inr (False, s)
         | Some tip \<Rightarrow>
             (let h = nHeight (e_mem env tip); tipTime = GetBlockTime (e_mem env tip) in
              if IsEnabledEpowV2 (e_ps env) h then
                bind_cpp (ancestor_time env tip (h - MINING_MARGIN_RATE)) (\<lambda>refTime.
                let nfNew = GetNodeFactor_from env MINING_NF 0;
                    (count, nMytime) = GetMiningCount env (MINING_NF * BLOCKTIME_MULTIPLE) strMiner 0 True
                in VerifyWindowWithEpow env (e_now env) (blockTime - tipTime) (tipTime - refTime) nMytime strMiner nfNew count s)
              else
                (case IsMiningBlackout env s of
                   (False, s) \<Rightarrow> CheckBlockWindow env strMiner s
                 | (True, s) \<Rightarrow>
                     (case GetNodeFactor env NODEFACTOR_DEFAULT_DEPTH s of
                        (nf, s) \<Rightarrow>
                          if blackout_exempt nf (GetMiningContinuity env strMiner) then Inr (True, s)
                          else CheckBlockWindow env strMiner s)))))"

definition CheckePoWRule :: "epow_env \<Rightarrow> string \<Rightarrow> epow_state \<Rightarrow> bool \<times> epow_state" where
  "CheckePoWRule env strMinerAddress s =
     (if IsInitialBlockDownload env then (True, s)
      else
        (case GetCurrentBlockWindowInfo s of
           (wz, nf, bh) \<Rightarrow>
             if GetMiningContinuity env strMinerAddress > wz then
               (case IsMiningBlackout env s of (blackout, s) \<Rightarrow> (\<not> blackout, s))
             else (True, s)))"

text \<open>The address of a coinbase; the text form of a destination is an argument.\<close>

definition GetCoinbaseAddress :: "script_env \<Rightarrow> std_params \<Rightarrow> (CTxDestination \<Rightarrow> string) \<Rightarrow> CBlock \<Rightarrow> string cpp" where
  "GetCoinbaseAddress senv sps address_string block =
     (if vtx block \<noteq> [] \<and> IsCoinBase (vtx block ! 0) then
        (if vout (vtx block ! 0) = [] then Inl OutOfRange
         else
           (case ExtractDestinations senv sps (scriptPubKey (vout (vtx block ! 0) ! 0)) of
              ((ok, whichType, addressRets, nRequiredRet), _) \<Rightarrow>
                Inr (if ok \<and> addressRets \<noteq> [] then address_string (hd addressRets) else [])))
      else Inr [])"

section \<open>The rate\<close>

lemma floorlog_mult_bound: "0 < m \<Longrightarrow> m < 2 ^ n \<Longrightarrow> floorlog 2 m \<le> n"
  by (simp add: floorlog_le_iff)

lemma floor_rate_exact:
  assumes "n < 2 ^ 20"
  shows "floor_rate n = 7 * int n div 10"
proof -
  define m k s where "m = 11744051 * n" and "k = 7 * n div 10" and "s = floorlog 2 m - 24"
  have n: "round_float n = n" using assms by (simp add: round_float_def round_sig_exact)
  have m10: "10 * m + 2 * n = 7 * n * 2 ^ 24" by (simp add: m_def)
  have "round_sig 24 m div 2 ^ 24 = k"
  proof (cases "n = 0")
    case True
    then show ?thesis by (simp add: m_def k_def round_sig_def)
  next
    case False
    then have m0: "0 < m" by (simp add: m_def)
    have "m < 2 ^ 44" using assms by (simp add: m_def)
    then have s: "s \<le> 24" using floorlog_mult_bound [OF m0, of 44] by (simp add: s_def)
    then have two: "2 ^ 24 = 2 ^ (24 - s) * (2 ^ s :: nat)" by (simp add: power_add [symmetric])
    have hi: "2 ^ 24 * round_sig 24 m \<le> (2 ^ 24 + 1) * m" using round_sig_err [OF m0, of 24] by simp
    have le: "7 * n \<le> 10 * k + 9" "10 * k \<le> 7 * n" by (simp_all add: k_def)
    have up: "round_sig 24 m < (k + 1) * 2 ^ 24"
    proof -
      have "10 * m \<le> (10 * k + 9) * 2 ^ 24" using m10 le(1) by simp
      moreover have "10 * (2 ^ 24 * round_sig 24 m) \<le> (2 ^ 24 + 1) * (10 * m)" using hi by simp
      ultimately show ?thesis using le(2) assms by simp
    qed
    have lo: "k * 2 ^ 24 \<le> round_sig 24 m"
    proof (cases "10 * k = 7 * n")
      case False
      then have "10 * k + 1 \<le> 7 * n" using le by simp
      then have "10 * (k * 2 ^ 24) \<le> 10 * m" using m10 assms by simp
      then have "k * 2 ^ (24 - s) * 2 ^ s \<le> m" using two by (simp add: mult.assoc)
      then have "k * 2 ^ (24 - s) * 2 ^ s \<le> round_sig 24 m" unfolding s_def by (rule round_sig_ge)
      then show ?thesis using two by (simp add: mult.assoc)
    next
      case True
      have "10 dvd 7 * n" using True by (metis dvd_triv_left)
      then have "10 dvd n" by presburger
      then obtain j where j: "n = 10 * j" by (rule dvdE)
      then have k: "k = 7 * j" using True by simp
      have md: "m + 2 * j = k * 2 ^ (24 - s) * 2 ^ s" using m10 j k two by (simp add: mult.assoc)
      have "m < 2 ^ floorlog 2 m" using floorlog_bounds [of m 2] m0 by simp
      also have "\<dots> \<le> 2 ^ (s + 24)" by (rule power_increasing) (simp_all add: s_def)
      finally have "m < 2 ^ s * 2 ^ 24" by (simp add: power_add)
      then have "2 * (2 * j) < 2 ^ s" using j False by (simp add: m_def)
      then have "round_sig 24 m = k * 2 ^ (24 - s) * 2 ^ s" using round_sig_up [of m "2 * j" "k * 2 ^ (24 - s)" 24] md by (simp add: s_def)
      then show ?thesis using two by (simp add: mult.assoc)
    qed
    show ?thesis using up lo by (intro div_nat_eqI) (simp_all add: mult.commute)
  qed
  then show ?thesis using n by (simp add: floor_rate_def round_float_def m_def k_def zdiv_int)
qed


section \<open>What the scans compute\<close>

text \<open>The last blocks, the tip first, without the genesis block.\<close>

fun recent :: "index_store \<Rightarrow> nat \<Rightarrow> ptr option \<Rightarrow> ptr list" where
  "recent mem 0 pindex = []"
| "recent mem (Suc n) pindex =
     (case pindex of
        None \<Rightarrow> []
      | Some p \<Rightarrow> if pprev (mem p) = None then [] else p # recent mem n (pprev (mem p)))"

lemma length_recent: "length (recent mem n p) \<le> n"
  by (induction mem n p rule: recent.induct) (auto split: option.split)

lemma take_recent: "m \<le> n \<Longrightarrow> take m (recent mem n p) = recent mem m p"
proof (induction mem n p arbitrary: m rule: recent.induct)
  case (2 mem n pindex)
  then show ?case by (cases m) (auto split: option.split)
qed simp

definition miners :: "epow_env \<Rightarrow> nat \<Rightarrow> string set" where
  "miners env n = {a. \<exists>p \<in> set (recent (e_mem env) n (Tip (e_chain env))). miner_of env p = Some a}"

lemma node_factor_loop_set:
  "distinct acc \<Longrightarrow> distinct (node_factor_loop env n p acc)
    \<and> set (node_factor_loop env n p acc) = set acc \<union> {a. \<exists>q \<in> set (recent (e_mem env) n p). miner_of env q = Some a}"
proof (induction env n p acc rule: node_factor_loop.induct)
  case (2 env n pindex acc)
  show ?case
  proof (cases "\<exists>p. pindex = Some p \<and> pprev (e_mem env p) \<noteq> None")
    case True
    then obtain p where p: "pindex = Some p" "pprev (e_mem env p) \<noteq> None" by blast
    let ?acc = "case miner_of env p of None \<Rightarrow> acc | Some a \<Rightarrow> List.insert a acc"
    have "distinct ?acc" "set ?acc = set acc \<union> {a. miner_of env p = Some a}"
      using 2(2) by (auto split: option.split)
    then show ?thesis using 2(1) [OF p(1,2)] p by auto
  qed (auto simp: 2(2) split: option.split)
qed simp

lemma GetNodeFactor_miners:
  "Tip (e_chain env) = Some tip \<Longrightarrow> GetNodeFactor env depth s = (int (card (miners env (nat depth))), s\<lparr>BW_CUR_NF := int (card (miners env (nat depth)))\<rparr>)"
  using node_factor_loop_set [of "[]" env "nat depth" "Some tip"]
  by (simp add: GetNodeFactor_def Let_def miners_def distinct_card [symmetric])

lemma depth_loop_first:
  "depth_loop env a idx n p = - 1 \<and> (\<forall>q \<in> set (recent (e_mem env) n p). miner_of env q \<noteq> Some a)
    \<or> (\<exists>i < length (recent (e_mem env) n p). depth_loop env a idx n p = idx + int i \<and> miner_of env (recent (e_mem env) n p ! i) = Some a
        \<and> (\<forall>j < i. miner_of env (recent (e_mem env) n p ! j) \<noteq> Some a))"
proof (induction env a idx n p rule: depth_loop.induct)
  case (2 env a idx n pindex)
  show ?case
  proof (cases "\<exists>p. pindex = Some p \<and> pprev (e_mem env p) \<noteq> None")
    case True
    then obtain p where p: "pindex = Some p" "pprev (e_mem env p) \<noteq> None" by blast
    let ?rs = "recent (e_mem env) n (pprev (e_mem env p))" and ?d = "depth_loop env a (idx + 1) n (pprev (e_mem env p))"
    show ?thesis
    proof (cases "miner_of env p = Some a")
      case True
      then show ?thesis using p by (intro disjI2 exI [of _ 0]) simp
    next
      case False
      consider "?d = - 1" "\<forall>q \<in> set ?rs. miner_of env q \<noteq> Some a"
        | i where "i < length ?rs" "?d = idx + 1 + int i" "miner_of env (?rs ! i) = Some a" "\<forall>j < i. miner_of env (?rs ! j) \<noteq> Some a"
        using 2 [OF p False] by blast
      then show ?thesis
      proof cases
        case 1
        then show ?thesis using p False by simp
      next
        case (2 i)
        then show ?thesis using p False by (intro disjI2 exI [of _ "Suc i"]) (auto simp: less_Suc_eq_0_disj)
      qed
    qed
  qed (auto split: option.split)
qed simp

text \<open>A miner is outside the window exactly when it has mined none of the last blocks.\<close>

lemma GetMiningDepth_outside:
  assumes "wz \<le> 700"
  shows "GetMiningDepth env a < 0 \<or> \<not> wz > GetMiningDepth env a \<longleftrightarrow> a \<notin> miners env (nat wz)"
proof -
  let ?rs = "recent (e_mem env) MAX_MINING_DEPTH_OF_BLOCKWINDOW (Tip (e_chain env))"
  have "recent (e_mem env) (nat wz) (Tip (e_chain env)) = take (nat wz) ?rs" using assms by (subst take_recent) auto
  then have m: "a \<in> miners env (nat wz) \<longleftrightarrow> (\<exists>i < length ?rs. int i < wz \<and> miner_of env (?rs ! i) = Some a)"
    by (fastforce simp: miners_def in_set_conv_nth)
  show ?thesis using depth_loop_first [of env a 0 MAX_MINING_DEPTH_OF_BLOCKWINDOW "Tip (e_chain env)"] unfolding m GetMiningDepth_def [symmetric]
  proof (elim disjE exE conjE)
    fix i assume i: "i < length ?rs" "GetMiningDepth env a = 0 + int i" "miner_of env (?rs ! i) = Some a"
      "\<forall>j < i. miner_of env (?rs ! j) \<noteq> Some a"
    have "(\<exists>k < length ?rs. int k < wz \<and> miner_of env (?rs ! k) = Some a) \<longleftrightarrow> int i < wz"
    proof
      assume "\<exists>k < length ?rs. int k < wz \<and> miner_of env (?rs ! k) = Some a"
      then obtain k where k: "int k < wz" "miner_of env (?rs ! k) = Some a" by blast
      then have "\<not> k < i" using i(4) by blast
      then show "int i < wz" using k(1) by simp
    qed (use i in blast)
    then show "(GetMiningDepth env a < 0 \<or> \<not> wz > GetMiningDepth env a) \<longleftrightarrow> \<not> (\<exists>k < length ?rs. int k < wz \<and> miner_of env (?rs ! k) = Some a)"
      using i(2) by auto
  qed auto
qed

lemma card_miners: "finite (miners env n) \<and> card (miners env n) \<le> n"
proof -
  let ?rs = "recent (e_mem env) n (Tip (e_chain env))"
  have "miners env n \<subseteq> (the \<circ> miner_of env) ` set ?rs" by (force simp: miners_def)
  then have "finite (miners env n)" "card (miners env n) \<le> card ((the \<circ> miner_of env) ` set ?rs)"
    by (auto intro: finite_subset card_mono)
  moreover have "card ((the \<circ> miner_of env) ` set ?rs) \<le> length ?rs" using card_image_le card_length le_trans by blast
  ultimately show ?thesis using length_recent [of "e_mem env" n] le_trans by blast
qed

text \<open>A window that is smaller than the node factor leaves a recent miner outside.\<close>

lemma miner_outside:
  assumes "wz < int (card (miners env n))" "miners env n \<noteq> {}"
  shows "\<exists>a \<in> miners env n. a \<notin> miners env (nat wz)"
proof (rule ccontr)
  assume "\<not> (\<exists>a \<in> miners env n. a \<notin> miners env (nat wz))"
  then have "card (miners env n) \<le> nat wz" using card_miners [of env "nat wz"] card_mono [of "miners env (nat wz)" "miners env n"] by fastforce
  then have "card (miners env n) = 0 \<or> wz \<ge> int (card (miners env n))" by linarith
  then show False using assms card_miners [of env n] \<open>card (miners env n) \<le> nat wz\<close> by auto
qed

section \<open>The window always leaves a miner\<close>

lemma ancestor_time_ok:
  assumes "index_wf (e_mem env) D" "tip \<in> D" "0 \<le> k" "k \<le> nHeight (e_mem env tip)"
  shows "\<exists>t. ancestor_time env tip (nHeight (e_mem env tip) - k) = Inr t"
  using GetAncestor_Some [OF assms(1,2), of "nHeight (e_mem env tip) - k"] assms(3,4) by (auto simp: ancestor_time_def)

lemma choose_window_total: "\<exists>wz. choose_window d nf b r (Inr t) w = Inr wz"
  by (cases "choose_window d nf b r (Inr t) w") (auto simp: choose_window_def Let_def split: if_splits)

lemma choose_window_bounds:
  assumes "choose_window 120 nf b r (Inr t) w = Inr wz"
  shows "wz \<le> 2 \<and> (nf = 60 \<longrightarrow> wz \<le> 0) \<and> (0 \<le> b \<longrightarrow> 0 \<le> wz) \<and> (nf \<ge> 15 \<longrightarrow> wz \<le> 1)"
  using assms by (auto simp: choose_window_def Let_def drop_bit_eq_div split: if_splits)

lemma CalculateWindowSize_ok:
  assumes "BLOCKWINDOW_TOUCHED s" "Tip (e_chain env) = Some tip" "index_wf (e_mem env) D" "tip \<in> D"
    and "120 \<le> nHeight (e_mem env tip)" "Interval (e_ps env) sdiv 4 \<le> nHeight (e_mem env tip)"
  shows "\<exists>wz s'. CalculateWindowSize env 120 s = Inr (wz, s') \<and> - 1 \<le> wz \<and> wz \<le> 2
    \<and> (1 \<le> wz \<longrightarrow> 7 \<le> card (miners env 120) \<and> card (miners env 120) < 60) \<and> (2 \<le> wz \<longrightarrow> card (miners env 120) < 15)"
proof -
  let ?h = "nHeight (e_mem env tip)"
  define cn where "cn = int (card (miners env 120))"
  have g: "GetNodeFactor env 120 s = (cn, s\<lparr>BW_CUR_NF := cn\<rparr>)" by (simp add: GetNodeFactor_miners [OF assms(2)] cn_def)
  obtain t u where t: "ancestor_time env tip (?h - 120) = Inr t" "ancestor_time env tip (?h - 60) = Inr u"
    using ancestor_time_ok [OF assms(3,4), of 120] ancestor_time_ok [OF assms(3,4), of 60] assms(5) by auto
  define nf where "nf = (if cn < 7 \<or> cn > 60 then 60 else cn)"
  have nf: "7 \<le> nf" "nf \<le> 60" "nf \<noteq> 60 \<longrightarrow> nf = cn" by (auto simp: nf_def)
  then have q: "div_cpp 120 nf = Inr (120 div nf)" by (intro div_cpp_pos) simp_all
  let ?b = "drop_bit 1 (floor_rate (nat (120 div nf)))"
  obtain wz where wz: "choose_window 120 nf ?b (to_int32 (GetBlockTime (e_mem env tip) - t)) (Inr (to_int32 (GetBlockTime (e_mem env tip) - u)))
      (to_int32 (120 * Interval (e_ps env))) = Inr wz"
    using choose_window_total by blast
  have "0 \<le> ?b" by (simp add: floor_rate_def)
  then have w: "wz \<le> 2" "nf = 60 \<longrightarrow> wz \<le> 0" "0 \<le> wz" "nf \<ge> 15 \<longrightarrow> wz \<le> 1" using choose_window_bounds [OF wz] by auto
  have d: "drop_bit 4 (120 :: int) = 7" "drop_bit 1 (120 :: int) = 60" "120 sdiv 2 = (60 :: int)" by (simp_all add: drop_bit_eq_div)
  have "CalculateWindowSize env 120 s = Inr (- 1, s\<lparr>BW_CUR_NF := cn\<rparr>)
    \<or> (\<exists>s'. CalculateWindowSize env 120 s = Inr (wz, s'))"
    using assms(1,2,5,6) t q unfolding CalculateWindowSize_def
    by (simp only: d g nf_def [symmetric] Let_def case_prod_conv option.case bind_cpp_simps assert_cpp_simps if_True if_False map_sum.simps wz) simp
  then show ?thesis
  proof
    assume "\<exists>s'. CalculateWindowSize env 120 s = Inr (wz, s')"
    then show ?thesis using w nf by (auto simp: cn_def)
  qed auto
qed

text \<open>
  C7. The rule of ePoW: with a window of size \<open>wz\<close> a miner's block passes \<open>CheckBlockWindow\<close> exactly when the
  miner has mined none of the last \<open>wz\<close> blocks of the active chain.
\<close>

theorem CheckBlockWindow_rule:
  assumes "window_size env s = Inr (wz, s')" "wz \<le> 700"
  shows "CheckBlockWindow env a s = Inr (a \<notin> miners env (nat wz), s')"
  using GetMiningDepth_outside [of wz env a] assms by (auto simp: CheckBlockWindow_def Let_def)

text \<open>
  C8. The window never shuts everybody out: if it is computed afresh and the last 480 blocks have a known
  miner, at least one of their miners passes \<open>CheckBlockWindow\<close>, and no fault occurs. In the second version of
  the rule the chain must be as long as \<open>CalculateWindowSize\<close> looks back.
\<close>

theorem miner_may_continue:
  assumes "BLOCKWINDOW_TOUCHED s" "Tip (e_chain env) = Some tip" "index_wf (e_mem env) D" "tip \<in> D"
    and "IsEnabledEpowV2 (e_ps env) (nHeight (e_mem env tip)) \<Longrightarrow>
      120 \<le> nHeight (e_mem env tip) \<and> Interval (e_ps env) sdiv 4 \<le> nHeight (e_mem env tip)"
    and "miners env 480 \<noteq> {}"
  shows "\<exists>a \<in> miners env 480. \<exists>s'. CheckBlockWindow env a s = Inr (True, s')"
proof -
  obtain wz s' n where w: "window_size env s = Inr (wz, s')" "wz \<le> 700" "n \<le> 480" "wz \<le> 0 \<or> wz < int (card (miners env n))"
  proof (cases "IsEnabledEpowV2 (e_ps env) (nHeight (e_mem env tip))")
    case True
    then show ?thesis using CalculateWindowSize_ok [OF assms(1-4)] assms(2,5) that [of _ _ 120] by (force simp: window_size_def)
  next
    case False
    obtain wz s' where g: "GetBlockWindowSize env s = (wz, s')" by fastforce
    then have "wz < int (card (miners env 480))"
      using assms(1,2) False by (auto simp: GetBlockWindowSize_def GetNodeFactor_miners clamp_window_def Let_def)
    then show ?thesis using that [of wz s' 480] g assms(2) False card_miners [of env 480] by (simp add: window_size_def)
  qed
  note rule = GetMiningDepth_outside [of wz env, OF w(2)]
  have sub: "miners env m \<subseteq> miners env 480" if "m \<le> 480" for m
    using take_recent [OF that, of "e_mem env" "Tip (e_chain env)", symmetric] by (auto simp: miners_def dest: in_set_takeD)
  have "\<exists>a \<in> miners env 480. a \<notin> miners env (nat wz)"
  proof (cases "wz \<le> 0")
    case True
    then show ?thesis using assms(6) by (auto simp: miners_def)
  next
    case False
    then have "wz < int (card (miners env n))" "miners env n \<noteq> {}" using w(4) by auto
    then show ?thesis using miner_outside [of wz env n] sub [OF w(3)] by blast
  qed
  then show ?thesis using w(1) rule by (auto simp: CheckBlockWindow_def Let_def)
qed

text \<open>
  C9. The size of the window when it is computed afresh: it is below the node factor, the number of miners
  of the last 480 blocks; in the second version it is 1 from three miners on, and beyond the block number at
  which the window is largest it is seven tenths of the node factor, rounded down, in spite of the
  single-precision product.
\<close>

theorem GetBlockWindowSize_value:
  assumes "BLOCKWINDOW_TOUCHED s" "Tip (e_chain env) = Some tip"
  defines "wz \<equiv> fst (GetBlockWindowSize env s)" and "nf \<equiv> int (card (miners env 480))" and "h \<equiv> nHeight (e_mem env tip)"
  shows "- 1 \<le> wz \<and> wz < max nf 1
    \<and> (IsEnabledEpowV2 (e_ps env) h \<longrightarrow> wz = (if nf = 0 then - 1 else if nf \<ge> 3 then 1 else 0))
    \<and> (\<not> IsEnabledEpowV2 (e_ps env) h \<and> h > 1752000 \<longrightarrow> wz = (if nf = 0 then - 1 else 7 * nf div 10))"
proof -
  have w: "wz = clamp_window (if IsEnabledEpowV2 (e_ps env) h then if floor_rate (nat nf) > 1 then 1 else 0 else window_of h nf) nf"
    using assms(1,2) by (simp add: wz_def GetBlockWindowSize_def GetNodeFactor_miners Let_def nf_def h_def)
  have nf: "0 \<le> nf" "nf \<le> 480" using card_miners [of env 480] by (simp_all add: nf_def)
  then have "nat nf < 2 ^ 20" by simp
  then have r: "floor_rate (nat nf) = 7 * nf div 10" using floor_rate_exact [of "nat nf"] nf(1) by simp
  have "0 \<le> window_of h nf" by (simp add: window_of_def floor_rate_def floor_window_def)
  moreover have "nf \<noteq> 0 \<Longrightarrow> 7 * nf div 10 < nf" using nf(1) by linarith
  ultimately show ?thesis unfolding w r window_of_def clamp_window_def using nf by (auto simp: r)
qed

section \<open>Example\<close>

definition example_epow :: epow_env where
  "example_epow = \<lparr>e_mem = example_chain, e_chain = [Some 0, Some 1, Some 2],
     e_ps = \<lparr>ProofOfWorkLimit = bn_zero 8, AllowMinDifficultyBlocks = False, SkipProofOfWorkCheck = True, TargetTimespan = 86400,
       TargetSpacing = 180, StartHeightDiffAlg = 112400, StartHeightEpowV2 = 112400, StartHeightChBlockSigner = 138700,
       StartHeightBlockRewardAdj = 150000, StartHeightNewHashAlog = 151880, StartHeightBlockRewardAdj2nd = 183400\<rparr>,
     ReadBlockFromDisk = (\<lambda>p. Some (CBlock_of [] (header_SetNull\<lparr>h_nNonce := of_nat p\<rparr>))),
     GetBlockMinerAddress = (\<lambda>b. replicate 32 (if h_nNonce b = 1 then CHR ''a'' else CHR ''b'')),
     MCP_TARGET_BLOCK_TIME = 180, e_now = 1000, IsInitialBlockDownload = False\<rparr>"

lemma example_epow_simps:
  "Tip (e_chain example_epow) = Some 2" "e_mem example_epow = example_chain" "nHeight (example_chain 2) = 2"
  "\<not> IsEnabledEpowV2 (e_ps example_epow) 2"
  "miner_of example_epow 2 = Some (replicate 32 CHR ''b'')" "miner_of example_epow 1 = Some (replicate 32 CHR ''a'')"
  "miner_of example_epow (Suc 0) = Some (replicate 32 CHR ''a'')"
  by (simp_all add: example_epow_def Tip_def miner_of_def CBlock_of_def CBlockHeader.extend_def IsEnabledEpowV2_def example_chain_def SetNull_def)

lemma example_pprev: "pprev (example_chain 2) = Some 1" "pprev (example_chain (Suc 0)) = Some 0" "pprev (example_chain 0) = None"
  by (simp_all add: example_chain_def SetNull_def)

lemma example_recent: "recent example_chain 480 (Some 2) = [2, 1]"
proof -
  have "(480 :: nat) = Suc (Suc (Suc 477))" by simp
  then show ?thesis by (simp only: recent.simps option.case) (simp add: example_pprev)
qed

theorem CheckBlockWindow_rule_witness:
  "CheckBlockWindow example_epow (replicate 32 CHR ''b'') \<lparr>BLOCKWINDOW_TOUCHED = False, BLOCKWINDOW_LAST_SZ = 1, BW_CUR_WZ = 1, BW_CUR_NF = 2, BW_CUR_BH = 2\<rparr>
   = Inr (False, \<lparr>BLOCKWINDOW_TOUCHED = False, BLOCKWINDOW_LAST_SZ = 1, BW_CUR_WZ = 1, BW_CUR_NF = 2, BW_CUR_BH = 2\<rparr>)"
  using CheckBlockWindow_rule [of example_epow "\<lparr>BLOCKWINDOW_TOUCHED = False, BLOCKWINDOW_LAST_SZ = 1, BW_CUR_WZ = 1, BW_CUR_NF = 2, BW_CUR_BH = 2\<rparr>" 1 _
      "replicate 32 CHR ''b''"]
  by (simp add: window_size_def example_epow_simps GetBlockWindowSize_def miners_def example_pprev)

theorem miner_may_continue_witness:
  "\<exists>a \<in> miners example_epow 480. \<exists>s'. CheckBlockWindow example_epow a
     \<lparr>BLOCKWINDOW_TOUCHED = True, BLOCKWINDOW_LAST_SZ = 0, BW_CUR_WZ = 0, BW_CUR_NF = 0, BW_CUR_BH = 0\<rparr> = Inr (True, s')"
  by (rule miner_may_continue [of _ _ 2 "{0, 1, 2, 3}"])
    (use example_chain_wf in \<open>simp_all add: example_epow_simps\<close>, auto simp: miners_def example_epow_simps example_recent)

theorem GetBlockWindowSize_value_witness:
  "fst (GetBlockWindowSize example_epow
     \<lparr>BLOCKWINDOW_TOUCHED = True, BLOCKWINDOW_LAST_SZ = 0, BW_CUR_WZ = 0, BW_CUR_NF = 0, BW_CUR_BH = 0\<rparr>) < 2"
proof -
  have "card (miners example_epow 480) \<le> 2"
  proof -
    have "miners example_epow 480 \<subseteq> {replicate 32 CHR ''a'', replicate 32 CHR ''b''}"
      by (auto simp: miners_def example_epow_simps example_recent)
    then have "card (miners example_epow 480) \<le> card {replicate 32 CHR ''a'', replicate 32 CHR ''b''}" by (rule card_mono [rotated]) simp
    also have "\<dots> \<le> 2" by (simp add: card_insert_if)
    finally show ?thesis .
  qed
  then show ?thesis
    using GetBlockWindowSize_value [of "\<lparr>BLOCKWINDOW_TOUCHED = True, BLOCKWINDOW_LAST_SZ = 0, BW_CUR_WZ = 0, BW_CUR_NF = 0, BW_CUR_BH = 0\<rparr>" example_epow 2]
    by (auto simp: example_epow_simps max_def split: if_splits)
qed

end
