(* ===== verification/StreamHash.thy ===== *)
theory StreamHash
  imports Hdac_Prelude
begin

text \<open>
  The hasher classes of \<^verbatim>\<open>crypto/\<close> consume their input in pieces: \<open>Write\<close> fills a buffer of one block,
  processes it when it is full and processes whole blocks directly from the source. The four classes
  have the same code for this up to the size of a block and the transformation, which are arguments
  here. The main result is that only the concatenation of what is written matters.
\<close>

unbundle bit_operations_syntax

record 's hasher =
  h_s :: 's
  h_buf :: bytes
  h_bytes :: u64

text \<open>\<open>memcpy\<close> into the buffer.\<close>

definition put_bytes :: "bytes \<Rightarrow> nat \<Rightarrow> bytes \<Rightarrow> bytes" where
  "put_bytes buf pos data = take pos buf @ data @ drop (pos + length data) buf"

function chunk_loop :: "nat \<Rightarrow> ('s \<Rightarrow> bytes \<Rightarrow> 's) \<Rightarrow> 's \<Rightarrow> u64 \<Rightarrow> bytes \<Rightarrow> 's \<times> u64 \<times> bytes" where
  "chunk_loop B T s n data =
     (if B > 0 \<and> length data \<ge> B then chunk_loop B T (T s (take B data)) (n + of_nat B) (drop B data) else (s, n, data))"
  by pat_completeness auto
termination by (relation "measure (\<lambda>(B, T, s, n, data). length data)") auto

declare chunk_loop.simps [simp del]

definition hasher_write :: "nat \<Rightarrow> ('s \<Rightarrow> bytes \<Rightarrow> 's) \<Rightarrow> bytes \<Rightarrow> 's hasher \<Rightarrow> 's hasher" where
  "hasher_write B T data h =
     (let bufsize = unat (h_bytes h mod of_nat B);
          (h, data, bufsize) =
            (if bufsize \<noteq> 0 \<and> bufsize + length data \<ge> B then
               (let buf = put_bytes (h_buf h) bufsize (take (B - bufsize) data)
                in (h\<lparr>h_buf := buf, h_bytes := h_bytes h + of_nat (B - bufsize), h_s := T (h_s h) buf\<rparr>, drop (B - bufsize) data, 0))
             else (h, data, bufsize));
          (s, n, data) = chunk_loop B T (h_s h) (h_bytes h) data;
          h = h\<lparr>h_s := s, h_bytes := n\<rparr>
      in if data \<noteq> [] then h\<lparr>h_buf := put_bytes (h_buf h) bufsize data, h_bytes := h_bytes h + of_nat (length data)\<rparr> else h)"

section \<open>What a hasher has read\<close>

text \<open>Processing the whole blocks of a message, and what is left of it.\<close>

fun absorb :: "nat \<Rightarrow> ('s \<Rightarrow> bytes \<Rightarrow> 's) \<Rightarrow> nat \<Rightarrow> 's \<Rightarrow> bytes \<Rightarrow> 's" where
  "absorb B T 0 s m = s"
| "absorb B T (Suc n) s m = absorb B T n (T s (take B m)) (drop B m)"

definition blocks :: "nat \<Rightarrow> bytes \<Rightarrow> nat" where
  "blocks B m = length m div B"

definition rest_of :: "nat \<Rightarrow> bytes \<Rightarrow> bytes" where
  "rest_of B m = drop (blocks B m * B) m"

definition has_read :: "nat \<Rightarrow> ('s \<Rightarrow> bytes \<Rightarrow> 's) \<Rightarrow> 's \<Rightarrow> bytes \<Rightarrow> 's hasher \<Rightarrow> bool" where
  "has_read B T s0 m h \<longleftrightarrow> h_s h = absorb B T (blocks B m) s0 m \<and> length (h_buf h) = B
     \<and> take (length m mod B) (h_buf h) = rest_of B m \<and> h_bytes h = of_nat (length m)"

lemma absorb_append: "n * B \<le> length m \<Longrightarrow> absorb B T n s (m @ d) = absorb B T n s m"
  by (induction B T n s m rule: absorb.induct) simp_all

lemma absorb_add: "absorb B T (i + k) s m = absorb B T k (absorb B T i s m) (drop (i * B) m)"
  by (induction B T i s m rule: absorb.induct) (simp_all add: add.commute)

lemma length_rest_of: "length (rest_of B m) = length m mod B"
  by (simp add: rest_of_def blocks_def minus_div_mult_eq_mod)

lemma rest_of_Suc: "blocks B m = Suc (blocks B (drop B m)) \<Longrightarrow> rest_of B m = rest_of B (drop B m)"
  by (simp add: rest_of_def add.commute)

lemma chunk_loop_absorb:
  "chunk_loop B T s n data = (absorb B T (blocks B data) s data, n + of_nat (blocks B data * B), rest_of B data)"
proof (induction B T s n data rule: chunk_loop.induct)
  case (1 B T s n data)
  show ?case
  proof (cases "B > 0 \<and> length data \<ge> B")
    case True
    then have b: "blocks B data = Suc (blocks B (drop B data))" by (simp add: blocks_def le_div_geq)
    moreover have "rest_of B (drop B data) = rest_of B data" using rest_of_Suc [OF b] by simp
    ultimately show ?thesis using 1 [OF True] True by (subst chunk_loop.simps) (simp add: add.assoc)
  next
    case False
    then have "blocks B data = 0" by (auto simp: blocks_def)
    then show ?thesis using False by (subst chunk_loop.simps) (auto simp: rest_of_def)
  qed
qed

lemma blocks_append:
  assumes "0 < B"
  shows "blocks B (m @ d) = blocks B m + blocks B (rest_of B m @ d)" "rest_of B (m @ d) = rest_of B (rest_of B m @ d)"
proof -
  have "length m + length d = blocks B m * B + (length (rest_of B m) + length d)" by (simp add: length_rest_of blocks_def)
  then show e: "blocks B (m @ d) = blocks B m + blocks B (rest_of B m @ d)"
    using assms unfolding blocks_def [of B "m @ d"] blocks_def [of B "rest_of B m @ d"] length_append by (simp only: div_mult_self3 neq0_conv)
  have "blocks B m * B \<le> length m" by (simp add: blocks_def)
  then show "rest_of B (m @ d) = rest_of B (rest_of B m @ d)"
    by (simp add: rest_of_def e distrib_right drop_drop [symmetric] del: drop_drop)
      (simp add: add.commute drop_drop)
qed

lemma absorb_blocks_append:
  assumes "0 < B"
  shows "absorb B T (blocks B (m @ d)) s (m @ d) = absorb B T (blocks B (rest_of B m @ d)) (absorb B T (blocks B m) s m) (rest_of B m @ d)"
proof -
  have l: "blocks B m * B \<le> length m" by (simp add: blocks_def)
  then have "drop (blocks B m * B) (m @ d) = rest_of B m @ d" by (simp add: rest_of_def)
  then show ?thesis by (subst blocks_append(1) [OF assms]) (simp only: absorb_add absorb_append [OF l])
qed

lemma bufsize_of:
  assumes "0 < B" "B dvd 2 ^ 64" "B < 2 ^ 64"
  shows "unat (of_nat n mod of_nat B :: u64) = n mod B"
proof -
  have "unat (of_nat B :: u64) = B" using assms(3) by (simp add: unat_of_nat)
  moreover have "unat (of_nat n :: u64) = n mod 2 ^ 64" by (simp add: unat_of_nat)
  ultimately show ?thesis using assms(2) by (simp add: unat_mod mod_mod_cancel)
qed

lemma take_put_bytes: "pos \<le> length buf \<Longrightarrow> take (pos + length data) (put_bytes buf pos data) = take pos buf @ data"
  by (simp add: put_bytes_def)

lemma length_put_bytes: "pos + length data \<le> length buf \<Longrightarrow> length (put_bytes buf pos data) = length buf"
  by (simp add: put_bytes_def)

lemma hasher_write_read:
  assumes h: "has_read B T s0 m h" and B: "0 < B" "B dvd 2 ^ 64" "B < 2 ^ 64"
  shows "has_read B T s0 (m @ d) (hasher_write B T d h)"
proof -
  let ?r = "length m mod B" and ?t = "rest_of B m"
  have r: "?r < B" "length ?t = ?r" using B(1) by (simp_all add: length_rest_of)
  have hs: "h_s h = absorb B T (blocks B m) s0 m" "length (h_buf h) = B" "take ?r (h_buf h) = ?t" "h_bytes h = of_nat (length m)"
    using h by (simp_all add: has_read_def)
  have b: "unat (h_bytes h mod of_nat B) = ?r" unfolding hs(4) by (rule bufsize_of [OF B])
  note ab = absorb_blocks_append [OF B(1), of T m d s0] blocks_append [OF B(1), of m d]
  have len: "(length m + length d) mod B = (?r + length d) mod B" by (simp add: mod_add_left_eq)
  show ?thesis
  proof (cases "?r \<noteq> 0 \<and> ?r + length d \<ge> B")
    case True
    let ?d = "drop (B - ?r) d" and ?buf = "put_bytes (h_buf h) ?r (take (B - ?r) d)"
    have td: "take B (?t @ d) = ?t @ take (B - ?r) d" "drop B (?t @ d) = ?d" using r by simp_all
    have lt: "length (take (B - ?r) d) = B - ?r" using True by (simp only: length_take) linarith
    have buf: "?buf = take B (?t @ d)" using r(1) hs(2,3) unfolding put_bytes_def lt td by simp
    have k: "blocks B (?t @ d) = Suc (blocks B ?d)" 
    proof -
      have "length ?d = ?r + length d - B" using True r(1) by (simp only: length_drop)
      then show ?thesis unfolding blocks_def length_append r(2) using True B(1) by (simp only: le_div_geq)
    qed
    have rd: "rest_of B (?t @ d) = rest_of B ?d" using rest_of_Suc [of B "?t @ d"] k by (simp only: td(2))
    have s: "absorb B T (blocks B (m @ d)) s0 (m @ d) = absorb B T (blocks B ?d) (T (h_s h) ?buf) ?d"
      unfolding ab(1) k buf hs(1) by (simp only: absorb.simps td(2))
    have n: "h_bytes h + of_nat (B - ?r) + of_nat (blocks B ?d * B) + of_nat (length (rest_of B ?d)) = (of_nat (length (m @ d)) :: u64)"
    proof -
      have "length (m @ d) = length m + (B - ?r) + blocks B ?d * B + length (rest_of B ?d)"
      proof -
        have "length ?d = blocks B ?d * B + length (rest_of B ?d)" by (simp only: length_rest_of blocks_def div_mult_mod_eq)
        moreover have "length d = (B - ?r) + length ?d" using True by (simp only: length_drop) linarith
        ultimately show ?thesis by (metis add.assoc length_append)
      qed
      then show ?thesis by (simp only: hs(4) of_nat_add)
    qed
    have lb: "length ?buf = B" using r(1) hs(2) lt by (intro trans [OF length_put_bytes hs(2)]) simp
    have lr: "length (rest_of B ?d) = (length m + length d) mod B" using rd ab(3) length_rest_of [of B "m @ d"] by simp
    then have "length (rest_of B ?d) \<le> B" using B(1) by (simp add: less_imp_le)
    then show ?thesis
      using True b s n lb lr rd ab(3) take_put_bytes [of 0 ?buf "rest_of B ?d"]
      by (cases "rest_of B ?d = []")
        (simp_all add: hasher_write_def Let_def chunk_loop_absorb has_read_def length_put_bytes)
  next
    case False
    have kd: "blocks B (?t @ d) = blocks B d \<and> rest_of B (?t @ d) = ?t @ rest_of B d
        \<and> absorb B T (blocks B (?t @ d)) s (?t @ d) = absorb B T (blocks B d) s d" for s
    proof (cases "?r = 0")
      case True
      then have "?t = []" using r(2) by simp
      then show ?thesis by simp
    next
      case nz: False
      then have "?r + length d < B" using False by simp
      then have "blocks B (?t @ d) = 0" "blocks B d = 0" using r(2) by (simp_all add: blocks_def)
      then show ?thesis by (simp add: rest_of_def)
    qed
    have n: "h_bytes h + of_nat (blocks B d * B) + of_nat (length (rest_of B d)) = (of_nat (length (m @ d)) :: u64)"
    proof -
      have "length (m @ d) = length m + blocks B d * B + length (rest_of B d)" by (simp add: length_rest_of blocks_def)
      then show ?thesis by (simp only: hs(4) of_nat_add)
    qed
    have lr: "?r + length (rest_of B d) = (length m + length d) mod B"
      using kd ab(3) length_rest_of [of B "m @ d"] r(2) by simp
    then have le: "?r + length (rest_of B d) \<le> B" using B(1) by (simp add: less_imp_le)
    have s: "absorb B T (blocks B (m @ d)) s0 (m @ d) = absorb B T (blocks B d) (h_s h) d"
      unfolding ab(1) hs(1) using kd by blast
    have rd: "rest_of B (m @ d) = ?t @ rest_of B d" unfolding ab(3) using kd by blast
    have w: "hasher_write B T d h =
        (let h = h\<lparr>h_s := absorb B T (blocks B d) (h_s h) d, h_bytes := h_bytes h + of_nat (blocks B d * B)\<rparr>
         in if rest_of B d \<noteq> [] then h\<lparr>h_buf := put_bytes (h_buf h) ?r (rest_of B d), h_bytes := h_bytes h + of_nat (length (rest_of B d))\<rparr> else h)"
      unfolding hasher_write_def Let_def b if_not_P [OF False] prod.case chunk_loop_absorb ..
    show ?thesis
    proof (cases "rest_of B d = []")
      case True
      then show ?thesis using w s n lr rd hs(2,3) by (simp add: has_read_def)
    next
      case nd: False
      then show ?thesis using w s n lr rd hs(2,3) le take_put_bytes [of ?r "h_buf h" "rest_of B d"] r(1)
        by (simp add: has_read_def length_put_bytes)
    qed
  qed
qed

text \<open>A hasher that has not read anything.\<close>

lemma has_read_empty: "length buf = B \<Longrightarrow> has_read B T s0 [] \<lparr>h_s = s0, h_buf = buf, h_bytes = 0\<rparr>"
  by (simp add: has_read_def blocks_def rest_of_def)

lemma fold_write_read:
  assumes "has_read B T s0 m h" "0 < B" "B dvd 2 ^ 64" "B < 2 ^ 64"
  shows "has_read B T s0 (m @ concat ds) (fold (hasher_write B T) ds h)"
  using assms(1)
proof (induction ds arbitrary: m h)
  case (Cons d ds)
  then show ?case using Cons.IH [OF hasher_write_read [OF Cons.prems assms(2-4)]] by simp
qed simp

end
