(* ===== verification/Sha256.thy ===== *)
theory Sha256
  imports StreamHash
begin

text \<open>
  \<^verbatim>\<open>crypto/sha256.cpp\<close>: the hasher class \<open>CSHA256\<close>, and the double hash \<open>CHash256\<close> of
  \<^verbatim>\<open>structs/hash.h\<close>. The transformation works on eight variables whose roles rotate from round to
  round and on sixteen message words that are extended in place; it is proved equal to the
  compression function of FIPS 180-4 (shifting registers, a schedule of 64 words), and a hasher that
  is given a message in any pieces ends with the standard's hash of the whole message.
\<close>

unbundle bit_operations_syntax

section \<open>The code\<close>

definition Ch :: "u32 \<Rightarrow> u32 \<Rightarrow> u32 \<Rightarrow> u32" where
  "Ch x y z = z XOR (x AND (y XOR z))"

definition Maj :: "u32 \<Rightarrow> u32 \<Rightarrow> u32 \<Rightarrow> u32" where
  "Maj x y z = (x AND y) OR (z AND (x OR y))"

definition Sigma0 :: "u32 \<Rightarrow> u32" where
  "Sigma0 x = (drop_bit 2 x OR push_bit 30 x) XOR (drop_bit 13 x OR push_bit 19 x) XOR (drop_bit 22 x OR push_bit 10 x)"

definition Sigma1 :: "u32 \<Rightarrow> u32" where
  "Sigma1 x = (drop_bit 6 x OR push_bit 26 x) XOR (drop_bit 11 x OR push_bit 21 x) XOR (drop_bit 25 x OR push_bit 7 x)"

definition sigma0 :: "u32 \<Rightarrow> u32" where
  "sigma0 x = (drop_bit 7 x OR push_bit 25 x) XOR (drop_bit 18 x OR push_bit 14 x) XOR drop_bit 3 x"

definition sigma1 :: "u32 \<Rightarrow> u32" where
  "sigma1 x = (drop_bit 17 x OR push_bit 15 x) XOR (drop_bit 19 x OR push_bit 13 x) XOR drop_bit 10 x"

text \<open>
  The variables \<open>a\<close> to \<open>h\<close> are a list of eight words. Round \<open>i\<close> is called with the variables rotated
  \<open>i\<close> times: its parameter number \<open>j\<close> is variable \<open>(j - i) mod 8\<close>. It assigns its parameters \<open>d\<close>
  and \<open>h\<close>.
\<close>

definition var :: "nat \<Rightarrow> nat \<Rightarrow> nat" where
  "var i j = (j + 64 - i) mod 8"

definition Round :: "nat \<Rightarrow> u32 list \<Rightarrow> u32 \<Rightarrow> u32 \<Rightarrow> u32 list" where
  "Round i v k w =
     (let a = v ! var i 0; b = v ! var i 1; c = v ! var i 2; d = v ! var i 3;
          e = v ! var i 4; f = v ! var i 5; g = v ! var i 6; h = v ! var i 7;
          t1 = h + Sigma1 e + Ch e f g + k + w;
          t2 = Sigma0 a + Maj a b c
      in v[var i 3 := d + t1, var i 7 := t1 + t2])"

definition Initialize :: "u32 list" where
  "Initialize = [0x6a09e667, 0xbb67ae85, 0x3c6ef372, 0xa54ff53a, 0x510e527f, 0x9b05688c, 0x1f83d9ab, 0x5be0cd19]"

text \<open>The last two arguments of the calls of \<open>Round\<close>, in their order: the constant and the number of the message word.\<close>

definition round_calls :: "(u32 \<times> nat) list" where
  "round_calls =
     [(0x428a2f98, 0), (0x71374491, 1), (0xb5c0fbcf, 2), (0xe9b5dba5, 3),
      (0x3956c25b, 4), (0x59f111f1, 5), (0x923f82a4, 6), (0xab1c5ed5, 7),
      (0xd807aa98, 8), (0x12835b01, 9), (0x243185be, 10), (0x550c7dc3, 11),
      (0x72be5d74, 12), (0x80deb1fe, 13), (0x9bdc06a7, 14), (0xc19bf174, 15),
      (0xe49b69c1, 0), (0xefbe4786, 1), (0x0fc19dc6, 2), (0x240ca1cc, 3),
      (0x2de92c6f, 4), (0x4a7484aa, 5), (0x5cb0a9dc, 6), (0x76f988da, 7),
      (0x983e5152, 8), (0xa831c66d, 9), (0xb00327c8, 10), (0xbf597fc7, 11),
      (0xc6e00bf3, 12), (0xd5a79147, 13), (0x06ca6351, 14), (0x14292967, 15),
      (0x27b70a85, 0), (0x2e1b2138, 1), (0x4d2c6dfc, 2), (0x53380d13, 3),
      (0x650a7354, 4), (0x766a0abb, 5), (0x81c2c92e, 6), (0x92722c85, 7),
      (0xa2bfe8a1, 8), (0xa81a664b, 9), (0xc24b8b70, 10), (0xc76c51a3, 11),
      (0xd192e819, 12), (0xd6990624, 13), (0xf40e3585, 14), (0x106aa070, 15),
      (0x19a4c116, 0), (0x1e376c08, 1), (0x2748774c, 2), (0x34b0bcb5, 3),
      (0x391c0cb3, 4), (0x4ed8aa4a, 5), (0x5b9cca4f, 6), (0x682e6ff3, 7),
      (0x748f82ee, 8), (0x78a5636f, 9), (0x84c87814, 10), (0x8cc70208, 11),
      (0x90befffa, 12), (0xa4506ceb, 13), (0xbef9a3f7, 14), (0xc67178f2, 15)]"

definition round_constants :: "u32 list" where
  "round_constants = map fst round_calls"

definition ReadBE32 :: "bytes \<Rightarrow> nat \<Rightarrow> u32" where
  "ReadBE32 p i = push_bit 24 (ucast (p ! i)) OR push_bit 16 (ucast (p ! (i + 1))) OR push_bit 8 (ucast (p ! (i + 2))) OR ucast (p ! (i + 3))"

text \<open>
  The variables \<open>w0\<close> to \<open>w15\<close> before round \<open>i\<close> uses one of them: the first sixteen rounds read the
  chunk, the later ones add to the variable that is used (the last two rounds compute the sum without
  storing it, which nothing can tell from storing it: the variables are not read again).
\<close>

definition next_words :: "bytes \<Rightarrow> nat \<Rightarrow> u32 list \<Rightarrow> u32 list" where
  "next_words chunk i ws =
     (if i < 16 then ws[i := ReadBE32 chunk (4 * i)]
      else ws[i mod 16 := ws ! (i mod 16) + (sigma1 (ws ! ((i + 14) mod 16)) + ws ! ((i + 9) mod 16) + sigma0 (ws ! ((i + 1) mod 16)))])"

definition round_step :: "bytes \<Rightarrow> nat \<Rightarrow> u32 list \<times> u32 list \<Rightarrow> u32 list \<times> u32 list" where
  "round_step chunk i vw =
     (let (v, ws) = vw; ws = next_words chunk i ws; (k, j) = round_calls ! i in (Round i v k (ws ! j), ws))"

definition Transform :: "u32 list \<Rightarrow> bytes \<Rightarrow> u32 list" where
  "Transform s chunk = map2 (+) s (fst (fold (round_step chunk) [0..<64] (s, replicate 16 0)))"

type_synonym sha256 = "u32 list hasher"

definition WriteBE32 :: "u32 \<Rightarrow> bytes" where
  "WriteBE32 x = [ucast (drop_bit 24 x), ucast (drop_bit 16 x), ucast (drop_bit 8 x), ucast x]"

definition WriteBE64 :: "u64 \<Rightarrow> bytes" where
  "WriteBE64 x = [ucast (drop_bit 56 x), ucast (drop_bit 48 x), ucast (drop_bit 40 x), ucast (drop_bit 32 x),
     ucast (drop_bit 24 x), ucast (drop_bit 16 x), ucast (drop_bit 8 x), ucast x]"

text \<open>The buffer of a new hasher is not initialised: it is an argument.\<close>

definition CSHA256 :: "bytes \<Rightarrow> sha256" where
  "CSHA256 buf = \<lparr>h_s = Initialize, h_buf = buf, h_bytes = 0\<rparr>"

definition sha_Write :: "bytes \<Rightarrow> sha256 \<Rightarrow> sha256" where
  "sha_Write = hasher_write 64 Transform"

definition sha_pad :: bytes where
  "sha_pad = 0x80 # replicate 63 0"

definition sha_Finalize :: "sha256 \<Rightarrow> bytes \<times> sha256" where
  "sha_Finalize h =
     (let sizedesc = WriteBE64 (push_bit 3 (h_bytes h));
          h = sha_Write (take (unat (1 + ((119 - (h_bytes h mod 64)) mod 64))) sha_pad) h;
          h = sha_Write sizedesc h
      in (concat (map WriteBE32 (h_s h)), h))"

definition sha_Reset :: "sha256 \<Rightarrow> sha256" where
  "sha_Reset h = h\<lparr>h_bytes := 0, h_s := Initialize\<rparr>"

text \<open>\<open>CHash256\<close>: its \<open>Write\<close> and \<open>Reset\<close> are those of the hasher it holds.\<close>

definition hash256_Finalize :: "sha256 \<Rightarrow> bytes \<times> sha256" where
  "hash256_Finalize h = (let (buf, h) = sha_Finalize h in sha_Finalize (sha_Write buf (sha_Reset h)))"

section \<open>The standard\<close>

definition fips_Ch :: "u32 \<Rightarrow> u32 \<Rightarrow> u32 \<Rightarrow> u32" where
  "fips_Ch x y z = (x AND y) XOR (NOT x AND z)"

definition fips_Maj :: "u32 \<Rightarrow> u32 \<Rightarrow> u32 \<Rightarrow> u32" where
  "fips_Maj x y z = (x AND y) XOR (x AND z) XOR (y AND z)"

definition fips_Sigma0 :: "u32 \<Rightarrow> u32" where
  "fips_Sigma0 x = word_rotr 2 x XOR word_rotr 13 x XOR word_rotr 22 x"

definition fips_Sigma1 :: "u32 \<Rightarrow> u32" where
  "fips_Sigma1 x = word_rotr 6 x XOR word_rotr 11 x XOR word_rotr 25 x"

definition fips_sigma0 :: "u32 \<Rightarrow> u32" where
  "fips_sigma0 x = word_rotr 7 x XOR word_rotr 18 x XOR drop_bit 3 x"

definition fips_sigma1 :: "u32 \<Rightarrow> u32" where
  "fips_sigma1 x = word_rotr 17 x XOR word_rotr 19 x XOR drop_bit 10 x"

text \<open>The message schedule (6.2.2, step 1).\<close>

fun schedule :: "bytes \<Rightarrow> nat \<Rightarrow> u32" where
  "schedule m t =
     (if t < 16 then word_of_int (256 * (256 * (256 * uint (m ! (4 * t)) + uint (m ! (4 * t + 1))) + uint (m ! (4 * t + 2))) + uint (m ! (4 * t + 3)))
      else fips_sigma1 (schedule m (t - 2)) + schedule m (t - 7) + fips_sigma0 (schedule m (t - 15)) + schedule m (t - 16))"

declare schedule.simps [simp del]

text \<open>One iteration of step 3 on the working variables \<open>a, \<dots>, h\<close>.\<close>

fun fips_step :: "u32 \<Rightarrow> u32 \<Rightarrow> u32 list \<Rightarrow> u32 list" where
  "fips_step k w [a, b, c, d, e, f, g, h] =
     (let T1 = h + fips_Sigma1 e + fips_Ch e f g + k + w;
          T2 = fips_Sigma0 a + fips_Maj a b c
      in [T1 + T2, a, b, c, d + T1, e, f, g])"
| "fips_step k w v = v"

fun working :: "u32 list \<Rightarrow> bytes \<Rightarrow> nat \<Rightarrow> u32 list" where
  "working s m 0 = s"
| "working s m (Suc t) = fips_step (round_constants ! t) (schedule m t) (working s m t)"

definition compress :: "u32 list \<Rightarrow> bytes \<Rightarrow> u32 list" where
  "compress s m = map2 (+) s (working s m 64)"

text \<open>
  Padding (5.1.1): a one bit, the least number of zero bits that leaves 64 bits of a block, the length
  in bits.
\<close>

definition zero_bytes :: "nat \<Rightarrow> nat" where
  "zero_bytes n = (55 + 64 - n mod 64) mod 64"

definition padded :: "bytes \<Rightarrow> bytes" where
  "padded m = m @ 0x80 # replicate (zero_bytes (length m)) 0 @ map (\<lambda>i. of_nat (8 * length m div 256 ^ (7 - i))) [0..<8]"

definition sha256 :: "bytes \<Rightarrow> bytes" where
  "sha256 m = concat (map WriteBE32 (absorb 64 compress (length (padded m) div 64) Initialize (padded m)))"

section \<open>The code follows the standard\<close>

lemma rotate_is_rotr:
  assumes "0 < n" "n < 32"
  shows "drop_bit n x OR push_bit (32 - n) x = word_rotr n (x :: u32)"
proof (rule bit_word_eqI)
  fix i assume "i < LENGTH(32)"
  then have i: "i < 32" by simp
  show "bit (drop_bit n x OR push_bit (32 - n) x) i = bit (word_rotr n x) i"
  proof (cases "i + n < 32")
    case True
    then have "(i + n) mod 32 = i + n" "\<not> 32 - n \<le> i" by simp_all
    then show ?thesis using True i assms by (simp add: bit_word_rotr_iff bit_or_iff bit_drop_bit_eq bit_push_bit_iff add.commute)
  next
    case False
    then have "(i + n) mod 32 = i + n - 32" using i assms by (simp add: mod_if)
    moreover have "\<not> bit x (n + i)" using False bit_imp_le_length [of x "n + i"] by auto
    moreover have "i - (32 - n) = i + n - 32" "32 - n \<le> i" using False assms by simp_all
    ultimately show ?thesis using i by (simp add: bit_word_rotr_iff bit_or_iff bit_drop_bit_eq bit_push_bit_iff add.commute)
  qed
qed

lemma Ch_fips: "Ch x y z = fips_Ch x y z"
  by (rule bit_word_eqI) (auto simp: Ch_def fips_Ch_def bit_simps)

lemma Maj_fips: "Maj x y z = fips_Maj x y z"
  by (rule bit_word_eqI) (auto simp: Maj_def fips_Maj_def bit_simps)

lemma sigmas_fips:
  "Sigma0 = fips_Sigma0" "Sigma1 = fips_Sigma1" "sigma0 = fips_sigma0" "sigma1 = fips_sigma1"
  using rotate_is_rotr [of 2] rotate_is_rotr [of 13] rotate_is_rotr [of 22] rotate_is_rotr [of 6] rotate_is_rotr [of 11]
    rotate_is_rotr [of 25] rotate_is_rotr [of 7] rotate_is_rotr [of 18] rotate_is_rotr [of 17] rotate_is_rotr [of 19]
  by (simp_all add: fun_eq_iff Sigma0_def Sigma1_def sigma0_def sigma1_def fips_Sigma0_def fips_Sigma1_def fips_sigma0_def fips_sigma1_def)

lemma ReadBE32_value:
  "ReadBE32 p i = word_of_int (256 * (256 * (256 * uint (p ! i) + uint (p ! (i + 1))) + uint (p ! (i + 2))) + uint (p ! (i + 3)))"
proof -
  have or_add: "push_bit n (a :: u32) OR b = push_bit n a + b" if "\<And>k. n \<le> k \<Longrightarrow> \<not> bit b k" for n a b
    using that by (intro disjunctive_add [symmetric]) (auto simp: bit_simps)
  have bits: "\<not> bit b k" if "8 \<le> k" for b :: byte and k
    using that bit_imp_le_length [of b k] by auto
  let ?b = "\<lambda>k. ucast (p ! k) :: u32"
  have 1: "push_bit 8 (?b (i + 2)) OR ?b (i + 3) = push_bit 8 (?b (i + 2)) + ?b (i + 3)"
    by (rule or_add) (auto simp: bit_simps bits)
  have 2: "push_bit 16 (?b (i + 1)) OR (push_bit 8 (?b (i + 2)) OR ?b (i + 3)) = push_bit 16 (?b (i + 1)) + (push_bit 8 (?b (i + 2)) OR ?b (i + 3))"
    by (rule or_add) (auto simp: bit_simps bits)
  have 3: "push_bit 24 (?b i) OR (push_bit 16 (?b (i + 1)) OR (push_bit 8 (?b (i + 2)) OR ?b (i + 3)))
      = push_bit 24 (?b i) + (push_bit 16 (?b (i + 1)) OR (push_bit 8 (?b (i + 2)) OR ?b (i + 3)))"
    by (rule or_add) (auto simp: bit_simps bits)
  have "ReadBE32 p i = push_bit 24 (?b i) + (push_bit 16 (?b (i + 1)) + (push_bit 8 (?b (i + 2)) + ?b (i + 3)))"
    unfolding ReadBE32_def or.assoc 3 unfolding 2 unfolding 1 ..
  also have "\<dots> = word_of_int (256 * (256 * (256 * uint (p ! i) + uint (p ! (i + 1))) + uint (p ! (i + 2))) + uint (p ! (i + 3)))"
    by (simp add: push_bit_eq_mult algebra_simps flip: unsigned_of_int)
  finally show ?thesis .
qed

text \<open>The variables seen from round \<open>i\<close>: in the order of its parameters.\<close>

definition seen :: "nat \<Rightarrow> u32 list \<Rightarrow> u32 list" where
  "seen i v = map (\<lambda>j. v ! var i j) [0, 1, 2, 3, 4, 5, 6, 7]"

lemma length_8: "length v = 8 \<longleftrightarrow> (\<exists>a b c d e f g h. v = [a, b, c, d, e, f, g, h])"
  by (auto simp: numeral_eq_Suc length_Suc_conv)

lemma var_mod:
  assumes "i < 64"
  shows "var i j = (j + 8 - i mod 8) mod 8" "var (Suc i) j = (j + 7 - i mod 8) mod 8"
proof -
  have i: "i = 8 * (i div 8) + i mod 8" "i div 8 \<le> 7" "i mod 8 < 8" using assms by simp_all
  have "j + 64 - i = (j + 8 - i mod 8) + 8 * (7 - i div 8)" "j + 64 - Suc i = (j + 7 - i mod 8) + 8 * (7 - i div 8)"
    using i by linarith+
  then show "var i j = (j + 8 - i mod 8) mod 8" "var (Suc i) j = (j + 7 - i mod 8) mod 8"
    unfolding var_def by (simp_all only: mod_mult_self2)
qed

lemma seen_Round:
  assumes "i < 64" "length v = 8"
  shows "seen (Suc i) (Round i v k w) = fips_step k w (seen i v)" "length (Round i v k w) = 8"
proof -
  obtain a b c d e f g h where v: "v = [a, b, c, d, e, f, g, h]" using assms(2) unfolding length_8 by blast
  have "i mod 8 \<in> {0, 1, 2, 3, 4, 5, 6, 7}" using mod_less_divisor [of 8 i] by (auto simp del: mod_less_divisor)
  then show "seen (Suc i) (Round i v k w) = fips_step k w (seen i v)"
    by (elim insertE emptyE) (simp_all add: v seen_def Round_def Let_def var_mod assms(1) Ch_fips Maj_fips sigmas_fips)
  show "length (Round i v k w) = 8" using assms(2) by (simp add: Round_def Let_def)
qed

text \<open>The sixteen words before round \<open>i\<close> are the last sixteen of the schedule.\<close>

definition recent :: "bytes \<Rightarrow> nat \<Rightarrow> u32 list \<Rightarrow> bool" where
  "recent m i ws \<longleftrightarrow> length ws = 16 \<and> (\<forall>t<i. i \<le> t + 16 \<longrightarrow> ws ! (t mod 16) = schedule m t)"

lemma recent_next:
  assumes r: "recent m i ws"
  shows "next_words m i ws ! (i mod 16) = schedule m i" "recent m (Suc i) (next_words m i ws)"
proof -
  have l: "length ws = 16" using r by (simp add: recent_def)
  have new: "next_words m i ws ! (i mod 16) = schedule m i"
  proof (cases "i < 16")
    case True
    then show ?thesis using l by (simp add: next_words_def schedule.simps [of m i] ReadBE32_value)
  next
    case False
    have w: "ws ! ((i + d) mod 16) = schedule m (i + d - 16)" if "d < 16" for d
    proof -
      have "i + d - 16 < i" "i \<le> (i + d - 16) + 16" using that False by simp_all
      then have "ws ! ((i + d - 16) mod 16) = schedule m (i + d - 16)" using r unfolding recent_def by blast
      moreover have "(i + d - 16) mod 16 = (i + d) mod 16" using False by (simp add: le_mod_geq)
      ultimately show ?thesis by simp
    qed
    have "i + 14 - 16 = i - 2" "i + 9 - 16 = i - 7" "i + 1 - 16 = i - 15" using False by simp_all
    then show ?thesis using w [of 0] w [of 14] w [of 9] w [of 1] False l
      by (simp add: next_words_def schedule.simps [of m i] sigmas_fips algebra_simps)
  qed
  moreover have "next_words m i ws ! (t mod 16) = schedule m t" if "t < i" "Suc i \<le> t + 16" for t
  proof -
    have "t mod 16 \<noteq> i mod 16" 
    proof
      assume "t mod 16 = i mod 16"
      then have "16 dvd i - t" using that(1) by (metis mod_eq_dvd_iff_nat less_imp_le)
      then show False using that by (auto dest: dvd_imp_le)
    qed
    moreover have "ws ! (t mod 16) = schedule m t" using r that by (simp add: recent_def)
    ultimately show ?thesis using l by (auto simp: next_words_def)
  qed
  moreover have "length (next_words m i ws) = 16" using l by (simp add: next_words_def)
  ultimately show "next_words m i ws ! (i mod 16) = schedule m i" "recent m (Suc i) (next_words m i ws)"
    by (auto simp: recent_def less_Suc_eq)
qed

lemma round_calls_nth: "i < 64 \<Longrightarrow> round_calls ! i = (round_constants ! i, i mod 16)"
proof -
  have l: "length round_calls = 64" by (simp add: round_calls_def)
  have "map snd round_calls = map (\<lambda>i. i mod 16) [0..<64]" by code_simp
  then have "snd (round_calls ! i) = i mod 16" if "i < 64" using that l by (metis (no_types, lifting) add_0 diff_zero length_upt nth_map nth_upt)
  then show "i < 64 \<Longrightarrow> round_calls ! i = (round_constants ! i, i mod 16)" using l by (simp add: round_constants_def prod_eq_iff)
qed

lemma rounds_working:
  assumes "length s = 8" "n \<le> 64"
  shows "\<exists>v ws. fold (round_step m) [0..<n] (s, replicate 16 0) = (v, ws) \<and> length v = 8 \<and> seen n v = working s m n \<and> recent m n ws"
  using assms(2)
proof (induction n)
  case 0
  then show ?case using assms(1) by (auto simp: seen_def var_def recent_def length_8)
next
  case (Suc n)
  then obtain v ws where "fold (round_step m) [0..<n] (s, replicate 16 0) = (v, ws)" "length v = 8" "seen n v = working s m n" "recent m n ws"
    by auto
  then show ?case using Suc.prems seen_Round [of n v] recent_next [of m n ws] by (simp add: round_step_def [of m n] Let_def round_calls_nth)
qed

lemma Transform_is_compress:
  assumes "length s = 8"
  shows "Transform s m = compress s m"
proof -
  obtain v ws where v: "fold (round_step m) [0..<64] (s, replicate 16 0) = (v, ws)" "length v = 8" "seen 64 v = working s m 64"
    using rounds_working [OF assms order_refl, of m] by blast
  have "seen 64 v = v" using v(2) by (auto simp: seen_def var_def length_8)
  then show ?thesis using v unfolding Transform_def compress_def by simp
qed

lemma length_Transform: "length s = 8 \<Longrightarrow> length (Transform s m) = 8"
  using rounds_working [of s 64 m] by (auto simp: Transform_def)

lemma absorb_compress:
  assumes "length s = 8"
  shows "absorb 64 Transform n s m = absorb 64 compress n s m"
  using assms
proof (induction n arbitrary: s m)
  case (Suc n)
  then show ?case using Suc.IH [of "compress s (take 64 m)" "drop 64 m"] length_Transform [of s "take 64 m"]
    by (simp add: Transform_is_compress)
qed simp

lemma ucast_drop_bit: "ucast (drop_bit k (x :: 'a :: len word)) = (of_nat (unat x div 2 ^ k) :: 'b :: len word)"
  by (metis of_nat_unat ucast_id unat_drop_bit)

lemma WriteBE64_value: "WriteBE64 x = map (\<lambda>i. of_nat (unat x div 256 ^ (7 - i))) [0..<8]"
proof -
  have "[0..<8] = [0, 1, 2, 3, 4, 5, 6, 7 :: nat]" by (simp add: upt_rec)
  moreover have "ucast x = (of_nat (unat x) :: byte)" using ucast_drop_bit [of 0 x] by simp
  ultimately show ?thesis by (simp add: WriteBE64_def ucast_drop_bit)
qed

lemma pad_count:
  "unat (1 + ((119 - (of_nat n mod 64 :: u64)) mod 64)) = 1 + zero_bytes n"
proof -
  have m: "unat (of_nat n mod 64 :: u64) = n mod 64" using bufsize_of [of 64 n] by simp
  have lt: "n mod 64 < 64" by simp
  have d: "unat (119 - (of_nat n mod 64 :: u64)) = 119 - n mod 64"
    by (subst unat_sub) (simp_all add: m word_le_nat_alt lt less_imp_le)
  have "unat ((119 - (of_nat n mod 64 :: u64)) mod 64) = (119 - n mod 64) mod 64"
    by (simp add: unat_mod d)
  then have u: "unat ((119 - (of_nat n mod 64 :: u64)) mod 64) = zero_bytes n" by (simp add: zero_bytes_def)
  have "zero_bytes n < 64" by (simp add: zero_bytes_def)
  then have "unat (1 :: u64) + unat ((119 - (of_nat n mod 64 :: u64)) mod 64) < 18446744073709551616"
    unfolding u unat_1 by linarith
  from unat_add_64 [OF this] show ?thesis unfolding u unat_1 .
qed

abbreviation sha_read :: "bytes \<Rightarrow> sha256 \<Rightarrow> bool" where
  "sha_read \<equiv> has_read 64 Transform Initialize"

lemma sha_Write_read: "sha_read m h \<Longrightarrow> sha_read (m @ d) (sha_Write d h)"
  unfolding sha_Write_def by (rule hasher_write_read) (simp_all add: dvd_def)

lemma take_pad: "n < 64 \<Longrightarrow> take (1 + n) sha_pad = 0x80 # replicate n 0"
  by (simp add: sha_pad_def)

lemma sha_Finalize_read:
  assumes h: "sha_read m h" and l: "length m < 2 ^ 61"
  shows "\<exists>h'. sha_Finalize h = (sha256 m, h') \<and> length (h_buf h') = 64"
proof -
  let ?z = "zero_bytes (length m)"
  let ?h' = "sha_Write (WriteBE64 (push_bit 3 (h_bytes h))) (sha_Write (take (1 + ?z) sha_pad) h)"
  have n: "h_bytes h = of_nat (length m)" using h by (simp add: has_read_def)
  have z: "?z < 64" by (simp add: zero_bytes_def)
  have "push_bit 3 (h_bytes h) = (of_nat (8 * length m) :: u64)" by (simp add: n push_bit_eq_mult)
  moreover have "unat (of_nat (8 * length m) :: u64) = 8 * length m" using l by (simp only: unat_of_nat) simp
  ultimately have "WriteBE64 (push_bit 3 (h_bytes h)) = map (\<lambda>i. of_nat (8 * length m div 256 ^ (7 - i))) [0..<8]"
    unfolding WriteBE64_value by (simp only: )
  then have "sha_read (padded m) ?h'"
    using sha_Write_read [OF sha_Write_read [OF h], of "take (1 + ?z) sha_pad"] take_pad [OF z] by (simp add: padded_def)
  moreover have "blocks 64 (padded m) = length (padded m) div 64" by (simp add: blocks_def)
  moreover have "length Initialize = 8" by (simp add: Initialize_def)
  ultimately have "concat (map WriteBE32 (h_s ?h')) = sha256 m" "length (h_buf ?h') = 64"
    by (simp_all add: has_read_def sha256_def absorb_compress)
  then show ?thesis using pad_count [of "length m"] by (simp add: sha_Finalize_def Let_def n)
qed

lemma new_read: "length buf = 64 \<Longrightarrow> sha_read [] (CSHA256 buf)"
  unfolding CSHA256_def by (rule has_read_empty)

lemma Reset_read: "length (h_buf h) = 64 \<Longrightarrow> sha_read [] (sha_Reset h)"
  by (simp add: sha_Reset_def has_read_def blocks_def rest_of_def)

lemma sha_writes_read: "sha_read m h \<Longrightarrow> sha_read (m @ concat ds) (fold sha_Write ds h)"
  unfolding sha_Write_def by (rule fold_write_read) (simp_all add: dvd_def)

text \<open>
  C18. A \<open>CSHA256\<close> hasher that is written a message of less than 2^61 bytes in any pieces finalizes to
  the SHA-256 of FIPS 180-4 of the whole message, whatever was in its uninitialised buffer.
\<close>

theorem CSHA256_standard:
  assumes "length buf = 64" "length (concat ds) < 2 ^ 61"
  shows "fst (sha_Finalize (fold sha_Write ds (CSHA256 buf))) = sha256 (concat ds)"
  using sha_Finalize_read [OF sha_writes_read [OF new_read [OF assms(1)], of ds]] assms(2) by auto


text \<open>
  The constants, checked on the standard's example: the block of the message \<open>abc\<close>, sixteen rounds at
  a time.
\<close>

definition abc_block :: bytes where
  "abc_block = [0x61, 0x62, 0x63, 0x80] @ replicate 59 0 @ [0x18]"

lemma abc_rounds_1:
  "fold (round_step abc_block) [0..<16] (Initialize, replicate 16 0) =
     ([0xb0fa238e, 0xc0645fde, 0xd932eb16, 0x87912990, 0x7590dcd, 0xb92f20c, 0x745a48de, 0x1e578218],
      [0x61626380, 0x0, 0x0, 0x0, 0x0, 0x0, 0x0, 0x0, 0x0, 0x0, 0x0, 0x0, 0x0, 0x0, 0x0, 0x18])"
  by code_simp

lemma abc_rounds_2:
  "fold (round_step abc_block) [16..<32] ([0xb0fa238e, 0xc0645fde, 0xd932eb16, 0x87912990, 0x7590dcd, 0xb92f20c, 0x745a48de, 0x1e578218], [0x61626380, 0x0, 0x0, 0x0, 0x0, 0x0, 0x0, 0x0, 0x0, 0x0, 0x0, 0x0, 0x0, 0x0, 0x0, 0x18]) =
     ([0x73b33bf5, 0xea992a22, 0xa0060b30, 0x363482c9, 0xba591112, 0x109ab3a, 0xade79437, 0x6112a3b7],
      [0x61626380, 0xf0000, 0x7da86405, 0x600003c6, 0x3e9d7b78, 0x183fc00, 0x12dcbfdb, 0xe2e2c38e, 0xc8215c1a, 0xb73679a2, 0xe5bc3909, 0x32663c5b, 0x9d209d67, 0xec8726cb, 0x702138a4, 0xd3b7973b])"
  by code_simp

lemma abc_rounds_3:
  "fold (round_step abc_block) [32..<48] ([0x73b33bf5, 0xea992a22, 0xa0060b30, 0x363482c9, 0xba591112, 0x109ab3a, 0xade79437, 0x6112a3b7], [0x61626380, 0xf0000, 0x7da86405, 0x600003c6, 0x3e9d7b78, 0x183fc00, 0x12dcbfdb, 0xe2e2c38e, 0xc8215c1a, 0xb73679a2, 0xe5bc3909, 0x32663c5b, 0x9d209d67, 0xec8726cb, 0x702138a4, 0xd3b7973b]) =
     ([0x4172328d, 0xa14c14b0, 0x72ab4b91, 0x26628815, 0xfecf0bc6, 0xd57b94a9, 0xb7755da1, 0xa80f11f0],
      [0x93f5997f, 0x3b68ba73, 0xaff4ffc1, 0xf10a5c62, 0xa8b3996, 0x72af830a, 0x9409e33e, 0x24641522, 0x9f47bf94, 0xf0a64f5a, 0x3e246a79, 0x27333ba3, 0xc4763f2, 0x840abf27, 0x7a290d5d, 0x65c43da])"
  by code_simp

lemma abc_rounds_4:
  "fold (round_step abc_block) [48..<64] ([0x4172328d, 0xa14c14b0, 0x72ab4b91, 0x26628815, 0xfecf0bc6, 0xd57b94a9, 0xb7755da1, 0xa80f11f0], [0x93f5997f, 0x3b68ba73, 0xaff4ffc1, 0xf10a5c62, 0xa8b3996, 0x72af830a, 0x9409e33e, 0x24641522, 0x9f47bf94, 0xf0a64f5a, 0x3e246a79, 0x27333ba3, 0xc4763f2, 0x840abf27, 0x7a290d5d, 0x65c43da]) =
     ([0x506e3058, 0xd39a2165, 0x4d24d6c, 0xb85e2ce9, 0x5ef50f24, 0xfb121210, 0x948d25b6, 0x961f4894],
      [0xfb3e89cb, 0xcc7617db, 0xb9e66c34, 0xa9993667, 0x84badedd, 0xc21462bc, 0x1487472c, 0xb20f7a99, 0xef57b9cd, 0xebe6b238, 0x9fe3095e, 0x78bc8d4b, 0xa43fcf15, 0x668b2ff8, 0xeeaba2cc, 0x12b1edeb])"
  by code_simp

definition abc_digest :: bytes where
  "abc_digest = [0xba, 0x78, 0x16, 0xbf, 0x8f, 0x1, 0xcf, 0xea, 0x41, 0x41, 0x40, 0xde, 0x5d, 0xae, 0x22, 0x23, 0xb0, 0x3, 0x61, 0xa3, 0x96, 0x17, 0x7a, 0x9c, 0xb4, 0x10, 0xff, 0x61, 0xf2, 0x0, 0x15, 0xad]"

lemma abc_output: "concat (map WriteBE32 (map2 (+) Initialize [0x506e3058, 0xd39a2165, 0x4d24d6c, 0xb85e2ce9, 0x5ef50f24, 0xfb121210, 0x948d25b6, 0x961f4894])) = abc_digest"
  by code_simp

lemma abc_padded: "padded [0x61, 0x62, 0x63] = abc_block"
proof -
  have "[0..<8] = [0, 1, 2, 3, 4, 5, 6, 7 :: nat]" by (simp add: upt_rec)
  moreover have "zero_bytes (Suc (Suc (Suc 0))) = 52" by (simp add: zero_bytes_def)
  moreover have "replicate 59 (0 :: byte) = replicate 52 0 @ [0, 0, 0, 0, 0, 0, 0]" by code_simp
  ultimately show ?thesis by (simp add: padded_def abc_block_def)
qed

lemma sha256_abc: "sha256 [0x61, 0x62, 0x63] = abc_digest"
proof -
  have r: "[0..<64] = [0..<16] @ [16..<32] @ [32..<48] @ [48..<64 :: nat]"
    by code_simp
  have f: "fst (fold (round_step abc_block) [0..<64] (Initialize, replicate 16 0)) = [0x506e3058, 0xd39a2165, 0x4d24d6c, 0xb85e2ce9, 0x5ef50f24, 0xfb121210, 0x948d25b6, 0x961f4894]"
    unfolding r fold_append comp_apply abc_rounds_1 abc_rounds_2 abc_rounds_3 abc_rounds_4 by simp
  have "absorb 64 compress 1 Initialize abc_block = Transform Initialize abc_block"
    by (simp add: Transform_is_compress Initialize_def abc_block_def)
  moreover have "length abc_block div 64 = 1" by (simp add: abc_block_def)
  ultimately show ?thesis using abc_output unfolding sha256_def abc_padded Transform_def f by (simp only:)
qed

lemma CSHA256_standard_witness:
  "length (replicate 64 (0xEE :: byte)) = 64 \<and> length (concat [[0x61 :: byte], [0x62, 0x63]]) < 2 ^ 61
    \<and> fst (sha_Finalize (fold sha_Write [[0x61], [0x62, 0x63]] (CSHA256 (replicate 64 0xEE)))) = abc_digest"
  using CSHA256_standard [of "replicate 64 0xEE" "[[0x61], [0x62, 0x63]]"] sha256_abc by simp

section \<open>Double hashes\<close>

text \<open>\<open>Hash\<close> of one, two or three ranges: each is one \<open>Write\<close>. \<open>CHashWriter\<close> writes likewise, one piece per call of its \<open>write\<close>.\<close>

definition Hash_ranges :: "bytes \<Rightarrow> bytes list \<Rightarrow> bytes" where
  "Hash_ranges buf ranges = fst (hash256_Finalize (fold sha_Write ranges (CSHA256 buf)))"

definition double_sha256 :: "bytes \<Rightarrow> bytes" where
  "double_sha256 m = sha256 (sha256 m)"

lemma length_compress: "length s = 8 \<Longrightarrow> length (compress s m) = 8"
  using length_Transform [of s m] Transform_is_compress [of s m] by simp

lemma length_absorb: "length s = 8 \<Longrightarrow> length (absorb 64 compress n s m) = 8"
  by (induction n arbitrary: s m) (simp_all add: length_compress)

lemma length_concat_words: "length (concat (map WriteBE32 ws)) = 4 * length ws"
  by (induction ws) (simp_all add: WriteBE32_def)

lemma length_sha256: "length (sha256 m) = 32"
  by (simp add: sha256_def length_concat_words length_absorb Initialize_def)

text \<open>
  C1. \<open>Hash\<close> is the double SHA-256 of the concatenation of its ranges: how a byte string is split into
  ranges or into writes of a stream does not matter.
\<close>

theorem Hash_ranges_double:
  assumes "length buf = 64" "length (concat ranges) < 2 ^ 61"
  shows "Hash_ranges buf ranges = double_sha256 (concat ranges)"
proof -
  obtain h where h: "sha_Finalize (fold sha_Write ranges (CSHA256 buf)) = (sha256 (concat ranges), h)" "length (h_buf h) = 64"
    using sha_Finalize_read [OF sha_writes_read [OF new_read [OF assms(1)], of ranges]] assms(2) by auto
  have "sha_read (sha256 (concat ranges)) (sha_Write (sha256 (concat ranges)) (sha_Reset h))"
    using sha_Write_read [OF Reset_read [OF h(2)]] by simp
  from sha_Finalize_read [OF this] show ?thesis
    using h(1) by (auto simp: Hash_ranges_def hash256_Finalize_def double_sha256_def length_sha256)
qed

lemma Hash_ranges_double_witness:
  "length (replicate 64 (0xEE :: byte)) = 64 \<and> length (concat [[0x61 :: byte], [0x62, 0x63]]) < 2 ^ 61
    \<and> Hash_ranges (replicate 64 0xEE) [[0x61], [0x62, 0x63]] = sha256 abc_digest"
  using Hash_ranges_double [of "replicate 64 0xEE" "[[0x61], [0x62, 0x63]]"] by (simp add: double_sha256_def sha256_abc)

end
