(* ===== verification/Base58.thy ===== *)
theory Base58
  imports Standard Sha256
begin

text \<open>
  Base58 strings (\<^verbatim>\<open>structs/base58.cpp\<close>): the conversion of byte strings to and from base 58, the
  checksum at the end of the bytes, the classes \<open>CBase58Data\<close> and \<open>CBitcoinAddress\<close>, whose version
  bytes are spread over the data. The conversions multiply a number of fixed size in place and assert
  that it does not overflow: the sizes that the code computes are proved to be large enough, and the
  strings are proved to be in bijection with the byte strings.

  A C string is the list of its characters before the terminating zero. The sizes are computed without
  overflow for strings below 2^54 characters, the only ones there are.
\<close>

section \<open>The code\<close>

definition pszBase58 :: string where
  "pszBase58 = ''123456789ABCDEFGHJKLMNPQRSTUVWXYZabcdefghijkmnopqrstuvwxyz''"

definition isspace :: "char \<Rightarrow> bool" where
  "isspace c \<longleftrightarrow> c \<in> set [CHR 0x20, CHR 0x09, CHR 0x0A, CHR 0x0B, CHR 0x0C, CHR 0x0D]"

fun strchr :: "string \<Rightarrow> char \<Rightarrow> nat option" where
  "strchr [] c = None"
| "strchr (d # ds) c = (if d = c then Some 0 else map_option Suc (strchr ds c))"

text \<open>
  The loops over \<open>b256\<close> and \<open>b58\<close>, from the last element of the vector to the first: the list is the
  vector in this order. The result holds the final \<open>carry\<close>.
\<close>

fun mul_add :: "nat \<Rightarrow> nat \<Rightarrow> nat \<Rightarrow> nat list \<Rightarrow> nat list \<times> nat" where
  "mul_add base k carry [] = ([], carry)"
| "mul_add base k carry (d # ds) =
     (let carry = carry + k * d; (ds, c) = mul_add base k (carry div base) ds in (carry mod base # ds, c))"

fun encode_loop :: "nat list \<Rightarrow> bytes \<Rightarrow> nat list cpp" where
  "encode_loop b58 [] = Inr b58"
| "encode_loop b58 (b # bs) =
     (let (b58, carry) = mul_add 58 256 (unat b) b58 in bind_cpp (assert_cpp (carry = 0)) (\<lambda>_. encode_loop b58 bs))"

definition EncodeBase58 :: "bytes \<Rightarrow> string cpp" where
  "EncodeBase58 p =
     (let zeroes = length (takeWhile (\<lambda>b. b = 0) p);
          p = dropWhile (\<lambda>b. b = 0) p
      in bind_cpp (encode_loop (replicate (length p * 138 div 100 + 1) 0) p) (\<lambda>b58.
         Inr (replicate zeroes (CHR ''1'') @ map (\<lambda>d. pszBase58 ! d) (dropWhile (\<lambda>d. d = 0) (rev b58)))))"

text \<open>The loop stops at the first space or at the end; what is left of the string is returned.\<close>

fun decode_loop :: "nat list \<Rightarrow> string \<Rightarrow> (nat list \<times> string) option cpp" where
  "decode_loop b256 [] = Inr (Some (b256, []))"
| "decode_loop b256 (c # cs) =
     (if isspace c then Inr (Some (b256, c # cs))
      else case strchr pszBase58 c of
        None \<Rightarrow> Inr None
      | Some ch \<Rightarrow>
          (let (b256, carry) = mul_add 256 58 ch b256
           in bind_cpp (assert_cpp (carry = 0)) (\<lambda>_. decode_loop b256 cs)))"

text \<open>\<open>None\<close> is the result \<open>false\<close>.\<close>

definition DecodeBase58 :: "string \<Rightarrow> bytes option cpp" where
  "DecodeBase58 psz =
     (let psz = dropWhile isspace psz;
          zeroes = length (takeWhile (\<lambda>c. c = CHR ''1'') psz);
          psz = dropWhile (\<lambda>c. c = CHR ''1'') psz
      in bind_cpp (decode_loop (replicate (length psz * 733 div 1000 + 1) 0) psz) (\<lambda>r. case r of
           None \<Rightarrow> Inr None
         | Some (b256, psz) \<Rightarrow>
             if dropWhile isspace psz \<noteq> [] then Inr None
             else Inr (Some (replicate zeroes 0 @ map of_nat (dropWhile (\<lambda>d. d = 0) (rev b256))))))"

section \<open>Digits\<close>

fun digits_val :: "nat \<Rightarrow> nat list \<Rightarrow> nat" where
  "digits_val base [] = 0"
| "digits_val base (d # ds) = d + base * digits_val base ds"

lemma digits_val_append: "digits_val base (xs @ ys) = digits_val base xs + base ^ length xs * digits_val base ys"
  by (induction xs) (simp_all add: algebra_simps)

lemma digits_val_zeros [simp]: "digits_val base (replicate n 0) = 0"
  by (induction n) simp_all

lemma digits_val_less:
  assumes "\<forall>d\<in>set ds. d < base"
  shows "digits_val base ds < base ^ length ds"
  using assms
proof (induction ds)
  case (Cons d ds)
  then have "digits_val base ds + 1 \<le> base ^ length ds" "d < base" by auto
  then have "base * (digits_val base ds + 1) \<le> base * base ^ length ds" by (intro mult_le_mono2)
  then show ?case using \<open>d < base\<close> by simp
qed simp

lemma digits_val_inj:
  assumes "length xs = length ys" "\<forall>d\<in>set xs. d < base" "\<forall>d\<in>set ys. d < base" "digits_val base xs = digits_val base ys"
  shows "xs = ys"
  using assms
proof (induction xs ys rule: list_induct2)
  case (Cons x xs y ys)
  have "x < base" "y < base" using Cons.prems by auto
  have "(x + base * digits_val base xs) mod base = (y + base * digits_val base ys) mod base" using Cons.prems(3) by simp
  then have "x = y" using \<open>x < base\<close> \<open>y < base\<close> by simp
  moreover have "digits_val base xs = digits_val base ys" using Cons.prems(3) \<open>x = y\<close> \<open>x < base\<close> by simp
  ultimately show ?case using Cons by simp
qed simp

abbreviation strip :: "nat list \<Rightarrow> nat list" where
  "strip \<equiv> dropWhile (\<lambda>d. d = 0)"

lemma strip_unique:
  assumes "\<forall>d\<in>set xs. d < base" "\<forall>d\<in>set ys. d < base" "digits_val base (rev xs) = digits_val base (rev ys)"
  shows "strip xs = strip ys"
proof -
  have pad: "strip (replicate n 0 @ zs) = strip zs" for n zs by (induction n) simp_all
  let ?x = "replicate (length ys) 0 @ xs" and ?y = "replicate (length xs) 0 @ ys"
  have "rev ?x = rev ?y"
  proof (rule digits_val_inj)
    show "length (rev ?x) = length (rev ?y)" by simp
    have "xs \<noteq> [] \<or> ys \<noteq> [] \<Longrightarrow> 0 < base" using assms(1,2) by (cases xs; cases ys) auto
    then show "\<forall>d\<in>set (rev ?x). d < base" "\<forall>d\<in>set (rev ?y). d < base" using assms(1,2) by auto
    show "digits_val base (rev ?x) = digits_val base (rev ?y)" using assms(3) by (simp add: digits_val_append)
  qed
  then have "?x = ?y" by (simp only: rev_is_rev_conv)
  then show ?thesis using pad by metis
qed

lemma mul_add_spec:
  "0 < base \<Longrightarrow> mul_add base k carry ds = (ds', c) \<Longrightarrow>
     length ds' = length ds \<and> (\<forall>d\<in>set ds'. d < base) \<and> digits_val base ds' + base ^ length ds * c = carry + k * digits_val base ds"
proof (induction ds arbitrary: carry ds' c)
  case (Cons d ds)
  obtain es where r: "mul_add base k ((carry + k * d) div base) ds = (es, c)" "ds' = (carry + k * d) mod base # es"
    using Cons.prems(2) by (auto simp: Let_def split: prod.splits)
  note IH = Cons.IH [OF Cons.prems(1) r(1)]
  have "digits_val base ds' + base ^ length (d # ds) * c
      = (carry + k * d) mod base + base * (digits_val base es + base ^ length ds * c)"
    by (simp add: r(2) algebra_simps)
  also have "\<dots> = (carry + k * d) mod base + base * ((carry + k * d) div base) + base * (k * digits_val base ds)"
    using IH by (simp add: algebra_simps)
  also have "\<dots> = carry + k * digits_val base (d # ds)" by (simp add: algebra_simps)
  finally show ?case using IH Cons.prems(1) r(2) by simp
qed simp

text \<open>A step of a conversion whose value still fits does not overflow.\<close>

lemma mul_add_fits:
  assumes "0 < base" "carry + k * digits_val base ds < base ^ length ds"
  shows "\<exists>ds'. mul_add base k carry ds = (ds', 0) \<and> length ds' = length ds \<and> (\<forall>d\<in>set ds'. d < base)
    \<and> digits_val base ds' = carry + k * digits_val base ds"
proof -
  obtain ds' c where r: "mul_add base k carry ds = (ds', c)" by fastforce
  note s = mul_add_spec [OF assms(1) r]
  have "c = 0"
  proof (rule ccontr)
    assume "c \<noteq> 0"
    then have "base ^ length ds \<le> base ^ length ds * c" by (cases c) simp_all
    then show False using s assms(2) by linarith
  qed
  then show ?thesis using r s by auto
qed

section \<open>The sizes of the vectors\<close>

lemma power_size:
  assumes "b ^ q \<le> (a :: nat) ^ p" "p * n \<le> q * k" "0 < q" "1 < a"
  shows "b ^ n \<le> a ^ k"
proof -
  have "(b ^ n) ^ q = (b ^ q) ^ n" by (simp flip: power_mult add: mult.commute)
  also have "\<dots> \<le> (a ^ p) ^ n" using assms(1) by (rule power_mono) simp
  also have "\<dots> = a ^ (p * n)" by (simp flip: power_mult)
  also have "\<dots> \<le> a ^ (q * k)" using assms(2,4) by (intro power_increasing) simp_all
  also have "\<dots> = (a ^ k) ^ q" by (simp flip: power_mult add: mult.commute)
  finally show ?thesis using assms(3) by (simp add: power_mono_iff)
qed

lemma encode_size: "256 ^ n \<le> (58 :: nat) ^ (n * 138 div 100 + 1)"
  by (rule power_size [where q = 19 and p = 26]) simp_all

lemma decode_size: "58 ^ n \<le> (256 :: nat) ^ (n * 733 div 1000 + 1)"
  by (rule power_size [where q = 71 and p = 52]) simp_all

abbreviation be_val :: "nat \<Rightarrow> nat list \<Rightarrow> nat" where
  "be_val base xs \<equiv> digits_val base (rev xs)"

lemma be_val_Cons: "be_val base (x # xs) = x * base ^ length xs + be_val base xs"
  by (simp add: digits_val_append)

lemma suc_mult_le: "(v + 1) * c \<le> m \<Longrightarrow> 0 < c \<Longrightarrow> v < (m :: nat)"
  by (cases c) auto

lemma encode_loop_val:
  assumes "\<forall>d\<in>set ds. d < 58" "(digits_val 58 ds + 1) * 256 ^ length bs \<le> 58 ^ length ds"
  shows "\<exists>ds'. encode_loop ds bs = Inr ds' \<and> (\<forall>d\<in>set ds'. d < 58)
    \<and> digits_val 58 ds' = digits_val 58 ds * 256 ^ length bs + be_val 256 (map unat bs)"
  using assms
proof (induction bs arbitrary: ds)
  case (Cons b bs)
  let ?v = "unat b + 256 * digits_val 58 ds"
  have "unat b < 256" by (rule unat_lt_8)
  then have "?v + 1 \<le> (digits_val 58 ds + 1) * 256" by simp
  then have "(?v + 1) * 256 ^ length bs \<le> (digits_val 58 ds + 1) * 256 * 256 ^ length bs" by (rule mult_le_mono1)
  then have le: "(?v + 1) * 256 ^ length bs \<le> 58 ^ length ds" using Cons.prems(2) by (simp only: length_Cons power_Suc mult.assoc)
  have "?v < 58 ^ length ds" by (rule suc_mult_le [OF le]) simp
  from mul_add_fits [OF _ this] obtain es where es: "mul_add 58 256 (unat b) ds = (es, 0)" "length es = length ds"
      "\<forall>d\<in>set es. d < 58" "digits_val 58 es = ?v" by auto
  have "(digits_val 58 es + 1) * 256 ^ length bs \<le> 58 ^ length es" using le es by simp
  from Cons.IH [OF es(3) this] show ?case using es(1,4) by (auto simp: be_val_Cons algebra_simps simp del: rev.simps)
qed simp

lemma EncodeBase58_digits:
  "\<exists>ds. (\<forall>d\<in>set ds. d < 58) \<and> digits_val 58 (rev ds) = be_val 256 (map unat (dropWhile (\<lambda>b. b = 0) p))
    \<and> EncodeBase58 p = Inr (replicate (length (takeWhile (\<lambda>b. b = 0) p)) (CHR ''1'') @ map (\<lambda>d. pszBase58 ! d) (strip ds))"
proof -
  let ?p = "dropWhile (\<lambda>b. b = 0) p"
  let ?z = "replicate (length ?p * 138 div 100 + 1) (0 :: nat)"
  have "(digits_val 58 ?z + 1) * 256 ^ length ?p \<le> 58 ^ length ?z"
    using encode_size [of "length ?p"] by (simp only: digits_val_zeros length_replicate mult_1 add_0)
  from encode_loop_val [OF _ this] obtain ds where
      ds: "encode_loop ?z ?p = Inr ds" "\<forall>d\<in>set ds. d < 58" "digits_val 58 ds = be_val 256 (map unat ?p)"
    by (auto simp only: digits_val_zeros set_replicate_conv_if split: if_splits) auto
  then show ?thesis
    by (intro exI [of _ "rev ds"]) (simp add: EncodeBase58_def Let_def del: replicate.simps)
qed

subsection \<open>The alphabet\<close>

lemma length_alphabet: "length pszBase58 = 58"
  by (simp add: pszBase58_def)

lemma distinct_alphabet: "distinct pszBase58"
  by code_simp

lemma alphabet_not_space: "c \<in> set pszBase58 \<Longrightarrow> \<not> isspace c"
  by (auto simp: pszBase58_def isspace_def)

lemma strchr_nth: "distinct s \<Longrightarrow> i < length s \<Longrightarrow> strchr s (s ! i) = Some i"
  by (induction s arbitrary: i) (auto simp: nth_Cons split: nat.splits)

lemma strchr_Some: "strchr s c = Some i \<Longrightarrow> i < length s \<and> s ! i = c"
  by (induction s arbitrary: i) (auto split: if_splits)

lemma strchr_digit [simp]: "d < 58 \<Longrightarrow> strchr pszBase58 (pszBase58 ! d) = Some d"
  using distinct_alphabet strchr_nth length_alphabet by metis

lemma digit_not_space [simp]: "d < 58 \<Longrightarrow> \<not> isspace (pszBase58 ! d)"
  using alphabet_not_space length_alphabet by simp

lemma digit_1: "d < 58 \<Longrightarrow> pszBase58 ! d = CHR ''1'' \<longleftrightarrow> d = 0"
  using distinct_alphabet nth_eq_iff_index_eq [of pszBase58 d 0] length_alphabet by (simp add: pszBase58_def)

text \<open>The characters of a string that are digits, up to the first space.\<close>

abbreviation word_of :: "string \<Rightarrow> string" where
  "word_of cs \<equiv> takeWhile (\<lambda>c. \<not> isspace c) cs"

definition digits_of :: "string \<Rightarrow> nat list" where
  "digits_of w = map (\<lambda>c. the (strchr pszBase58 c)) w"

lemma decode_loop_val:
  assumes "(digits_val 256 ds + 1) * 58 ^ length cs \<le> 256 ^ length ds" "\<forall>d\<in>set ds. d < 256"
  shows "if set (word_of cs) \<subseteq> set pszBase58
    then \<exists>ds'. decode_loop ds cs = Inr (Some (ds', dropWhile (\<lambda>c. \<not> isspace c) cs)) \<and> (\<forall>d\<in>set ds'. d < 256)
      \<and> digits_val 256 ds' = digits_val 256 ds * 58 ^ length (word_of cs) + be_val 58 (digits_of (word_of cs))
    else decode_loop ds cs = Inr None"
  using assms
proof (induction cs arbitrary: ds)
  case Nil
  then show ?case by (simp add: digits_of_def)
next
  case (Cons c cs)
  show ?case
  proof (cases "isspace c")
    case True
    then show ?thesis using Cons.prems(2) by (simp add: digits_of_def)
  next
    case ns: False
    show ?thesis
    proof (cases "strchr pszBase58 c")
      case None
      then have "c \<notin> set pszBase58" using strchr_digit length_alphabet by (auto simp: in_set_conv_nth)
      then show ?thesis using ns None by simp
    next
      case (Some ch)
      then have ch: "ch < 58" "c \<in> set pszBase58" using strchr_Some [OF Some] length_alphabet nth_mem [of ch pszBase58] by auto
      let ?v = "ch + 58 * digits_val 256 ds"
      have "?v + 1 \<le> (digits_val 256 ds + 1) * 58" using ch(1) by simp
      then have "(?v + 1) * 58 ^ length cs \<le> (digits_val 256 ds + 1) * 58 * 58 ^ length cs" by (rule mult_le_mono1)
      then have le: "(?v + 1) * 58 ^ length cs \<le> 256 ^ length ds" using Cons.prems(1) by (simp only: length_Cons power_Suc mult.assoc)
      have "?v < 256 ^ length ds" by (rule suc_mult_le [OF le]) simp
      from mul_add_fits [OF _ this] obtain es where es: "mul_add 256 58 ch ds = (es, 0)" "length es = length ds"
          "\<forall>d\<in>set es. d < 256" "digits_val 256 es = ?v" by auto
      have "(digits_val 256 es + 1) * 58 ^ length cs \<le> 256 ^ length es" using le es by simp
      from Cons.IH [OF this es(3)] show ?thesis
        using ns Some es(1,4) ch by (auto simp: digits_of_def be_val_Cons algebra_simps simp del: rev.simps)
    qed
  qed
qed

section \<open>Strings and byte strings\<close>

lemma strip_prefix: "\<exists>n. xs = replicate n 0 @ strip xs"
proof (induction xs)
  case (Cons x xs)
  then obtain n where "xs = replicate n 0 @ strip xs" by blast
  then have "x = 0 \<Longrightarrow> x # xs = replicate (Suc n) 0 @ strip (x # xs)" by simp
  moreover have "x \<noteq> 0 \<Longrightarrow> x # xs = replicate 0 0 @ strip (x # xs)" by simp
  ultimately show ?case by blast
qed simp

lemma be_val_strip: "be_val base (strip xs) = be_val base xs"
  using strip_prefix [of xs] by (metis add.right_neutral digits_val_append digits_val_zeros mult_0_right rev_append rev_replicate)

lemma strip_eq_self: "xs \<noteq> [] \<Longrightarrow> hd xs \<noteq> 0 \<Longrightarrow> strip xs = xs"
  by (cases xs) auto

lemma hd_strip: "strip xs \<noteq> [] \<Longrightarrow> hd (strip xs) \<noteq> 0"
  using hd_dropWhile [of "\<lambda>d. d = 0" xs] by simp

lemma in_strip: "d \<in> set (strip xs) \<Longrightarrow> d \<in> set xs"
  by (rule set_dropWhileD)

text \<open>The two directions of the conversion of the part that does not start with zeros.\<close>

lemma word_of_append: "\<forall>c\<in>set w. \<not> isspace c \<Longrightarrow> \<forall>c\<in>set r. isspace c \<Longrightarrow> word_of (w @ r) = w \<and> dropWhile (\<lambda>c. \<not> isspace c) (w @ r) = r"
  by (cases r) (simp_all add: takeWhile_append2 dropWhile_append2 takeWhile_tail)

lemma decode_start:
  "let z = replicate (length psz * 733 div 1000 + 1) 0
   in if set (word_of psz) \<subseteq> set pszBase58
      then \<exists>ds. decode_loop z psz = Inr (Some (ds, dropWhile (\<lambda>c. \<not> isspace c) psz)) \<and> (\<forall>d\<in>set ds. d < 256)
        \<and> digits_val 256 ds = be_val 58 (digits_of (word_of psz))
      else decode_loop z psz = Inr None"
proof -
  let ?z = "replicate (length psz * 733 div 1000 + 1) (0 :: nat)"
  have "(digits_val 256 ?z + 1) * 58 ^ length psz \<le> 256 ^ length ?z"
    using decode_size [of "length psz"] by (simp only: digits_val_zeros length_replicate mult_1 add_0)
  moreover have "\<forall>d\<in>set ?z. d < 256" by (simp only: set_replicate_conv_if split: if_splits) simp
  ultimately show ?thesis using decode_loop_val [of ?z psz] unfolding Let_def digits_val_zeros mult_0 add_0 by blast
qed

lemma digits_of_alphabet:
  assumes "set w \<subseteq> set pszBase58"
  shows "map (\<lambda>d. pszBase58 ! d) (digits_of w) = w" "\<forall>d\<in>set (digits_of w). d < 58"
proof -
  have "pszBase58 ! the (strchr pszBase58 c) = c \<and> the (strchr pszBase58 c) < 58" if c: "c \<in> set w" for c
  proof -
    obtain i where "i < 58" "pszBase58 ! i = c" using assms c length_alphabet by (metis in_set_conv_nth subsetD)
    then show ?thesis using strchr_digit [of i] by auto
  qed
  then show "map (\<lambda>d. pszBase58 ! d) (digits_of w) = w" "\<forall>d\<in>set (digits_of w). d < 58"
    unfolding digits_of_def by (simp_all add: map_idI)
qed

lemma digits_of_digits: "\<forall>d\<in>set ds. d < 58 \<Longrightarrow> digits_of (map (\<lambda>d. pszBase58 ! d) ds) = ds"
  by (simp add: digits_of_def map_idI)

lemma bytes_of_digits:
  assumes "\<forall>d\<in>set ds. d < 256"
  shows "map unat (map of_nat ds :: bytes) = ds" "dropWhile (\<lambda>b. b = 0) (map of_nat ds :: bytes) = map of_nat (strip ds)"
proof -
  have u: "unat (of_nat d :: byte) = d" if "d < 256" for d
    using that by (simp add: unat_of_nat take_bit_eq_mod)
  then show "map unat (map of_nat ds :: bytes) = ds" using assms by (auto simp: comp_def map_idI)
  have "(of_nat d :: byte) = 0 \<longleftrightarrow> d = 0" if "d < 256" for d
    using u [OF that] by (cases "d = 0") auto
  then show "dropWhile (\<lambda>b. b = 0) (map of_nat ds :: bytes) = map of_nat (strip ds)"
    using assms by (induction ds) auto
qed

lemma strip_unat: "strip (map unat p) = map unat (dropWhile (\<lambda>b. b = 0) p)" for p :: bytes
  by (induction p) (auto simp: unat_eq_0)

abbreviation one :: char where
  "one \<equiv> CHR ''1''"

text \<open>A string in parts: leading spaces, ones, digits, and what follows, which has to be spaces.\<close>

lemma DecodeBase58_parts:
  fixes s
  defines "t \<equiv> dropWhile isspace s"
  defines "v \<equiv> dropWhile (\<lambda>c. c = one) t"
  shows "\<exists>ds. (\<forall>d\<in>set ds. d < 256) \<and> (set (word_of v) \<subseteq> set pszBase58 \<longrightarrow> be_val 256 ds = be_val 58 (digits_of (word_of v)))
    \<and> DecodeBase58 s =
        (if set (word_of v) \<subseteq> set pszBase58 \<and> (\<forall>c\<in>set (dropWhile (\<lambda>c. \<not> isspace c) v). isspace c)
         then Inr (Some (replicate (length (takeWhile (\<lambda>c. c = one) t)) 0 @ map of_nat (strip ds))) else Inr None)"
proof (cases "set (word_of v) \<subseteq> set pszBase58")
  case True
  then obtain ds where ds: "decode_loop (replicate (length v * 733 div 1000 + 1) 0) v = Inr (Some (ds, dropWhile (\<lambda>c. \<not> isspace c) v))"
      "\<forall>d\<in>set ds. d < 256" "digits_val 256 ds = be_val 58 (digits_of (word_of v))"
    using decode_start [of v] by (auto simp only: Let_def if_True)
  have "DecodeBase58 s = (if dropWhile isspace (dropWhile (\<lambda>c. \<not> isspace c) v) \<noteq> [] then Inr None
      else Inr (Some (replicate (length (takeWhile (\<lambda>c. c = one) t)) 0 @ map of_nat (strip (rev ds)))))"
    unfolding DecodeBase58_def Let_def t_def [symmetric] v_def [symmetric] ds(1) bind_cpp_simps option.case prod.case ..
  also have "\<dots> = (if set (word_of v) \<subseteq> set pszBase58 \<and> (\<forall>c\<in>set (dropWhile (\<lambda>c. \<not> isspace c) v). isspace c)
      then Inr (Some (replicate (length (takeWhile (\<lambda>c. c = one) t)) 0 @ map of_nat (strip (rev ds)))) else Inr None)"
    by (simp only: dropWhile_eq_Nil_conv True simp_thms if_not_P split: if_split) blast
  finally show ?thesis using ds(2,3) by (intro exI [of _ "rev ds"] conjI impI) (simp_all only: set_rev rev_rev_ident)
next
  case False
  then have d: "decode_loop (replicate (length v * 733 div 1000 + 1) 0) v = Inr None"
    using decode_start [of v] by (simp only: Let_def if_False)
  then have "DecodeBase58 s = Inr None"
    unfolding DecodeBase58_def Let_def t_def [symmetric] v_def [symmetric] by simp
  then show ?thesis using False by (intro exI [of _ "[]"]) simp
qed

lemma decode_encoded:
  assumes "EncodeBase58 p = Inr w" "\<forall>c\<in>set l \<union> set r. isspace c"
  shows "DecodeBase58 (l @ w @ r) = Inr (Some p)"
proof -
  let ?p = "dropWhile (\<lambda>b. b = 0) p"
  define z where "z = length (takeWhile (\<lambda>b. b = 0) p)"
  obtain ds where ds: "\<forall>d\<in>set ds. d < 58" "be_val 58 ds = be_val 256 (map unat ?p)"
      "w = replicate z one @ map (\<lambda>d. pszBase58 ! d) (strip ds)"
    using EncodeBase58_digits [of p] assms(1) by (auto simp: z_def)
  define D where "D = strip ds"
  let ?w = "map (\<lambda>d. pszBase58 ! d) D"
  have D: "\<forall>d\<in>set D. d < 58" "D \<noteq> [] \<Longrightarrow> hd D \<noteq> 0" "be_val 58 D = be_val 256 (map unat ?p)"
    using ds(1,2) in_strip hd_strip [of ds] be_val_strip [of 58 ds] by (auto simp only: D_def)
  have sp: "\<not> isspace one" by (simp add: isspace_def)
  have nsp: "\<forall>c\<in>set ?w. \<not> isspace c" using D(1) by auto
  define r' where "r' = (if w = [] then [] else r)"
  have r': "\<forall>c\<in>set r'. isspace c" using assms(2) by (auto simp: r'_def)
  have wr: "word_of (?w @ r') = ?w" "dropWhile (\<lambda>c. \<not> isspace c) (?w @ r') = r'"
    using word_of_append [OF nsp r'] by auto
  have r1: "takeWhile (\<lambda>c. c = one) (?w @ r') = [] \<and> dropWhile (\<lambda>c. c = one) (?w @ r') = ?w @ r'"
  proof (cases D)
    case Nil
    then show ?thesis using r' sp by (cases r') auto
  next
    case (Cons d es)
    then show ?thesis using digit_1 [of d] D by auto
  qed
  have w: "w = replicate z one @ ?w" by (simp only: ds(3) D_def)
  have t: "dropWhile isspace (l @ w @ r) = replicate z one @ ?w @ r'"
  proof (cases "w = []")
    case True
    then show ?thesis using w assms(2) by (simp add: r'_def dropWhile_eq_Nil_conv)
  next
    case False
    then have "\<not> isspace (hd w)" using w sp nsp by (cases z; cases D) auto
    then have "dropWhile isspace (w @ r) = w @ r" using False by (cases w) auto
    then have "dropWhile isspace (l @ w @ r) = w @ r" using assms(2) by (simp add: dropWhile_append2)
    moreover have "r' = r" using False by (simp add: r'_def)
    ultimately show ?thesis using arg_cong [OF w, of "\<lambda>w. w @ r"] by (simp only: append_assoc)
  qed
  have z: "takeWhile (\<lambda>c. c = one) (replicate z one @ ?w @ r') = replicate z one"
      "dropWhile (\<lambda>c. c = one) (replicate z one @ ?w @ r') = ?w @ r'"
    using r1 by (simp_all add: takeWhile_append2 dropWhile_append2 takeWhile_append dropWhile_append)
  have alph: "set ?w \<subseteq> set pszBase58" using D(1) length_alphabet by auto
  obtain es where es: "\<forall>d\<in>set es. d < 256" "be_val 256 es = be_val 58 D"
      "DecodeBase58 (l @ w @ r) = Inr (Some (replicate z 0 @ map of_nat (strip es)))"
    using DecodeBase58_parts [of "l @ w @ r"] alph r' unfolding t z wr digits_of_digits [OF D(1)] by auto
  have "strip es = strip (map unat ?p)"
    by (rule strip_unique [where base = 256]) (use es(1,2) D(3) in \<open>auto simp: unat_lt_8\<close>)
  also have "\<dots> = map unat ?p" by (simp add: strip_unat dropWhile_idem)
  finally have "map of_nat (strip es) = ?p" by (simp add: comp_def)
  moreover have "replicate z 0 @ ?p = p"
    using takeWhile_eq_all_conv takeWhile_dropWhile_id [of "\<lambda>b. b = 0" p] unfolding z_def
    by (metis (mono_tags, lifting) replicate_length_same set_takeWhileD)
  ultimately show ?thesis using es(3) by simp
qed

lemma encode_decoded:
  assumes "DecodeBase58 s = Inr (Some p)"
  shows "\<exists>l w r. s = l @ w @ r \<and> (\<forall>c\<in>set l \<union> set r. isspace c) \<and> EncodeBase58 p = Inr w"
proof -
  define t where "t = dropWhile isspace s"
  define v where "v = dropWhile (\<lambda>c. c = one) t"
  define z where "z = length (takeWhile (\<lambda>c. c = one) t)"
  define r where "r = dropWhile (\<lambda>c. \<not> isspace c) v"
  let ?ok = "set (word_of v) \<subseteq> set pszBase58 \<and> (\<forall>c\<in>set r. isspace c)"
  obtain ds where d: "\<forall>d\<in>set ds. d < 256" "set (word_of v) \<subseteq> set pszBase58 \<longrightarrow> be_val 256 ds = be_val 58 (digits_of (word_of v))"
      "DecodeBase58 s = (if ?ok then Inr (Some (replicate z 0 @ map of_nat (strip ds))) else Inr None)"
    using DecodeBase58_parts [of s] unfolding t_def [symmetric] v_def [symmetric] z_def [symmetric] r_def [symmetric] by blast
  have ok: ?ok
  proof (rule ccontr)
    assume "\<not> ?ok"
    then show False using d(3) assms by (simp only: if_False) simp
  qed
  then have "p = replicate z 0 @ map of_nat (strip ds)" using d(3) assms by (simp only: if_P) simp
  note ds = d(1) mp [OF d(2) conjunct1 [OF ok]] this conjunct1 [OF ok] conjunct2 [OF ok]
  have s: "s = takeWhile isspace s @ (replicate z one @ word_of v) @ r"
  proof -
    have "replicate (length (takeWhile (\<lambda>c. c = one) t)) one = takeWhile (\<lambda>c. c = one) t"
      by (rule replicate_length_same) (auto dest: set_takeWhileD)
    then have t: "t = replicate z one @ v" unfolding z_def v_def by (simp only: takeWhile_dropWhile_id)
    have "s = takeWhile isspace s @ t" "v = word_of v @ r" by (simp_all only: t_def r_def takeWhile_dropWhile_id)
    then show ?thesis using t by (metis append_assoc)
  qed
  have b: "\<forall>d\<in>set (strip ds). d < 256" using ds(1) in_strip by blast
  have ns: "strip (strip ds) = strip ds" by (simp add: dropWhile_idem)
  have p0: "takeWhile (\<lambda>b. b = 0) p = replicate z 0" "dropWhile (\<lambda>b. b = 0) p = map of_nat (strip ds)"
  proof -
    have "dropWhile (\<lambda>b. b = 0) (map of_nat (strip ds) :: bytes) = map of_nat (strip ds)" using bytes_of_digits(2) [OF b] by (simp only: ns)
    moreover from this have "takeWhile (\<lambda>b. b = 0) (map of_nat (strip ds) :: bytes) = []"
      by (metis append_self_conv2 takeWhile_dropWhile_id append_same_eq self_append_conv2)
    ultimately show "takeWhile (\<lambda>b. b = 0) p = replicate z 0" "dropWhile (\<lambda>b. b = 0) p = map of_nat (strip ds)"
      by (simp_all add: ds(3) takeWhile_append dropWhile_append)
  qed
  obtain es where es: "\<forall>d\<in>set es. d < 58" "be_val 58 es = be_val 256 (strip ds)"
      "EncodeBase58 p = Inr (replicate z one @ map (\<lambda>d. pszBase58 ! d) (strip es))"
    using EncodeBase58_digits [of p] unfolding p0 bytes_of_digits(1) [OF b] by auto
  have dg: "map (\<lambda>d. pszBase58 ! d) (digits_of (word_of v)) = word_of v" "\<forall>d\<in>set (digits_of (word_of v)). d < 58"
    using digits_of_alphabet [OF ds(4)] by blast+
  have "strip es = strip (digits_of (word_of v))"
    by (rule strip_unique [where base = 58]) (use es(1,2) ds(2) dg(2) in \<open>simp_all add: be_val_strip\<close>)
  also have "\<dots> = digits_of (word_of v)"
  proof (cases "word_of v")
    case (Cons c cs)
    then have "c = hd v" "v \<noteq> []" by (cases v; auto split: if_splits)+
    then have "c \<noteq> one" using hd_dropWhile [of "\<lambda>c. c = one" t] unfolding v_def by simp
    then have "hd (digits_of (word_of v)) \<noteq> 0" using dg Cons digit_1 [of "the (strchr pszBase58 c)"] by (auto simp: digits_of_def)
    then show ?thesis using Cons by (intro strip_eq_self) (auto simp: digits_of_def)
  qed (simp add: digits_of_def)
  finally have "EncodeBase58 p = Inr (replicate z one @ word_of v)" using es(3) dg(1) by simp
  moreover have "\<forall>c\<in>set (takeWhile isspace s) \<union> set r. isspace c" using ds(5) by (auto dest: set_takeWhileD)
  ultimately show ?thesis using s by blast
qed

text \<open>
  C19. The conversions of base 58 never fail their assertions, whatever they are given: the vectors
  that they allocate are large enough. Every byte string has exactly one encoding, and a string
  decodes to a byte string exactly when it is this encoding between spaces.
\<close>

theorem Base58_bijection:
  "(\<exists>w. EncodeBase58 p = Inr w) \<and> (\<exists>d. DecodeBase58 s = Inr d)
    \<and> (DecodeBase58 s = Inr (Some p) \<longleftrightarrow> (\<exists>l w r. s = l @ w @ r \<and> (\<forall>c\<in>set (l @ r). isspace c) \<and> EncodeBase58 p = Inr w))"
proof (intro conjI iffI)
  show "\<exists>w. EncodeBase58 p = Inr w" using EncodeBase58_digits [of p] by blast
  show "\<exists>d. DecodeBase58 s = Inr d" using DecodeBase58_parts [of s] by metis
  show "\<exists>l w r. s = l @ w @ r \<and> (\<forall>c\<in>set (l @ r). isspace c) \<and> EncodeBase58 p = Inr w" if "DecodeBase58 s = Inr (Some p)"
    using encode_decoded [OF that] unfolding set_append .
  show "DecodeBase58 s = Inr (Some p)"
    if "\<exists>l w r. s = l @ w @ r \<and> (\<forall>c\<in>set (l @ r). isspace c) \<and> EncodeBase58 p = Inr w"
    using that decode_encoded [of p] unfolding set_append by blast
qed

lemma Base58_bijection_witness:
  "EncodeBase58 [0, 0x61, 0x62] = Inr ''18Qq'' \<and> DecodeBase58 '' 18Qq '' = Inr (Some [0, 0x61, 0x62])"
proof -
  have r2: "replicate 2 (0 :: nat) = [0, 0]" by (simp add: numeral_2_eq_2)
  have e: "EncodeBase58 [0, 0x61, 0x62] = Inr ''18Qq''"
    by (simp add: EncodeBase58_def Let_def pszBase58_def r2)
  moreover have "\<forall>c\<in>set ('' '' @ '' ''). isspace c" by code_simp
  moreover have "'' 18Qq '' = '' '' @ ''18Qq'' @ '' ''" by simp
  ultimately show ?thesis using Base58_bijection [of "[0, 0x61, 0x62]" "'' 18Qq ''"] by blast
qed

section \<open>Checksums\<close>

record base58_params =
  addresschecksumvalue :: int
  PUBKEY_ADDRESS :: bytes
  SCRIPT_ADDRESS :: bytes
  SECRET_KEY :: bytes

text \<open>The 32 bytes of the hash of one range. What is in the new hasher's buffer does not matter (\<open>Hash_ranges_double\<close>).\<close>

definition Hash_range :: "bytes \<Rightarrow> bytes" where
  "Hash_range m = Hash_ranges (replicate 64 0) [m]"

definition checksum :: "base58_params \<Rightarrow> bytes \<Rightarrow> bytes" where
  "checksum ps m =
     (let sum = (of_nat (le_val (take 4 (Hash_range m))) :: u32)
      in le_bytes 4 (unat (sum XOR word_of_int (addresschecksumvalue ps))))"

definition EncodeBase58Check :: "base58_params \<Rightarrow> bytes \<Rightarrow> string cpp" where
  "EncodeBase58Check ps vchIn = EncodeBase58 (vchIn @ checksum ps vchIn)"

definition DecodeBase58Check :: "base58_params \<Rightarrow> string \<Rightarrow> bytes option cpp" where
  "DecodeBase58Check ps psz =
     bind_cpp (DecodeBase58 psz) (\<lambda>r. case r of
        None \<Rightarrow> Inr None
      | Some vch \<Rightarrow>
          if length vch < 4 then Inr None
          else if checksum ps (take (length vch - 4) vch) \<noteq> drop (length vch - 4) vch then Inr None
          else Inr (Some (take (length vch - 4) vch)))"

section \<open>\<open>CBase58Data\<close>\<close>

record CBase58Data =
  vchVersion :: bytes
  vchData :: bytes

definition SetData :: "bytes \<Rightarrow> bytes \<Rightarrow> CBase58Data" where
  "SetData vchVersionIn pdata = \<lparr>vchVersion = vchVersionIn, vchData = pdata\<rparr>"

text \<open>How much data follows version byte \<open>i\<close>: \<open>shift\<close> bytes, and all the rest after the last one.\<close>

definition part_size :: "nat \<Rightarrow> nat \<Rightarrow> nat \<Rightarrow> nat \<Rightarrow> nat" where
  "part_size n shift tot i = (if i = n - 1 then tot - i * shift else shift)"

definition split_parts :: "nat \<Rightarrow> bytes \<Rightarrow> CBase58Data" where
  "split_parts n vch =
     (let tot = length vch - n; shift = tot div n;
          r = fold (\<lambda>i (version, data).
                (version[i := vch ! (i * (shift + 1))],
                 put_bytes data (i * shift) (take (part_size n shift tot i) (drop (i * (shift + 1) + 1) vch))))
              [0..<n] (replicate n 0, replicate tot 0)
      in \<lparr>vchVersion = fst r, vchData = snd r\<rparr>)"

text \<open>Without version bytes the sizes of the parts are a division by zero.\<close>

definition SetString :: "base58_params \<Rightarrow> string \<Rightarrow> nat \<Rightarrow> (bool \<times> CBase58Data) cpp" where
  "SetString ps psz nVersionBytes =
     bind_cpp (DecodeBase58Check ps psz) (\<lambda>r. case r of
        None \<Rightarrow> Inr (False, \<lparr>vchVersion = [], vchData = []\<rparr>)
      | Some vchTemp \<Rightarrow>
          if length vchTemp < nVersionBytes then Inr (False, \<lparr>vchVersion = [], vchData = []\<rparr>)
          else if nVersionBytes = 0 then Inl DivideByZero
          else Inr (True, split_parts nVersionBytes vchTemp))"

text \<open>The overload for \<open>std::string\<close>, which may hold zero characters.\<close>

definition SetString_str :: "base58_params \<Rightarrow> string \<Rightarrow> (bool \<times> CBase58Data) cpp" where
  "SetString_str ps str = SetString ps (takeWhile (\<lambda>c. c \<noteq> CHR 0x00) str) (length (PUBKEY_ADDRESS ps))"

definition join_parts :: "CBase58Data \<Rightarrow> bytes" where
  "join_parts d =
     (let n = length (vchVersion d); tot = length (vchData d); shift = tot div n
      in fold (\<lambda>i vch. put_bytes (vch[i * (shift + 1) := vchVersion d ! i]) (i * (shift + 1) + 1)
                 (take (part_size n shift tot i) (drop (i * shift) (vchData d))))
           [0..<n] (replicate (tot + n) 0))"

definition ToString :: "base58_params \<Rightarrow> CBase58Data \<Rightarrow> string cpp" where
  "ToString ps d = (if vchVersion d = [] then Inl DivideByZero else EncodeBase58Check ps (join_parts d))"

section \<open>\<open>CBitcoinAddress\<close>\<close>

fun Set_dest :: "base58_params \<Rightarrow> CTxDestination \<Rightarrow> CBase58Data \<Rightarrow> bool \<times> CBase58Data" where
  "Set_dest ps (CKeyID h) d = (True, SetData (PUBKEY_ADDRESS ps) h)"
| "Set_dest ps (CScriptID h) d = (True, SetData (SCRIPT_ADDRESS ps) h)"
| "Set_dest ps CNoDestination d = (False, d)"

definition addr_IsValid :: "base58_params \<Rightarrow> CBase58Data \<Rightarrow> bool" where
  "addr_IsValid ps d \<longleftrightarrow> length (vchData d) = 20 \<and> (vchVersion d = PUBKEY_ADDRESS ps \<or> vchVersion d = SCRIPT_ADDRESS ps)"

definition addr_Get :: "base58_params \<Rightarrow> CBase58Data \<Rightarrow> CTxDestination" where
  "addr_Get ps d =
     (if \<not> addr_IsValid ps d then CNoDestination
      else if vchVersion d = PUBKEY_ADDRESS ps then CKeyID (vchData d)
      else if vchVersion d = SCRIPT_ADDRESS ps then CScriptID (vchData d)
      else CNoDestination)"

definition addr_GetKeyID :: "base58_params \<Rightarrow> CBase58Data \<Rightarrow> bytes option" where
  "addr_GetKeyID ps d = (if \<not> addr_IsValid ps d \<or> vchVersion d \<noteq> PUBKEY_ADDRESS ps then None else Some (vchData d))"

definition addr_GetScriptID :: "base58_params \<Rightarrow> CBase58Data \<Rightarrow> bytes option" where
  "addr_GetScriptID ps d = (if \<not> addr_IsValid ps d \<or> vchVersion d \<noteq> SCRIPT_ADDRESS ps then None else Some (vchData d))"

definition addr_GetIndexKey :: "base58_params \<Rightarrow> CBase58Data \<Rightarrow> (bytes \<times> int) option" where
  "addr_GetIndexKey ps d =
     (if \<not> addr_IsValid ps d then None
      else if vchVersion d = PUBKEY_ADDRESS ps then Some (vchData d, 1)
      else if vchVersion d = SCRIPT_ADDRESS ps then Some (vchData d, 2)
      else None)"

definition addr_IsScript :: "base58_params \<Rightarrow> CBase58Data \<Rightarrow> bool" where
  "addr_IsScript ps d \<longleftrightarrow> addr_IsValid ps d \<and> vchVersion d = SCRIPT_ADDRESS ps"

section \<open>Round trips\<close>

lemma length_checksum [simp]: "length (checksum ps m) = 4"
  by (simp add: checksum_def Let_def)

lemma Base58Check_roundtrip:
  "\<exists>w. EncodeBase58Check ps m = Inr w \<and> DecodeBase58Check ps w = Inr (Some m)"
proof -
  obtain w where w: "EncodeBase58 (m @ checksum ps m) = Inr w" using EncodeBase58_digits by blast
  then have "DecodeBase58 w = Inr (Some (m @ checksum ps m))" using decode_encoded [OF w, of "[]" "[]"] by simp
  then show ?thesis using w by (simp add: EncodeBase58Check_def DecodeBase58Check_def)
qed

text \<open>The bytes of the first \<open>k\<close> parts, and those of their data.\<close>

definition part :: "CBase58Data \<Rightarrow> nat \<Rightarrow> bytes" where
  "part d i = (let n = length (vchVersion d); tot = length (vchData d); shift = tot div n
     in take (part_size n shift tot i) (drop (i * shift) (vchData d)))"

definition parts :: "CBase58Data \<Rightarrow> nat \<Rightarrow> bytes" where
  "parts d k = concat (map (\<lambda>i. vchVersion d ! i # part d i) [0..<k])"

lemma parts_Suc: "parts d (Suc k) = parts d k @ vchVersion d ! k # part d k"
  by (simp add: parts_def)

lemma length_part:
  assumes "i < length (vchVersion d)"
  shows "length (part d i) = part_size (length (vchVersion d)) (length (vchData d) div length (vchVersion d)) (length (vchData d)) i"
proof -
  let ?n = "length (vchVersion d)" and ?t = "length (vchData d)"
  have "Suc i * (?t div ?n) \<le> ?n * (?t div ?n)" using assms by (intro mult_le_mono1) simp
  also have "\<dots> \<le> ?t" by simp
  finally have "i * (?t div ?n) + ?t div ?n \<le> ?t" by simp
  then show ?thesis by (simp add: part_def Let_def part_size_def)
qed

lemma length_parts:
  assumes "k < length (vchVersion d)"
  shows "length (parts d k) = k * (length (vchData d) div length (vchVersion d) + 1)"
  using assms
proof (induction k)
  case (Suc k)
  then show ?case by (simp add: parts_Suc length_part part_size_def)
qed (simp add: parts_def)

lemma part_prefix:
  assumes "k < length (vchVersion d)"
  shows "concat (map (part d) [0..<k]) = take (k * (length (vchData d) div length (vchVersion d))) (vchData d)"
  using assms
proof (induction k)
  case (Suc k)
  then have "part d k = take (length (vchData d) div length (vchVersion d)) (drop (k * (length (vchData d) div length (vchVersion d))) (vchData d))"
    by (simp add: part_def Let_def part_size_def)
  then show ?case using Suc by (simp add: add.commute flip: take_add)
qed simp

lemma part_last: "n = length (vchVersion d) \<Longrightarrow> 0 < n \<Longrightarrow> part d (n - 1) = drop ((n - 1) * (length (vchData d) div n)) (vchData d)"
  by (simp add: part_def Let_def part_size_def)

lemma concat_parts_data:
  assumes "vchVersion d \<noteq> []"
  shows "concat (map (part d) [0..<length (vchVersion d)]) = vchData d"
proof -
  obtain m where m: "length (vchVersion d) = Suc m" using assms by (cases "vchVersion d") auto
  then show ?thesis using part_prefix [of m d] part_last [of "Suc m" d] by simp
qed

lemma length_all_parts:
  assumes "vchVersion d \<noteq> []"
  shows "length (parts d (length (vchVersion d))) = length (vchData d) + length (vchVersion d)"
proof -
  have "length (parts d k) = length (concat (map (part d) [0..<k])) + k" for k
    by (induction k) (simp_all add: parts_def)
  then show ?thesis using concat_parts_data [OF assms] by simp
qed

lemma parts_split:
  assumes "i < n"
  shows "\<exists>rest. parts d n = parts d i @ vchVersion d ! i # part d i @ rest"
proof -
  have "[0..<n] = [0..<i] @ i # [Suc i..<n]" using assms upt_conv_Cons [of i n] upt_add_eq_append [of 0 i "n - i"] by simp
  then show ?thesis by (auto simp: parts_def)
qed

lemma put_zeros:
  "pos = length p \<Longrightarrow> length c \<le> m \<Longrightarrow> put_bytes (p @ replicate m 0) pos c = p @ c @ replicate (m - length c) 0"
  by (simp add: put_bytes_def)

lemma join_parts_value:
  assumes "vchVersion d \<noteq> []"
  shows "join_parts d = parts d (length (vchVersion d))"
proof -
  let ?n = "length (vchVersion d)" and ?t = "length (vchData d)"
  let ?s = "?t div ?n"
  let ?f = "\<lambda>i vch. put_bytes (vch[i * (?s + 1) := vchVersion d ! i]) (i * (?s + 1) + 1)
                 (take (part_size ?n ?s ?t i) (drop (i * ?s) (vchData d)))"
  have "fold ?f [0..<k] (replicate (?t + ?n) 0) = parts d k @ replicate (?t + ?n - length (parts d k)) 0" if "k \<le> ?n" for k
    using that
  proof (induction k)
    case (Suc k)
    let ?m = "?t + ?n - length (parts d k)"
    have pos: "k * (?s + 1) = length (parts d k)" using length_parts [of k d] Suc.prems by simp
    obtain rest where "parts d ?n = parts d k @ vchVersion d ! k # part d k @ rest" using parts_split [of k ?n d] Suc.prems by auto
    then have len: "length (parts d k) + Suc (length (part d k)) \<le> ?t + ?n"
      using length_all_parts [OF assms] by (metis add.assoc add_Suc_right le_add1 length_append length_Cons append_Cons)
    then obtain m where m: "?m = Suc m" "length (part d k) \<le> m" by (intro that [of "?m - 1"]) simp_all
    have "fold ?f [0..<Suc k] (replicate (?t + ?n) 0) = ?f k (parts d k @ replicate ?m 0)" using Suc by simp
    also have "\<dots> = put_bytes ((parts d k @ replicate (Suc m) 0)[length (parts d k) := vchVersion d ! k]) (length (parts d k) + 1) (part d k)"
      unfolding pos m(1) part_def Let_def ..
    also have "\<dots> = put_bytes ((parts d k @ [vchVersion d ! k]) @ replicate m 0) (length (parts d k) + 1) (part d k)"
      by (simp add: list_update_append)
    also have "\<dots> = (parts d k @ [vchVersion d ! k]) @ part d k @ replicate (m - length (part d k)) 0"
      using m(2) by (intro put_zeros) simp_all
    also have "m - length (part d k) = ?t + ?n - length (parts d (Suc k))" using m(1) by (simp add: parts_Suc)
    finally show ?case by (simp add: parts_Suc)
  qed (simp add: parts_def)
  from this [OF order_refl] show ?thesis using length_all_parts [OF assms] by (simp add: join_parts_def Let_def)
qed

lemma split_parts_join:
  assumes "vchVersion d \<noteq> []"
  shows "split_parts (length (vchVersion d)) (parts d (length (vchVersion d))) = d"
proof -
  let ?n = "length (vchVersion d)" and ?t = "length (vchData d)" and ?v = "parts d (length (vchVersion d))"
  let ?s = "?t div ?n"
  let ?f = "\<lambda>i (version, data). (version[i := ?v ! (i * (?s + 1))],
                 put_bytes data (i * ?s) (take (part_size ?n ?s ?t i) (drop (i * (?s + 1) + 1) ?v)))"
  let ?c = "\<lambda>k. concat (map (part d) [0..<k])"
  have "fold ?f [0..<k] (replicate ?n 0, replicate ?t 0)
      = (take k (vchVersion d) @ replicate (?n - k) 0, ?c k @ replicate (?t - length (?c k)) 0)" if "k \<le> ?n" for k
    using that
  proof (induction k)
    case (Suc k)
    have pos: "k * (?s + 1) = length (parts d k)" "k * ?s = length (?c k)"
    proof -
      show "k * (?s + 1) = length (parts d k)" using length_parts [of k d] Suc.prems by simp
      have "k * ?s \<le> ?n * ?s" using Suc.prems by (intro mult_le_mono1) simp
      also have "\<dots> \<le> ?t" by simp
      finally show "k * ?s = length (?c k)" using part_prefix [of k d] Suc.prems by simp
    qed
    obtain rest where v: "?v = parts d k @ vchVersion d ! k # part d k @ rest" using parts_split [of k ?n d] Suc.prems by auto
    have x: "?v ! (k * (?s + 1)) = vchVersion d ! k" unfolding pos v by simp
    have "drop (k * (?s + 1) + 1) ?v = part d k @ rest" unfolding pos v by simp
    then have y: "take (part_size ?n ?s ?t k) (drop (k * (?s + 1) + 1) ?v) = part d k"
      using length_part [of k d] Suc.prems by simp
    have "length (?c (Suc k)) \<le> ?t"
    proof -
      have "[0..<?n] = [0..<Suc k] @ [Suc k..<?n]" using Suc.prems by (metis upt_add_eq_append le0 le_add_diff_inverse)
      then have "?c ?n = ?c (Suc k) @ concat (map (part d) [Suc k..<?n])" by (simp only: map_append concat_append)
      then show ?thesis using concat_parts_data [OF assms] by (metis le_add1 length_append)
    qed
    then have "put_bytes (?c k @ replicate (?t - length (?c k)) 0) (k * ?s) (part d k) = ?c (Suc k) @ replicate (?t - length (?c (Suc k))) 0"
      using put_zeros [of "k * ?s" "?c k" "part d k" "?t - length (?c k)"] pos(2) by simp
    moreover have "(take k (vchVersion d) @ replicate (?n - k) 0)[k := vchVersion d ! k] = take (Suc k) (vchVersion d) @ replicate (?n - Suc k) 0"
    proof -
      obtain m where m: "?n - k = Suc m" using Suc.prems by (metis Suc_diff_Suc Suc_le_lessD)
      then show ?thesis using Suc.prems by (simp add: list_update_append take_Suc_conv_app_nth)
    qed
    ultimately show ?case using Suc x y by simp
  qed simp
  from this [OF order_refl] have "fold ?f [0..<?n] (replicate ?n 0, replicate ?t 0) = (vchVersion d, vchData d)"
    using concat_parts_data [OF assms] by simp
  then show ?thesis using length_all_parts [OF assms] by (simp add: split_parts_def Let_def)
qed

lemma ToString_SetString:
  assumes "vchVersion d \<noteq> []"
  shows "\<exists>w. ToString ps d = Inr w \<and> SetString ps w (length (vchVersion d)) = Inr (True, d)"
proof -
  obtain w where w: "EncodeBase58Check ps (join_parts d) = Inr w" "DecodeBase58Check ps w = Inr (Some (join_parts d))"
    using Base58Check_roundtrip by blast
  have "length (join_parts d) = length (vchData d) + length (vchVersion d)"
    using length_all_parts [OF assms] join_parts_value [OF assms] by simp
  then have "SetString ps w (length (vchVersion d)) = Inr (True, d)"
    using w(2) assms split_parts_join [OF assms] join_parts_value [OF assms] by (simp add: SetString_def)
  then show ?thesis using w(1) assms by (simp add: ToString_def)
qed

lemma encoded_chars:
  assumes "EncodeBase58 p = Inr w"
  shows "CHR 0x00 \<notin> set w"
proof -
  obtain ds where ds: "\<forall>d\<in>set ds. d < 58"
      "w = replicate (length (takeWhile (\<lambda>b. b = 0) p)) one @ map (\<lambda>d. pszBase58 ! d) (strip ds)"
    using EncodeBase58_digits [of p] assms by auto
  have "CHR 0x00 \<notin> set pszBase58" by (simp add: pszBase58_def)
  moreover have "set (map (\<lambda>d. pszBase58 ! d) (strip ds)) \<subseteq> set pszBase58"
    using ds(1) in_strip [of _ ds] length_alphabet by auto
  ultimately show ?thesis using ds(2) by auto
qed

lemma DecodeBase58Check_sound:
  assumes "DecodeBase58Check ps s = Inr (Some m)"
  shows "\<exists>l w r. s = l @ w @ r \<and> (\<forall>c\<in>set l \<union> set r. isspace c) \<and> EncodeBase58Check ps m = Inr w"
proof -
  obtain p where "DecodeBase58 s = Inr (Some p)" "m = take (length p - 4) p" "checksum ps m = drop (length p - 4) p"
    using assms by (auto simp: DecodeBase58Check_def bind_cpp_eq_Inr split: option.splits if_splits)
  then show ?thesis using encode_decoded [of s p] by (simp add: EncodeBase58Check_def)
qed

text \<open>
  C20. An address written by the code is read back: where the two version prefixes differ and have the
  same nonzero length, \<open>ToString\<close> of the address of a key or script hash is a string that \<open>SetString\<close>
  accepts, and \<open>Get\<close> then returns the destination.
\<close>

theorem address_roundtrip:
  assumes "dest = CKeyID h \<or> dest = CScriptID h" "length h = 20"
    "length (PUBKEY_ADDRESS ps) = length (SCRIPT_ADDRESS ps)" "PUBKEY_ADDRESS ps \<noteq> SCRIPT_ADDRESS ps"
  shows "\<exists>str addr. ToString ps (snd (Set_dest ps dest d)) = Inr str \<and> SetString_str ps str = Inr (True, addr)
    \<and> addr_IsValid ps addr \<and> addr_Get ps addr = dest"
proof -
  let ?a = "snd (Set_dest ps dest d)"
  have a: "length (vchVersion ?a) = length (PUBKEY_ADDRESS ps)" "addr_IsValid ps ?a" "addr_Get ps ?a = dest"
    using assms by (auto simp: SetData_def addr_IsValid_def addr_Get_def)
  have "PUBKEY_ADDRESS ps \<noteq> []" using assms(3,4) by auto
  then have "vchVersion ?a \<noteq> []" using a(1) by auto
  from ToString_SetString [OF this, of ps] obtain w where
      w: "ToString ps ?a = Inr w" "SetString ps w (length (vchVersion ?a)) = Inr (True, ?a)" by blast
  have "CHR 0x00 \<notin> set w"
    using w(1) encoded_chars unfolding ToString_def EncodeBase58Check_def by (metis sum.distinct(1))
  then have "takeWhile (\<lambda>c. c \<noteq> CHR 0x00) w = w" unfolding takeWhile_eq_all_conv by blast
  then have "SetString_str ps w = Inr (True, ?a)" using w(2) unfolding SetString_str_def a(1) by (simp only:)
  then show ?thesis using w(1) a(2,3) by blast
qed

definition example_base58 :: base58_params where
  "example_base58 = \<lparr>addresschecksumvalue = 0, PUBKEY_ADDRESS = [0x00, 0x1F], SCRIPT_ADDRESS = [0x05, 0x1F], SECRET_KEY = [0x80]\<rparr>"

lemma address_roundtrip_witness:
  "\<exists>str addr. ToString example_base58 (snd (Set_dest example_base58 (CScriptID (replicate 20 7)) (SetData [] []))) = Inr str
    \<and> SetString_str example_base58 str = Inr (True, addr) \<and> addr_IsValid example_base58 addr
    \<and> addr_Get example_base58 addr = CScriptID (replicate 20 7)"
  by (rule address_roundtrip [of _ "replicate 20 7"]) (simp_all add: example_base58_def)

end
