(* ===== verification/Bloom.thy ===== *)
theory Bloom
  imports Blocks Standard
begin

text \<open>
  Bloom filters (\<^verbatim>\<open>structs/bloom.cpp\<close>, \<open>MurmurHash3\<close> of \<^verbatim>\<open>structs/hash.cpp\<close>), the filtered blocks of
  \<^verbatim>\<open>chain/merkleblock.cpp\<close> and the messages of a peer that change its filter (\<^verbatim>\<open>core/main.cpp\<close>). A
  filter of no bytes would be indexed modulo zero: this is proved unreachable for a peer. A filter never
  misses what was put in, and with \<open>BLOOM_UPDATE_ALL\<close> it follows an output that it has matched to the
  transaction that spends it. The constructor that computes a size from a false positive rate, in
  floating point, is not modelled: the node only receives filters.
\<close>

unbundle bit_operations_syntax

section \<open>\<open>MurmurHash3\<close>\<close>

definition ROTL32 :: "u32 \<Rightarrow> nat \<Rightarrow> u32" where
  "ROTL32 x r = push_bit r x OR drop_bit (32 - r) x"

abbreviation (input) "murmur_c1 \<equiv> (0xcc9e2d51 :: u32)"
abbreviation (input) "murmur_c2 \<equiv> (0x1b873593 :: u32)"

text \<open>The blocks of four bytes, read little endian; what is left is the tail.\<close>

fun murmur_body :: "u32 \<Rightarrow> bytes \<Rightarrow> u32 \<times> bytes" where
  "murmur_body h1 (a # b # c # d # rest) =
     (let k1 = (of_nat (le_val [a, b, c, d]) :: u32);
          k1 = k1 * murmur_c1; k1 = ROTL32 k1 15; k1 = k1 * murmur_c2;
          h1 = h1 XOR k1; h1 = ROTL32 h1 13; h1 = h1 * 5 + 0xe6546b64
      in murmur_body h1 rest)"
| "murmur_body h1 tail = (h1, tail)"

definition murmur_tail :: "u32 \<Rightarrow> bytes \<Rightarrow> u32" where
  "murmur_tail h1 tail =
     (if tail = [] then h1
      else let k1 = 0;
               k1 = (if length tail = 3 then k1 XOR push_bit 16 (ucast (tail ! 2)) else k1);
               k1 = (if length tail \<ge> 2 then k1 XOR push_bit 8 (ucast (tail ! 1)) else k1);
               k1 = k1 XOR ucast (tail ! 0);
               k1 = k1 * murmur_c1; k1 = ROTL32 k1 15; k1 = k1 * murmur_c2
           in h1 XOR k1)"

definition MurmurHash3 :: "u32 \<Rightarrow> bytes \<Rightarrow> u32" where
  "MurmurHash3 nHashSeed vDataToHash =
     (let (h1, tail) = murmur_body nHashSeed vDataToHash;
          h1 = murmur_tail h1 tail;
          h1 = h1 XOR of_nat (length vDataToHash);
          h1 = h1 XOR drop_bit 16 h1; h1 = h1 * 0x85ebca6b;
          h1 = h1 XOR drop_bit 13 h1; h1 = h1 * 0xc2b2ae35
      in h1 XOR drop_bit 16 h1)"

text \<open>Known values: no tail, a tail of three bytes, a block and a tail.\<close>

lemma MurmurHash3_values:
  "MurmurHash3 0xFBA4C795 [] = 0x6a396f08" "MurmurHash3 0 [0, 0x11, 0x22] = 0x8eb51c3d"
  "MurmurHash3 0 [0, 0x11, 0x22, 0x33, 0x44] = 0xe2301fa8"
  by (simp_all add: MurmurHash3_def murmur_tail_def ROTL32_def Let_def)

section \<open>Filters\<close>

record CBloomFilter =
  f_vData :: bytes
  isFull :: bool
  isEmpty :: bool
  nHashFuncs :: u32
  nTweak :: u32
  nFlags :: byte

definition CBloomFilter_new :: CBloomFilter where
  "CBloomFilter_new = \<lparr>f_vData = [], isFull = True, isEmpty = False, nHashFuncs = 0, nTweak = 0, nFlags = 0\<rparr>"

abbreviation (input) "MAX_BLOOM_FILTER_SIZE \<equiv> (36000 :: nat)"
abbreviation (input) "MAX_HASH_FUNCS \<equiv> (50 :: u32)"
abbreviation (input) "BLOOM_UPDATE_ALL \<equiv> (1 :: byte)"
abbreviation (input) "BLOOM_UPDATE_P2PUBKEY_ONLY \<equiv> (2 :: byte)"
abbreviation (input) "BLOOM_UPDATE_MASK \<equiv> (3 :: byte)"

text \<open>The number of bits is a 64-bit \<open>size_t\<close>; the remainder fits in 32 bits.\<close>

definition filter_Hash :: "CBloomFilter \<Rightarrow> nat \<Rightarrow> bytes \<Rightarrow> nat cpp" where
  "filter_Hash f nHashNum vDataToHash =
     (if f_vData f = [] then Inl DivideByZero
      else Inr (unat (MurmurHash3 (of_nat nHashNum * 0xFBA4C795 + nTweak f) vDataToHash) mod (length (f_vData f) * 8)))"

definition set_bit_at :: "bytes \<Rightarrow> nat \<Rightarrow> bytes" where
  "set_bit_at data n = data[n div 8 := data ! (n div 8) OR push_bit (n mod 8) 1]"

definition test_bit_at :: "bytes \<Rightarrow> nat \<Rightarrow> bool" where
  "test_bit_at data n \<longleftrightarrow> data ! (n div 8) AND push_bit (n mod 8) 1 \<noteq> 0"

fun insert_loop :: "nat list \<Rightarrow> bytes \<Rightarrow> CBloomFilter \<Rightarrow> CBloomFilter cpp" where
  "insert_loop [] vKey f = Inr f"
| "insert_loop (i # js) vKey f =
     bind_cpp (filter_Hash f i vKey) (\<lambda>n. insert_loop js vKey (f\<lparr>f_vData := set_bit_at (f_vData f) n\<rparr>))"

definition filter_insert :: "bytes \<Rightarrow> CBloomFilter \<Rightarrow> CBloomFilter cpp" where
  "filter_insert vKey f =
     (if isFull f then Inr f
      else bind_cpp (insert_loop [0..<unat (nHashFuncs f)] vKey f) (\<lambda>f. Inr (f\<lparr>isEmpty := False\<rparr>)))"

fun contains_loop :: "nat list \<Rightarrow> bytes \<Rightarrow> CBloomFilter \<Rightarrow> bool cpp" where
  "contains_loop [] vKey f = Inr True"
| "contains_loop (i # js) vKey f =
     bind_cpp (filter_Hash f i vKey) (\<lambda>n. if \<not> test_bit_at (f_vData f) n then Inr False else contains_loop js vKey f)"

definition filter_contains :: "bytes \<Rightarrow> CBloomFilter \<Rightarrow> bool cpp" where
  "filter_contains vKey f =
     (if isFull f then Inr True
      else if isEmpty f then Inr False
      else contains_loop [0..<unat (nHashFuncs f)] vKey f)"

definition filter_clear :: "CBloomFilter \<Rightarrow> CBloomFilter" where
  "filter_clear f = f\<lparr>f_vData := replicate (length (f_vData f)) 0, isFull := False, isEmpty := True\<rparr>"

definition IsWithinSizeConstraints :: "CBloomFilter \<Rightarrow> bool" where
  "IsWithinSizeConstraints f \<longleftrightarrow> length (f_vData f) \<le> MAX_BLOOM_FILTER_SIZE \<and> nHashFuncs f \<le> MAX_HASH_FUNCS"

definition UpdateEmptyFull :: "CBloomFilter \<Rightarrow> CBloomFilter" where
  "UpdateEmptyFull f = f\<lparr>isFull := list_all (\<lambda>b. b = 0xff) (f_vData f), isEmpty := list_all (\<lambda>b. b = 0) (f_vData f)\<rparr>"

section \<open>Relevant transactions\<close>

text \<open>The loop over a script that looks for an element in the filter.\<close>

function data_match :: "CBloomFilter \<Rightarrow> bytes \<Rightarrow> bool cpp" where
  "data_match f pc =
     (if pc = [] then Inr False
      else case GetOp2 pc of (fRet, opcode, data, pc) \<Rightarrow>
        if \<not> fRet then Inr False
        else bind_cpp (if data \<noteq> [] then filter_contains data f else Inr False) (\<lambda>m.
             if m then Inr True else data_match f pc))"
  by pat_completeness auto
termination by (relation "measure (\<lambda>(f, pc). length pc)") (auto dest!: GetOp2_success [OF sym])

declare data_match.simps [simp del]

definition update_output :: "script_env \<Rightarrow> std_params \<Rightarrow> base_uint \<Rightarrow> nat \<Rightarrow> CTxOut \<Rightarrow> CBloomFilter \<Rightarrow> CBloomFilter cpp" where
  "update_output env ps hash i txout f =
     (let outpoint = ser_outpoint \<lparr>out_hash = hash, out_n = of_nat i\<rparr>
      in if nFlags f AND BLOOM_UPDATE_MASK = BLOOM_UPDATE_ALL then filter_insert outpoint f
         else if nFlags f AND BLOOM_UPDATE_MASK = BLOOM_UPDATE_P2PUBKEY_ONLY then
           (case TemplateSolver env ps (scriptPubKey txout) [] of (ok, t, vSolutions) \<Rightarrow>
              if ok \<and> (t = TX_PUBKEY \<or> t = TX_MULTISIG) then filter_insert outpoint f else Inr f)
         else Inr f)"

fun output_matches :: "script_env \<Rightarrow> std_params \<Rightarrow> base_uint \<Rightarrow> nat \<Rightarrow> CTxOut list \<Rightarrow> bool \<Rightarrow> CBloomFilter \<Rightarrow> (bool \<times> CBloomFilter) cpp" where
  "output_matches env ps hash i [] fFound f = Inr (fFound, f)"
| "output_matches env ps hash i (txout # outs) fFound f =
     bind_cpp (data_match f (scriptPubKey txout)) (\<lambda>m.
       if m then bind_cpp (update_output env ps hash i txout f) (\<lambda>f. output_matches env ps hash (i + 1) outs True f)
       else output_matches env ps hash (i + 1) outs fFound f)"

fun input_matches :: "CTxIn list \<Rightarrow> CBloomFilter \<Rightarrow> bool cpp" where
  "input_matches [] f = Inr False"
| "input_matches (txin # ins) f =
     bind_cpp (filter_contains (ser_outpoint (prevout txin)) f) (\<lambda>c.
       if c then Inr True
       else bind_cpp (data_match f (scriptSig txin)) (\<lambda>m. if m then Inr True else input_matches ins f))"

definition IsRelevantAndUpdate ::
    "hash_functions \<Rightarrow> script_env \<Rightarrow> std_params \<Rightarrow> CTransaction \<Rightarrow> CBloomFilter \<Rightarrow> (bool \<times> CBloomFilter) cpp" where
  "IsRelevantAndUpdate hs env ps tx f =
     (if isFull f then Inr (True, f)
      else if isEmpty f then Inr (False, f)
      else let hash = tx_GetHash hs tx in
        bind_cpp (filter_contains (ser_uint256 hash) f) (\<lambda>c.
        bind_cpp (output_matches env ps hash 0 (vout tx) c f) (\<lambda>(fFound, f).
          if fFound then Inr (True, f)
          else bind_cpp (input_matches (vin tx) f) (\<lambda>r. Inr (r, f)))))"

section \<open>Filtered blocks\<close>

record CMerkleBlock =
  mb_header :: CBlockHeader
  mb_txn :: CPartialMerkleTree
  vMatchedTxn :: "(nat \<times> base_uint) list"

fun block_matches :: "hash_functions \<Rightarrow> script_env \<Rightarrow> std_params \<Rightarrow> nat \<Rightarrow> CTransaction list \<Rightarrow> CBloomFilter
    \<Rightarrow> (bool list \<times> (nat \<times> base_uint) list \<times> base_uint list \<times> CBloomFilter) cpp" where
  "block_matches hs env ps i [] f = Inr ([], [], [], f)"
| "block_matches hs env ps i (tx # txs) f =
     (let hash = tx_GetHash hs tx in
      bind_cpp (IsRelevantAndUpdate hs env ps tx f) (\<lambda>(r, f).
      bind_cpp (block_matches hs env ps (i + 1) txs f) (\<lambda>(vMatch, matched, vHashes, f).
        Inr (r # vMatch, (if r then (i, hash) # matched else matched), hash # vHashes, f))))"

definition CMerkleBlock_of :: "hash_functions \<Rightarrow> script_env \<Rightarrow> std_params \<Rightarrow> CBlock \<Rightarrow> CBloomFilter \<Rightarrow> (CMerkleBlock \<times> CBloomFilter) cpp" where
  "CMerkleBlock_of hs env ps block f =
     bind_cpp (block_matches hs env ps 0 (vtx block) f) (\<lambda>(vMatch, matched, vHashes, f).
       Inr (\<lparr>mb_header = GetBlockHeader block, mb_txn = CPartialMerkleTree_of (Hash2 hs) vHashes vMatch, vMatchedTxn = matched\<rparr>, f))"

section \<open>The filter of a peer\<close>

record peer_filter =
  pfilter :: "CBloomFilter option"
  fRelayTxes :: bool
  nMisbehavior :: int

text \<open>
  The messages, with what they carry, and the uses of the filter: a transaction that is relayed or
  listed, a block that is sent filtered. \<open>CNode\<close> starts with a new filter.
\<close>

datatype filter_event =
    filterload bytes u32 u32 byte
  | filteradd bytes
  | filterclear
  | relay_tx CTransaction
  | filtered_block CBlock

definition CNode_filter :: peer_filter where
  "CNode_filter = \<lparr>pfilter = Some CBloomFilter_new, fRelayTxes = False, nMisbehavior = 0\<rparr>"

fun filter_step :: "hash_functions \<Rightarrow> script_env \<Rightarrow> std_params \<Rightarrow> filter_event \<Rightarrow> peer_filter \<Rightarrow> peer_filter cpp" where
  "filter_step hs env ps (filterload data funcs tweak flags) p =
     (let filter = CBloomFilter_new\<lparr>f_vData := data, nHashFuncs := funcs, nTweak := tweak, nFlags := flags\<rparr>;
          p = (if \<not> IsWithinSizeConstraints filter then p\<lparr>nMisbehavior := nMisbehavior p + 100\<rparr>
               else p\<lparr>pfilter := Some (UpdateEmptyFull filter)\<rparr>)
      in Inr (p\<lparr>fRelayTxes := True\<rparr>))"
| "filter_step hs env ps (filteradd vData) p =
     (if length vData > MAX_SCRIPT_ELEMENT_SIZE ps then Inr (p\<lparr>nMisbehavior := nMisbehavior p + 100\<rparr>)
      else case pfilter p of
        Some f \<Rightarrow> bind_cpp (filter_insert vData f) (\<lambda>f. Inr (p\<lparr>pfilter := Some f\<rparr>))
      | None \<Rightarrow> Inr (p\<lparr>nMisbehavior := nMisbehavior p + 100\<rparr>))"
| "filter_step hs env ps filterclear p = Inr (p\<lparr>pfilter := Some CBloomFilter_new, fRelayTxes := True\<rparr>)"
| "filter_step hs env ps (relay_tx tx) p =
     (case pfilter p of
        Some f \<Rightarrow> bind_cpp (IsRelevantAndUpdate hs env ps tx f) (\<lambda>(r, f). Inr (p\<lparr>pfilter := Some f\<rparr>))
      | None \<Rightarrow> Inr p)"
| "filter_step hs env ps (filtered_block block) p =
     (case pfilter p of
        Some f \<Rightarrow> bind_cpp (CMerkleBlock_of hs env ps block f) (\<lambda>(mb, f). Inr (p\<lparr>pfilter := Some f\<rparr>))
      | None \<Rightarrow> Inr p)"

fun filter_run :: "hash_functions \<Rightarrow> script_env \<Rightarrow> std_params \<Rightarrow> filter_event list \<Rightarrow> peer_filter \<Rightarrow> peer_filter cpp" where
  "filter_run hs env ps [] p = Inr p"
| "filter_run hs env ps (e # es) p = bind_cpp (filter_step hs env ps e p) (filter_run hs env ps es)"

section \<open>Bits\<close>

lemma test_bit_at_iff: "test_bit_at data n \<longleftrightarrow> bit (data ! (n div 8)) (n mod 8)"
  by (simp add: test_bit_at_def push_bit_eq_mult and_exp_eq_0_iff_not_bit)

lemma set_bit_at_test: "n div 8 < length data \<Longrightarrow> test_bit_at (set_bit_at data n) m \<longleftrightarrow> m = n \<or> test_bit_at data m"
proof -
  assume l: "n div 8 < length data"
  have "n mod 8 < 8" by simp
  then have "bit (data ! (n div 8) OR push_bit (n mod 8) 1) j \<longleftrightarrow> bit (data ! (n div 8)) j \<or> j = n mod 8" for j
    by (auto simp: bit_or_iff push_bit_eq_mult bit_exp_iff possible_bit_def)
  moreover have "m = n \<longleftrightarrow> m div 8 = n div 8 \<and> m mod 8 = n mod 8" by (metis div_mult_mod_eq)
  ultimately show ?thesis using l by (auto simp: test_bit_at_iff set_bit_at_def nth_list_update)
qed

lemma length_set_bit_at [simp]: "length (set_bit_at data n) = length data"
  by (simp add: set_bit_at_def)

section \<open>What a filter contains\<close>

text \<open>The invariant that keeps the filter from being indexed modulo zero, and the order in which filters grow.\<close>

definition filter_ok :: "CBloomFilter \<Rightarrow> bool" where
  "filter_ok f \<longleftrightarrow> (f_vData f = [] \<longrightarrow> isFull f)"

definition key_bit :: "CBloomFilter \<Rightarrow> bytes \<Rightarrow> nat \<Rightarrow> nat" where
  "key_bit f k i = unat (MurmurHash3 (of_nat i * 0xFBA4C795 + nTweak f) k) mod (length (f_vData f) * 8)"

definition grows :: "CBloomFilter \<Rightarrow> CBloomFilter \<Rightarrow> bool" where
  "grows f g \<longleftrightarrow> length (f_vData g) = length (f_vData f) \<and> isFull g = isFull f \<and> (isEmpty g \<longrightarrow> isEmpty f)
     \<and> nHashFuncs g = nHashFuncs f \<and> nTweak g = nTweak f \<and> nFlags g = nFlags f
     \<and> (\<forall>n. test_bit_at (f_vData f) n \<longrightarrow> test_bit_at (f_vData g) n)"

lemma grows_refl [simp]: "grows f f"
  by (simp add: grows_def)

lemma grows_trans: "grows f g \<Longrightarrow> grows g h \<Longrightarrow> grows f h"
  by (auto simp: grows_def)

lemma grows_ok: "grows f g \<Longrightarrow> filter_ok f \<Longrightarrow> filter_ok g"
  by (metis grows_def filter_ok_def length_0_conv)

lemma grows_key_bit: "grows f g \<Longrightarrow> key_bit g k i = key_bit f k i"
  by (simp add: grows_def key_bit_def)

lemma filter_Hash_value: "f_vData f \<noteq> [] \<Longrightarrow> filter_Hash f i k = Inr (key_bit f k i)"
  by (simp add: filter_Hash_def key_bit_def)

lemma key_bit_less: "f_vData f \<noteq> [] \<Longrightarrow> key_bit f k i div 8 < length (f_vData f)"
  unfolding key_bit_def by (rule less_mult_imp_div_less) simp

lemma contains_loop_value:
  "f_vData f \<noteq> [] \<Longrightarrow> contains_loop js k f = Inr (\<forall>i\<in>set js. test_bit_at (f_vData f) (key_bit f k i))"
  by (induction js) (simp_all add: filter_Hash_value)

lemma contains_value:
  "filter_ok f \<Longrightarrow> filter_contains k f =
     Inr (isFull f \<or> \<not> isEmpty f \<and> (\<forall>i<unat (nHashFuncs f). test_bit_at (f_vData f) (key_bit f k i)))"
  by (auto simp: filter_contains_def filter_ok_def contains_loop_value)

lemma contains_grows: "grows f g \<Longrightarrow> filter_ok f \<Longrightarrow> filter_contains k f = Inr True \<Longrightarrow> filter_contains k g = Inr True"
  using grows_ok [of f g] grows_key_bit [of f g k] by (auto simp: contains_value grows_def)

lemma insert_loop_grows:
  assumes "f_vData f \<noteq> []"
  shows "\<exists>g. insert_loop js k f = Inr g \<and> grows f g \<and> (\<forall>i\<in>set js. test_bit_at (f_vData g) (key_bit f k i))"
  using assms
proof (induction js arbitrary: f)
  case (Cons i js)
  let ?f = "f\<lparr>f_vData := set_bit_at (f_vData f) (key_bit f k i)\<rparr>"
  have g: "grows f ?f" "test_bit_at (f_vData ?f) (key_bit f k i)"
    using key_bit_less [OF Cons.prems, of k i] by (simp_all add: grows_def set_bit_at_test)
  have "length (f_vData ?f) = length (f_vData f)" by simp
  then have "f_vData ?f \<noteq> []" using Cons.prems by (metis length_0_conv)
  from Cons.IH [OF this] obtain h where h: "insert_loop js k ?f = Inr h" "grows ?f h"
      "\<forall>i\<in>set js. test_bit_at (f_vData h) (key_bit f k i)"
    using grows_key_bit [OF g(1)] by auto
  then have "test_bit_at (f_vData h) (key_bit f k i)" using g(2) by (auto simp: grows_def)
  then show ?case using h g(1) Cons.prems by (auto simp: filter_Hash_value intro: grows_trans)
qed simp

lemma insert_contains:
  assumes "filter_ok f"
  shows "\<exists>g. filter_insert k f = Inr g \<and> grows f g \<and> filter_contains k g = Inr True"
proof (cases "isFull f")
  case True
  then show ?thesis by (simp add: filter_insert_def filter_contains_def)
next
  case False
  then have n: "f_vData f \<noteq> []" using assms by (auto simp: filter_ok_def)
  obtain g where g: "insert_loop [0..<unat (nHashFuncs f)] k f = Inr g" "grows f g"
      "\<forall>i<unat (nHashFuncs f). test_bit_at (f_vData g) (key_bit f k i)"
    using insert_loop_grows [OF n] by fastforce
  let ?g = "g\<lparr>isEmpty := False\<rparr>"
  have G: "grows f ?g" using g(2) by (simp add: grows_def)
  have "filter_contains k ?g = Inr True"
    using g(3) grows_ok [OF G assms] grows_key_bit [OF G] G by (simp add: contains_value) (simp add: grows_def)
  then show ?thesis using g(1) False G by (simp add: filter_insert_def)
qed

section \<open>Relevant transactions are found\<close>

text \<open>The operands that the loops over a script look at.\<close>

function script_data :: "bytes \<Rightarrow> bytes list" where
  "script_data pc =
     (if pc = [] then [] else case GetOp2 pc of (fRet, opcode, data, pc) \<Rightarrow> if \<not> fRet then [] else data # script_data pc)"
  by pat_completeness auto
termination by (relation "measure length") (auto dest!: GetOp2_success [OF sym])

declare script_data.simps [simp del]

abbreviation holds :: "CBloomFilter \<Rightarrow> bytes \<Rightarrow> bool" where
  "holds f k \<equiv> filter_contains k f = Inr True"

lemma data_match_iff:
  assumes "filter_ok f"
  shows "data_match f pc = Inr (\<exists>d\<in>set (script_data pc). d \<noteq> [] \<and> holds f d)"
proof (induction pc rule: script_data.induct)
  case (1 pc)
  obtain fRet opcode data pc' where g: "GetOp2 pc = (fRet, opcode, data, pc')" by (metis prod_cases4)
  obtain c where c: "filter_contains data f = Inr c" using contains_value [OF assms] by blast
  show ?case
  proof (cases "pc = [] \<or> \<not> fRet")
    case True
    then show ?thesis using g by (subst data_match.simps, subst script_data.simps) auto
  next
    case False
    then have "data_match f pc' = Inr (\<exists>d\<in>set (script_data pc'). d \<noteq> [] \<and> holds f d)"
      using 1 [OF _ g [symmetric] refl refl] by simp
    then show ?thesis using False g c by (subst data_match.simps, subst script_data.simps) auto
  qed
qed

lemma data_match_total: "filter_ok f \<Longrightarrow> \<exists>b. data_match f pc = Inr b"
  by (simp add: data_match_iff)

lemma data_match_grows: "grows f h \<Longrightarrow> filter_ok f \<Longrightarrow> data_match f pc = Inr True \<Longrightarrow> data_match h pc = Inr True"
  using contains_grows [of f h] grows_ok [of f h] by (auto simp: data_match_iff)

lemma holds_not_empty: "holds f k \<Longrightarrow> isEmpty f \<Longrightarrow> isFull f"
  by (simp add: filter_contains_def split: if_splits)

lemma update_output_grows:
  assumes "filter_ok f"
  shows "\<exists>g. update_output env ps hash i txout f = Inr g \<and> grows f g
    \<and> (nFlags f AND BLOOM_UPDATE_MASK = BLOOM_UPDATE_ALL \<longrightarrow> filter_contains (ser_outpoint \<lparr>out_hash = hash, out_n = of_nat i\<rparr>) g = Inr True)"
proof -
  obtain g where "filter_insert (ser_outpoint \<lparr>out_hash = hash, out_n = of_nat i\<rparr>) f = Inr g" "grows f g"
      "filter_contains (ser_outpoint \<lparr>out_hash = hash, out_n = of_nat i\<rparr>) g = Inr True"
    using insert_contains [OF assms] by blast
  moreover obtain ok t sols where "TemplateSolver env ps (scriptPubKey txout) [] = (ok, t, sols)" by (metis prod_cases3)
  ultimately show ?thesis unfolding update_output_def Let_def by (cases "ok \<and> (t = TX_PUBKEY \<or> t = TX_MULTISIG)") auto
qed

lemma output_matches_grows:
  assumes "filter_ok f"
  shows "\<exists>r g. output_matches env ps hash i outs b f = Inr (r, g) \<and> grows f g \<and> (b \<longrightarrow> r)
    \<and> (\<forall>j<length outs. data_match f (scriptPubKey (outs ! j)) = Inr True \<longrightarrow>
         r \<and> (nFlags f AND BLOOM_UPDATE_MASK = BLOOM_UPDATE_ALL \<longrightarrow>
               filter_contains (ser_outpoint \<lparr>out_hash = hash, out_n = of_nat (i + j)\<rparr>) g = Inr True))"
  using assms
proof (induction outs arbitrary: i b f)
  case (Cons txout outs)
  obtain m where m: "data_match f (scriptPubKey txout) = Inr m" using data_match_total [OF Cons.prems] by blast
  obtain u where u: "update_output env ps hash i txout f = Inr u" "grows f u"
      "nFlags f AND BLOOM_UPDATE_MASK = BLOOM_UPDATE_ALL \<longrightarrow> filter_contains (ser_outpoint \<lparr>out_hash = hash, out_n = of_nat i\<rparr>) u = Inr True"
    using update_output_grows [OF Cons.prems] by blast
  define f1 where "f1 = (if m then u else f)"
  have f1: "grows f f1" "filter_ok f1" using u(2) Cons.prems grows_ok [OF u(2)] by (simp_all add: f1_def)
  obtain r g where r: "output_matches env ps hash (i + 1) outs (b \<or> m) f1 = Inr (r, g)" "grows f1 g" "b \<or> m \<longrightarrow> r"
      "\<forall>j<length outs. data_match f1 (scriptPubKey (outs ! j)) = Inr True \<longrightarrow>
         r \<and> (nFlags f1 AND BLOOM_UPDATE_MASK = BLOOM_UPDATE_ALL \<longrightarrow>
               filter_contains (ser_outpoint \<lparr>out_hash = hash, out_n = of_nat (i + 1 + j)\<rparr>) g = Inr True)"
    using Cons.IH [OF f1(2), of "i + 1" "b \<or> m"] by blast
  have "nFlags f1 = nFlags f" using f1(1) by (simp add: grows_def)
  then have later: "data_match f (scriptPubKey (outs ! j)) = Inr True \<Longrightarrow> j < length outs \<Longrightarrow>
      r \<and> (nFlags f AND BLOOM_UPDATE_MASK = BLOOM_UPDATE_ALL \<longrightarrow>
               filter_contains (ser_outpoint \<lparr>out_hash = hash, out_n = of_nat (i + Suc j)\<rparr>) g = Inr True)" for j
    using r(4) data_match_grows [OF f1(1) Cons.prems] by simp
  have now: "m \<Longrightarrow> nFlags f AND BLOOM_UPDATE_MASK = BLOOM_UPDATE_ALL \<longrightarrow> filter_contains (ser_outpoint \<lparr>out_hash = hash, out_n = of_nat i\<rparr>) g = Inr True"
    using u(3) contains_grows [OF r(2) f1(2)] by (simp add: f1_def)
  have "output_matches env ps hash i (txout # outs) b f = Inr (r, g)" using m u(1) r(1) by (cases m) (simp_all add: f1_def)
  moreover have "\<forall>j<length (txout # outs). data_match f (scriptPubKey ((txout # outs) ! j)) = Inr True \<longrightarrow>
         r \<and> (nFlags f AND BLOOM_UPDATE_MASK = BLOOM_UPDATE_ALL \<longrightarrow>
               filter_contains (ser_outpoint \<lparr>out_hash = hash, out_n = of_nat (i + j)\<rparr>) g = Inr True)"
  proof (intro allI impI)
    fix j assume "j < length (txout # outs)" "data_match f (scriptPubKey ((txout # outs) ! j)) = Inr True"
    then show "r \<and> (nFlags f AND BLOOM_UPDATE_MASK = BLOOM_UPDATE_ALL \<longrightarrow>
               filter_contains (ser_outpoint \<lparr>out_hash = hash, out_n = of_nat (i + j)\<rparr>) g = Inr True)"
      using m r(3) now later by (cases j) auto
  qed
  ultimately show ?case using grows_trans [OF f1(1) r(2)] r(3) by blast
qed simp

lemma input_matches_total:
  assumes "filter_ok f"
  shows "\<exists>r. input_matches ins f = Inr r \<and>
    (\<forall>i\<in>set ins. filter_contains (ser_outpoint (prevout i)) f = Inr True \<or> data_match f (scriptSig i) = Inr True \<longrightarrow> r)"
proof (induction ins)
  case Nil
  show ?case by (intro exI [of _ False]) simp
next
  case (Cons i ins)
  obtain c where "filter_contains (ser_outpoint (prevout i)) f = Inr c" using contains_value [OF assms] by blast
  moreover obtain m where "data_match f (scriptSig i) = Inr m" using data_match_total [OF assms] by blast
  ultimately show ?case using Cons by auto
qed

text \<open>What a filter matches in a transaction.\<close>

definition relevant :: "hash_functions \<Rightarrow> CBloomFilter \<Rightarrow> CTransaction \<Rightarrow> bool" where
  "relevant hs f tx \<longleftrightarrow> holds f (ser_uint256 (tx_GetHash hs tx))
     \<or> (\<exists>txout\<in>set (vout tx). \<exists>d\<in>set (script_data (scriptPubKey txout)). d \<noteq> [] \<and> holds f d)
     \<or> (\<exists>txin\<in>set (vin tx). holds f (ser_outpoint (prevout txin)) \<or> (\<exists>d\<in>set (script_data (scriptSig txin)). d \<noteq> [] \<and> holds f d))"

lemma relevant_iff:
  assumes "filter_ok f"
  shows "relevant hs f tx \<longleftrightarrow> holds f (ser_uint256 (tx_GetHash hs tx))
     \<or> (\<exists>txout\<in>set (vout tx). data_match f (scriptPubKey txout) = Inr True)
     \<or> (\<exists>txin\<in>set (vin tx). holds f (ser_outpoint (prevout txin)) \<or> data_match f (scriptSig txin) = Inr True)"
  unfolding relevant_def data_match_iff [OF assms] by simp

lemma IsRelevant_spec:
  assumes "filter_ok f"
  shows "\<exists>r g. IsRelevantAndUpdate hs env ps tx f = Inr (r, g) \<and> grows f g \<and> (relevant hs f tx \<longrightarrow> r)
    \<and> (\<forall>j<length (vout tx). \<forall>d\<in>set (script_data (scriptPubKey (vout tx ! j))). d \<noteq> [] \<and> holds f d
         \<and> nFlags f AND BLOOM_UPDATE_MASK = BLOOM_UPDATE_ALL
         \<longrightarrow> holds g (ser_outpoint \<lparr>out_hash = tx_GetHash hs tx, out_n = of_nat j\<rparr>))"
proof (cases "isFull f \<or> isEmpty f")
  case True
  have "\<not> isFull f \<Longrightarrow> \<not> holds f k" for k using True holds_not_empty by blast
  then have "\<not> isFull f \<Longrightarrow> \<not> relevant hs f tx" by (auto simp: relevant_def)
  moreover have "isFull f \<Longrightarrow> holds f k" for k by (simp add: filter_contains_def)
  ultimately show ?thesis using True \<open>\<And>k. \<not> isFull f \<Longrightarrow> \<not> holds f k\<close>
    by (cases "isFull f") (auto simp: IsRelevantAndUpdate_def)
next
  case False
  let ?h = "tx_GetHash hs tx"
  obtain c where c: "filter_contains (ser_uint256 ?h) f = Inr c" using contains_value [OF assms] by blast
  obtain r g where g: "output_matches env ps ?h 0 (vout tx) c f = Inr (r, g)" "grows f g" "c \<longrightarrow> r"
      "\<forall>j<length (vout tx). data_match f (scriptPubKey (vout tx ! j)) = Inr True \<longrightarrow>
         r \<and> (nFlags f AND BLOOM_UPDATE_MASK = BLOOM_UPDATE_ALL \<longrightarrow> holds g (ser_outpoint \<lparr>out_hash = ?h, out_n = of_nat j\<rparr>))"
    using output_matches_grows [OF assms, of env ps ?h 0 "vout tx" c] by (simp only: add_0) blast
  obtain q where q: "input_matches (vin tx) g = Inr q"
      "\<forall>i\<in>set (vin tx). holds g (ser_outpoint (prevout i)) \<or> data_match g (scriptSig i) = Inr True \<longrightarrow> q"
    using input_matches_total [OF grows_ok [OF g(2) assms]] by blast
  have "IsRelevantAndUpdate hs env ps tx f = Inr (r \<or> q, g)"
    using False c g(1) q(1) by (cases r) (simp_all add: IsRelevantAndUpdate_def Let_def)
  moreover have "r \<or> q" if "relevant hs f tx"
  proof -
    note grown = contains_grows [OF g(2) assms] data_match_grows [OF g(2) assms]
    have "r" if o: "txout \<in> set (vout tx)" "data_match f (scriptPubKey txout) = Inr True" for txout
    proof -
      obtain j where "j < length (vout tx)" "txout = vout tx ! j" using o(1) by (metis in_set_conv_nth)
      then show ?thesis using g(4) o(2) by blast
    qed
    moreover have "q" if "txin \<in> set (vin tx)" "holds f (ser_outpoint (prevout txin)) \<or> data_match f (scriptSig txin) = Inr True" for txin
      using that q(2) grown by blast
    moreover have "holds f (ser_uint256 ?h) \<Longrightarrow> r" using c g(3) by simp
    ultimately show ?thesis using that unfolding relevant_iff [OF assms] by blast
  qed
  moreover have "data_match f (scriptPubKey (vout tx ! j)) = Inr True"
    if "d \<in> set (script_data (scriptPubKey (vout tx ! j)))" "d \<noteq> []" "holds f d" for d j
    using that by (auto simp: data_match_iff [OF assms])
  ultimately show ?thesis using g(2,4) by blast
qed

lemma block_matches_grows:
  "filter_ok f \<Longrightarrow> \<exists>ms ts hs' g. block_matches hs env ps i txs f = Inr (ms, ts, hs', g) \<and> grows f g"
proof (induction txs arbitrary: i f)
  case (Cons tx txs)
  obtain r g where g: "IsRelevantAndUpdate hs env ps tx f = Inr (r, g)" "grows f g"
    using IsRelevant_spec [OF Cons.prems, of hs env ps tx] by blast
  obtain ms ts hs' h where "block_matches hs env ps (i + 1) txs g = Inr (ms, ts, hs', h)" "grows g h"
    using Cons.IH [OF grows_ok [OF g(2) Cons.prems], of "i + 1"] by blast
  then show ?case using g by (auto simp: Let_def intro: grows_trans)
qed simp

section \<open>The filter of a peer\<close>

definition peer_ok :: "peer_filter \<Rightarrow> bool" where
  "peer_ok p \<longleftrightarrow> (\<exists>f. pfilter p = Some f \<and> filter_ok f \<and> IsWithinSizeConstraints f)"

definition keeps_filter :: "filter_event \<Rightarrow> bool" where
  "keeps_filter e \<longleftrightarrow> (case e of filterload _ _ _ _ \<Rightarrow> False | filterclear \<Rightarrow> False | _ \<Rightarrow> True)"

lemma grows_size: "grows f g \<Longrightarrow> IsWithinSizeConstraints f \<Longrightarrow> IsWithinSizeConstraints g"
  by (simp add: grows_def IsWithinSizeConstraints_def)

lemma filter_step_ok:
  assumes "pfilter p = Some f" "filter_ok f" "IsWithinSizeConstraints f"
  shows "\<exists>q g. filter_step hs env ps e p = Inr q \<and> pfilter q = Some g \<and> filter_ok g \<and> IsWithinSizeConstraints g
    \<and> (keeps_filter e \<longrightarrow> grows f g)"
proof (cases e)
  case (filteradd k)
  then show ?thesis using assms insert_contains [OF assms(2), of k] grows_ok [of f] grows_size [of f] by auto
next
  case (relay_tx tx)
  then show ?thesis using assms IsRelevant_spec [OF assms(2), of hs env ps tx] grows_ok [of f] grows_size [of f] by auto
next
  case (filtered_block b)
  then show ?thesis
    using assms block_matches_grows [OF assms(2), of hs env ps 0 "vtx b"] grows_ok [of f] grows_size [of f]
    by (auto simp: CMerkleBlock_of_def)
next
  case (filterload data funcs tweak flags)
  then show ?thesis using assms
    by (auto simp: keeps_filter_def Let_def filter_ok_def UpdateEmptyFull_def IsWithinSizeConstraints_def)
next
  case filterclear
  then show ?thesis by (simp add: keeps_filter_def filter_ok_def CBloomFilter_new_def IsWithinSizeConstraints_def)
qed

lemma filter_run_ok:
  assumes "pfilter p = Some f" "filter_ok f" "IsWithinSizeConstraints f"
  shows "\<exists>q g. filter_run hs env ps es p = Inr q \<and> pfilter q = Some g \<and> filter_ok g \<and> IsWithinSizeConstraints g
    \<and> (list_all keeps_filter es \<longrightarrow> grows f g)"
  using assms
proof (induction es arbitrary: p f)
  case (Cons e es)
  obtain q g where q: "filter_step hs env ps e p = Inr q" "pfilter q = Some g" "filter_ok g" "IsWithinSizeConstraints g"
      "keeps_filter e \<longrightarrow> grows f g"
    using filter_step_ok [OF Cons.prems, of hs env ps e] by blast
  then show ?case using Cons.IH [OF q(2-4)] by (auto intro: grows_trans)
qed simp

lemma CNode_filter_ok:
  "pfilter CNode_filter = Some CBloomFilter_new" "filter_ok CBloomFilter_new" "IsWithinSizeConstraints CBloomFilter_new"
  by (simp_all add: CNode_filter_def filter_ok_def IsWithinSizeConstraints_def CBloomFilter_new_def)

text \<open>
  C17. Whatever a peer sends and whatever is relayed to it, its filter exists, keeps to the size limits
  and is never used modulo zero: no sequence of messages stops the node in a Bloom filter.
\<close>

theorem filter_never_faults:
  "\<exists>p f. filter_run hs env ps es CNode_filter = Inr p \<and> pfilter p = Some f \<and> IsWithinSizeConstraints f"
  using filter_run_ok [OF CNode_filter_ok, of hs env ps es] by blast

text \<open>
  C16. A filter follows the outputs it matches. Let a peer's filter, loaded with \<open>BLOOM_UPDATE_ALL\<close>,
  hold an element of the script of an output of a transaction. Once this transaction has been tested
  against it, and as long as the peer neither loads nor clears a filter, every transaction that spends
  the output is found relevant.
\<close>

theorem matched_output_followed:
  assumes "filter_run hs env ps es CNode_filter = Inr p" "pfilter p = Some f" "holds f d" "d \<noteq> []"
    "j < length (vout tx)" "d \<in> set (script_data (scriptPubKey (vout tx ! j)))" "nFlags f AND BLOOM_UPDATE_MASK = BLOOM_UPDATE_ALL"
    "list_all keeps_filter es'" "i \<in> set (vin tx')" "prevout i = \<lparr>out_hash = tx_GetHash hs tx, out_n = of_nat j\<rparr>"
  shows "\<exists>q g h. filter_run hs env ps (relay_tx tx # es') p = Inr q \<and> pfilter q = Some g
    \<and> IsRelevantAndUpdate hs env ps tx' g = Inr (True, h)"
proof -
  have f: "filter_ok f" "IsWithinSizeConstraints f"
    using filter_run_ok [OF CNode_filter_ok, of hs env ps es] assms(1,2) by auto
  obtain r u where u: "IsRelevantAndUpdate hs env ps tx f = Inr (r, u)" "grows f u"
      "holds u (ser_outpoint \<lparr>out_hash = tx_GetHash hs tx, out_n = of_nat j\<rparr>)"
    using IsRelevant_spec [OF f(1), of hs env ps tx] assms(3-7) by blast
  note U = grows_ok [OF u(2) f(1)] grows_size [OF u(2) f(2)]
  obtain q g where q: "filter_run hs env ps es' (p\<lparr>pfilter := Some u\<rparr>) = Inr q" "pfilter q = Some g" "filter_ok g" "grows u g"
    using filter_run_ok [OF _ U, of "p\<lparr>pfilter := Some u\<rparr>" hs env ps es'] assms(8) by auto
  have "holds g (ser_outpoint (prevout i))" using contains_grows [OF q(4) U(1) u(3)] assms(10) by simp
  then have "relevant hs g tx'" using assms(9) unfolding relevant_def by blast
  then obtain h where "IsRelevantAndUpdate hs env ps tx' g = Inr (True, h)"
    using IsRelevant_spec [OF q(3), of hs env ps tx'] by auto
  then show ?thesis using q(1,2) assms(2) u(1) by simp
qed

text \<open>A filter of eight bits and one hash function that holds the byte 7, and an output that pushes it.\<close>

definition spv_hashes :: hash_functions where
  "spv_hashes = \<lparr>Hash = (\<lambda>m. replicate 8 (of_nat (length m))), SkunkHash = (\<lambda>m. replicate 8 0), lyra2re2_hash = (\<lambda>m. replicate 8 0)\<rparr>"

definition spv_tx :: CTransaction where
  "spv_tx = \<lparr>tx_nVersion = 1, vin = [], vout = [\<lparr>nValue = 0, scriptPubKey = [1, 7]\<rparr>], nLockTime = 0\<rparr>"

definition spv_input :: CTxIn where
  "spv_input = \<lparr>prevout = \<lparr>out_hash = tx_GetHash spv_hashes spv_tx, out_n = 0\<rparr>, scriptSig = [], nSequence = 0\<rparr>"

definition spv_spend :: CTransaction where
  "spv_spend = \<lparr>tx_nVersion = 1, vin = [spv_input], vout = [], nLockTime = 0\<rparr>"

lemma spv_data: "script_data [1, 7] = [[7]]"
  by (subst script_data.simps, subst script_data.simps) (simp add: GetOp2_def push_size_def)

definition spv_ps :: std_params where
  "spv_ps = \<lparr>datacarrier = True, MAX_OP_RETURN_RELAY = 40, MAX_SCRIPT_ELEMENT_SIZE = 520, MCP_STD_OP_DROP_COUNT = 0\<rparr>"

definition spv_env :: script_env where
  "spv_env = \<lparr>env_ripemd160 = (\<lambda>m. []), env_sha1 = (\<lambda>m. []), env_sha256 = (\<lambda>m. []),
     env_CheckLowS = (\<lambda>s. True), env_CheckSig = (\<lambda>k h s b. (True, True))\<rparr>"

lemma spv_run:
  "\<exists>p f. filter_run spv_hashes spv_env spv_ps [filterload [0] 1 0 1, filteradd [7]] CNode_filter = Inr p
    \<and> pfilter p = Some f \<and> holds f [7] \<and> nFlags f = 1"
proof -
  let ?f = "\<lparr>f_vData = [0], isFull = False, isEmpty = True, nHashFuncs = 1, nTweak = 0, nFlags = 1\<rparr>"
  obtain g where "filter_insert [7] ?f = Inr g" "grows ?f g" "holds g [7]"
    using insert_contains [of ?f "[7]"] by (auto simp: filter_ok_def)
  then show ?thesis
    by (intro exI [of _ "CNode_filter\<lparr>pfilter := Some g, fRelayTxes := True\<rparr>"] exI [of _ g])
      (simp add: CNode_filter_def CBloomFilter_new_def IsWithinSizeConstraints_def UpdateEmptyFull_def grows_def spv_ps_def)
qed

lemma matched_output_followed_witness:
  "\<exists>p q g h. filter_run spv_hashes spv_env spv_ps [filterload [0] 1 0 1, filteradd [7]] CNode_filter = Inr p
    \<and> filter_run spv_hashes spv_env spv_ps [relay_tx spv_tx, filteradd [9]] p = Inr q \<and> pfilter q = Some g
    \<and> IsRelevantAndUpdate spv_hashes spv_env spv_ps spv_spend g = Inr (True, h)"
proof -
  obtain p f where p: "filter_run spv_hashes spv_env spv_ps [filterload [0] 1 0 1, filteradd [7]] CNode_filter = Inr p"
      "pfilter p = Some f" "holds f [7]" "nFlags f = 1"
    using spv_run by blast
  have "nFlags f AND BLOOM_UPDATE_MASK = BLOOM_UPDATE_ALL" by (simp add: p(4))
  from matched_output_followed [OF p(1-3) _ _ _ this, of 0 spv_tx "[filteradd [9]]" spv_input spv_spend] p(1)
  show ?thesis by (simp add: spv_tx_def spv_data keeps_filter_def spv_spend_def spv_input_def)
qed

end
