(* ===== verification/Mempool.thy ===== *)
theory Mempool
  imports BlockCoins "HOL-Library.AList"
begin

text \<open>
  The memory pool (\<^verbatim>\<open>chain/txmempool.cpp\<close>): the transactions that wait for a block, the index
  \<open>mapNextTx\<close> from the outputs they spend to the spending transaction, the address and spent indexes,
  and the list of hashes in the order of their arrival. The hash of a transaction, a field of the
  object in the source, is the argument \<open>GetHash\<close>.

  A \<open>std::map\<close> is an association list. A pointer to the transaction of an entry of \<open>mapTx\<close> is the key
  of the entry: it may be used as long as the entry has not been erased. \<open>remove\<close> is called with a
  reference, which may be one to a transaction of the pool (\<open>origRef\<close>); what reading the transaction
  through it gives once the entry is erased is the argument \<open>freed\<close>.

  Not modelled: the fee estimator, priorities and priority deltas, which are computed in floating
  point and do not touch the rest of the pool, and \<open>check\<close>, which repeats \<open>CheckInputs\<close> for every
  transaction: the rest of what it asserts is the invariant of this theory.
\<close>

section \<open>Entries\<close>

record CTxMemPoolEntry =
  me_tx :: CTransaction
  nFee :: int
  nTxSize :: nat
  nModSize :: u32
  nTime_in :: int
  nHeight_in :: u32
  fFullReplay :: bool
  nPermissionsFrom :: int
  nPermissionsTo :: int
  nWalletFrom :: int
  nWalletTo :: int

definition ResetReplayParams :: "CTxMemPoolEntry \<Rightarrow> CTxMemPoolEntry" where
  "ResetReplayParams e = e\<lparr>fFullReplay := True, nPermissionsFrom := - 1, nPermissionsTo := - 1, nWalletFrom := - 1, nWalletTo := - 1\<rparr>"

definition SetReplayNodeParams :: "bool \<Rightarrow> int \<Rightarrow> int \<Rightarrow> CTxMemPoolEntry \<Rightarrow> CTxMemPoolEntry" where
  "SetReplayNodeParams replay fr to e = e\<lparr>fFullReplay := replay, nPermissionsFrom := fr, nPermissionsTo := to\<rparr>"

definition SetReplayWalletParams :: "int \<Rightarrow> int \<Rightarrow> CTxMemPoolEntry \<Rightarrow> CTxMemPoolEntry" where
  "SetReplayWalletParams fr to e = e\<lparr>nWalletFrom := fr, nWalletTo := to\<rparr>"

text \<open>\<open>ReplayWalletTo\<close> returns the lower bound.\<close>

definition ReplayWalletTo :: "CTxMemPoolEntry \<Rightarrow> int" where
  "ReplayWalletTo e = nWalletFrom e"

definition CTxMemPoolEntry_of :: "CTransaction \<Rightarrow> int \<Rightarrow> int \<Rightarrow> u32 \<Rightarrow> CTxMemPoolEntry" where
  "CTxMemPoolEntry_of tx fee t height =
     \<lparr>me_tx = tx, nFee = fee, nTxSize = length (ser_tx tx), nModSize = CalculateModifiedSize tx (of_nat (length (ser_tx tx))),
      nTime_in = t, nHeight_in = height,
      fFullReplay = True, nPermissionsFrom = - 1, nPermissionsTo = - 1, nWalletFrom = - 1, nWalletTo = - 1\<rparr>"

section \<open>The pool\<close>

record CInPoint =
  ptx :: base_uint
  in_n :: u32

record CMempoolAddressDeltaKey =
  dk_type :: int
  addressBytes :: bytes
  txhash :: base_uint
  index :: u32
  spending :: int

record CMempoolAddressDelta =
  ad_time :: int
  ad_amount :: int
  prevhash :: base_uint
  prevout_n :: u32

record CSpentIndexKey =
  sk_txid :: base_uint
  outputIndex :: u32

record CSpentIndexValue =
  sv_txid :: base_uint
  inputIndex :: u32
  blockHeight :: int
  sv_satoshis :: int
  addressType :: int
  addressHash :: bytes

record CTxMemPool =
  nTransactionsUpdated :: u32
  totalTxSize :: u64
  mapTx :: "(base_uint \<times> CTxMemPoolEntry) list"
  mapNextTx :: "(COutPoint \<times> CInPoint) list"
  mapAddress :: "(CMempoolAddressDeltaKey \<times> CMempoolAddressDelta) list"
  mapAddressInserted :: "(base_uint \<times> CMempoolAddressDeltaKey list) list"
  mapSpent :: "(CSpentIndexKey \<times> CSpentIndexValue) list"
  mapSpentInserted :: "(base_uint \<times> CSpentIndexKey list) list"
  hashList :: "base_uint list"
  hashListPos :: nat
  invalid_log :: "(base_uint \<times> string) list"

definition CTxMemPool_new :: CTxMemPool where
  "CTxMemPool_new = \<lparr>nTransactionsUpdated = 0, totalTxSize = 0, mapTx = [], mapNextTx = [], mapAddress = [],
     mapAddressInserted = [], mapSpent = [], mapSpentInserted = [], hashList = [], hashListPos = 0, invalid_log = []\<rparr>"

text \<open>\<open>std::map::insert\<close>, which does not overwrite.\<close>

definition map_insert :: "'k \<Rightarrow> 'v \<Rightarrow> ('k \<times> 'v) list \<Rightarrow> ('k \<times> 'v) list" where
  "map_insert k v m = (if map_of m k = None then m @ [(k, v)] else m)"

definition pool_exists :: "base_uint \<Rightarrow> CTxMemPool \<Rightarrow> bool" where
  "pool_exists hash p \<longleftrightarrow> map_of (mapTx p) hash \<noteq> None"

definition pool_lookup :: "base_uint \<Rightarrow> CTxMemPool \<Rightarrow> CTransaction option" where
  "pool_lookup hash p = map_option me_tx (map_of (mapTx p) hash)"

text \<open>The keys of a map are visited in the order of the numbers.\<close>

definition queryHashes :: "CTxMemPool \<Rightarrow> base_uint list" where
  "queryHashes p = sort_key bn_val (map fst (mapTx p))"

fun add_spends :: "base_uint \<Rightarrow> nat \<Rightarrow> CTxIn list \<Rightarrow> (COutPoint \<times> CInPoint) list \<Rightarrow> (COutPoint \<times> CInPoint) list" where
  "add_spends hash i [] m = m"
| "add_spends hash i (txin # ins) m = add_spends hash (i + 1) ins (AList.update (prevout txin) \<lparr>ptx = hash, in_n = of_nat i\<rparr> m)"

definition addUnchecked :: "base_uint \<Rightarrow> CTxMemPoolEntry \<Rightarrow> CTxMemPool \<Rightarrow> CTxMemPool" where
  "addUnchecked hash entry p =
     (let p = p\<lparr>mapTx := AList.update hash entry (mapTx p)\<rparr>;
          p = p\<lparr>mapNextTx := add_spends hash 0 (vin (me_tx entry)) (mapNextTx p),
                nTransactionsUpdated := nTransactionsUpdated p + 1,
                totalTxSize := totalTxSize p + of_nat (nTxSize entry)\<rparr>
      in if hashListPos p < length (hashList p)
         then p\<lparr>hashList := (hashList p)[hashListPos p := hash], hashListPos := hashListPos p + 1\<rparr>
         else p\<lparr>hashList := hashList p @ [hash], hashListPos := length (hashList p) + 1\<rparr>)"

subsection \<open>The address and spent indexes\<close>

fun address_inputs ::
    "('s \<Rightarrow> txid \<Rightarrow> CCoins option \<times> 's) \<Rightarrow> base_uint \<Rightarrow> int \<Rightarrow> nat \<Rightarrow> CTxIn list \<Rightarrow> 's cached
     \<Rightarrow> ((CMempoolAddressDeltaKey \<times> CMempoolAddressDelta) list \<times> 's cached) cpp" where
  "address_inputs base_GetCoins hash t j [] st = Inr ([], st)"
| "address_inputs base_GetCoins hash t j (input # ins) st =
     bind_cpp (GetOutputFor base_GetCoins st input) (\<lambda>(out, st).
     bind_cpp (address_inputs base_GetCoins hash t (j + 1) ins st) (\<lambda>(kds, st).
       Inr ((case address_of_script (scriptPubKey out) of
               None \<Rightarrow> kds
             | Some (ty, hashBytes) \<Rightarrow>
                 (\<lparr>dk_type = int ty, addressBytes = hashBytes, txhash = hash, index = of_nat j, spending = 1\<rparr>,
                  \<lparr>ad_time = t, ad_amount = nValue out * - 1, prevhash = out_hash (prevout input), prevout_n = out_n (prevout input)\<rparr>) # kds), st)))"

fun address_outputs :: "base_uint \<Rightarrow> int \<Rightarrow> nat \<Rightarrow> CTxOut list \<Rightarrow> (CMempoolAddressDeltaKey \<times> CMempoolAddressDelta) list" where
  "address_outputs hash t k [] = []"
| "address_outputs hash t k (out # outs) =
     (case address_of_script (scriptPubKey out) of
        None \<Rightarrow> address_outputs hash t (k + 1) outs
      | Some (ty, hashBytes) \<Rightarrow>
          (\<lparr>dk_type = int ty, addressBytes = hashBytes, txhash = hash, index = of_nat k, spending = 0\<rparr>,
           \<lparr>ad_time = t, ad_amount = nValue out, prevhash = bn_zero 8, prevout_n = 0\<rparr>) # address_outputs hash t (k + 1) outs)"

text \<open>The key and value of each input and output are inserted in the order of the loops.\<close>

definition addAddressIndex ::
    "('s \<Rightarrow> txid \<Rightarrow> CCoins option \<times> 's) \<Rightarrow> (CTransaction \<Rightarrow> base_uint) \<Rightarrow> CTxMemPoolEntry \<Rightarrow> 's cached \<Rightarrow> CTxMemPool
     \<Rightarrow> (CTxMemPool \<times> 's cached) cpp" where
  "addAddressIndex base_GetCoins GetHash entry st p =
     (let tx = me_tx entry; hash = GetHash tx in
      bind_cpp (address_inputs base_GetCoins hash (nTime_in entry) 0 (vin tx) st) (\<lambda>(kds, st).
        let kds = kds @ address_outputs hash (nTime_in entry) 0 (vout tx)
        in Inr (p\<lparr>mapAddress := fold (\<lambda>(k, d). map_insert k d) kds (mapAddress p),
                  mapAddressInserted := map_insert hash (map fst kds) (mapAddressInserted p)\<rparr>, st)))"

definition getAddressIndex :: "(bytes \<times> int) list \<Rightarrow> CTxMemPool \<Rightarrow> (CMempoolAddressDeltaKey \<times> CMempoolAddressDelta) list" where
  "getAddressIndex addresses p =
     concat (map (\<lambda>(a, t). filter (\<lambda>(k, d). addressBytes k = a \<and> dk_type k = t)
       (sort_key (\<lambda>(k, d). (bn_val (txhash k) * 4294967296 + unat (index k)) * 2 + nat (spending k)) (mapAddress p))) addresses)"

definition removeAddressIndex :: "base_uint \<Rightarrow> CTxMemPool \<Rightarrow> CTxMemPool" where
  "removeAddressIndex hash p =
     (case map_of (mapAddressInserted p) hash of
        None \<Rightarrow> p
      | Some ks \<Rightarrow> p\<lparr>mapAddress := fold AList.delete ks (mapAddress p),
                     mapAddressInserted := AList.delete hash (mapAddressInserted p)\<rparr>)"

fun spent_inputs ::
    "('s \<Rightarrow> txid \<Rightarrow> CCoins option \<times> 's) \<Rightarrow> base_uint \<Rightarrow> nat \<Rightarrow> CTxIn list \<Rightarrow> 's cached
     \<Rightarrow> ((CSpentIndexKey \<times> CSpentIndexValue) list \<times> 's cached) cpp" where
  "spent_inputs base_GetCoins hash j [] st = Inr ([], st)"
| "spent_inputs base_GetCoins hash j (input # ins) st =
     bind_cpp (GetOutputFor base_GetCoins st input) (\<lambda>(out, st).
     bind_cpp (spent_inputs base_GetCoins hash (j + 1) ins st) (\<lambda>(kvs, st).
       let (ty, a) = (case address_of_script (scriptPubKey out) of None \<Rightarrow> (0, replicate 20 0) | Some (ty, h) \<Rightarrow> (int ty, h))
       in Inr ((\<lparr>sk_txid = out_hash (prevout input), outputIndex = out_n (prevout input)\<rparr>,
                \<lparr>sv_txid = hash, inputIndex = of_nat j, blockHeight = - 1, sv_satoshis = nValue out, addressType = ty, addressHash = a\<rparr>) # kvs, st)))"

definition addSpentIndex ::
    "('s \<Rightarrow> txid \<Rightarrow> CCoins option \<times> 's) \<Rightarrow> (CTransaction \<Rightarrow> base_uint) \<Rightarrow> CTxMemPoolEntry \<Rightarrow> 's cached \<Rightarrow> CTxMemPool
     \<Rightarrow> (CTxMemPool \<times> 's cached) cpp" where
  "addSpentIndex base_GetCoins GetHash entry st p =
     (let tx = me_tx entry; hash = GetHash tx in
      bind_cpp (spent_inputs base_GetCoins hash 0 (vin tx) st) (\<lambda>(kvs, st).
        Inr (p\<lparr>mapSpent := fold (\<lambda>(k, v). map_insert k v) kvs (mapSpent p),
               mapSpentInserted := map_insert hash (map fst kvs) (mapSpentInserted p)\<rparr>, st)))"

definition getSpentIndex :: "CSpentIndexKey \<Rightarrow> CTxMemPool \<Rightarrow> CSpentIndexValue option" where
  "getSpentIndex k p = map_of (mapSpent p) k"

definition removeSpentIndex :: "base_uint \<Rightarrow> CTxMemPool \<Rightarrow> CTxMemPool" where
  "removeSpentIndex hash p =
     (case map_of (mapSpentInserted p) hash of
        None \<Rightarrow> p
      | Some ks \<Rightarrow> p\<lparr>mapSpent := fold AList.delete ks (mapSpent p),
                     mapSpentInserted := AList.delete hash (mapSpentInserted p)\<rparr>)"

subsection \<open>The list of hashes\<close>

definition defragmentHashList :: "CTxMemPool \<Rightarrow> CTxMemPool" where
  "defragmentHashList p =
     (let hs = filter (\<lambda>h. pool_exists h p) (hashList p) in p\<lparr>hashList := hs, hashListPos := length hs\<rparr>)"

text \<open>If the list is empty the new rows are not cleared: \<open>fresh\<close> is what their memory holds.\<close>

definition shiftHashList :: "(nat \<Rightarrow> base_uint) \<Rightarrow> nat \<Rightarrow> CTxMemPool \<Rightarrow> CTxMemPool" where
  "shiftHashList fresh rows p =
     p\<lparr>hashList := if hashList p = [] then map fresh [0..<rows] else replicate rows (bn_zero 8) @ hashList p, hashListPos := 0\<rparr>"

section \<open>Removal\<close>

definition ptx_hash :: "(CTransaction \<Rightarrow> base_uint) \<Rightarrow> CTxMemPool \<Rightarrow> base_uint \<Rightarrow> base_uint cpp" where
  "ptx_hash GetHash p h = (case map_of (mapTx p) h of None \<Rightarrow> Inl UseAfterFree | Some e \<Rightarrow> Inr (GetHash (me_tx e)))"

text \<open>The transactions of the pool that spend an output of \<open>hash\<close>, from output \<open>i\<close> on, \<open>n\<close> outputs.\<close>

fun spenders :: "(CTransaction \<Rightarrow> base_uint) \<Rightarrow> CTxMemPool \<Rightarrow> base_uint \<Rightarrow> nat \<Rightarrow> nat \<Rightarrow> base_uint list cpp" where
  "spenders GetHash p hash i 0 = Inr []"
| "spenders GetHash p hash i (Suc n) =
     (case map_of (mapNextTx p) \<lparr>out_hash = hash, out_n = of_nat i\<rparr> of
        None \<Rightarrow> spenders GetHash p hash (i + 1) n
      | Some q \<Rightarrow> bind_cpp (ptx_hash GetHash p (ptx q)) (\<lambda>h.
                  bind_cpp (spenders GetHash p hash (i + 1) n) (\<lambda>hs. Inr (h # hs))))"

definition erase_tx :: "base_uint \<Rightarrow> CTxMemPoolEntry \<Rightarrow> CTxMemPool \<Rightarrow> CTxMemPool" where
  "erase_tx hash e p =
     p\<lparr>mapNextTx := fold (\<lambda>txin m. AList.delete (prevout txin) m) (vin (me_tx e)) (mapNextTx p),
       totalTxSize := totalTxSize p - of_nat (nTxSize e),
       mapTx := AList.delete hash (mapTx p),
       nTransactionsUpdated := nTransactionsUpdated p + 1\<rparr>"

text \<open>
  \<open>origTx.GetHash()\<close> after an entry has been erased: \<open>origRef\<close> is the entry that \<open>origTx\<close> refers into,
  if it does.
\<close>

definition orig_hash :: "(CTransaction \<Rightarrow> base_uint) \<Rightarrow> base_uint cpp \<Rightarrow> CTransaction \<Rightarrow> base_uint option \<Rightarrow> CTxMemPool \<Rightarrow> base_uint cpp" where
  "orig_hash GetHash freed origTx origRef p =
     (case origRef of
        None \<Rightarrow> Inr (GetHash origTx)
      | Some r \<Rightarrow> if map_of (mapTx p) r = None then freed else Inr (GetHash origTx))"

definition log_invalid ::
    "(CTransaction \<Rightarrow> base_uint) \<Rightarrow> base_uint cpp \<Rightarrow> CTransaction \<Rightarrow> base_uint option \<Rightarrow> string \<Rightarrow> base_uint \<Rightarrow> CTxMemPool \<Rightarrow> CTxMemPool cpp" where
  "log_invalid GetHash freed origTx origRef wtx_reason hash p =
     (if wtx_reason = [] then Inr p
      else bind_cpp (orig_hash GetHash freed origTx origRef p) (\<lambda>h.
        Inr (p\<lparr>invalid_log := invalid_log p @ [(hash, if hash = h then wtx_reason else ''orphan'')]\<rparr>)))"

text \<open>One iteration for a hash in the pool: what is added to the queue and the pool after it.\<close>

definition remove_one ::
    "(CTransaction \<Rightarrow> base_uint) \<Rightarrow> base_uint cpp \<Rightarrow> CTransaction \<Rightarrow> base_uint option \<Rightarrow> bool \<Rightarrow> string \<Rightarrow> base_uint \<Rightarrow> CTxMemPoolEntry \<Rightarrow> CTxMemPool
     \<Rightarrow> (base_uint list \<times> CTxMemPool) cpp" where
  "remove_one GetHash freed origTx origRef fRecursive wtx_reason hash e p =
     bind_cpp (if fRecursive then spenders GetHash p hash 0 (length (vout (me_tx e))) else Inr []) (\<lambda>new.
     bind_cpp (log_invalid GetHash freed origTx origRef wtx_reason hash (erase_tx hash e p)) (\<lambda>p.
       Inr (new, removeSpentIndex hash (removeAddressIndex hash p))))"

lemma mapTx_indexes [simp]: "mapTx (removeSpentIndex h p) = mapTx p" "mapTx (removeAddressIndex h p) = mapTx p"
  by (simp_all add: removeSpentIndex_def removeAddressIndex_def split: option.splits)

lemma remove_one_mapTx:
  "remove_one GetHash freed origTx origRef fRecursive wtx_reason hash e p = Inr (new, q) \<Longrightarrow> mapTx q = AList.delete hash (mapTx p)"
  by (auto simp: remove_one_def bind_cpp_eq_Inr log_invalid_def erase_tx_def split: if_splits)

lemma length_delete_less: "map_of m k = Some v \<Longrightarrow> length (AList.delete k m) < length m"
  by (induction m) (auto simp: AList.delete_eq le_imp_less_Suc split: if_splits)

function remove_loop ::
    "(CTransaction \<Rightarrow> base_uint) \<Rightarrow> base_uint cpp \<Rightarrow> CTransaction \<Rightarrow> base_uint option \<Rightarrow> bool \<Rightarrow> string
     \<Rightarrow> base_uint list \<Rightarrow> CTxMemPool \<Rightarrow> CTransaction list \<Rightarrow> (CTxMemPool \<times> CTransaction list) cpp" where
  "remove_loop GetHash freed origTx origRef fRecursive wtx_reason [] p removed = Inr (p, removed)"
| "remove_loop GetHash freed origTx origRef fRecursive wtx_reason (hash # txToRemove) p removed =
     (case map_of (mapTx p) hash of
        None \<Rightarrow> remove_loop GetHash freed origTx origRef fRecursive wtx_reason txToRemove p removed
      | Some e \<Rightarrow> (case remove_one GetHash freed origTx origRef fRecursive wtx_reason hash e p of
            Inl f \<Rightarrow> Inl f
          | Inr (new, q) \<Rightarrow>
              remove_loop GetHash freed origTx origRef fRecursive wtx_reason (txToRemove @ new) q (removed @ [me_tx e])))"
  by pat_completeness auto
termination
  by (relation "measures [\<lambda>(g, f, t, r, b, s, queue, p, rs). length (mapTx p), \<lambda>(g, f, t, r, b, s, queue, p, rs). length queue]")
    (auto simp: length_delete_less dest: remove_one_mapTx)

definition remove ::
    "(CTransaction \<Rightarrow> base_uint) \<Rightarrow> base_uint cpp \<Rightarrow> CTransaction \<Rightarrow> base_uint option \<Rightarrow> bool \<Rightarrow> string \<Rightarrow> CTxMemPool \<Rightarrow> CTransaction list
     \<Rightarrow> (CTxMemPool \<times> CTransaction list) cpp" where
  "remove GetHash freed origTx origRef fRecursive wtx_reason p removed =
     bind_cpp (if fRecursive \<and> \<not> pool_exists (GetHash origTx) p then spenders GetHash p (GetHash origTx) 0 (length (vout origTx)) else Inr []) (\<lambda>new.
       remove_loop GetHash freed origTx origRef fRecursive wtx_reason (GetHash origTx # new) p removed)"

text \<open>The transactions that conflict with \<open>tx\<close> are removed through a reference into the pool.\<close>

fun remove_conflicts ::
    "(CTransaction \<Rightarrow> base_uint) \<Rightarrow> base_uint cpp \<Rightarrow> base_uint \<Rightarrow> CTxIn list \<Rightarrow> CTxMemPool \<Rightarrow> CTransaction list
     \<Rightarrow> (CTxMemPool \<times> CTransaction list) cpp" where
  "remove_conflicts GetHash freed hash [] p removed = Inr (p, removed)"
| "remove_conflicts GetHash freed hash (txin # ins) p removed =
     (case map_of (mapNextTx p) (prevout txin) of
        None \<Rightarrow> remove_conflicts GetHash freed hash ins p removed
      | Some q \<Rightarrow> (case map_of (mapTx p) (ptx q) of
            None \<Rightarrow> Inl UseAfterFree
          | Some e \<Rightarrow>
              if GetHash (me_tx e) \<noteq> hash
              then bind_cpp (remove GetHash freed (me_tx e) (Some (ptx q)) True ''conflict'' p removed) (\<lambda>(p, removed).
                     remove_conflicts GetHash freed hash ins p removed)
              else remove_conflicts GetHash freed hash ins p removed))"

definition removeConflicts ::
    "(CTransaction \<Rightarrow> base_uint) \<Rightarrow> base_uint cpp \<Rightarrow> CTransaction \<Rightarrow> CTxMemPool \<Rightarrow> CTransaction list \<Rightarrow> (CTxMemPool \<times> CTransaction list) cpp" where
  "removeConflicts GetHash freed tx p removed = remove_conflicts GetHash freed (GetHash tx) (vin tx) p removed"

fun removeForBlock ::
    "(CTransaction \<Rightarrow> base_uint) \<Rightarrow> base_uint cpp \<Rightarrow> CTransaction list \<Rightarrow> CTxMemPool \<Rightarrow> CTransaction list \<Rightarrow> (CTxMemPool \<times> CTransaction list) cpp" where
  "removeForBlock GetHash freed [] p conflicts = Inr (p, conflicts)"
| "removeForBlock GetHash freed (tx # vtx) p conflicts =
     bind_cpp (remove GetHash freed tx None False [] p []) (\<lambda>(p, dummy).
     bind_cpp (removeConflicts GetHash freed tx p conflicts) (\<lambda>(p, conflicts).
       removeForBlock GetHash freed vtx p conflicts))"

definition pool_clear :: "CTxMemPool \<Rightarrow> CTxMemPool" where
  "pool_clear p = p\<lparr>mapTx := [], mapNextTx := [], hashList := [], hashListPos := 0, totalTxSize := 0,
     nTransactionsUpdated := nTransactionsUpdated p + 1\<rparr>"

text \<open>
  \<open>removeCoinbaseSpends\<close>: the pool is searched, in the order of the keys, for inputs that spend an
  immature coinbase or nothing; the transactions are copied and removed one by one.
\<close>

fun immature_input ::
    "('s \<Rightarrow> txid \<Rightarrow> CCoins option \<times> 's) \<Rightarrow> u32 \<Rightarrow> u32 \<Rightarrow> CTxMemPool \<Rightarrow> CTxIn list \<Rightarrow> 's cached \<Rightarrow> bool \<times> 's cached" where
  "immature_input base_GetCoins maturity nMemPoolHeight p [] st = (False, st)"
| "immature_input base_GetCoins maturity nMemPoolHeight p (txin # ins) st =
     (if pool_exists (out_hash (prevout txin)) p then immature_input base_GetCoins maturity nMemPoolHeight p ins st
      else case GetCoins base_GetCoins st (out_hash (prevout txin)) of (coins, st) \<Rightarrow>
        (case coins of
           None \<Rightarrow> (True, st)
         | Some c \<Rightarrow> if fCoinBase c \<and> nMemPoolHeight - of_int (c_nHeight c) < maturity then (True, st)
                     else immature_input base_GetCoins maturity nMemPoolHeight p ins st))"

fun coinbase_spends ::
    "('s \<Rightarrow> txid \<Rightarrow> CCoins option \<times> 's) \<Rightarrow> u32 \<Rightarrow> u32 \<Rightarrow> CTxMemPool \<Rightarrow> CTransaction list \<Rightarrow> 's cached \<Rightarrow> CTransaction list \<times> 's cached" where
  "coinbase_spends base_GetCoins maturity nMemPoolHeight p [] st = ([], st)"
| "coinbase_spends base_GetCoins maturity nMemPoolHeight p (tx # txs) st =
     (case immature_input base_GetCoins maturity nMemPoolHeight p (vin tx) st of (found, st) \<Rightarrow>
      case coinbase_spends base_GetCoins maturity nMemPoolHeight p txs st of (rs, st) \<Rightarrow> (if found then tx # rs else rs, st))"

fun remove_each :: "(CTransaction \<Rightarrow> base_uint) \<Rightarrow> base_uint cpp \<Rightarrow> string \<Rightarrow> CTransaction list \<Rightarrow> CTxMemPool \<Rightarrow> CTxMemPool cpp" where
  "remove_each GetHash freed wtx_reason [] p = Inr p"
| "remove_each GetHash freed wtx_reason (tx # txs) p =
     bind_cpp (remove GetHash freed tx None True wtx_reason p []) (\<lambda>(p, removed). remove_each GetHash freed wtx_reason txs p)"

definition removeCoinbaseSpends ::
    "('s \<Rightarrow> txid \<Rightarrow> CCoins option \<times> 's) \<Rightarrow> u32 \<Rightarrow> (CTransaction \<Rightarrow> base_uint) \<Rightarrow> base_uint cpp \<Rightarrow> u32 \<Rightarrow> 's cached \<Rightarrow> CTxMemPool
     \<Rightarrow> (CTxMemPool \<times> 's cached) cpp" where
  "removeCoinbaseSpends base_GetCoins maturity GetHash freed nMemPoolHeight st p =
     (case coinbase_spends base_GetCoins maturity nMemPoolHeight p
             (map (\<lambda>(h, e). me_tx e) (sort_key (\<lambda>(h, e). bn_val h) (mapTx p))) st of
        (txs, st) \<Rightarrow> map_sum id (\<lambda>p. (p, st)) (remove_each GetHash freed ''coinbase spend'' txs p))"

section \<open>Uses of the pool\<close>

text \<open>\<open>pruneSpent\<close>, and the view that shows the outputs of the pool's transactions at a fake height.\<close>

definition pruneSpent :: "base_uint \<Rightarrow> CTxMemPool \<Rightarrow> CCoins \<Rightarrow> CCoins" where
  "pruneSpent hashTx p coins =
     fold (\<lambda>n c. case Spend c n of None \<Rightarrow> c | Some (c, undo) \<Rightarrow> c)
       (sort (map (\<lambda>(out, q). unat (out_n out)) (filter (\<lambda>(out, q). out_hash out = hashTx) (mapNextTx p)))) coins"

abbreviation (input) "MEMPOOL_HEIGHT \<equiv> (0x7FFFFFFF :: int)"

definition mempool_GetCoins ::
    "('s \<Rightarrow> txid \<Rightarrow> CCoins option \<times> 's) \<Rightarrow> CTxMemPool \<Rightarrow> 's \<Rightarrow> txid \<Rightarrow> (CCoins option \<times> 's) cpp option" where
  "mempool_GetCoins base_GetCoins p s t =
     (case pool_lookup t p of
        Some tx \<Rightarrow> map_option (map_sum id (\<lambda>c. (Some c, s))) (FromTx tx MEMPOOL_HEIGHT)
      | None \<Rightarrow> (case base_GetCoins s t of
            (Some c, s) \<Rightarrow> Some (Inr (if IsPruned c then None else Some c, s))
          | (None, s) \<Rightarrow> Some (Inr (None, s))))"

definition mempool_HaveCoins :: "('s \<Rightarrow> txid \<Rightarrow> bool \<times> 's) \<Rightarrow> CTxMemPool \<Rightarrow> 's \<Rightarrow> txid \<Rightarrow> bool \<times> 's" where
  "mempool_HaveCoins base_HaveCoins p s t = (if pool_exists t p then (True, s) else base_HaveCoins s t)"

text \<open>
  The parts of \<open>AcceptToMemoryPool\<close> that read and change the pool: the transaction is refused if it
  is there or spends what another one spends, and stored after all the checks.
\<close>

definition pool_conflict :: "(CTransaction \<Rightarrow> base_uint) \<Rightarrow> CTransaction \<Rightarrow> CTxMemPool \<Rightarrow> bool" where
  "pool_conflict GetHash tx p \<longleftrightarrow>
     pool_exists (GetHash tx) p \<or> list_ex (\<lambda>txin. map_of (mapNextTx p) (prevout txin) \<noteq> None) (vin tx)"

definition pool_accept :: "(CTransaction \<Rightarrow> base_uint) \<Rightarrow> CTxMemPoolEntry \<Rightarrow> CTxMemPool \<Rightarrow> bool \<times> CTxMemPool" where
  "pool_accept GetHash entry p =
     (if pool_conflict GetHash (me_tx entry) p then (False, p) else (True, addUnchecked (GetHash (me_tx entry)) entry p))"

text \<open>
  What happens to the pool: a checked transaction arrives, a transaction is removed with its
  descendants (after a reorganisation), a block is connected, the pool is cleared, the list of hashes
  is packed or shifted.
\<close>

datatype pool_event =
    Accept CTxMemPoolEntry
  | Resurrect_failed CTransaction
  | Connect "CTransaction list"
  | Clear
  | Defragment
  | Shift "nat \<Rightarrow> base_uint" nat

fun pool_step :: "(CTransaction \<Rightarrow> base_uint) \<Rightarrow> base_uint cpp \<Rightarrow> pool_event \<Rightarrow> CTxMemPool \<Rightarrow> CTxMemPool cpp" where
  "pool_step GetHash freed (Accept entry) p = Inr (snd (pool_accept GetHash entry p))"
| "pool_step GetHash freed (Resurrect_failed tx) p = map_sum id fst (remove GetHash freed tx None True ''resurrection'' p [])"
| "pool_step GetHash freed (Connect vtx) p = map_sum id fst (removeForBlock GetHash freed vtx p [])"
| "pool_step GetHash freed Clear p = Inr (pool_clear p)"
| "pool_step GetHash freed Defragment p = Inr (defragmentHashList p)"
| "pool_step GetHash freed (Shift fresh rows) p = Inr (shiftHashList fresh rows p)"

fun pool_run :: "(CTransaction \<Rightarrow> base_uint) \<Rightarrow> base_uint cpp \<Rightarrow> pool_event list \<Rightarrow> CTxMemPool \<Rightarrow> CTxMemPool cpp" where
  "pool_run GetHash freed [] p = Inr p"
| "pool_run GetHash freed (ev # evs) p = bind_cpp (pool_step GetHash freed ev p) (pool_run GetHash freed evs)"

section \<open>The invariant of the pool\<close>

abbreviation sizes :: "(base_uint \<times> CTxMemPoolEntry) list \<Rightarrow> nat" where
  "sizes m \<equiv> sum_list (map (\<lambda>(h, e). nTxSize e) m)"

text \<open>
  What \<open>check\<close> asserts of the maps: every transaction is under its hash and has its inputs in
  \<open>mapNextTx\<close>, which points to nothing else; the sizes add up. So no two transactions of the pool spend
  the same output.
\<close>

definition pool_ok :: "(CTransaction \<Rightarrow> base_uint) \<Rightarrow> CTxMemPool \<Rightarrow> bool" where
  "pool_ok GetHash p \<longleftrightarrow> distinct (map fst (mapTx p)) \<and> distinct (map fst (mapNextTx p))
     \<and> (\<forall>h e. map_of (mapTx p) h = Some e \<longrightarrow> GetHash (me_tx e) = h \<and> length (vin (me_tx e)) < 2 ^ 32
          \<and> (\<forall>i<length (vin (me_tx e)). map_of (mapNextTx p) (prevout (vin (me_tx e) ! i)) = Some \<lparr>ptx = h, in_n = of_nat i\<rparr>))
     \<and> (\<forall>out q. map_of (mapNextTx p) out = Some q \<longrightarrow> (\<exists>e. map_of (mapTx p) (ptx q) = Some e
          \<and> unat (in_n q) < length (vin (me_tx e)) \<and> prevout (vin (me_tx e) ! unat (in_n q)) = out))
     \<and> totalTxSize p = of_nat (sizes (mapTx p))"

lemma pool_ok_cong:
  "mapTx p = mapTx q \<Longrightarrow> mapNextTx p = mapNextTx q \<Longrightarrow> totalTxSize p = totalTxSize q \<Longrightarrow> pool_ok GetHash p = pool_ok GetHash q"
  by (simp add: pool_ok_def)

lemma pool_okD:
  assumes "pool_ok GetHash p"
  shows "map_of (mapTx p) h = Some e \<Longrightarrow> GetHash (me_tx e) = h \<and> length (vin (me_tx e)) < 2 ^ 32"
    "map_of (mapTx p) h = Some e \<Longrightarrow> i < length (vin (me_tx e)) \<Longrightarrow>
       map_of (mapNextTx p) (prevout (vin (me_tx e) ! i)) = Some \<lparr>ptx = h, in_n = of_nat i\<rparr>"
    "map_of (mapNextTx p) out = Some q \<Longrightarrow> \<exists>e. map_of (mapTx p) (ptx q) = Some e
       \<and> unat (in_n q) < length (vin (me_tx e)) \<and> prevout (vin (me_tx e) ! unat (in_n q)) = out"
  using assms unfolding pool_ok_def by blast+

lemma mapNextTx_indexes [simp]:
  "mapNextTx (removeSpentIndex h p) = mapNextTx p" "mapNextTx (removeAddressIndex h p) = mapNextTx p"
  "totalTxSize (removeSpentIndex h p) = totalTxSize p" "totalTxSize (removeAddressIndex h p) = totalTxSize p"
  by (simp_all add: removeSpentIndex_def removeAddressIndex_def split: option.splits)

lemma sizes_delete:
  "distinct (map fst m) \<Longrightarrow> map_of m k = Some e \<Longrightarrow> sizes (AList.delete k m) + nTxSize e = sizes m"
proof (induction m)
  case (Cons a m)
  obtain k' d where a: "a = (k', d)" by (cases a)
  show ?case
  proof (cases "k' = k")
    case True
    then have "k \<notin> fst ` set m" using Cons.prems(1) a by auto
    then show ?thesis using Cons.prems(2) a True by simp
  next
    case False
    then show ?thesis using Cons a by simp
  qed
qed simp

lemma map_of_delete_inputs:
  "map_of (fold (\<lambda>txin m. AList.delete (prevout txin) m) ins m) = (\<lambda>out. if out \<in> prevout ` set ins then None else map_of m out)"
  by (induction ins arbitrary: m) (auto simp: AList.delete_conv' fun_eq_iff)

lemma distinct_delete_inputs:
  "distinct (map fst m) \<Longrightarrow> distinct (map fst (fold (\<lambda>txin m. AList.delete (prevout txin) m) ins m))"
  by (induction ins arbitrary: m) (simp_all add: AList.distinct_delete)

lemma erase_tx_maps:
  "map_of (mapTx (erase_tx h e p)) = (map_of (mapTx p))(h := None)"
  "map_of (mapNextTx (erase_tx h e p)) = (\<lambda>out. if out \<in> prevout ` set (vin (me_tx e)) then None else map_of (mapNextTx p) out)"
  by (simp_all add: erase_tx_def map_of_delete_inputs AList.delete_conv')

lemma erase_tx_ok:
  assumes ok: "pool_ok GetHash p" and e: "map_of (mapTx p) h = Some e"
  shows "pool_ok GetHash (erase_tx h e p)"
proof -
  note D = pool_okD [OF ok]
  have own: "out \<in> prevout ` set (vin (me_tx e)) \<longleftrightarrow> (\<exists>q. map_of (mapNextTx p) out = Some q \<and> ptx q = h)" for out
  proof
    assume "out \<in> prevout ` set (vin (me_tx e))"
    then obtain i where "i < length (vin (me_tx e))" "out = prevout (vin (me_tx e) ! i)" by (auto simp: in_set_conv_nth)
    then show "\<exists>q. map_of (mapNextTx p) out = Some q \<and> ptx q = h" using D(2) [OF e] by simp
  next
    assume "\<exists>q. map_of (mapNextTx p) out = Some q \<and> ptx q = h"
    then obtain q where "map_of (mapNextTx p) out = Some q" "ptx q = h" by blast
    then show "out \<in> prevout ` set (vin (me_tx e))" using D(3) [of out q] e by auto
  qed
  have others: "map_of (mapNextTx (erase_tx h e p)) out = Some q \<longleftrightarrow> map_of (mapNextTx p) out = Some q \<and> ptx q \<noteq> h" for out q
    using own [of out] by (auto simp: erase_tx_maps)
  show ?thesis
    unfolding pool_ok_def
  proof (intro conjI allI impI)
    show "distinct (map fst (mapTx (erase_tx h e p)))" "distinct (map fst (mapNextTx (erase_tx h e p)))"
      using ok by (simp_all add: pool_ok_def erase_tx_def AList.distinct_delete distinct_delete_inputs)
    show "totalTxSize (erase_tx h e p) = of_nat (sizes (mapTx (erase_tx h e p)))"
    proof -
      have d: "sizes (AList.delete h (mapTx p)) + nTxSize e = sizes (mapTx p)" using ok e by (intro sizes_delete) (simp_all add: pool_ok_def)
      then have "of_nat (sizes (AList.delete h (mapTx p))) = (of_nat (sizes (mapTx p)) - of_nat (nTxSize e) :: u64)"
        unfolding d [symmetric] of_nat_add by (simp only: add_diff_cancel_right')
      moreover have "totalTxSize p = of_nat (sizes (mapTx p))" using ok unfolding pool_ok_def by blast
      ultimately show ?thesis by (simp add: erase_tx_def)
    qed
  next
    fix k d assume "map_of (mapTx (erase_tx h e p)) k = Some d"
    then have k: "k \<noteq> h" "map_of (mapTx p) k = Some d" by (cases "k = h"; simp add: erase_tx_maps)+
    from D(1) [OF this(2)] show "GetHash (me_tx d) = k" "length (vin (me_tx d)) < 2 ^ 32" by blast+
    fix i assume "i < length (vin (me_tx d))"
    then show "map_of (mapNextTx (erase_tx h e p)) (prevout (vin (me_tx d) ! i)) = Some \<lparr>ptx = k, in_n = of_nat i\<rparr>"
      using D(2) [OF k(2)] k(1) by (simp add: others)
  next
    fix out q assume "map_of (mapNextTx (erase_tx h e p)) out = Some q"
    then have "map_of (mapNextTx p) out = Some q" "ptx q \<noteq> h" by (simp_all add: others)
    then show "\<exists>d. map_of (mapTx (erase_tx h e p)) (ptx q) = Some d \<and> unat (in_n q) < length (vin (me_tx d))
        \<and> prevout (vin (me_tx d) ! unat (in_n q)) = out"
      using D(3) by (simp add: erase_tx_maps)
  qed
qed

text \<open>What a smaller pool still knows of \<open>mapNextTx\<close>.\<close>

lemma mapNextTx_smaller:
  assumes "pool_ok GetHash p" "pool_ok GetHash q" "map_of (mapTx q) \<subseteq>\<^sub>m map_of (mapTx p)"
  shows "map_of (mapNextTx q) out = Some r \<longleftrightarrow> map_of (mapNextTx p) out = Some r \<and> map_of (mapTx q) (ptx r) \<noteq> None"
proof
  assume r: "map_of (mapNextTx q) out = Some r"
  then obtain e where e: "map_of (mapTx q) (ptx r) = Some e" "unat (in_n r) < length (vin (me_tx e))"
      "prevout (vin (me_tx e) ! unat (in_n r)) = out"
    using pool_okD(3) [OF assms(2)] by blast
  then have "map_of (mapTx p) (ptx r) = Some e" using assms(3) by (metis map_le_def domI)
  from pool_okD(2) [OF assms(1) this e(2)] show "map_of (mapNextTx p) out = Some r \<and> map_of (mapTx q) (ptx r) \<noteq> None"
    using e by simp
next
  assume r: "map_of (mapNextTx p) out = Some r \<and> map_of (mapTx q) (ptx r) \<noteq> None"
  then obtain e where e: "map_of (mapTx p) (ptx r) = Some e" "unat (in_n r) < length (vin (me_tx e))"
      "prevout (vin (me_tx e) ! unat (in_n r)) = out"
    using pool_okD(3) [OF assms(1)] by blast
  then have "map_of (mapTx q) (ptx r) = Some e" using r assms(3) by (metis map_le_def domIff)
  from pool_okD(2) [OF assms(2) this e(2)] show "map_of (mapNextTx q) out = Some r" using e by simp
qed

section \<open>What a removal leaves\<close>

text \<open>\<open>b\<close> spends an output of the pool's transaction \<open>a\<close>; an output of a transaction \<open>n\<close> outputs long.\<close>

definition spends_output :: "CTxMemPool \<Rightarrow> base_uint \<Rightarrow> nat \<Rightarrow> base_uint \<Rightarrow> bool" where
  "spends_output p a n b \<longleftrightarrow> (\<exists>j<n. \<exists>q. map_of (mapNextTx p) \<lparr>out_hash = a, out_n = of_nat j\<rparr> = Some q \<and> ptx q = b)"

definition spends :: "CTxMemPool \<Rightarrow> base_uint \<Rightarrow> base_uint \<Rightarrow> bool" where
  "spends p a b \<longleftrightarrow> (\<exists>e. map_of (mapTx p) a = Some e \<and> spends_output p a (length (vout (me_tx e))) b)"

definition spender_of :: "CTxMemPool \<Rightarrow> base_uint \<Rightarrow> nat \<Rightarrow> base_uint set" where
  "spender_of p a j = (case map_of (mapNextTx p) \<lparr>out_hash = a, out_n = of_nat j\<rparr> of None \<Rightarrow> {} | Some q \<Rightarrow> {ptx q})"

lemma spends_output_iff: "spends_output p a n b \<longleftrightarrow> (\<exists>j<n. b \<in> spender_of p a j)"
  unfolding spends_output_def spender_of_def by (auto split: option.splits)

lemma spenders_value:
  assumes "pool_ok GetHash p"
  shows "\<exists>hs. spenders GetHash p a i n = Inr hs \<and> set hs = (\<Union>j\<in>{i..<i + n}. spender_of p a j)"
proof (induction n arbitrary: i)
  case (Suc n)
  obtain hs where hs: "spenders GetHash p a (i + 1) n = Inr hs" "set hs = (\<Union>j\<in>{i + 1..<i + 1 + n}. spender_of p a j)"
    using Suc.IH [of "i + 1"] by blast
  have range: "{i..<i + Suc n} = insert i {i + 1..<i + 1 + n}" by auto
  show ?case
  proof (cases "map_of (mapNextTx p) \<lparr>out_hash = a, out_n = of_nat i\<rparr>")
    case None
    then have "spender_of p a i = {}" "spenders GetHash p a i (Suc n) = Inr hs" using hs(1) by (simp_all add: spender_of_def)
    then show ?thesis unfolding range using hs(2) by simp
  next
    case (Some q)
    then obtain e where "map_of (mapTx p) (ptx q) = Some e" using pool_okD(3) [OF assms] by blast
    then have "ptx_hash GetHash p (ptx q) = Inr (ptx q)" using pool_okD(1) [OF assms] by (simp add: ptx_hash_def)
    then have "spender_of p a i = {ptx q}" "spenders GetHash p a i (Suc n) = Inr (ptx q # hs)" using Some hs(1) by (simp_all add: spender_of_def)
    then show ?thesis unfolding range using hs(2) by simp
  qed
qed simp

lemma spenders_spends:
  assumes "pool_ok GetHash p"
  shows "\<exists>hs. spenders GetHash p a 0 n = Inr hs \<and> set hs = {b. spends_output p a n b}"
  using spenders_value [OF assms, of a 0 n] unfolding spends_output_iff by fastforce

text \<open>Reading the origin's hash causes no fault: it is not a reference, it is not read, or the freed memory can be read.\<close>

definition readable :: "base_uint cpp \<Rightarrow> base_uint option \<Rightarrow> string \<Rightarrow> bool" where
  "readable freed origRef wtx_reason \<longleftrightarrow> (\<exists>v. freed = Inr v) \<or> origRef = None \<or> wtx_reason = []"

lemma log_invalid_ok:
  assumes "readable freed origRef wtx_reason"
  shows "\<exists>q. log_invalid GetHash freed origTx origRef wtx_reason h p = Inr q \<and> mapTx q = mapTx p \<and> mapNextTx q = mapNextTx p
    \<and> totalTxSize q = totalTxSize p"
  using assms by (auto simp: log_invalid_def readable_def orig_hash_def split: option.splits)

lemma remove_one_ok:
  assumes ok: "pool_ok GetHash p" and r: "readable freed origRef wtx_reason" and e: "map_of (mapTx p) h = Some e"
  shows "\<exists>new q. remove_one GetHash freed origTx origRef fRecursive wtx_reason h e p = Inr (new, q) \<and> pool_ok GetHash q
    \<and> map_of (mapTx q) = (map_of (mapTx p))(h := None) \<and> set new = (if fRecursive then {b. spends p h b} else {})"
proof -
  have sp: "spends p h b \<longleftrightarrow> spends_output p h (length (vout (me_tx e))) b" for b using e by (simp add: spends_def)
  obtain new where new: "(if fRecursive then spenders GetHash p h 0 (length (vout (me_tx e))) else Inr []) = Inr new"
      "set new = (if fRecursive then {b. spends p h b} else {})"
    using spenders_spends [OF ok, of h "length (vout (me_tx e))"] unfolding sp by (cases fRecursive) auto
  let ?p = "erase_tx h e p"
  obtain q where q: "log_invalid GetHash freed origTx origRef wtx_reason h ?p = Inr q" "mapTx q = mapTx ?p"
      "mapNextTx q = mapNextTx ?p" "totalTxSize q = totalTxSize ?p"
    using log_invalid_ok [OF r] by blast
  let ?q = "removeSpentIndex h (removeAddressIndex h q)"
  have "pool_ok GetHash ?q = pool_ok GetHash ?p" by (rule pool_ok_cong) (simp_all add: q)
  then have "pool_ok GetHash ?q" using erase_tx_ok [OF ok e] by simp
  moreover have "map_of (mapTx ?q) = (map_of (mapTx p))(h := None)" by (simp add: q erase_tx_maps)
  moreover have "remove_one GetHash freed origTx origRef fRecursive wtx_reason h e p = Inr (new, ?q)"
    unfolding remove_one_def new(1) bind_cpp_simps q(1) ..
  ultimately show ?thesis using new(2) by blast
qed

lemma remove_loop_single:
  assumes "pool_ok GetHash p" "readable freed origRef wtx_reason"
  shows "\<exists>q rs. remove_loop GetHash freed origTx origRef False wtx_reason [h] p removed = Inr (q, rs) \<and> pool_ok GetHash q
    \<and> map_of (mapTx q) = (map_of (mapTx p))(h := None)"
proof (cases "map_of (mapTx p) h")
  case None
  then show ?thesis using assms(1) by auto
next
  case (Some e)
  then show ?thesis using remove_one_ok [OF assms Some, of origTx False] by auto
qed

lemma spends_in_pool: "pool_ok GetHash p \<Longrightarrow> spends_output p a n b \<Longrightarrow> map_of (mapTx p) b \<noteq> None"
  using pool_okD(3) [of GetHash p] unfolding spends_output_def by fastforce

lemma spends_smaller:
  assumes "pool_ok GetHash p0" "pool_ok GetHash p" "map_of (mapTx p) = map_of (mapTx p0) |` (- V)"
  shows "spends_output p a n b \<longleftrightarrow> spends_output p0 a n b \<and> b \<notin> V"
    "a \<notin> V \<Longrightarrow> spends p a b \<longleftrightarrow> spends p0 a b \<and> b \<notin> V"
proof -
  have "map_of (mapTx p) \<subseteq>\<^sub>m map_of (mapTx p0)" using assms(3) by (auto simp: map_le_def restrict_map_def)
  note S = mapNextTx_smaller [OF assms(1,2) this]
  show o: "spends_output p a n b \<longleftrightarrow> spends_output p0 a n b \<and> b \<notin> V" for a n b
  proof
    assume "spends_output p a n b"
    then have "spends_output p0 a n b" "map_of (mapTx p) b \<noteq> None" unfolding spends_output_def S by auto
    then show "spends_output p0 a n b \<and> b \<notin> V" using assms(3) by (auto simp: restrict_map_def split: if_splits)
  next
    assume b: "spends_output p0 a n b \<and> b \<notin> V"
    then have "map_of (mapTx p) b \<noteq> None" using spends_in_pool [OF assms(1)] assms(3) by (auto simp: restrict_map_def)
    then show "spends_output p a n b" using b unfolding spends_output_def S by auto
  qed
  show "a \<notin> V \<Longrightarrow> spends p a b \<longleftrightarrow> spends p0 a b \<and> b \<notin> V"
    using assms(3) by (auto simp: spends_def o)
qed

text \<open>
  The loop as a search: \<open>V\<close> is what has been removed from the pool \<open>p0\<close>, all of it in \<open>D\<close>, and what
  spends an output of it is removed or in the queue.
\<close>

lemma remove_loop_search:
  assumes p0: "pool_ok GetHash p0" and r: "readable freed origRef wtx_reason" and D: "\<forall>a\<in>D. \<forall>b. spends p0 a b \<longrightarrow> b \<in> D"
    and "pool_ok GetHash p" "map_of (mapTx p) = map_of (mapTx p0) |` (- V)" "V \<subseteq> D" "set queue \<subseteq> D"
      "\<forall>a\<in>V. \<forall>b. spends p0 a b \<longrightarrow> b \<in> V \<union> set queue"
  shows "\<exists>q rs W. remove_loop GetHash freed origTx origRef True wtx_reason queue p removed = Inr (q, rs) \<and> pool_ok GetHash q
    \<and> map_of (mapTx q) = map_of (mapTx p0) |` (- W) \<and> V \<subseteq> W \<and> W \<subseteq> D
    \<and> (\<forall>a\<in>W. \<forall>b. spends p0 a b \<longrightarrow> b \<in> W) \<and> set queue \<inter> dom (map_of (mapTx p0)) \<subseteq> W"
  using assms
proof (induction GetHash freed origTx origRef True wtx_reason queue p removed arbitrary: V rule: remove_loop.induct)
  case (1 GetHash freed origTx origRef wtx_reason p removed)
  then show ?case by auto
next
  case (2 GetHash freed origTx origRef wtx_reason h queue p removed)
  note p0 = 2(3) and r = 2(4) and D = 2(5) and p = 2(6) and m = 2(7) and V = 2(8) and Q = 2(9) and nxt = 2(10)
  have inp: "spends p0 a b \<Longrightarrow> map_of (mapTx p0) b \<noteq> None" for a b
    using spends_in_pool [OF p0] by (auto simp: spends_def)
  show ?case
  proof (cases "map_of (mapTx p) h")
    case None
    then have h: "map_of (mapTx p0) h = None \<or> h \<in> V" using m by (auto simp: restrict_map_def split: if_splits)
    have "\<forall>a\<in>V. \<forall>b. spends p0 a b \<longrightarrow> b \<in> V \<union> set queue" using nxt h inp by fastforce
    from 2(1) [OF None p0 r D p m V _ this] Q obtain q rs W where
      W: "remove_loop GetHash freed origTx origRef True wtx_reason queue p removed = Inr (q, rs)" "pool_ok GetHash q"
        "map_of (mapTx q) = map_of (mapTx p0) |` (- W)" "V \<subseteq> W" "W \<subseteq> D" "\<forall>a\<in>W. \<forall>b. spends p0 a b \<longrightarrow> b \<in> W"
        "set queue \<inter> dom (map_of (mapTx p0)) \<subseteq> W" by auto
    then show ?thesis using None h by (intro exI [of _ q] exI [of _ rs] exI [of _ W]) auto
  next
    case (Some e)
    then have h: "h \<notin> V" using m by (auto simp: restrict_map_def split: if_splits)
    obtain new q where q: "remove_one GetHash freed origTx origRef True wtx_reason h e p = Inr (new, q)" "pool_ok GetHash q"
        "map_of (mapTx q) = (map_of (mapTx p))(h := None)" "set new = {b. spends p h b}"
      using remove_one_ok [OF p r Some, of origTx True] by auto
    note S = spends_smaller(2) [OF p0 p m h]
    have mq: "map_of (mapTx q) = map_of (mapTx p0) |` (- insert h V)" unfolding q(3) m by (auto simp: restrict_map_def)
    have hD: "insert h V \<subseteq> D" "set (queue @ new) \<subseteq> D" using V Q D q(4) S by auto
    have nx: "\<forall>a\<in>insert h V. \<forall>b. spends p0 a b \<longrightarrow> b \<in> insert h V \<union> set (queue @ new)"
      using nxt q(4) S by auto
    from 2(2) [OF Some q(1) refl p0 r D q(2) mq hD nx] obtain q' rs W where
      W: "remove_loop GetHash freed origTx origRef True wtx_reason (queue @ new) q (removed @ [me_tx e]) = Inr (q', rs)" "pool_ok GetHash q'"
        "map_of (mapTx q') = map_of (mapTx p0) |` (- W)" "insert h V \<subseteq> W" "W \<subseteq> D" "\<forall>a\<in>W. \<forall>b. spends p0 a b \<longrightarrow> b \<in> W"
        "set (queue @ new) \<inter> dom (map_of (mapTx p0)) \<subseteq> W" by auto
    then show ?thesis using Some q(1) by (intro exI [of _ q'] exI [of _ rs] exI [of _ W]) auto
  qed
qed

text \<open>What is removed with a transaction: it and what descends from it, or from its outputs if it is not in the pool.\<close>

definition descends :: "CTxMemPool \<Rightarrow> base_uint \<Rightarrow> nat \<Rightarrow> base_uint \<Rightarrow> bool" where
  "descends p a n h \<longleftrightarrow> h = a \<or> (\<exists>b. spends_output p a n b \<and> (spends p)\<^sup>*\<^sup>* b h)"

lemma descends_in_pool:
  assumes "map_of (mapTx p) a = Some e" "n = length (vout (me_tx e))"
  shows "descends p a n h \<longleftrightarrow> (spends p)\<^sup>*\<^sup>* a h"
proof -
  have "spends_output p a n b \<longleftrightarrow> spends p a b" for b using assms by (simp add: spends_def)
  then show ?thesis unfolding descends_def by (metis converse_rtranclpE converse_rtranclp_into_rtranclp rtranclp.rtrancl_refl)
qed

lemma remove_recursive:
  assumes ok: "pool_ok GetHash p" and r: "readable freed origRef wtx_reason"
    and same: "\<And>e. map_of (mapTx p) (GetHash tx) = Some e \<Longrightarrow> length (vout (me_tx e)) = length (vout tx)"
  shows "\<exists>q rs. remove GetHash freed tx origRef True wtx_reason p removed = Inr (q, rs) \<and> pool_ok GetHash q
    \<and> map_of (mapTx q) = map_of (mapTx p) |` {h. \<not> descends p (GetHash tx) (length (vout tx)) h}"
proof -
  let ?a = "GetHash tx" and ?n = "length (vout tx)"
  let ?D = "{h. descends p ?a ?n h}"
  obtain new where new: "(if True \<and> \<not> pool_exists ?a p then spenders GetHash p ?a 0 ?n else Inr []) = Inr new"
      "set new = (if pool_exists ?a p then {} else {b. spends_output p ?a ?n b})"
    using spenders_spends [OF ok, of ?a ?n] by (cases "pool_exists ?a p") auto
  have D: "\<forall>a\<in>?D. \<forall>b. spends p a b \<longrightarrow> b \<in> ?D"
  proof (intro ballI allI impI)
    fix a b assume a: "a \<in> ?D" "spends p a b"
    show "b \<in> ?D"
    proof (cases "a = ?a")
      case True
      then have "spends_output p ?a ?n b" using a(2) same by (auto simp: spends_def)
      then show ?thesis by (auto simp: descends_def)
    next
      case False
      then obtain c where "spends_output p ?a ?n c" "(spends p)\<^sup>*\<^sup>* c a" using a(1) by (auto simp: descends_def)
      then show ?thesis using a(2) by (auto simp: descends_def intro: rtranclp.rtrancl_into_rtrancl)
    qed
  qed
  have Q: "set (?a # new) \<subseteq> ?D" using new(2) by (auto simp: descends_def split: if_splits)
  have m: "map_of (mapTx p) = map_of (mapTx p) |` (- {})" by (simp add: restrict_map_def)
  obtain q rs W where W: "remove_loop GetHash freed tx origRef True wtx_reason (?a # new) p removed = Inr (q, rs)" "pool_ok GetHash q"
      "map_of (mapTx q) = map_of (mapTx p) |` (- W)" "W \<subseteq> ?D" "\<forall>a\<in>W. \<forall>b. spends p a b \<longrightarrow> b \<in> W"
      "set (?a # new) \<inter> dom (map_of (mapTx p)) \<subseteq> W"
    using remove_loop_search [OF ok r D ok m _ Q, of tx removed] by blast
  have first: "b \<in> W" if "spends_output p ?a ?n b" for b
  proof (cases "map_of (mapTx p) ?a")
    case None
    then have "b \<in> set new" using new(2) that by (simp add: pool_exists_def)
    moreover have "map_of (mapTx p) b \<noteq> None" using spends_in_pool [OF ok that] .
    ultimately show ?thesis using W(6) by auto
  next
    case (Some e)
    then have "?a \<in> W" using W(6) by auto
    moreover have "spends p ?a b" using that Some same by (simp add: spends_def)
    ultimately show ?thesis using W(5) by blast
  qed
  have "h \<in> W" if d: "descends p ?a ?n h" and i: "map_of (mapTx p) h \<noteq> None" for h
  proof (cases "h = ?a")
    case True
    then show ?thesis using W(6) i by auto
  next
    case False
    then obtain b where b: "spends_output p ?a ?n b" "(spends p)\<^sup>*\<^sup>* b h" using d by (auto simp: descends_def)
    from b(2) show ?thesis by induction (use first [OF b(1)] W(5) in blast)+
  qed
  then have "h \<in> - W \<longleftrightarrow> \<not> descends p ?a ?n h" if "map_of (mapTx p) h \<noteq> None" for h using W(4) that by blast
  then have "map_of (mapTx p) |` (- W) = map_of (mapTx p) |` {h. \<not> descends p ?a ?n h}"
    unfolding restrict_map_def fun_eq_iff by (metis mem_Collect_eq)
  moreover have "remove GetHash freed tx origRef True wtx_reason p removed = Inr (q, rs)"
    unfolding remove_def new(1) bind_cpp_simps by (rule W(1))
  ultimately show ?thesis using W(2,3) by auto
qed

section \<open>Blocks\<close>

text \<open>A smaller pool, and a pool without the transactions and the inputs of a block.\<close>

definition shrunk :: "(CTransaction \<Rightarrow> base_uint) \<Rightarrow> CTxMemPool \<Rightarrow> CTxMemPool \<Rightarrow> bool" where
  "shrunk GetHash p q \<longleftrightarrow> pool_ok GetHash p \<and> pool_ok GetHash q \<and> map_of (mapTx q) \<subseteq>\<^sub>m map_of (mapTx p)"

lemma shrunk_trans: "shrunk GetHash p q \<Longrightarrow> shrunk GetHash q r \<Longrightarrow> shrunk GetHash p r"
  unfolding shrunk_def using map_le_trans by blast

lemma shrunk_None:
  assumes "shrunk GetHash p q"
  shows "map_of (mapTx p) h = None \<Longrightarrow> map_of (mapTx q) h = None"
    "map_of (mapNextTx p) out = None \<Longrightarrow> map_of (mapNextTx q) out = None"
proof -
  show "map_of (mapTx p) h = None \<Longrightarrow> map_of (mapTx q) h = None"
    using assms unfolding shrunk_def by (metis domIff map_le_def)
  show "map_of (mapNextTx p) out = None \<Longrightarrow> map_of (mapNextTx q) out = None"
    using assms mapNextTx_smaller [of GetHash p q out] unfolding shrunk_def by (cases "map_of (mapNextTx q) out") auto
qed

definition clear_of :: "(CTransaction \<Rightarrow> base_uint) \<Rightarrow> CTransaction \<Rightarrow> CTxMemPool \<Rightarrow> bool" where
  "clear_of GetHash tx p \<longleftrightarrow> map_of (mapTx p) (GetHash tx) = None \<and> (\<forall>txin\<in>set (vin tx). map_of (mapNextTx p) (prevout txin) = None)"

lemma clear_of_shrunk: "shrunk GetHash p q \<Longrightarrow> clear_of GetHash tx p \<Longrightarrow> clear_of GetHash tx q"
  unfolding clear_of_def using shrunk_None by blast

lemma remove_recursive_shrunk:
  assumes "pool_ok GetHash p" "readable freed origRef wtx_reason"
    "\<And>e. map_of (mapTx p) (GetHash tx) = Some e \<Longrightarrow> length (vout (me_tx e)) = length (vout tx)"
  shows "\<exists>q rs. remove GetHash freed tx origRef True wtx_reason p removed = Inr (q, rs) \<and> shrunk GetHash p q
    \<and> map_of (mapTx q) (GetHash tx) = None"
  using remove_recursive [OF assms, of removed] assms(1)
  by (auto simp: shrunk_def map_le_def restrict_map_def descends_def split: if_splits)

lemma remove_conflicts_clear:
  assumes "pool_ok GetHash p" "map_of (mapTx p) hash = None" "freed = Inr v"
  shows "\<exists>q rs. remove_conflicts GetHash freed hash ins p removed = Inr (q, rs) \<and> shrunk GetHash p q
    \<and> (\<forall>txin\<in>set ins. map_of (mapNextTx q) (prevout txin) = None)"
  using assms(1,2)
proof (induction ins arbitrary: p removed)
  case (Cons txin ins)
  show ?case
  proof (cases "map_of (mapNextTx p) (prevout txin)")
    case None
    then show ?thesis using Cons.IH [OF Cons.prems, of removed] shrunk_None(2) by auto
  next
    case (Some r)
    obtain e where e: "map_of (mapTx p) (ptx r) = Some e" using pool_okD(3) [OF Cons.prems(1) Some] by blast
    then have g: "GetHash (me_tx e) = ptx r" "GetHash (me_tx e) \<noteq> hash" using pool_okD(1) [OF Cons.prems(1) e] Cons.prems(2) by auto
    have "readable freed (Some (ptx r)) ''conflict''" using assms(3) by (simp add: readable_def)
    from remove_recursive_shrunk [OF Cons.prems(1) this, of "me_tx e" removed] obtain q rs where
      q: "remove GetHash freed (me_tx e) (Some (ptx r)) True ''conflict'' p removed = Inr (q, rs)" "shrunk GetHash p q"
        "map_of (mapTx q) (ptx r) = None" using e g by auto
    have "map_of (mapNextTx q) (prevout txin) = None"
    proof (cases "map_of (mapNextTx q) (prevout txin)")
      case (Some s)
      then have "map_of (mapTx q) (ptx s) \<noteq> None" "s = r"
        using mapNextTx_smaller [of GetHash p q "prevout txin"] q(2) \<open>map_of (mapNextTx p) (prevout txin) = Some r\<close>
        unfolding shrunk_def by auto
      then show ?thesis using q(3) by simp
    qed
    moreover have "pool_ok GetHash q" "map_of (mapTx q) hash = None" using q(2) shrunk_None(1) [OF q(2)] Cons.prems(2) by (auto simp: shrunk_def)
    from Cons.IH [OF this, of rs] obtain q' rs' where
      q': "remove_conflicts GetHash freed hash ins q rs = Inr (q', rs')" "shrunk GetHash q q'"
        "\<forall>txin\<in>set ins. map_of (mapNextTx q') (prevout txin) = None" by blast
    ultimately show ?thesis using Some e g(2) q(1) shrunk_trans [OF q(2) q'(2)] shrunk_None(2) [OF q'(2)] by auto
  qed
qed (simp add: shrunk_def)

lemma removeForBlock_clear:
  assumes "pool_ok GetHash p" "freed = Inr v"
  shows "\<exists>q rs. removeForBlock GetHash freed vtx p conflicts = Inr (q, rs) \<and> shrunk GetHash p q \<and> (\<forall>tx\<in>set vtx. clear_of GetHash tx q)"
  using assms(1)
proof (induction vtx arbitrary: p conflicts)
  case (Cons tx vtx)
  obtain q rs where q: "remove GetHash freed tx None False [] p [] = Inr (q, rs)" "pool_ok GetHash q"
      "map_of (mapTx q) = (map_of (mapTx p))(GetHash tx := None)"
    using remove_loop_single [OF Cons.prems, of freed None "[]" tx "GetHash tx" "[]"] by (auto simp: remove_def readable_def)
  then have pq: "shrunk GetHash p q" using Cons.prems by (auto simp: shrunk_def map_le_def)
  obtain q' rs' where q': "removeConflicts GetHash freed tx q conflicts = Inr (q', rs')" "shrunk GetHash q q'"
      "\<forall>txin\<in>set (vin tx). map_of (mapNextTx q') (prevout txin) = None"
    using remove_conflicts_clear [OF q(2) _ assms(2), of "GetHash tx" "vin tx" conflicts] q(3) by (auto simp: removeConflicts_def)
  have "clear_of GetHash tx q'" using q'(3) shrunk_None(1) [OF q'(2)] q(3) by (simp add: clear_of_def)
  moreover have "pool_ok GetHash q'" using q'(2) by (simp add: shrunk_def)
  from Cons.IH [OF this, of rs'] obtain r rs'' where
    "removeForBlock GetHash freed vtx q' rs' = Inr (r, rs'')" "shrunk GetHash q' r" "\<forall>tx\<in>set vtx. clear_of GetHash tx r" by blast
  ultimately show ?case using q(1) q'(1) shrunk_trans [OF pq shrunk_trans [OF q'(2)]] clear_of_shrunk by auto
qed (simp add: shrunk_def)

section \<open>Additions\<close>

lemma update_fresh: "k \<notin> fst ` set m \<Longrightarrow> AList.update k v m = m @ [(k, v)]"
  by (induction m) auto

lemma add_spends_other: "out \<notin> prevout ` set ins \<Longrightarrow> map_of (add_spends h i ins m) out = map_of m out"
  by (induction ins arbitrary: i m) (auto simp: AList.update_conv')

lemma add_spends_own:
  "distinct (map prevout ins) \<Longrightarrow> j < length ins \<Longrightarrow>
     map_of (add_spends h i ins m) (prevout (ins ! j)) = Some \<lparr>ptx = h, in_n = of_nat (i + j)\<rparr>"
proof (induction ins arbitrary: i j m)
  case (Cons t ins)
  then show ?case using Cons.IH [of "j - 1" "i + 1"] by (cases j) (auto simp: AList.update_conv' add_spends_other)
qed simp

lemma distinct_add_spends: "distinct (map fst m) \<Longrightarrow> distinct (map fst (add_spends h i ins m))"
  by (induction ins arbitrary: i m) (simp_all add: AList.distinct_update)

lemma addUnchecked_maps:
  "mapTx (addUnchecked h e p) = AList.update h e (mapTx p)"
  "mapNextTx (addUnchecked h e p) = add_spends h 0 (vin (me_tx e)) (mapNextTx p)"
  "totalTxSize (addUnchecked h e p) = totalTxSize p + of_nat (nTxSize e)"
  by (simp_all add: addUnchecked_def Let_def)

definition entry_ok :: "CTxMemPoolEntry \<Rightarrow> bool" where
  "entry_ok e \<longleftrightarrow> distinct (map prevout (vin (me_tx e))) \<and> length (vin (me_tx e)) < 2 ^ 32"

lemma unat_in_n: "i < 2 ^ 32 \<Longrightarrow> unat (of_nat i :: u32) = i"
  by (simp add: unat_of_nat take_bit_eq_mod)

lemma pool_accept_ok:
  assumes ok: "pool_ok GetHash p" and e: "entry_ok e"
  shows "pool_ok GetHash (snd (pool_accept GetHash e p))"
proof (cases "pool_conflict GetHash (me_tx e) p")
  case True
  then show ?thesis using ok by (simp add: pool_accept_def)
next
  case False
  let ?h = "GetHash (me_tx e)" and ?ins = "vin (me_tx e)"
  let ?q = "addUnchecked ?h e p"
  have fresh: "map_of (mapTx p) ?h = None" "\<And>t. t \<in> set ?ins \<Longrightarrow> map_of (mapNextTx p) (prevout t) = None"
    using False by (auto simp: pool_conflict_def pool_exists_def list_ex_iff)
  have d: "distinct (map prevout ?ins)" "length ?ins < 2 ^ 32" using e by (simp_all add: entry_ok_def)
  note A = add_spends_own [OF d(1), where h = ?h and i = 0 and m = "mapNextTx p"] add_spends_other [where ins = ?ins and h = ?h and i = 0 and m = "mapNextTx p"]
  note D = pool_okD [OF ok]
  have tx: "map_of (mapTx ?q) k = (if k = ?h then Some e else map_of (mapTx p) k)" for k
    by (simp add: addUnchecked_maps AList.update_conv')
  have "pool_ok GetHash ?q"
    unfolding pool_ok_def
  proof (intro conjI allI impI)
    show "distinct (map fst (mapTx ?q))" "distinct (map fst (mapNextTx ?q))"
      using ok by (simp_all add: pool_ok_def addUnchecked_maps AList.distinct_update distinct_add_spends)
    have "?h \<notin> fst ` set (mapTx p)" using fresh(1) by (simp add: map_of_eq_None_iff)
    then have "sizes (mapTx ?q) = sizes (mapTx p) + nTxSize e" by (simp add: addUnchecked_maps update_fresh)
    moreover have "totalTxSize p = of_nat (sizes (mapTx p))" using ok unfolding pool_ok_def by blast
    ultimately show "totalTxSize ?q = of_nat (sizes (mapTx ?q))" by (simp add: addUnchecked_maps)
  next
    fix k c assume k: "map_of (mapTx ?q) k = Some c"
    then show "GetHash (me_tx c) = k" "length (vin (me_tx c)) < 2 ^ 32" using D(1) [of k c] d(2) by (auto simp: tx split: if_splits)
    fix i assume i: "i < length (vin (me_tx c))"
    show "map_of (mapNextTx ?q) (prevout (vin (me_tx c) ! i)) = Some \<lparr>ptx = k, in_n = of_nat i\<rparr>"
    proof (cases "k = ?h")
      case True
      then have "c = e" using k by (simp add: tx)
      then show ?thesis using A(1) [of i] i True by (simp add: addUnchecked_maps)
    next
      case False
      then have c: "map_of (mapTx p) k = Some c" using k by (simp add: tx)
      from D(2) [OF this i] have "prevout (vin (me_tx c) ! i) \<notin> prevout ` set ?ins" using fresh(2) by force
      then show ?thesis using A(2) D(2) [OF c i] by (simp add: addUnchecked_maps)
    qed
  next
    fix out q assume o: "map_of (mapNextTx ?q) out = Some q"
    show "\<exists>c. map_of (mapTx ?q) (ptx q) = Some c \<and> unat (in_n q) < length (vin (me_tx c)) \<and> prevout (vin (me_tx c) ! unat (in_n q)) = out"
    proof (cases "out \<in> prevout ` set ?ins")
      case True
      then obtain j where j: "j < length ?ins" "out = prevout (?ins ! j)" by (auto simp: in_set_conv_nth)
      then have "q = \<lparr>ptx = ?h, in_n = of_nat j\<rparr>" using A(1) [OF j(1)] o by (simp add: addUnchecked_maps)
      moreover have "unat (of_nat j :: u32) = j" using j(1) d(2) by (intro unat_in_n) simp
      ultimately show ?thesis using j by (simp add: tx)
    next
      case False
      then have "map_of (mapNextTx p) out = Some q" using A(2) o by (simp add: addUnchecked_maps)
      from D(3) [OF this] show ?thesis using fresh(1) by (auto simp: tx)
    qed
  qed
  then show ?thesis using False by (simp add: pool_accept_def)
qed

section \<open>Sequences of events\<close>

lemma remove_total:
  assumes "pool_ok GetHash p" "readable freed origRef wtx_reason"
  shows "\<exists>q rs. remove GetHash freed tx origRef True wtx_reason p removed = Inr (q, rs) \<and> pool_ok GetHash q"
proof -
  obtain new where new: "(if True \<and> \<not> pool_exists (GetHash tx) p then spenders GetHash p (GetHash tx) 0 (length (vout tx)) else Inr []) = Inr new"
    using spenders_spends [OF assms(1), of "GetHash tx" "length (vout tx)"] by (cases "pool_exists (GetHash tx) p") auto
  have m: "map_of (mapTx p) = map_of (mapTx p) |` (- {})" by (simp add: restrict_map_def)
  obtain q rs where "remove_loop GetHash freed tx origRef True wtx_reason (GetHash tx # new) p removed = Inr (q, rs)" "pool_ok GetHash q"
    using remove_loop_search [OF assms(1,2) _ assms(1) m, of UNIV "GetHash tx # new" tx removed] by auto
  then show ?thesis unfolding remove_def new bind_cpp_simps by blast
qed

lemma pool_ok_new: "pool_ok GetHash CTxMemPool_new"
  by (simp add: pool_ok_def CTxMemPool_new_def)

definition event_ok :: "pool_event \<Rightarrow> bool" where
  "event_ok ev \<longleftrightarrow> (case ev of Accept e \<Rightarrow> entry_ok e | _ \<Rightarrow> True)"

lemma pool_step_ok:
  assumes "pool_ok GetHash p" "event_ok ev"
  shows "\<exists>q. pool_step GetHash (Inr v) ev p = Inr q \<and> pool_ok GetHash q"
proof (cases ev)
  case (Accept e)
  then show ?thesis using pool_accept_ok [OF assms(1)] assms(2) by (simp add: event_ok_def)
next
  case (Resurrect_failed tx)
  then show ?thesis using remove_total [OF assms(1), of "Inr v" None "''resurrection''" tx "[]"] by (auto simp: readable_def)
next
  case (Connect vtx)
  then show ?thesis using removeForBlock_clear [OF assms(1) refl, of v vtx "[]"] by (auto simp: shrunk_def)
next
  case Clear
  then show ?thesis by (simp add: pool_clear_def pool_ok_def)
next
  case Defragment
  have "pool_ok GetHash (defragmentHashList p) = pool_ok GetHash p" by (rule pool_ok_cong) (simp_all add: defragmentHashList_def Let_def)
  then show ?thesis using assms(1) Defragment by simp
next
  case (Shift fresh n)
  have "pool_ok GetHash (shiftHashList fresh n p) = pool_ok GetHash p" by (rule pool_ok_cong) (simp_all add: shiftHashList_def)
  then show ?thesis using assms(1) Shift by simp
qed

lemma pool_run_ok:
  assumes "pool_ok GetHash p" "list_all event_ok evs"
  shows "\<exists>q. pool_run GetHash (Inr v) evs p = Inr q \<and> pool_ok GetHash q"
  using assms
proof (induction evs arbitrary: p)
  case (Cons ev evs)
  then show ?case using pool_step_ok [of GetHash p ev v] by fastforce
qed simp

lemma pool_ok_no_double_spend:
  assumes "pool_ok GetHash p" "map_of (mapTx p) h = Some e" "map_of (mapTx p) k = Some d"
    "i \<in> set (vin (me_tx e))" "j \<in> set (vin (me_tx d))" "prevout i = prevout j"
  shows "h = k"
proof -
  obtain a where "a < length (vin (me_tx e))" "i = vin (me_tx e) ! a" using assms(4) by (auto simp: in_set_conv_nth)
  then have "\<exists>q. map_of (mapNextTx p) (prevout i) = Some q \<and> ptx q = h" using pool_okD(2) [OF assms(1,2)] by auto
  moreover obtain b where "b < length (vin (me_tx d))" "j = vin (me_tx d) ! b" using assms(5) by (auto simp: in_set_conv_nth)
  then have "\<exists>q. map_of (mapNextTx p) (prevout j) = Some q \<and> ptx q = k" using pool_okD(2) [OF assms(1,3)] by auto
  ultimately show ?thesis using assms(6) by auto
qed

text \<open>A recursive removal through a reference into the pool reads the reference after it has erased the entry.\<close>

lemma remove_through_reference:
  assumes "pool_ok GetHash p" "map_of (mapTx p) h = Some e" "wtx_reason \<noteq> []"
  shows "remove GetHash (Inl UseAfterFree) (me_tx e) (Some h) True wtx_reason p removed = Inl UseAfterFree"
proof -
  have g: "GetHash (me_tx e) = h" using pool_okD(1) [OF assms(1,2)] by blast
  obtain new where "spenders GetHash p h 0 (length (vout (me_tx e))) = Inr new" using spenders_spends [OF assms(1)] by blast
  then have "remove_one GetHash (Inl UseAfterFree) (me_tx e) (Some h) True wtx_reason h e p = Inl UseAfterFree"
    using assms(3) by (simp add: remove_one_def log_invalid_def orig_hash_def erase_tx_maps)
  then show ?thesis using assms(2) by (simp add: remove_def pool_exists_def g)
qed

lemma remove_conflicts_faults:
  assumes "pool_ok GetHash p" "txin \<in> set ins" "map_of (mapNextTx p) (prevout txin) = Some q" "ptx q \<noteq> hash"
  shows "remove_conflicts GetHash (Inl UseAfterFree) hash ins p removed = Inl UseAfterFree"
  using assms(2)
proof (induction ins)
  case (Cons t ins)
  show ?case
  proof (cases "map_of (mapNextTx p) (prevout t)")
    case None
    then have "t \<noteq> txin" using assms(3) by auto
    then show ?thesis using Cons None by simp
  next
    case (Some r)
    obtain e where e: "map_of (mapTx p) (ptx r) = Some e" using pool_okD(3) [OF assms(1) Some] by blast
    then have g: "GetHash (me_tx e) = ptx r" using pool_okD(1) [OF assms(1)] by blast
    show ?thesis
    proof (cases "ptx r = hash")
      case True
      then have "t \<noteq> txin" using assms(3,4) Some by auto
      then show ?thesis using Cons Some e g True by simp
    next
      case False
      then show ?thesis using Some e g remove_through_reference [OF assms(1) e, of "''conflict''" removed] by simp
    qed
  qed
qed simp

section \<open>A pool of two transactions\<close>

definition ex_hash :: "CTransaction \<Rightarrow> base_uint" where
  "ex_hash tx = replicate 8 (of_int (tx_nVersion tx))"

definition ex_tx :: "int \<Rightarrow> int \<Rightarrow> CTransaction" where
  "ex_tx v from_v = \<lparr>tx_nVersion = v,
     vin = [\<lparr>prevout = \<lparr>out_hash = replicate 8 (of_int from_v), out_n = 0\<rparr>, scriptSig = [], nSequence = 0\<rparr>],
     vout = [\<lparr>nValue = 1, scriptPubKey = []\<rparr>], nLockTime = 0\<rparr>"

definition ex_entry :: "int \<Rightarrow> int \<Rightarrow> CTxMemPoolEntry" where
  "ex_entry v from_v = CTxMemPoolEntry_of (ex_tx v from_v) 0 0 0"

text \<open>Transaction 2 spends transaction 1, which spends 9.\<close>

definition ex_pool :: CTxMemPool where
  "ex_pool = snd (pool_accept ex_hash (ex_entry 2 1) (snd (pool_accept ex_hash (ex_entry 1 9) CTxMemPool_new)))"

lemma ex_entry_ok: "entry_ok (ex_entry v w)"
  by (simp add: entry_ok_def ex_entry_def CTxMemPoolEntry_of_def ex_tx_def)

lemma ex_pool_ok: "pool_ok ex_hash ex_pool"
  unfolding ex_pool_def by (intro pool_accept_ok pool_ok_new ex_entry_ok)

lemma ex_pool_maps:
  "mapTx ex_pool = [(replicate 8 1, ex_entry 1 9), (replicate 8 2, ex_entry 2 1)]"
  "mapNextTx ex_pool = [(\<lparr>out_hash = replicate 8 9, out_n = 0\<rparr>, \<lparr>ptx = replicate 8 1, in_n = 0\<rparr>),
     (\<lparr>out_hash = replicate 8 1, out_n = 0\<rparr>, \<lparr>ptx = replicate 8 2, in_n = 0\<rparr>)]"
  by (simp_all add: ex_pool_def pool_accept_def pool_conflict_def pool_exists_def addUnchecked_def Let_def CTxMemPool_new_def
      ex_entry_def CTxMemPoolEntry_of_def ex_tx_def ex_hash_def)

lemma ex_entry_tx: "me_tx (ex_entry v w) = ex_tx v w"
  by (simp add: ex_entry_def CTxMemPoolEntry_of_def)

section \<open>Properties\<close>

text \<open>
  C11. Whatever transactions arrive, are removed or are confirmed, in whatever order, the pool satisfies
  what \<open>check\<close> asserts of it: each transaction is stored under its hash, \<open>mapNextTx\<close> points from exactly
  the outputs that the pool spends to the transactions that spend them, the sizes add up; no output is
  spent twice. The transactions that arrive have distinct inputs (\<open>CheckTransaction\<close>), and reading the
  freed transaction in \<open>removeConflicts\<close> is taken to give some hash.
\<close>

theorem pool_consistent:
  assumes "list_all event_ok evs"
  shows "\<exists>p. pool_run GetHash (Inr v) evs CTxMemPool_new = Inr p \<and> pool_ok GetHash p
    \<and> (\<forall>h k e d i j. map_of (mapTx p) h = Some e \<and> map_of (mapTx p) k = Some d \<and> i \<in> set (vin (me_tx e)) \<and> j \<in> set (vin (me_tx d))
         \<and> prevout i = prevout j \<longrightarrow> h = k)"
proof -
  obtain p where "pool_run GetHash (Inr v) evs CTxMemPool_new = Inr p" "pool_ok GetHash p"
    using pool_run_ok [OF pool_ok_new assms] by blast
  then show ?thesis using pool_ok_no_double_spend by blast
qed

lemma pool_consistent_witness:
  "\<exists>p. pool_run ex_hash (Inr (bn_zero 8)) [Accept (ex_entry 1 9), Accept (ex_entry 2 1), Connect [ex_tx 3 9]] CTxMemPool_new = Inr p
    \<and> pool_ok ex_hash p"
  using pool_consistent [of "[Accept (ex_entry 1 9), Accept (ex_entry 2 1), Connect [ex_tx 3 9]]" ex_hash "bn_zero 8"]
  by (auto simp: event_ok_def ex_entry_ok)

text \<open>
  C12. Removing a transaction recursively removes from the pool exactly the transaction and what
  descends from it in the pool, also when it is not in the pool itself.
\<close>

theorem remove_descendants:
  assumes "pool_ok GetHash p" "readable freed origRef wtx_reason"
    "\<And>e. map_of (mapTx p) (GetHash tx) = Some e \<Longrightarrow> length (vout (me_tx e)) = length (vout tx)"
  shows "\<exists>q rs. remove GetHash freed tx origRef True wtx_reason p removed = Inr (q, rs) \<and> pool_ok GetHash q
    \<and> map_of (mapTx q) = map_of (mapTx p) |` {h. \<not> descends p (GetHash tx) (length (vout tx)) h}"
  by (rule remove_recursive [OF assms])

lemma remove_descendants_witness:
  "\<exists>q rs. remove ex_hash (Inl UseAfterFree) (ex_tx 1 9) None True ''resurrection'' ex_pool [] = Inr (q, rs)
    \<and> map_of (mapTx q) (replicate 8 2) = None"
proof -
  have "map_of (mapTx ex_pool) (ex_hash (ex_tx 1 9)) = Some e \<Longrightarrow> length (vout (me_tx e)) = length (vout (ex_tx 1 9))" for e
    by (auto simp: ex_pool_maps ex_hash_def ex_tx_def ex_entry_tx split: if_splits)
  then obtain q rs where q: "remove ex_hash (Inl UseAfterFree) (ex_tx 1 9) None True ''resurrection'' ex_pool [] = Inr (q, rs)"
      "map_of (mapTx q) = map_of (mapTx ex_pool) |` {h. \<not> descends ex_pool (ex_hash (ex_tx 1 9)) (length (vout (ex_tx 1 9))) h}"
    using remove_descendants [OF ex_pool_ok, of "Inl UseAfterFree" None "''resurrection''" "ex_tx 1 9" "[]"] by (auto simp: readable_def)
  have "spends_output ex_pool (ex_hash (ex_tx 1 9)) (length (vout (ex_tx 1 9))) (replicate 8 2)"
    by (auto simp: spends_output_def ex_pool_maps ex_hash_def ex_tx_def)
  then have "descends ex_pool (ex_hash (ex_tx 1 9)) (length (vout (ex_tx 1 9))) (replicate 8 2)"
    by (auto simp: descends_def)
  then show ?thesis using q by (auto simp: restrict_map_def)
qed

text \<open>
  C13. After a block has been connected, the pool holds none of its transactions and nothing that spends
  an output which the block has spent; what is left was there before.
\<close>

theorem block_clears_pool:
  assumes "pool_ok GetHash p"
  shows "\<exists>q rs. removeForBlock GetHash (Inr v) vtx p conflicts = Inr (q, rs) \<and> pool_ok GetHash q
    \<and> map_of (mapTx q) \<subseteq>\<^sub>m map_of (mapTx p) \<and> (\<forall>tx\<in>set vtx. clear_of GetHash tx q)"
  using removeForBlock_clear [OF assms refl] unfolding shrunk_def by blast

lemma block_clears_pool_witness:
  "\<exists>q rs. removeForBlock ex_hash (Inr (bn_zero 8)) [ex_tx 3 9] ex_pool [] = Inr (q, rs) \<and> clear_of ex_hash (ex_tx 3 9) q"
  using block_clears_pool [OF ex_pool_ok, of "bn_zero 8" "[ex_tx 3 9]" "[]"] by auto

text \<open>
  C14. \<open>removeConflicts\<close> uses freed memory whenever it has something to do: if a confirmed transaction
  spends an output that another transaction of the pool spends, the hash of the removed transaction is
  read from the erased entry.
\<close>

theorem removeConflicts_reads_freed:
  assumes "pool_ok GetHash p" "txin \<in> set (vin tx)" "map_of (mapNextTx p) (prevout txin) = Some q" "ptx q \<noteq> GetHash tx"
  shows "removeConflicts GetHash (Inl UseAfterFree) tx p removed = Inl UseAfterFree"
  unfolding removeConflicts_def by (rule remove_conflicts_faults [OF assms])

lemma removeConflicts_reads_freed_witness:
  "removeConflicts ex_hash (Inl UseAfterFree) (ex_tx 3 9) ex_pool [] = Inl UseAfterFree"
  by (rule removeConflicts_reads_freed [OF ex_pool_ok, of "hd (vin (ex_tx 3 9))" _ "\<lparr>ptx = replicate 8 1, in_n = 0\<rparr>"])
    (simp_all add: ex_tx_def ex_pool_maps ex_hash_def)

end
