(* ===== verification/Spec2Isabelle.thy ===== *)
theory Spec2Isabelle
  imports Chain Candidates BlockChecks Epow Base58 Bloom Mempool
begin

text \<open>
  A verification development for the HDAC node (C++ sources under \<^verbatim>\<open>src/src\<close>), a permissioned
  blockchain node derived from MultiChain and Bitcoin. A node keeps an index of block headers and
  the active chain in it, decides by proof of work which chain to follow, checks transactions by
  running their scripts, and keeps the unspent outputs of the active chain in a stack of caches
  over a database, which connecting and disconnecting blocks update.

  \<^bold>\<open>Theories.\<close> Each theory models one component, in the order of its source file.

  \<^item> \<^verbatim>\<open>Hdac_Prelude\<close>: bytes and machine words, the result type \<open>cpp\<close> whose \<open>Inl\<close> values are the
    faults of C++ code (failed assertion, out-of-range access, division by zero), C++ integer
    conversions, little-endian encodings.
  \<^item> \<^verbatim>\<open>Uint256\<close>, \<^verbatim>\<open>Compact\<close>: \<open>base_uint\<close> (\<^verbatim>\<open>structs/uint256.h\<close>, \<^verbatim>\<open>uint256.cpp\<close>) as lists of 32-bit words
    and the compact target format. The lemmas give each operation its value modulo \<open>2 ^ 256\<close>.
  \<^item> \<^verbatim>\<open>BlockIndex\<close>, \<^verbatim>\<open>Chain\<close>: \<open>CBlockIndex\<close> entries in a store of pointers with their skip list, and
    \<open>CChain\<close> (\<^verbatim>\<open>chain/chain.h\<close>, \<^verbatim>\<open>chain.cpp\<close>): ancestors, tips, locators, forks.
  \<^item> \<^verbatim>\<open>Pow\<close>: the difficulty rules, the proof-of-work check and block work (\<^verbatim>\<open>chain/pow.cpp\<close>).
  \<^item> \<^verbatim>\<open>ScriptNum\<close>, \<^verbatim>\<open>Codec\<close>, \<^verbatim>\<open>Script\<close>: script numbers, the instruction format and the script operations
    of \<^verbatim>\<open>script/script.h\<close> and \<^verbatim>\<open>script.cpp\<close>. \<^verbatim>\<open>Codec\<close> is the interface (a locale) of encodings that are
    decoded element by element.
  \<^item> \<^verbatim>\<open>SigEncoding\<close>, \<^verbatim>\<open>Interpreter\<close>, \<^verbatim>\<open>VerifyScript\<close>: \<^verbatim>\<open>script/interpreter.cpp\<close>, with the whole
    instruction set, signature hashes and \<open>VerifyScript\<close>.
  \<^item> \<^verbatim>\<open>Standard\<close>: script templates and destinations (\<^verbatim>\<open>script/standard.cpp\<close>).
  \<^item> \<^verbatim>\<open>HdacScript\<close>: the scans over raw scripts of \<^verbatim>\<open>protocol/hdac/hdacscript.cpp\<close>.
  \<^item> \<^verbatim>\<open>Serialize\<close>, \<^verbatim>\<open>Transaction\<close>, \<^verbatim>\<open>Compressor\<close>: the wire formats (\<^verbatim>\<open>utils/serialize.h\<close>,
    \<^verbatim>\<open>primitives/transaction.h\<close>) and the compressed outputs of the database (\<^verbatim>\<open>utils/compressor.cpp\<close>).
  \<^item> \<^verbatim>\<open>Coins\<close>, \<^verbatim>\<open>CoinsView\<close>, \<^verbatim>\<open>BlockCoins\<close>: the unspent outputs of a transaction (\<^verbatim>\<open>storage/coins.h\<close>),
    the caches and the database (\<^verbatim>\<open>storage/coins.cpp\<close>, \<^verbatim>\<open>storage/txdb.cpp\<close>), and what \<open>UpdateCoins\<close>
    and \<open>DisconnectBlock\<close> (\<^verbatim>\<open>core/main.cpp\<close>) do to them. The contract of a view is the locale
    \<open>coins_view\<close>; a cache over a view is shown to satisfy it again, and it is interpreted on the
    database, on \<open>pcoinsTip\<close> and on the cache in which a block is processed.
  \<^item> \<^verbatim>\<open>Blocks\<close>, \<^verbatim>\<open>Merkle\<close>, \<^verbatim>\<open>PartialMerkle\<close>: headers and blocks with their wire formats and hashes
    (\<^verbatim>\<open>primitives/block.h\<close>, \<^verbatim>\<open>block.cpp\<close>), the Merkle tree with its test for repeated subtrees and its
    branches, and the partial trees of filtered blocks (\<^verbatim>\<open>chain/merkleblock.cpp\<close>), with what a client
    can rely on when it extracts matches.
  \<^item> \<^verbatim>\<open>TxChecks\<close>: finality, \<open>CheckTransaction\<close>, \<open>CheckInputs\<close>, signature operations and block rewards
    (\<^verbatim>\<open>core/main.cpp\<close>); \<^verbatim>\<open>Rounding\<close> has the binary floating-point rounding that rewards and the
    mining window use.
  \<^item> \<^verbatim>\<open>BlockTree\<close>, \<^verbatim>\<open>Candidates\<close>, \<^verbatim>\<open>MostWork\<close>: the block index as headers and block data arrive in any
    order (\<open>AddToBlockIndex\<close>, \<open>ReceivedBlockTransactions\<close>), the invariant of its candidate set over all
    reachable states, and the choice of the chain with the most work (\<open>FindMostWorkChain\<close>).
  \<^item> \<^verbatim>\<open>BlockChecks\<close>: \<open>CValidationState\<close>, \<open>CheckBlock\<close>, \<open>AcceptBlockHeader\<close> and \<open>AcceptBlock\<close>
    (\<^verbatim>\<open>core/main.cpp\<close>): the composition of the checks with the block tree.
  \<^item> \<^verbatim>\<open>Epow\<close>: the mining window of the consensus rule ePoW (\<^verbatim>\<open>chain/epow.cpp\<close>): which miner may make
    the next block.
  \<^item> \<^verbatim>\<open>StreamHash\<close>, \<^verbatim>\<open>Sha256\<close>: the buffering that the hasher classes share, for any block function, and
    \<open>CSHA256\<close> (\<^verbatim>\<open>crypto/sha256.cpp\<close>), which is shown to compute the standard's function.
  \<^item> \<^verbatim>\<open>Base58\<close>: base 58 strings with checksums and addresses (\<^verbatim>\<open>structs/base58.cpp\<close>).
  \<^item> \<^verbatim>\<open>Bloom\<close>: bloom filters, filtered blocks and the filter messages of a peer (\<^verbatim>\<open>structs/bloom.cpp\<close>).
  \<^item> \<^verbatim>\<open>Mempool\<close>: the memory pool (\<^verbatim>\<open>chain/txmempool.cpp\<close>): its maps, recursive removal, connected
    blocks, the list of hashes.

  \<^bold>\<open>How the code is modelled.\<close> Classes are records; fixed-width integers are words where they can
  wrap and integers with the wrap-around written out elsewhere. A function that can fault returns
  \<open>cpp\<close>; a loop that may run forever is a \<open>partial_function\<close> in the option type, so that \<open>None\<close> means
  that it does not return, and the theorems that it returns are stated as such. All other loops
  are total functions with a termination proof; no fuel is used except where the code itself
  counts. State is passed explicitly. Virtual calls of a view's base are arguments. A \<open>std::map\<close> is
  an association list, a \<open>std::set\<close> of blocks a list sorted by its comparison.

  \<^bold>\<open>Parameters.\<close> Elliptic-curve operations, the hashes of transactions and blocks where nothing depends
  on how they are computed, the signature and the miner of a block, the permission lookup of the
  checks, reading a block from disk, the clock and the contents of freed or uncleared memory are arguments; what a
  theorem needs of them is among its hypotheses, and its witness instantiates them.

  \<^bold>\<open>What the theorems show.\<close> Functional correctness of the arithmetic and of the chain operations;
  that the difficulty rules end and keep targets valid, and that the mining window lets a miner
  continue; round trips of the encodings; that script
  execution respects its limits and accepts a pay-to-public-key-hash spend exactly when the
  signature checks; that the caches implement a map of live coins, whatever is cached where; that
  disconnecting a block undoes connecting it; that a block whose data and ancestors have arrived
  becomes a candidate and the best candidate is chosen; that an accepted block commits to its
  transactions; that the memory pool never holds two spends of an output and is cleared of what a
  block confirms; and inputs on which scans do not end, an access is
  out of range or freed memory is read. Where the code does not do what it is meant to (a retargeting product that
  wraps, negative versions that are not kept, a first reward that is negative by default, an unspendable
  test that outputs which can be spent pass), the theorem states what the code does.

  \<^bold>\<open>Not modelled.\<close> Message processing, sockets, threads, disk files and the database engine are input and
  output. The wallet and the RPC interface are not part of what the node agrees on with others.
  Permissions, assets and the transaction rules over them read and write rows of raw bytes in a
  key-value store with iterators of its own; their lookups are parameters of the checks. The rest
  of \<open>ConnectBlock\<close> and \<open>ActivateBestChain\<close> drives these databases, the wallet and the undo files. Fee
  estimates and priorities are floating-point statistics which no rule depends on. The other hash
  functions of \<^verbatim>\<open>crypto/\<close> are parameters where they are used; elliptic curves are a vendored library.
  Of the containers in \<^verbatim>\<open>utils/\<close> only their use is modelled. Logging and printing are left out.
\<close>

end
